(* ===== verification/Prelude.thy ===== *)
theory Prelude
  imports Main "HOL-Library.Word"
begin

text \<open>
  Shared vocabulary of the development: the outcome of a C routine of the interpreter (a value, a
  script exception, or a memory fault), state-passing operations, the machine integer types, and
  the list facts that the component theories use.

  A routine that would read or write outside the memory it owns yields \<open>Fault\<close>; no
  property of the result of such a run is claimed anywhere.
\<close>

unbundle bit_operations_syntax

section \<open>Outcomes\<close>

text \<open>The exception classes thrown by the modelled sources (\<open>ejsThrow...Error\<close>).\<close>

datatype ejs_error =
    TypeError
  | ReferenceError
  | OutOfBoundsError
  | ArgError
  | IOError
  | StateError
  | ResourceError
  | MemoryError
  | StopIteration

datatype 'a res = Ok 'a | Throw ejs_error | Fault

type_synonym ('s, 'a) op = "'s \<Rightarrow> 'a res \<times> 's"

definition ret :: "'a \<Rightarrow> ('s, 'a) op" where
  "ret x s = (Ok x, s)"

definition throw :: "ejs_error \<Rightarrow> ('s, 'a) op" where
  "throw e s = (Throw e, s)"

definition fault :: "('s, 'a) op" where
  "fault s = (Fault, s)"

text \<open>Sequencing: a throw or a fault of the first operation ends the routine, keeping the state.\<close>

definition andthen :: "('s, 'a) op \<Rightarrow> ('a \<Rightarrow> ('s, 'b) op) \<Rightarrow> ('s, 'b) op" where
  "andthen m f s = (case m s of
     (Ok x, s') \<Rightarrow> f x s'
   | (Throw e, s') \<Rightarrow> (Throw e, s')
   | (Fault, s') \<Rightarrow> (Fault, s'))"

fun map_res :: "('a \<Rightarrow> 'b) \<Rightarrow> 'a res \<Rightarrow> 'b res" where
  "map_res f (Ok x) = Ok (f x)"
| "map_res f (Throw e) = Throw e"
| "map_res f Fault = Fault"

fun bind_res :: "'a res \<Rightarrow> ('a \<Rightarrow> 'b res) \<Rightarrow> 'b res" where
  "bind_res (Ok x) f = f x"
| "bind_res (Throw e) f = Throw e"
| "bind_res Fault f = Fault"

lemma ret_simp [simp]: "ret x s = (Ok x, s)"
  by (simp add: ret_def)

lemma throw_simp [simp]: "throw e s = (Throw e, s)"
  by (simp add: throw_def)

lemma fault_simp [simp]: "fault s = (Fault, s)"
  by (simp add: fault_def)

lemma andthen_Ok [simp]: "m s = (Ok x, s') \<Longrightarrow> andthen m f s = f x s'"
  by (simp add: andthen_def)

lemma andthen_Throw [simp]: "m s = (Throw e, s') \<Longrightarrow> andthen m f s = (Throw e, s')"
  by (simp add: andthen_def)

lemma andthen_Fault [simp]: "m s = (Fault, s') \<Longrightarrow> andthen m f s = (Fault, s')"
  by (simp add: andthen_def)

lemma bind_res_eq_Ok: "bind_res m f = Ok y \<longleftrightarrow> (\<exists>x. m = Ok x \<and> f x = Ok y)"
  by (cases m) auto

lemma map_res_eq_Ok: "map_res f m = Ok y \<longleftrightarrow> (\<exists>x. m = Ok x \<and> f x = y)"
  by (cases m) auto

lemma map_res_eq_Fault [simp]: "map_res f m = Fault \<longleftrightarrow> m = Fault"
  by (cases m) auto

text \<open>The code that the routines of the interpreter return for failure.\<close>

definition EJS_ERR :: int where
  "EJS_ERR = -1"

section \<open>Machine integers\<close>

type_synonym u8 = "8 word"
type_synonym u32 = "32 word"
type_synonym u64 = "64 word"

lemma unat_u8_less [simp]: "unat (b :: u8) < 256"
  using unsigned_less [of b] by simp

text \<open>
  A C \<open>char\<close> of the source (\<open>wchar\<close> is \<open>char\<close>, which is signed), as the byte that
  holds it and as the integer it is promoted to.
\<close>

definition byte_of :: "char \<Rightarrow> u8" where
  "byte_of c = word_of_nat (of_char c)"

definition char_of_byte :: "u8 \<Rightarrow> char" where
  "char_of_byte b = char_of (unat b)"

definition char_val :: "char \<Rightarrow> int" where
  "char_val c = (let n = of_char c in if n < 128 then n else n - 256)"

lemma of_char_less_256 [simp]: "(of_char c :: nat) < 256"
  using nat_of_char_less_256 by simp

lemma char_of_byte_of [simp]: "char_of_byte (byte_of c) = c"
  by (simp add: char_of_byte_def byte_of_def unat_of_nat take_bit_nat_eq_self)

lemma byte_of_char_of [simp]: "byte_of (char_of_byte b) = b"
  by (simp add: char_of_byte_def byte_of_def)

lemma map_char_of_byte_of [simp]: "map char_of_byte (map byte_of s) = s"
  by (simp add: comp_def)

lemma char_val_inject: "char_val c = char_val d \<longleftrightarrow> c = d"
proof -
  have r: "(of_char x :: int) = int (of_char x)" for x :: char
    by (metis of_char_of of_nat_of_char)
  have "int (of_char c) < 256" "int (of_char d) < 256" by simp_all
  moreover have "int (of_char c) = int (of_char d) \<longleftrightarrow> c = d" by simp
  ultimately show ?thesis
    by (simp only: char_val_def Let_def r) (smt (verit) of_nat_0_le_iff)
qed

section \<open>Lists as memory blocks\<close>

text \<open>
  A block of memory is the list of its cells. \<open>write_block\<close> is \<open>memcpy\<close> of a whole
  list to an offset inside the block.
\<close>

definition write_block :: "'a list \<Rightarrow> nat \<Rightarrow> 'a list \<Rightarrow> 'a list" where
  "write_block m i xs = take i m @ xs @ drop (i + length xs) m"

lemma length_write_block [simp]:
  "i + length xs \<le> length m \<Longrightarrow> length (write_block m i xs) = length m"
  by (simp add: write_block_def)

lemma take_write_block [simp]:
  "i + length xs \<le> length m \<Longrightarrow> take (i + length xs) (write_block m i xs) = take i m @ xs"
  by (simp add: write_block_def)

lemma take_write_block_before [simp]:
  "j \<le> i \<Longrightarrow> i \<le> length m \<Longrightarrow> take j (write_block m i xs) = take j m"
  by (simp add: write_block_def)

lemma drop_write_block [simp]:
  "i + length xs \<le> length m \<Longrightarrow> drop (i + length xs) (write_block m i xs) = drop (i + length xs) m"
  by (simp add: write_block_def)

lemma write_block_Nil [simp]: "write_block m i [] = m"
  by (simp add: write_block_def)

lemma list_update_numeral [simp]: "(x # xs)[numeral v := y] = x # xs[pred_numeral v := y]"
  by (simp add: numeral_eq_Suc)

lemma take_drop_split:
  "i \<le> j \<Longrightarrow> j \<le> length xs \<Longrightarrow> take (j - i) (drop i xs) = drop i (take j xs)"
  by (simp add: drop_take)

section \<open>Rounding of allocation sizes\<close>

lemma round_up_multiple:
  fixes n k :: nat
  assumes "0 < k"
  shows "n \<le> (n + k - 1) div k * k" and "n < (n + k) div k * k"
proof -
  have d: "m - (k - 1) \<le> m div k * k" for m
    using mod_less_divisor [OF assms, of m] minus_mod_eq_div_mult [of m k] by linarith
  show "n \<le> (n + k - 1) div k * k" using d [of "n + k - 1"] assms by linarith
  show "n < (n + k) div k * k" using d [of "n + k"] assms by linarith
qed

section \<open>Named collections\<close>

named_theorems wf_intros \<open>operations keep the well-formedness invariant of their component\<close>
named_theorems op_defs \<open>definitions unfolded by the branch-by-branch functional lemmas\<close>

end
