(* ===== verification/ModuleCode.thy ===== *)
theory ModuleCode
  imports Prelude
begin

text \<open>
  Module encoding: the variable-length number format that the compiler writes into module files
  and byte code, and its two decoders, one over a memory buffer for the VM and one over a file for
  the loader (\<open>src/src/vm/ejsModule.c\<close>); the encoders of the compiler that append to the
  code buffer (\<open>src/src/compiler/ecModuleWrite.c\<close>); the string constant pool; the debug
  line table and the lookup of loaded modules. The buffer of the compiler (\<open>MprBuf\<close>) is
  the list of the bytes written so far.
\<close>

section \<open>Variable-length numbers\<close>

text \<open>
  \<open>ejsEncodeNum\<close> emits the low six bits and the sign first, then seven bits per byte, bit
  7 of a byte saying that another one follows. \<open>encode_tail\<close> is its \<open>while\<close> loop.
\<close>

function encode_tail :: "u32 \<Rightarrow> u64 \<Rightarrow> u8 list" where
  "encode_tail encoded unumber =
     (if unumber = 0 then [ucast encoded]
      else ucast (encoded OR 0x80)
             # encode_tail (ucast (unumber AND 0x7f)) (drop_bit 7 unumber))"
  by pat_completeness auto
termination
proof (relation "measure (\<lambda>(encoded, unumber). unat unumber)")
  show "wf (measure (\<lambda>(encoded :: u32, unumber :: u64). unat unumber))" by simp
next
  fix encoded :: u32 and unumber :: u64
  assume "unumber \<noteq> 0"
  then have "0 < unat unumber" by (simp add: unat_gt_0)
  then have "unat (drop_bit 7 unumber) < unat unumber"
    by (simp add: unat_drop_bit_eq) (simp add: drop_bit_eq_div)
  then show "((ucast (unumber AND 0x7f), drop_bit 7 unumber), encoded, unumber)
      \<in> measure (\<lambda>(encoded :: u32, unumber :: u64). unat unumber)"
    by simp
qed

declare encode_tail.simps [simp del]

definition ejsEncodeNum :: "u64 \<Rightarrow> u8 list" where
  "ejsEncodeNum number =
     (if number <s 0 then
        let unumber = - number;
            encoded = ucast (push_bit 1 (unumber AND 0x3F) OR 1)
        in encode_tail encoded (drop_bit 6 unumber)
      else
        let encoded = ucast (push_bit 1 (number AND 0x3F)); unumber = number
        in encode_tail encoded (drop_bit 6 unumber))"

text \<open>
  The decoder of the VM works on an unsigned 32-bit byte value: bits shifted out of the word are
  lost, and a shift by 32 or more is undefined. Running off the end of the buffer is a fault.
\<close>

fun decode_tail :: "nat \<Rightarrow> u64 \<Rightarrow> u8 \<Rightarrow> u8 list \<Rightarrow> (u64 \<times> u8 list) res" where
  "decode_tail shift t c [] = (if c AND 0x80 = 0 then Ok (t, []) else Fault)"
| "decode_tail shift t c (c' # bs) =
     (if c AND 0x80 = 0 then Ok (t, c' # bs)
      else if 32 \<le> shift then Fault
      else decode_tail (shift + 7) (t OR ucast (push_bit shift (ucast c' AND 0x7f :: u32))) c' bs)"

definition ejsDecodeNum :: "u8 list \<Rightarrow> (u64 \<times> u8 list) res" where
  "ejsDecodeNum pp =
     (case pp of [] \<Rightarrow> Fault
      | c # pos \<Rightarrow>
          bind_res (decode_tail 6 (ucast (drop_bit 1 c AND 0x3f)) c pos)
            (\<lambda>(t, pos'). Ok (if c AND 1 = 0 then t else - t, pos')))"

text \<open>
  The 32-bit form always occupies four bytes, so that a jump can be patched in place. A number
  beyond the largest encodable word writes nothing.
\<close>

definition EJS_ENCODE_MAX_WORD :: u32 where
  "EJS_ENCODE_MAX_WORD = 0x07FFFFFF"

definition abs32 :: "u32 \<Rightarrow> u32" where
  "abs32 n = (if n <s 0 then - n else n)"

definition ejsEncodeInt32 :: "u32 \<Rightarrow> u8 list option" where
  "ejsEncodeInt32 number =
     (if EJS_ENCODE_MAX_WORD <s abs32 number then None
      else let bs = ejsEncodeNum (scast number)
           in Some (write_block [0, 0, 0, 0] 0 bs))"

definition ejsDecodeInt32 :: "u8 list \<Rightarrow> (u32 \<times> u8 list) res" where
  "ejsDecodeInt32 pp =
     bind_res (ejsDecodeNum pp) (\<lambda>(value, _). Ok (ucast value, drop 4 pp))"

definition ejsEncodeByteAtPos :: "u8 list \<Rightarrow> nat \<Rightarrow> u8 \<Rightarrow> u8 list res" where
  "ejsEncodeByteAtPos buf pos value =
     (if pos < length buf then Ok (buf[pos := value]) else Fault)"

definition ejsEncodeInt32AtPos :: "u8 list \<Rightarrow> nat \<Rightarrow> u32 \<Rightarrow> u8 list res" where
  "ejsEncodeInt32AtPos buf pos value =
     (case ejsEncodeInt32 value of None \<Rightarrow> Ok buf
      | Some bs \<Rightarrow>
          if pos + length bs \<le> length buf then Ok (write_block buf pos bs) else Fault)"

subsection \<open>Round trips\<close>

text \<open>The masks of the format, bit by bit.\<close>

lemma bit_septet_mask [simp]: "bit (127 :: int) n \<longleftrightarrow> n < 7"
proof -
  have "(127 :: int) = mask 7" by (simp add: mask_eq_exp_minus_1)
  then show ?thesis by (simp only: bit_mask_iff) simp
qed

lemma bit_sextet_mask [simp]: "bit (63 :: int) n \<longleftrightarrow> n < 6"
proof -
  have "(63 :: int) = mask 6" by (simp add: mask_eq_exp_minus_1)
  then show ?thesis by (simp only: bit_mask_iff) simp
qed

lemma bit_extension_flag [simp]: "bit (128 :: int) n \<longleftrightarrow> n = 7"
proof -
  have "(128 :: int) = push_bit 7 1" by (simp add: push_bit_eq_mult)
  then show ?thesis by (simp only: bit_push_bit_iff) (auto simp: bit_1_iff)
qed

lemma bit_64 [simp]: "bit (64 :: int) n \<longleftrightarrow> n = 6"
proof -
  have "(64 :: int) = push_bit 6 1" by (simp add: push_bit_eq_mult)
  then show ?thesis by (simp only: bit_push_bit_iff) (auto simp: bit_1_iff)
qed

lemma bit_imp_le_unat: "bit (w :: 'a :: len word) n \<Longrightarrow> 2 ^ n \<le> unat w"
proof (rule ccontr)
  assume b: "bit w n" and "\<not> 2 ^ n \<le> unat w"
  then have "unat (drop_bit n w) = 0"
    by (simp add: unat_drop_bit_eq) (simp add: drop_bit_eq_div)
  then have "drop_bit n w = 0" by (simp add: unat_eq_0)
  with b show False by (simp add: bit_iff_odd_drop_bit)
qed
lemma unat_less_imp_not_bit: "unat (w :: 'a :: len word) < 2 ^ k \<Longrightarrow> bit w n \<Longrightarrow> n < k"
  using bit_imp_le_unat [of w n]
  by (meson le_less_trans not_le one_le_numeral power_increasing)

text \<open>The payload and the extension bit of a continuation byte.\<close>

lemma payload_byte:
  "ucast (ucast (ucast (u AND 0x7f :: u64) :: u32) :: u8) AND (0x7f :: u32) = ucast (u AND 0x7f)"
  "ucast (ucast (ucast (u AND 0x7f :: u64) OR 0x80 :: u32) :: u8) AND (0x7f :: u32)
     = ucast (u AND 0x7f)"
  by (rule bit_eqI; auto simp: bit_simps)+

lemma extension_bit:
  "ucast (ucast (u AND 0x7f :: u64) :: u32) AND (0x80 :: u8) = 0"
  "ucast (ucast (u AND 0x7f :: u64) OR 0x80 :: u32) AND (0x80 :: u8) \<noteq> 0"
  subgoal by (rule bit_eqI) (auto simp: bit_simps)
  subgoal
  proof -
    have "bit (ucast (ucast (u AND 0x7f :: u64) OR 0x80 :: u32) AND (0x80 :: u8)) 7" by (simp add: bit_simps)
    then show ?thesis by (metis bit_0_eq bot_apply bot_bool_def)
  qed
  done
lemma join_septet:
  "(t OR push_bit s (u AND 0x7f)) OR push_bit (s + 7) (drop_bit 7 u) = t OR push_bit s (u :: u64)"
proof (rule bit_eqI)
  fix n
  have "7 + (n - (s + 7)) = n - s" if "\<not> n - s < 7" using that by linarith
  then show "bit ((t OR push_bit s (u AND 0x7f)) OR push_bit (s + 7) (drop_bit 7 u)) n
      = bit (t OR push_bit s u) n"
    by (cases "n - s < 7") (auto simp: bit_simps)
qed

lemma shifted_septet:
  assumes "\<forall>n. bit (u :: u64) n \<longrightarrow> s + n < 32"
  shows "ucast (push_bit s (ucast (u AND 0x7f) :: u32)) = push_bit s (u AND 0x7f)"
  apply (rule bit_eqI) using assms  by (auto simp: bit_simps)


lemma drop_septet_fits:
  "\<forall>n. bit (u :: u64) n \<longrightarrow> s + n < k \<Longrightarrow> bit (drop_bit 7 u) n \<Longrightarrow> (s + 7) + n < k"
  by (simp add: bit_drop_bit_eq) (metis add.assoc)

text \<open>If what remains to be written fits below bit 32 at the current shift, the loop restores it.\<close>

lemma decode_tail_last [simp]: "c AND 0x80 = 0 \<Longrightarrow> decode_tail s t c bs = Ok (t, bs)"
  by (cases bs) auto

lemma decode_encode_tail:
  assumes "u \<noteq> 0" and "\<forall>n. bit (u :: u64) n \<longrightarrow> s + n < 32" and "c AND 0x80 \<noteq> 0"
  shows "decode_tail s t c (encode_tail (ucast (u AND 0x7f)) (drop_bit 7 u) @ rest)
     = Ok (t OR push_bit s u, rest)"
  using assms
proof (induction "unat u" arbitrary: u s t c rule: less_induct)
  case less
  let ?u = "drop_bit 7 u"
  obtain n where "bit u n" using less.prems(1) by (metis bit_eqI bit_0_eq bot_apply bot_bool_def)
  with less.prems(2) have s: "s < 32" by auto
  note sh = shifted_septet [OF less.prems(2)]
  show ?case
  proof (cases "?u = 0")
    case True
    then have "t OR push_bit s (u AND 0x7f) = t OR push_bit s u"
      using join_septet [of t s u] by simp
    with True less.prems(3) s sh show ?thesis
      by (simp add: encode_tail.simps payload_byte extension_bit)
  next
    case False
    have "unat ?u < unat u" using less.prems(1)
      by (simp add: unat_drop_bit_eq) (simp add: drop_bit_eq_div unat_gt_0)
    then have "decode_tail (s + 7) (t OR push_bit s (u AND 0x7f))
        (ucast (ucast (u AND 0x7f) OR 0x80 :: u32))
        (encode_tail (ucast (?u AND 0x7f)) (drop_bit 7 ?u) @ rest)
      = Ok ((t OR push_bit s (u AND 0x7f)) OR push_bit (s + 7) ?u, rest)"
      by (rule less.hyps)
        (use False drop_septet_fits [OF less.prems(2)] extension_bit(2) in auto)
    then show ?thesis
      using False less.prems(3) s sh join_septet [of t s u]
      by (subst encode_tail.simps) (simp add: payload_byte extension_bit)
  qed
qed

text \<open>The magnitude that the encoder writes after the sign bit.\<close>

definition magnitude :: "u64 \<Rightarrow> u64" where
  "magnitude n = (if n <s 0 then - n else n)"

definition first_word :: "u64 \<Rightarrow> bool \<Rightarrow> u32" where
  "first_word m neg = ucast (push_bit 1 (m AND 0x3F) OR (if neg then 1 else 0))"

lemma bit_first_word:
  "bit (first_word m neg) i \<longleftrightarrow> (i = 0 \<and> neg) \<or> (1 \<le> i \<and> i < 7 \<and> bit m (i - 1))"
  unfolding first_word_def bit_unsigned_iff bit_or_iff bit_push_bit_iff bit_and_iff
  by (auto simp: bit_1_iff)

lemma sign_byte:
  fixes m :: u64 and neg :: bool
  defines "c \<equiv> ucast (first_word m neg) :: u8" and "c' \<equiv> ucast (first_word m neg OR 0x80) :: u8"
  shows "ucast (drop_bit 1 c AND 0x3f) = m AND 0x3f" and "ucast (drop_bit 1 c' AND 0x3f) = m AND 0x3f"
    and "c AND 1 = 0 \<longleftrightarrow> \<not> neg" and "c' AND 1 = 0 \<longleftrightarrow> \<not> neg"
    and "c AND 0x80 = 0" and "c' AND 0x80 \<noteq> 0"
proof -
  have "bit (c' AND 0x80) 7" by (simp add: c'_def bit_simps)
  then show "c' AND 0x80 \<noteq> 0" by (metis bit_0_eq bot_apply bot_bool_def)
  have low: "x AND 1 = 0 \<longleftrightarrow> \<not> bit x 0" for x :: u8
    by (simp add: and_one_eq bit_0 even_iff_mod_2_eq_zero)
  show "c AND 1 = 0 \<longleftrightarrow> \<not> neg" "c' AND 1 = 0 \<longleftrightarrow> \<not> neg"
    unfolding low c_def c'_def bit_unsigned_iff bit_or_iff bit_first_word by simp_all
qed (auto simp: c_def c'_def bit_simps bit_first_word intro!: bit_eqI)

lemma join_sextet: "(m AND 0x3f) OR push_bit 6 (drop_bit 6 m) = (m :: u64)"
proof (rule bit_eqI)
  fix n :: nat
  have "6 + (n - 6) = n" if "\<not> n < 6" using that by linarith
  then show "bit ((m AND 0x3f) OR push_bit 6 (drop_bit 6 m)) n = bit m n"
    by (cases "n < 6") (auto simp: bit_simps dest: bit_imp_le_length)
qed

lemma decode_encode_signed:
  assumes "\<forall>n. bit (m :: u64) n \<longrightarrow> n < 32"
  shows "ejsDecodeNum (encode_tail (first_word m neg) (drop_bit 6 m) @ rest)
     = Ok (if neg then - m else m, rest)"
proof (cases "drop_bit 6 m = 0")
  case True
  then show ?thesis using join_sextet [of m]
    by (subst encode_tail.simps) (simp add: ejsDecodeNum_def sign_byte [unfolded One_nat_def])
next
  case False
  have "\<forall>n. bit (drop_bit 6 m) n \<longrightarrow> 6 + n < 32"
    using assms(1) by (simp add: bit_drop_bit_eq)
  from decode_encode_tail [OF False this sign_byte(6) [of m neg]] show ?thesis
    using False join_sextet [of m]
    by (subst encode_tail.simps) (simp add: ejsDecodeNum_def sign_byte [unfolded One_nat_def])
qed

lemma ejsEncodeNum_magnitude:
  "ejsEncodeNum n = encode_tail (first_word (magnitude n) (n <s 0)) (drop_bit 6 (magnitude n))"
  by (simp add: ejsEncodeNum_def magnitude_def first_word_def Let_def)

lemma unat_magnitude: "unat (magnitude n) = nat \<bar>sint n\<bar>"
proof -
  have r: "- (2 ^ 63) \<le> sint n" "sint n < 2 ^ 63"
    using sint_ge [of n] sint_lt [of n] by simp_all
  have "magnitude n = word_of_int \<bar>sint n\<bar>"
    by (simp add: magnitude_def word_sless_alt)
  then have "uint (magnitude n) = \<bar>sint n\<bar>"
    using r by (simp add: uint_word_of_int_eq take_bit_int_eq_self)
  then show ?thesis by (metis nat_uint_eq)
qed

lemma magnitude_bits: "\<bar>sint n\<bar> < 2 ^ k \<Longrightarrow> bit (magnitude n) i \<longrightarrow> i < k"
  by (metis unat_less_imp_not_bit unat_magnitude nat_less_numeral_power_cancel_iff)

lemma decode_encode_num:
  assumes "\<bar>sint n\<bar> < 2 ^ 32"
  shows "ejsDecodeNum (ejsEncodeNum n @ rest) = Ok (n, rest)"
proof -
  have "\<forall>i. bit (magnitude n) i \<longrightarrow> i < 32" using magnitude_bits [OF assms] by blast
  from decode_encode_signed [OF this, of "n <s 0" rest] show ?thesis
    by (auto simp: ejsEncodeNum_magnitude magnitude_def split: if_splits)
qed

section \<open>Reading a module file\<close>

text \<open>
  The part of \<open>EjsModule\<close> used while loading: the bytes of the file not read yet and the
  error flag. \<open>mprGetFileChar\<close> and \<open>mprReadFile\<close> take bytes from the front.
\<close>

record module_file =
  mfile :: "u8 list"
  hasError :: bool

definition file_error :: "u8 list \<Rightarrow> module_file" where
  "file_error bs = \<lparr>mfile = bs, hasError = True\<rparr>"

text \<open>
  The loop of \<open>ejsModuleReadNum\<close> shifts a signed 32-bit value: a shift that leaves the
  31 value bits is undefined. \<open>None\<close> is the end of the file.
\<close>

fun read_tail :: "nat \<Rightarrow> u64 \<Rightarrow> u8 \<Rightarrow> u8 list \<Rightarrow> (u64 option \<times> u8 list) res" where
  "read_tail shift t c [] = (if c AND 0x80 = 0 then Ok (Some t, []) else Ok (None, []))"
| "read_tail shift t c (c' # bs) =
     (if c AND 0x80 = 0 then Ok (Some t, c' # bs)
      else if 32 \<le> shift \<or> 2 ^ 31 \<le> unat (c' AND 0x7f) * 2 ^ shift then Fault
      else read_tail (shift + 7) (t OR push_bit shift (ucast (c' AND 0x7f))) c' bs)"

definition ejsModuleReadNum :: "(module_file, u64) op" where
  "ejsModuleReadNum mp =
     (case mfile mp of [] \<Rightarrow> (Ok 0, file_error [])
      | c # bs \<Rightarrow>
          (case read_tail 6 (ucast (drop_bit 1 c AND 0x3f)) c bs of
             Ok (Some t, bs') \<Rightarrow> (Ok (if c AND 1 = 0 then t else - t), mp\<lparr>mfile := bs'\<rparr>)
           | Ok (None, bs') \<Rightarrow> (Ok 0, file_error bs')
           | _ \<Rightarrow> (Fault, mp)))"

definition ejsModuleReadInt :: "(module_file, u32) op" where
  "ejsModuleReadInt = andthen ejsModuleReadNum (\<lambda>n. ret (ucast n))"

definition ejsModuleReadByte :: "(module_file, u8) op" where
  "ejsModuleReadByte mp =
     (case mfile mp of [] \<Rightarrow> (Ok 0, file_error []) | c # bs \<Rightarrow> (Ok c, mp\<lparr>mfile := bs\<rparr>))"

definition ejsModuleReadBlock :: "nat \<Rightarrow> (module_file, u8 list) op" where
  "ejsModuleReadBlock len mp =
     (Ok (take len (mfile mp)),
      mp\<lparr>mfile := drop len (mfile mp),
         hasError := (hasError mp \<or> length (mfile mp) < len)\<rparr>)"

definition ejsModuleReadInt32 :: "(module_file, u32) op" where
  "ejsModuleReadInt32 mp =
     (if length (mfile mp) < 4 then (Ok 0, file_error [])
      else (map_res fst (ejsDecodeInt32 (take 4 (mfile mp))), mp\<lparr>mfile := drop 4 (mfile mp)\<rparr>))"

text \<open>
  A counted byte string; \<open>None\<close> is the null pointer. A negative length asks the allocator
  for more memory than exists, which fails.
\<close>

definition ejsModuleReadMulti :: "(module_file, u8 list option) op" where
  "ejsModuleReadMulti = andthen ejsModuleReadInt (\<lambda>len mp.
     if hasError mp \<or> len <s 0 then (Ok None, mp)
     else if length (mfile mp) < unat len then (Ok None, file_error [])
     else (Ok (Some (take (unat len) (mfile mp))), mp\<lparr>mfile := drop (unat len) (mfile mp)\<rparr>))"

lemma bits_imp_unat_less:
  assumes "\<forall>n. bit (w :: 'a :: len word) n \<longrightarrow> n < k"
  shows "unat w < 2 ^ k"
proof -
  have "take_bit k w = w"
    by (rule bit_eqI) (use assms in \<open>auto simp: bit_simps dest: bit_imp_le_length\<close>)
  then have "take_bit k (unat w) = unat w" by (metis unsigned_take_bit_eq)
  then show ?thesis by (metis take_bit_nat_less_exp)
qed

lemma payload_u8:
  "ucast (ucast (ucast (u AND 0x7f :: u64) :: u32) AND (0x7f :: u8)) = u AND 0x7f"
  "ucast (ucast (ucast (u AND 0x7f :: u64) OR 0x80 :: u32) AND (0x7f :: u8)) = u AND 0x7f"
  "unat (ucast (ucast (u AND 0x7f :: u64) :: u32) AND (0x7f :: u8)) = unat (u AND 0x7f)"
  "unat (ucast (ucast (u AND 0x7f :: u64) OR 0x80 :: u32) AND (0x7f :: u8)) = unat (u AND 0x7f)"
proof -
  have *: "ucast (ucast (ucast (u AND 0x7f :: u64) :: u32) AND (0x7f :: u8)) = u AND 0x7f"
    "ucast (ucast (ucast (u AND 0x7f :: u64) OR 0x80 :: u32) AND (0x7f :: u8)) = u AND 0x7f"
    by (rule bit_eqI; auto simp: bit_simps)+
  then show "ucast (ucast (ucast (u AND 0x7f :: u64) :: u32) AND (0x7f :: u8)) = u AND 0x7f"
    "ucast (ucast (ucast (u AND 0x7f :: u64) OR 0x80 :: u32) AND (0x7f :: u8)) = u AND 0x7f" .
  have up: "unat (ucast b :: u64) = unat b" for b :: u8
  proof -
    have "unat b < 2 ^ 64" by (rule less_trans [OF unat_u8_less]) simp
    then show ?thesis by (simp add: unsigned_ucast_eq take_bit_nat_eq_self)
  qed
  show "unat (ucast (ucast (u AND 0x7f :: u64) :: u32) AND (0x7f :: u8)) = unat (u AND 0x7f)"
    "unat (ucast (ucast (u AND 0x7f :: u64) OR 0x80 :: u32) AND (0x7f :: u8)) = unat (u AND 0x7f)"
    using * up by metis+
qed

lemma read_tail_last [simp]: "c AND 0x80 = 0 \<Longrightarrow> read_tail s t c bs = Ok (Some t, bs)"
  by (cases bs) auto

lemma read_encode_tail:
  assumes "u \<noteq> 0" and "\<forall>n. bit (u :: u64) n \<longrightarrow> s + n < 31" and "c AND 0x80 \<noteq> 0"
  shows "read_tail s t c (encode_tail (ucast (u AND 0x7f)) (drop_bit 7 u) @ rest)
     = Ok (Some (t OR push_bit s u), rest)"
  using assms
proof (induction "unat u" arbitrary: u s t c rule: less_induct)
  case less
  let ?u = "drop_bit 7 u"
  obtain n where "bit u n" using less.prems(1) by (metis bit_eqI bit_0_eq bot_apply bot_bool_def)
  with less.prems(2) have s: "s < 31" by auto
  have "\<forall>n. bit (u AND 0x7f) n \<longrightarrow> n < 31 - s"
    using less.prems(2) by (auto simp: bit_simps)
  then have "unat (u AND 0x7f) < 2 ^ (31 - s)" by (rule bits_imp_unat_less)
  then have "unat (u AND 0x7f) * 2 ^ s < 2 ^ (31 - s) * 2 ^ s" by simp
  with s have v: "unat (u AND 0x7f) * 2 ^ s < 2 ^ 31" by (simp flip: power_add)
  show ?case
  proof (cases "?u = 0")
    case True
    then have "t OR push_bit s (u AND 0x7f) = t OR push_bit s u"
      using join_septet [of t s u] by simp
    with True less.prems(3) s v show ?thesis
      by (simp add: encode_tail.simps payload_u8 extension_bit)
  next
    case False
    have "unat ?u < unat u" using less.prems(1)
      by (simp add: unat_drop_bit_eq) (simp add: drop_bit_eq_div unat_gt_0)
    then have "read_tail (s + 7) (t OR push_bit s (u AND 0x7f))
        (ucast (ucast (u AND 0x7f) OR 0x80 :: u32))
        (encode_tail (ucast (?u AND 0x7f)) (drop_bit 7 ?u) @ rest)
      = Ok (Some ((t OR push_bit s (u AND 0x7f)) OR push_bit (s + 7) ?u), rest)"
      by (rule less.hyps)
        (use False drop_septet_fits [OF less.prems(2)] extension_bit(2) in auto)
    then show ?thesis
      using False less.prems(3) s v join_septet [of t s u]
      by (subst encode_tail.simps) (simp add: payload_u8 extension_bit)
  qed
qed

lemma read_encode_num:
  assumes "\<bar>sint n\<bar> < 2 ^ 31" and "mfile mp = ejsEncodeNum n @ rest"
  shows "ejsModuleReadNum mp = (Ok n, mp\<lparr>mfile := rest\<rparr>)"
proof -
  let ?m = "magnitude n" and ?neg = "n <s 0"
  have fits: "\<forall>i. bit ?m i \<longrightarrow> i < 31" using magnitude_bits [OF assms(1)] by blast
  have enc: "mfile mp = encode_tail (first_word ?m ?neg) (drop_bit 6 ?m) @ rest"
    using assms(2) by (simp add: ejsEncodeNum_magnitude)
  have sgn: "(if ?neg then - ?m else ?m) = n" by (simp add: magnitude_def)
  show ?thesis
  proof (cases "drop_bit 6 ?m = 0")
    case True
    then have m: "?m AND 0x3f = ?m" using join_sextet [of ?m] by simp
    have "mfile mp = ucast (first_word ?m ?neg) # rest"
      using enc True by (simp add: encode_tail.simps)
    then show ?thesis using m sgn
      by (cases rest) (auto simp: ejsModuleReadNum_def sign_byte [unfolded One_nat_def])
  next
    case False
    have "\<forall>i. bit (drop_bit 6 ?m) i \<longrightarrow> 6 + i < 31" using fits by (simp add: bit_drop_bit_eq)
    from read_encode_tail [OF False this sign_byte(6) [of ?m ?neg]] show ?thesis
      using False join_sextet [of ?m] sgn enc
      by (subst (asm) encode_tail.simps)
        (auto simp: ejsModuleReadNum_def sign_byte [unfolded One_nat_def])
  qed
qed

lemma signed_scast_up: "sint (scast (n :: u32) :: u64) = sint n"
proof -
  have "- (2 ^ 63) \<le> sint n" "sint n < 2 ^ 63"
    using sint_ge [of n] sint_lt [of n] by simp_all
  then show ?thesis by (simp add: signed_scast_eq signed_take_bit_int_eq_self)
qed

lemma read_encode_int:
  assumes "mfile mp = ejsEncodeNum (scast n) @ rest" and "sint (n :: u32) \<noteq> - (2 ^ 31)"
  shows "ejsModuleReadInt mp = (Ok n, mp\<lparr>mfile := rest\<rparr>)"
proof -
  have "sint (scast n :: u64) = sint n" by (rule signed_scast_up)
  moreover have "\<bar>sint n\<bar> < 2 ^ 31"
    using assms(2) sint_ge [of n] sint_lt [of n] by simp
  ultimately have "ejsModuleReadNum mp = (Ok (scast n), mp\<lparr>mfile := rest\<rparr>)"
    using read_encode_num assms(1) by metis
  moreover have "ucast (scast n :: u64) = n" by (rule bit_eqI) (auto simp: bit_simps)
  ultimately show ?thesis by (simp add: ejsModuleReadInt_def)
qed

section \<open>The four-byte form\<close>

lemma length_encode_tail:
  "\<forall>n. bit u n \<longrightarrow> n < 7 * k \<Longrightarrow> length (encode_tail e u) \<le> Suc k"
proof (induction k arbitrary: e u)
  case 0
  then have "u = 0" by (auto intro: bit_eqI)
  then show ?case by (simp add: encode_tail.simps)
next
  case (Suc k)
  then have "\<forall>n. bit (drop_bit 7 u) n \<longrightarrow> n < 7 * k" by (auto simp: bit_drop_bit_eq)
  from Suc.IH [OF this] show ?case by (subst encode_tail.simps) simp
qed

lemma length_ejsEncodeNum:
  assumes "\<bar>sint n\<bar> < 2 ^ (6 + 7 * k)"
  shows "length (ejsEncodeNum n) \<le> Suc k"
proof -
  have "\<forall>i. bit (drop_bit 6 (magnitude n)) i \<longrightarrow> i < 7 * k"
    using magnitude_bits [OF assms] by (fastforce simp: bit_drop_bit_eq)
  then show ?thesis unfolding ejsEncodeNum_magnitude by (rule length_encode_tail)
qed

lemma sint_neg32: "\<bar>sint (n :: u32)\<bar> < 2 ^ 31 \<Longrightarrow> sint (- n) = - sint n"
  by (simp add: sint_word_ariths signed_take_bit_int_eq_self)

lemma encode_int32_Some:
  assumes "\<bar>sint n\<bar> \<le> 0x07FFFFFF"
  shows "\<exists>bs. ejsEncodeInt32 n = Some bs \<and> length bs = 4
           \<and> (\<forall>rest. ejsDecodeInt32 (bs @ rest) = Ok (n, rest))"
proof -
  let ?bs = "ejsEncodeNum (scast n)"
  have r: "\<bar>sint (scast n :: u64)\<bar> < 2 ^ 27" using assms by (simp add: signed_scast_up)
  then have len: "length ?bs \<le> 4" using length_ejsEncodeNum [of "scast n" 3] by simp
  have "\<not> EJS_ENCODE_MAX_WORD <s abs32 n" using assms
    by (auto simp: EJS_ENCODE_MAX_WORD_def abs32_def word_sless_alt sint_neg32)
  then have e: "ejsEncodeInt32 n = Some (?bs @ drop (length ?bs) [0, 0, 0, 0])"
    by (simp add: ejsEncodeInt32_def Let_def write_block_def)
  have "ejsDecodeInt32 ((?bs @ drop (length ?bs) [0, 0, 0, 0]) @ rest) = Ok (n, rest)" for rest
  proof -
    have "ejsDecodeNum (?bs @ (drop (length ?bs) [0, 0, 0, 0] @ rest))
        = Ok (scast n, drop (length ?bs) [0, 0, 0, 0] @ rest)"
      by (rule decode_encode_num) (use r in simp)
    moreover have "ucast (scast n :: u64) = n" by (rule bit_eqI) (auto simp: bit_simps)
    ultimately show ?thesis using len by (simp add: ejsDecodeInt32_def)
  qed
  with e len show ?thesis by auto
qed

section \<open>String constants\<close>

text \<open>
  The constant pool of a module (\<open>EjsConstants\<close>): the bytes used so far, all strings ended
  by a NUL; the index, whose entries are an offset into the pool until the string is first used
  and the interned string from then on; the allocated sizes; and, while compiling, the hash table
  from strings to indices. A string here is the text of a C string, without its NUL.
\<close>

abbreviation NUL :: char where
  "NUL \<equiv> CHR 0x00"

datatype const_ref = Unset | Offset nat | Interned string

record constants =
  pool :: string
  poolSize :: nat
  index :: "const_ref list"
  indexSize :: nat
  locked :: bool
  table :: "(string \<Rightarrow> int option) option"

definition EC_BUFSIZE :: nat where "EC_BUFSIZE = 4096"
definition EJS_INDEX_INCR :: nat where "EJS_INDEX_INCR = 256"
definition MPR_ERR_CANT_WRITE :: int where "MPR_ERR_CANT_WRITE = -23"

text \<open>The C string at the front of some bytes; \<open>None\<close> when no NUL ends it.\<close>

definition c_string :: "string \<Rightarrow> string option" where
  "c_string s = (if NUL \<in> set s then Some (takeWhile (\<lambda>c. c \<noteq> NUL) s) else None)"

text \<open>
  The loop that fills the index of a loaded module: one offset per string of the pool.
\<close>

function const_offsets :: "nat \<Rightarrow> string \<Rightarrow> nat list option" where
  "const_offsets off s =
     (if s = [] then Some []
      else case c_string s of None \<Rightarrow> None
        | Some str \<Rightarrow>
            map_option ((#) off)
              (const_offsets (off + (length str + 1)) (drop (length str + 1) s)))"
  by pat_completeness auto
termination by (relation "measure (\<lambda>(off, s). length s)") auto

declare const_offsets.simps [simp del]

text \<open>
  \<open>count\<close> and \<open>sz\<close> come from the module header. A pool with more strings than the
  header announces overruns the index; a count without a pool fails the assertion.
\<close>

definition ejsCreateConstants :: "bool \<Rightarrow> nat \<Rightarrow> nat \<Rightarrow> string option \<Rightarrow> constants res" where
  "ejsCreateConstants compiling count sz p =
     (let cs = \<lparr>pool = [], poolSize = sz, index = [], indexSize = 0, locked = False,
                table = (if compiling then Some Map.empty else None)\<rparr>
      in if count = 0 then Ok cs
         else case p of None \<Rightarrow> Fault
           | Some bytes \<Rightarrow>
               (case const_offsets 0 (take sz bytes) of None \<Rightarrow> Fault
                | Some offs \<Rightarrow>
                    if count < length offs then Fault
                    else Ok (cs\<lparr>pool := take sz bytes,
                                index := map Offset offs @ replicate (count - length offs) Unset\<rparr>)))"

definition ejsGrowConstants :: "nat \<Rightarrow> constants \<Rightarrow> constants" where
  "ejsGrowConstants len cp =
     cp\<lparr>poolSize := (if poolSize cp \<le> length (pool cp) + len
          then (poolSize cp + len + EC_BUFSIZE - 1) div EC_BUFSIZE * EC_BUFSIZE
          else poolSize cp),
        indexSize := (if indexSize cp \<le> length (index cp)
          then (length (index cp) + EJS_INDEX_INCR) div EJS_INDEX_INCR * EJS_INDEX_INCR
          else indexSize cp)\<rparr>"

definition ejsAddConstant :: "string \<Rightarrow> (constants, int) op" where
  "ejsAddConstant str cp =
     (if locked cp then (Ok MPR_ERR_CANT_WRITE, cp)
      else
        let len = length str + 1;
            cp' = ejsGrowConstants len cp;
            oldLen = length (pool cp');
            i = length (index cp')
        in if poolSize cp' < oldLen + len \<or> indexSize cp' \<le> i then (Fault, cp')
           else (Ok (int i),
                 cp'\<lparr>pool := pool cp' @ str @ [NUL],
                     table := map_option (\<lambda>t. t(str \<mapsto> int i)) (table cp'),
                     index := index cp' @ [Offset oldLen]\<rparr>))"

text \<open>
  Reading a constant interns it on first use; \<open>None\<close> is the null pointer returned for an
  index outside the table.
\<close>

definition ejsCreateStringFromConst :: "int \<Rightarrow> (constants, string option) op" where
  "ejsCreateStringFromConst i cs =
     (if i < 0 \<or> int (length (index cs)) \<le> i then (Ok None, cs)
      else case index cs ! nat i of
          Unset \<Rightarrow> (Fault, cs)
        | Interned s \<Rightarrow> (Ok (Some s), cs)
        | Offset off \<Rightarrow>
            (case c_string (drop off (pool cs)) of
               None \<Rightarrow> (Fault, cs)
             | Some s \<Rightarrow> (Ok (Some s), cs\<lparr>index := (index cs)[nat i := Interned s]\<rparr>)))"

definition ecAddModuleConstant :: "string \<Rightarrow> (constants, int) op" where
  "ecAddModuleConstant str cs =
     (case table cs of
        Some t \<Rightarrow>
          (case t str of Some i \<Rightarrow> (Ok i, cs)
           | None \<Rightarrow> andthen (ejsAddConstant str)
               (\<lambda>i cs'. (Ok i, cs'\<lparr>table := map_option (\<lambda>t. t(str \<mapsto> i)) (table cs')\<rparr>)) cs)
      | None \<Rightarrow> ejsAddConstant str cs)"

subsection \<open>What an index denotes\<close>

definition const_at :: "constants \<Rightarrow> nat \<Rightarrow> string option" where
  "const_at cs i =
     (if i < length (index cs) then
        case index cs ! i of Unset \<Rightarrow> None | Interned s \<Rightarrow> Some s
          | Offset off \<Rightarrow> c_string (drop off (pool cs))
      else None)"

text \<open>
  The pool and its index implement a list of strings: \<open>pool_rel cs strs\<close> says that the
  pool holds these strings one after the other, that index \<open>i\<close> denotes the \<open>i\<close>-th of
  them, and that the hash table of the compiler only knows indices of its own strings.
\<close>

definition terminated :: "string list \<Rightarrow> string" where
  "terminated strs = concat (map (\<lambda>s. s @ [NUL]) strs)"

definition table_sound :: "constants \<Rightarrow> string list \<Rightarrow> bool" where
  "table_sound cs strs \<longleftrightarrow> (\<forall>t str i. table cs = Some t \<longrightarrow> t str = Some i \<longrightarrow>
     0 \<le> i \<and> nat i < length strs \<and> strs ! nat i = str)"

definition pool_rel :: "constants \<Rightarrow> string list \<Rightarrow> bool" where
  "pool_rel cs strs \<longleftrightarrow>
     pool cs = terminated strs \<and> length (pool cs) \<le> poolSize cs
     \<and> (\<forall>s \<in> set strs. NUL \<notin> set s)
     \<and> length (index cs) = length strs
     \<and> (\<forall>i < length strs. const_at cs i = Some (strs ! i))
     \<and> table_sound cs strs"

lemma c_string_append [simp]: "c_string s = Some str \<Longrightarrow> c_string (s @ t) = Some str"
  by (auto simp: c_string_def split: if_splits)

lemma c_string_terminated [simp]:
  assumes "NUL \<notin> set str"
  shows "c_string (str @ NUL # t) = Some str"
proof -
  have "\<forall>x \<in> set str. x \<noteq> NUL" using assms by blast
  then show ?thesis by (simp add: c_string_def)
qed

lemma terminated_simps [simp]:
  "terminated [] = []" "terminated (s # strs) = s @ NUL # terminated strs"
  "terminated (strs @ strs') = terminated strs @ terminated strs'"
  by (simp_all add: terminated_def)

lemma ejsGrowConstants_room:
  "length (pool cp) \<le> poolSize cp \<Longrightarrow>
     length (pool cp) + len \<le> poolSize (ejsGrowConstants len cp)"
  "length (index cp) < indexSize (ejsGrowConstants len cp)"
  using round_up_multiple(1) [of EC_BUFSIZE "poolSize cp + len"]
    round_up_multiple(2) [of EJS_INDEX_INCR "length (index cp)"]
  by (auto simp: ejsGrowConstants_def EC_BUFSIZE_def EJS_INDEX_INCR_def)

lemma ejsGrowConstants_simps [simp]:
  "pool (ejsGrowConstants len cp) = pool cp" "index (ejsGrowConstants len cp) = index cp"
  "table (ejsGrowConstants len cp) = table cp" "locked (ejsGrowConstants len cp) = locked cp"
  by (simp_all add: ejsGrowConstants_def)

lemma const_at_append:
  assumes "const_at cs i = Some s"
    and "index cs' = index cs @ xs" and "pool cs' = pool cs @ ys"
  shows "const_at cs' i = Some s"
  using assms
  by (auto simp: const_at_def nth_append split: if_splits const_ref.splits)

lemma ejsAddConstant_refines:
  assumes rel: "pool_rel cs strs" and "\<not> locked cs" and str: "NUL \<notin> set str"
  shows "\<exists>cs'. ejsAddConstant str cs = (Ok (int (length strs)), cs')
           \<and> pool_rel cs' (strs @ [str]) \<and> \<not> locked cs' \<and> (table cs' = None \<longleftrightarrow> table cs = None)
           \<and> (\<forall>t'. table cs' = Some t' \<longrightarrow> t' str = Some (int (length strs)))"
proof -
  let ?g = "ejsGrowConstants (length str + 1) cs"
  let ?cs = "?g\<lparr>pool := pool cs @ str @ [NUL],
     table := map_option (\<lambda>t. t(str \<mapsto> int (length strs))) (table cs),
     index := index cs @ [Offset (length (pool cs))]\<rparr>"
  have room: "length (pool cs) + (length str + 1) \<le> poolSize ?g" "length (index cs) < indexSize ?g"
    using ejsGrowConstants_room [of cs "length str + 1"] rel by (auto simp: pool_rel_def)
  then have step: "ejsAddConstant str cs = (Ok (int (length strs)), ?cs)"
    using assms(2) rel by (simp add: ejsAddConstant_def Let_def pool_rel_def)
  have new: "const_at ?cs (length strs) = Some str"
    using rel str by (simp add: const_at_def pool_rel_def nth_append)
  have old: "const_at ?cs i = Some (strs ! i)" if "i < length strs" for i
    by (rule const_at_append [where cs = cs]) (use rel that in \<open>auto simp: pool_rel_def\<close>)
  have "table_sound ?cs (strs @ [str])"
    using rel by (fastforce simp: table_sound_def pool_rel_def nth_append split: if_splits)
  then have "pool_rel ?cs (strs @ [str])"
    using rel str new old room by (auto simp: pool_rel_def nth_append less_Suc_eq)
  with step assms(2) show ?thesis by auto
qed

lemma ecAddModuleConstant_refines:
  assumes rel: "pool_rel cs strs" and "\<not> locked cs" and str: "NUL \<notin> set str"
  shows "\<exists>i cs' strs'. ecAddModuleConstant str cs = (Ok (int i), cs') \<and> pool_rel cs' strs'
           \<and> \<not> locked cs' \<and> (strs' = strs \<or> strs' = strs @ [str])
           \<and> i < length strs' \<and> strs' ! i = str \<and> (table cs' = None \<longleftrightarrow> table cs = None)"
proof (cases "\<exists>t i. table cs = Some t \<and> t str = Some i")
  case True
  then obtain t i where "table cs = Some t" "t str = Some i" by blast
  then show ?thesis using rel assms(2)
    by (intro exI [of _ "nat i"] exI [of _ cs] exI [of _ strs])
      (auto simp: ecAddModuleConstant_def pool_rel_def table_sound_def)
next
  case False
  obtain cs' where cs': "ejsAddConstant str cs = (Ok (int (length strs)), cs')"
    "pool_rel cs' (strs @ [str])" "\<not> locked cs'" "table cs' = None \<longleftrightarrow> table cs = None"
    "\<forall>t'. table cs' = Some t' \<longrightarrow> t' str = Some (int (length strs))"
    using ejsAddConstant_refines [OF assms] by (elim exE conjE, intro that)
  have "map_option (\<lambda>t. t(str \<mapsto> int (length strs))) (table cs') = table cs'"
    using cs'(5) by (cases "table cs'") (simp_all add: map_upd_triv)
  then have same: "cs'\<lparr>table := map_option (\<lambda>t. t(str \<mapsto> int (length strs))) (table cs')\<rparr> = cs'"
    by simp
  have "ecAddModuleConstant str cs = (Ok (int (length strs)), cs')"
  proof (cases "table cs")
    case None
    then show ?thesis using cs'(1) by (simp add: ecAddModuleConstant_def)
  next
    case (Some t)
    then have "t str = None" using False by (cases "t str") auto
    then show ?thesis using Some cs'(1) same by (simp add: ecAddModuleConstant_def andthen_def)
  qed
  with cs' show ?thesis
    by (intro exI [of _ "length strs"] exI [of _ cs'] exI [of _ "strs @ [str]"]) auto
qed

lemma ejsCreateStringFromConst_refines:
  assumes rel: "pool_rel cs strs" and "i < length strs"
  shows "\<exists>cs'. ejsCreateStringFromConst (int i) cs = (Ok (Some (strs ! i)), cs')
           \<and> pool_rel cs' strs \<and> locked cs' = locked cs"
proof -
  have at: "const_at cs i = Some (strs ! i)" and len: "i < length (index cs)"
    using assms by (auto simp: pool_rel_def)
  show ?thesis
  proof (cases "index cs ! i")
    case Unset
    then show ?thesis using at len by (simp add: const_at_def)
  next
    case (Interned s)
    then show ?thesis using at len rel by (auto simp: const_at_def ejsCreateStringFromConst_def)
  next
    case (Offset off)
    let ?cs = "cs\<lparr>index := (index cs)[i := Interned (strs ! i)]\<rparr>"
    have "const_at ?cs j = const_at cs j" for j
      using at len by (auto simp: const_at_def nth_list_update split: const_ref.splits)
    then have "pool_rel ?cs strs" using rel by (auto simp: pool_rel_def table_sound_def)
    then show ?thesis using Offset at len
      by (auto simp: const_at_def ejsCreateStringFromConst_def)
  qed
qed

subsection \<open>Loading a pool\<close>

lemma const_offsets_Nil [simp]: "const_offsets off [] = Some []"
  by (simp add: const_offsets.simps)

lemma const_offsets_terminated:
  assumes "\<forall>s \<in> set strs. NUL \<notin> set s"
  shows "\<exists>offs. const_offsets off (terminated strs) = Some offs \<and> length offs = length strs
     \<and> (\<forall>i < length strs. off \<le> offs ! i
          \<and> c_string (drop (offs ! i - off) (terminated strs)) = Some (strs ! i))"
  using assms
proof (induction strs arbitrary: off)
  case (Cons s strs)
  let ?o = "off + (length s + 1)"
  obtain offs where offs: "const_offsets ?o (terminated strs) = Some offs"
    "length offs = length strs"
    "\<And>i. i < length strs \<Longrightarrow> ?o \<le> offs ! i
          \<and> c_string (drop (offs ! i - ?o) (terminated strs)) = Some (strs ! i)"
  proof -
    have "\<forall>s \<in> set strs. NUL \<notin> set s" using Cons.prems by simp
    from Cons.IH [OF this, of ?o] show ?thesis by (elim exE conjE, intro that) blast+
  qed
  have "const_offsets off (terminated (s # strs)) = Some (off # offs)"
    using Cons.prems offs(1) by (subst const_offsets.simps) simp
  moreover have "off \<le> (off # offs) ! i
      \<and> c_string (drop ((off # offs) ! i - off) (terminated (s # strs))) = Some ((s # strs) ! i)"
    if "i < length (s # strs)" for i
  proof (cases i)
    case 0
    then show ?thesis using Cons.prems by simp
  next
    case (Suc j)
    with that offs(3) [of j] have j: "?o \<le> offs ! j"
      "c_string (drop (offs ! j - ?o) (terminated strs)) = Some (strs ! j)" by auto
    have skip: "drop (length s + 1 + k) (terminated (s # strs)) = drop k (terminated strs)" for k
      by simp
    from j(1) have "offs ! j - off = length s + 1 + (offs ! j - ?o)" by simp
    then have "drop (offs ! j - off) (terminated (s # strs)) = drop (offs ! j - ?o) (terminated strs)"
      by (simp only: skip)
    with j Suc show ?thesis by (simp del: terminated_simps drop_append)
  qed
  ultimately show ?case using offs(2) by auto
qed simp

text \<open>
  Saving the pool of the compiler and loading it with the count of the index gives the same
  strings under the same indices.
\<close>

lemma ejsCreateConstants_refines:
  assumes rel: "pool_rel cs strs" and "strs \<noteq> []"
  shows "\<exists>lc. ejsCreateConstants False (length (index cs)) (length (pool cs)) (Some (pool cs)) = Ok lc
           \<and> pool_rel lc strs \<and> \<not> locked lc"
proof -
  have pool: "pool cs = terminated strs" "length (index cs) = length strs"
    and nul: "\<forall>s \<in> set strs. NUL \<notin> set s"
    using rel by (auto simp: pool_rel_def)
  obtain offs where offs: "const_offsets 0 (terminated strs) = Some offs"
    "length offs = length strs"
    "\<forall>i < length strs. 0 \<le> offs ! i
          \<and> c_string (drop (offs ! i - 0) (terminated strs)) = Some (strs ! i)"
    using const_offsets_terminated [OF nul, of 0] by (elim exE conjE, intro that)
  let ?lc = "\<lparr>pool = terminated strs, poolSize = length (terminated strs), index = map Offset offs,
    indexSize = 0, locked = False, table = None\<rparr>"
  have "ejsCreateConstants False (length (index cs)) (length (pool cs)) (Some (pool cs)) = Ok ?lc"
    using pool offs(1,2) assms(2) by (simp add: ejsCreateConstants_def Let_def)
  moreover have "pool_rel ?lc strs"
    using offs(2,3) nul by (simp add: pool_rel_def const_at_def table_sound_def)
  ultimately show ?thesis by auto
qed

section \<open>Sequences of encoded values\<close>

text \<open>
  What the byte code and the module file need of a number format: a decoder undoes the encoder
  whatever follows.
\<close>

fun decode_seq :: "('b list \<Rightarrow> ('n \<times> 'b list) res) \<Rightarrow> nat \<Rightarrow> 'b list \<Rightarrow> ('n list \<times> 'b list) res" where
  "decode_seq dec 0 bs = Ok ([], bs)"
| "decode_seq dec (Suc n) bs =
     bind_res (dec bs) (\<lambda>(x, bs'). bind_res (decode_seq dec n bs') (\<lambda>(xs, bs''). Ok (x # xs, bs'')))"

locale number_codec =
  fixes enc :: "'n \<Rightarrow> 'b list"
    and dec :: "'b list \<Rightarrow> ('n \<times> 'b list) res"
    and fits :: "'n \<Rightarrow> bool"
  assumes dec_enc: "fits n \<Longrightarrow> dec (enc n @ rest) = Ok (n, rest)"
begin

lemma decode_seq_encode:
  "\<forall>n \<in> set ns. fits n \<Longrightarrow>
     decode_seq dec (length ns) (concat (map enc ns) @ rest) = Ok (ns, rest)"
  by (induction ns) (simp_all add: dec_enc)

lemma prefix_free:
  assumes "fits m" and "fits n" and "enc m @ xs = enc n @ ys"
  shows "m = n \<and> xs = ys"
proof -
  have "Ok (m, xs) = dec (enc m @ xs)" by (rule dec_enc [OF assms(1), symmetric])
  also have "\<dots> = dec (enc n @ ys)" by (simp only: assms(3))
  also have "\<dots> = Ok (n, ys)" by (rule dec_enc [OF assms(2)])
  finally show ?thesis by simp
qed

lemma enc_not_Nil:
  assumes "fits m" and "fits n" and "m \<noteq> n"
  shows "enc m \<noteq> []"
proof
  assume "enc m = []"
  then have "enc m @ enc n = enc n @ []" by simp
  with prefix_free [OF assms(1,2)] assms(3) show False by blast
qed

end

definition file_decode :: "u8 list \<Rightarrow> (u64 \<times> u8 list) res" where
  "file_decode bs =
     (case ejsModuleReadNum \<lparr>mfile = bs, hasError = False\<rparr> of
        (Ok n, mp) \<Rightarrow> if hasError mp then Throw IOError else Ok (n, mfile mp)
      | _ \<Rightarrow> Fault)"

interpretation vm_num: number_codec ejsEncodeNum ejsDecodeNum "\<lambda>n. \<bar>sint n\<bar> < 2 ^ 32"
  by unfold_locales (rule decode_encode_num)

interpretation file_num: number_codec ejsEncodeNum file_decode "\<lambda>n. \<bar>sint n\<bar> < 2 ^ 31"
proof
  fix n :: u64 and rest
  assume "\<bar>sint n\<bar> < 2 ^ 31"
  from read_encode_num [OF this] show "file_decode (ejsEncodeNum n @ rest) = Ok (n, rest)"
    by (simp add: file_decode_def)
qed

interpretation vm_int32: number_codec "\<lambda>n. the (ejsEncodeInt32 n)" ejsDecodeInt32
  "\<lambda>n. \<bar>sint n\<bar> \<le> 0x07FFFFFF"
proof
  fix n :: u32 and rest
  assume "\<bar>sint n\<bar> \<le> 0x07FFFFFF"
  from encode_int32_Some [OF this] show "ejsDecodeInt32 (the (ejsEncodeInt32 n) @ rest) = Ok (n, rest)"
    by auto
qed

section \<open>Properties\<close>

text \<open>
  C10: A sequence of numbers written one after the other into byte code, as the operands of an
  instruction are, is read back by the decoder of the VM, whatever bytes follow, when every number
  is below 2 to the 32 in magnitude.
\<close>

theorem operands_round_trip:
  "\<forall>n \<in> set ns. \<bar>sint n\<bar> < 2 ^ 32 \<Longrightarrow>
     decode_seq ejsDecodeNum (length ns) (concat (map ejsEncodeNum ns) @ rest) = Ok (ns, rest)"
  by (rule vm_num.decode_seq_encode)

theorem operands_round_trip_witness:
  "decode_seq ejsDecodeNum (length [5, -3, 0xFFFFFFFF :: u64])
     (concat (map ejsEncodeNum [5, -3, 0xFFFFFFFF]) @ [1, 2]) = Ok ([5, -3, 0xFFFFFFFF], [1, 2])"
  by (rule operands_round_trip) simp

text \<open>
  The bound is needed: the decoder assembles the number from 32-bit parts although both its
  result and the encoded number have 64 bits, so 2 to the 32 is written and then read as 0.
\<close>

lemma number_beyond_32_bits_lost:
  "ejsDecodeNum (ejsEncodeNum (2 ^ 32)) = Ok (0, [])"
  by (simp add: ejsEncodeNum_def word_sless_alt Let_def encode_tail.simps drop_bit_eq_div
      ejsDecodeNum_def push_bit_eq_mult)

text \<open>
  C11: Adding a string to the constants of a module being compiled returns an index that denotes the
  string; every index given out before denotes the string it denoted; and with the hash table of the
  compiler, adding the string again returns the same index and changes nothing.
\<close>

theorem constants_shared_and_stable:
  assumes "pool_rel cs strs" and "\<not> locked cs" and "NUL \<notin> set str" and "table cs \<noteq> None"
  shows "\<exists>i cs'. ecAddModuleConstant str cs = (Ok (int i), cs') \<and> const_at cs' i = Some str
     \<and> (\<forall>j < length strs. const_at cs' j = const_at cs j)
     \<and> ecAddModuleConstant str cs' = (Ok (int i), cs')"
proof -
  from ecAddModuleConstant_refines [OF assms(1-3)] obtain i cs' strs' where
    step: "ecAddModuleConstant str cs = (Ok (int i), cs')" and
    rel: "pool_rel cs' strs'" "strs' = strs \<or> strs' = strs @ [str]" "i < length strs'" "strs' ! i = str"
      "table cs' = None \<longleftrightarrow> table cs = None"
    by (elim exE conjE, intro that)
  from rel(5) assms(4) obtain t where t: "table cs' = Some t" by auto
  have "t str = Some (int i)"
    using step t assms(4)
    by (auto simp: ecAddModuleConstant_def andthen_def split: option.splits prod.splits res.splits)
  then have "ecAddModuleConstant str cs' = (Ok (int i), cs')"
    using t by (simp add: ecAddModuleConstant_def)
  moreover have "const_at cs' j = const_at cs j" if "j < length strs" for j
    using that assms(1) rel(1,2) by (auto simp: pool_rel_def nth_append)
  moreover have "const_at cs' i = Some str" using rel by (auto simp: pool_rel_def)
  ultimately show ?thesis using step by blast
qed

definition sample_constants :: constants where
  "sample_constants = \<lparr>pool = ''x'' @ [NUL], poolSize = 4096, index = [Offset 0],
     indexSize = 256, locked = False, table = Some [''x'' \<mapsto> 0]\<rparr>"

lemma sample_constants_ok: "pool_rel sample_constants [''x'']"
  by (simp add: sample_constants_def pool_rel_def table_sound_def const_at_def c_string_def)

theorem constants_shared_and_stable_witness:
  "\<exists>i cs'. ecAddModuleConstant ''run'' sample_constants = (Ok (int i), cs')
     \<and> const_at cs' i = Some ''run''
     \<and> (\<forall>j < length [''x'']. const_at cs' j = const_at sample_constants j)
     \<and> ecAddModuleConstant ''run'' cs' = (Ok (int i), cs')"
  by (rule constants_shared_and_stable [OF sample_constants_ok])
    (simp_all add: sample_constants_def)

end
