(* ===== verification/ModuleFile.thy ===== *)
theory ModuleFile
  imports ModuleCode
begin

text \<open>
  Module files: the emitters of the compiler that append to the code buffer and to the constant
  pool of the module (\<open>src/src/compiler/ecModuleWrite.c\<close>), the routines of the loader that
  read the same sections back (\<open>src/src/vm/ejsLoader.c\<close>), the debug line tables and the
  tables of loaded and native modules (\<open>src/src/vm/ejsModule.c\<close>).

  An \<open>EjsString\<close> is its text, a null pointer is \<open>None\<close>, and an \<open>EjsName\<close> is the pair
  of name and namespace. The global object is a parameter: the objects in its slots and the
  lookup of a qualified name.
\<close>

section \<open>Emitters of the compiler\<close>

record ec =
  cbuf :: "u8 list"
  mconsts :: constants
  lastOpcode :: int
  fatalError :: bool
  ecError :: bool

type_synonym qname = "string \<times> string"
type_synonym emitter = "(ec, unit) op"

definition ecEncodeByte :: "int \<Rightarrow> emitter" where
  "ecEncodeByte value cp = (Ok (), cp\<lparr>cbuf := cbuf cp @ [word_of_int value]\<rparr>)"

definition ecEncodeOpcode :: "int \<Rightarrow> emitter" where
  "ecEncodeOpcode code cp = ecEncodeByte code (cp\<lparr>lastOpcode := code\<rparr>)"

definition ecEncodeNum :: "int \<Rightarrow> emitter" where
  "ecEncodeNum number cp = (Ok (), cp\<lparr>cbuf := cbuf cp @ ejsEncodeNum (word_of_int number)\<rparr>)"

text \<open>A number that does not fit writes nothing and the buffer is not advanced.\<close>

definition ecEncodeInt32 :: "int \<Rightarrow> emitter" where
  "ecEncodeInt32 number cp =
     (case ejsEncodeInt32 (word_of_int number) of
        None \<Rightarrow> (Ok (), cp) | Some bs \<Rightarrow> (Ok (), cp\<lparr>cbuf := cbuf cp @ bs\<rparr>))"

definition ecEncodeByteAtPos :: "nat \<Rightarrow> int \<Rightarrow> emitter" where
  "ecEncodeByteAtPos offset value cp =
     (case ejsEncodeByteAtPos (cbuf cp) offset (word_of_int value) of
        Ok b \<Rightarrow> (Ok (), cp\<lparr>cbuf := b\<rparr>) | _ \<Rightarrow> (Fault, cp))"

definition ecEncodeInt32AtPos :: "nat \<Rightarrow> int \<Rightarrow> emitter" where
  "ecEncodeInt32AtPos offset value cp =
     (if sint EJS_ENCODE_MAX_WORD < \<bar>value\<bar> then (Ok (), cp\<lparr>fatalError := True\<rparr>)
      else case ejsEncodeInt32AtPos (cbuf cp) offset (word_of_int value) of
        Ok b \<Rightarrow> (Ok (), cp\<lparr>cbuf := b\<rparr>) | _ \<Rightarrow> (Fault, cp))"

definition ecEncodeBlock :: "u8 list \<Rightarrow> emitter" where
  "ecEncodeBlock bytes cp = (Ok (), cp\<lparr>cbuf := cbuf cp @ bytes\<rparr>)"

text \<open>The text of a C string stops at its first NUL; it is written with that NUL.\<close>

definition c_text :: "string \<Rightarrow> string" where
  "c_text s = takeWhile (\<lambda>c. c \<noteq> NUL) s"

definition ecEncodeMulti :: "string \<Rightarrow> emitter" where
  "ecEncodeMulti str =
     (let len = int (length (c_text str)) + 1
      in andthen (ecEncodeNum len) (\<lambda>_. ecEncodeBlock (map byte_of (c_text str @ [NUL]))))"

definition ecEncodeWideAsMulti :: "string \<Rightarrow> emitter" where
  "ecEncodeWideAsMulti str =
     (let len = int (length (c_text str)) + 1
      in andthen (ecEncodeNum len) (\<lambda>_. ecEncodeBlock (map byte_of (c_text str @ [NUL]))))"

definition ecGetCodeOffset :: "ec \<Rightarrow> nat" where
  "ecGetCodeOffset cp = length (cbuf cp)"

definition ecGetCodeLen :: "nat \<Rightarrow> ec \<Rightarrow> int" where
  "ecGetCodeLen mark cp = int (length (cbuf cp)) - int mark"

definition ecAdjustCodeLength :: "int \<Rightarrow> emitter" where
  "ecAdjustCodeLength adj cp =
     (let end = int (length (cbuf cp)) + adj
      in if end < 0 \<or> int (length (cbuf cp)) < end then (Fault, cp)
         else (Ok (), cp\<lparr>cbuf := take (nat end) (cbuf cp)\<rparr>))"

definition ecCopyCode :: "nat \<Rightarrow> nat \<Rightarrow> int \<Rightarrow> emitter" where
  "ecCopyCode pos sz dist cp =
     (let dest = int pos + dist
      in if dest < 0 \<or> length (cbuf cp) < pos + sz \<or> int (length (cbuf cp)) < dest + int sz
         then (Fault, cp)
         else (Ok (), cp\<lparr>cbuf := write_block (cbuf cp) (nat dest) (take sz (drop pos (cbuf cp)))\<rparr>))"

subsection \<open>Constants of the module\<close>

definition on_pool :: "(constants, 'a) op \<Rightarrow> (ec, 'a) op" where
  "on_pool m cp = (case m (mconsts cp) of (r, cs) \<Rightarrow> (r, cp\<lparr>mconsts := cs\<rparr>))"

definition or_empty :: "string option \<Rightarrow> string" where
  "or_empty sp = (case sp of None \<Rightarrow> [] | Some s \<Rightarrow> c_text s)"

definition ecEncodeConst :: "string option \<Rightarrow> emitter" where
  "ecEncodeConst sp = andthen (on_pool (ecAddModuleConstant (or_empty sp)))
     (\<lambda>offset cp. if offset < 0 then (Ok (), cp\<lparr>ecError := True, fatalError := True\<rparr>)
                  else ecEncodeNum offset cp)"

definition ecEncodeName :: "qname \<Rightarrow> emitter" where
  "ecEncodeName qn = andthen (ecEncodeConst (Some (fst qn))) (\<lambda>_. ecEncodeConst (Some (snd qn)))"

definition ecAddStringConstant :: "string option \<Rightarrow> (ec, int) op" where
  "ecAddStringConstant sp = andthen (on_pool (ecAddModuleConstant (or_empty sp)))
     (\<lambda>offset cp. if offset < 0 then (Ok EJS_ERR, cp\<lparr>fatalError := True\<rparr>) else (Ok offset, cp))"

definition ecAddCStringConstant :: "string option \<Rightarrow> (ec, int) op" where
  "ecAddCStringConstant str = andthen (on_pool (ecAddModuleConstant (or_empty str)))
     (\<lambda>offset cp. if offset < 0 then (Ok EJS_ERR, cp\<lparr>fatalError := True\<rparr>) else (Ok offset, cp))"

definition ecAddNameConstant :: "qname \<Rightarrow> (ec, int) op" where
  "ecAddNameConstant qn = andthen (ecAddStringConstant (Some (fst qn))) (\<lambda>r.
     if r < 0 then ret EJS_ERR
     else andthen (ecAddStringConstant (Some (snd qn))) (\<lambda>r'. ret (if r' < 0 then EJS_ERR else 0)))"

definition encodeTypeName :: "string \<Rightarrow> int \<Rightarrow> emitter" where
  "encodeTypeName name flags = andthen (on_pool (ecAddModuleConstant (c_text name)))
     (\<lambda>offset cp. if offset < 0 then (Ok (), cp\<lparr>fatalError := True\<rparr>)
                  else ecEncodeNum (push_bit 2 offset OR flags) cp)"

definition EJS_ENCODE_GLOBAL_NOREF :: int where "EJS_ENCODE_GLOBAL_NOREF = 0"
definition EJS_ENCODE_GLOBAL_NAME :: int where "EJS_ENCODE_GLOBAL_NAME = 1"
definition EJS_ENCODE_GLOBAL_SLOT :: int where "EJS_ENCODE_GLOBAL_SLOT = 2"
definition EJS_ENCODE_GLOBAL_MASK :: int where "EJS_ENCODE_GLOBAL_MASK = 3"

text \<open>
  A reference to a global (usually a type): the slot for the built-in types, whose number is below
  \<open>ES_global_NUM_CLASS_PROP\<close> (\<open>numClass\<close>, from a generated header); the name for the others.
  \<open>lookup\<close> is the lookup of the name in the global object.
\<close>

definition ecEncodeGlobal :: "int \<Rightarrow> (qname \<Rightarrow> int) \<Rightarrow> bool \<Rightarrow> qname \<Rightarrow> emitter" where
  "ecEncodeGlobal numClass lookup isNull qn =
     (if isNull then ecEncodeNum EJS_ENCODE_GLOBAL_NOREF
      else let slotNum = lookup qn
        in if slotNum < numClass \<and> 0 \<le> slotNum
           then ecEncodeNum (push_bit 2 slotNum OR EJS_ENCODE_GLOBAL_SLOT)
           else andthen (encodeTypeName (fst qn) EJS_ENCODE_GLOBAL_NAME)
                  (\<lambda>_. ecEncodeConst (Some (snd qn))))"

definition sumNum :: "int \<Rightarrow> int" where
  "sumNum value = value"

fun sumChars :: "string \<Rightarrow> int" where
  "sumChars [] = 0"
| "sumChars (c # cs) = (if c = NUL then 0 else char_val c + sumChars cs)"

definition sumString :: "string option \<Rightarrow> int" where
  "sumString name = (case name of None \<Rightarrow> 0 | Some s \<Rightarrow> sumChars s)"

section \<open>Debug line tables\<close>

record debug_line =
  loffset :: int
  lsource :: string

text \<open>The allocated size and the lines in use; \<open>numLines\<close> is the length of \<open>dlines\<close>.\<close>

record debug =
  dsize :: int
  dlines :: "debug_line list"

definition EJS_DEBUG_INCR :: int where "EJS_DEBUG_INCR = 16"

definition blank_line :: debug_line where
  "blank_line = \<lparr>loffset = 0, lsource = []\<rparr>"

definition ejsCreateDebug :: "int \<Rightarrow> debug" where
  "ejsCreateDebug len = \<lparr>dsize = (if 0 < len then len else EJS_DEBUG_INCR),
                         dlines = replicate (nat len) blank_line\<rparr>"

text \<open>
  A line at the offset of the last line replaces it. The table grows when it is full, so that the
  new line always has a cell.
\<close>

definition ejsAddDebugLine :: "debug option \<Rightarrow> int \<Rightarrow> string \<Rightarrow> debug" where
  "ejsAddDebugLine debugp offset source =
     (let d = (case debugp of None \<Rightarrow> ejsCreateDebug 0 | Some d \<Rightarrow> d);
          d' = (if dsize d \<le> int (length (dlines d)) then d\<lparr>dsize := dsize d + EJS_DEBUG_INCR\<rparr> else d);
          line = \<lparr>loffset = offset, lsource = source\<rparr>
      in if dlines d' \<noteq> [] \<and> offset = loffset (last (dlines d'))
         then d'\<lparr>dlines := butlast (dlines d') @ [line]\<rparr>
         else d'\<lparr>dlines := dlines d' @ [line]\<rparr>)"

text \<open>The search of \<open>ejsGetDebugLine\<close>: the first line beyond the offset ends the loop.\<close>

fun first_beyond :: "int \<Rightarrow> debug_line list \<Rightarrow> nat" where
  "first_beyond offset [] = 0"
| "first_beyond offset (l # ls) = (if offset < loffset l then 0 else Suc (first_beyond offset ls))"

definition ejsGetDebugLine :: "debug option \<Rightarrow> int \<Rightarrow> debug_line option" where
  "ejsGetDebugLine debug pc =
     (let offset = pc - 1
      in case debug of None \<Rightarrow> None
         | Some d \<Rightarrow>
             if dlines d \<noteq> [] then
               (let i = first_beyond offset (dlines d)
                in Some (dlines d ! (if 0 < i then i - 1 else i)))
             else None)"

definition EJS_SECT_DEBUG :: int where "EJS_SECT_DEBUG = 3"

fun encode_lines :: "debug_line list \<Rightarrow> emitter" where
  "encode_lines [] = ret ()"
| "encode_lines (l # ls) =
     andthen (ecEncodeNum (loffset l)) (\<lambda>_.
     andthen (ecEncodeWideAsMulti (lsource l)) (\<lambda>_. encode_lines ls))"

definition createDebugSection :: "debug \<Rightarrow> emitter" where
  "createDebugSection d =
     andthen (ecEncodeByte EJS_SECT_DEBUG) (\<lambda>_ cp.
       let patchSizeOffset = ecGetCodeOffset cp
       in andthen (ecEncodeInt32 0) (\<lambda>_ cp.
            let startDebug = ecGetCodeOffset cp
            in andthen (ecEncodeNum (int (length (dlines d)))) (\<lambda>_.
               andthen (encode_lines (dlines d)) (\<lambda>_ cp.
                 ecEncodeInt32AtPos patchSizeOffset (int (ecGetCodeOffset cp) - int startDebug) cp)) cp) cp)"

text \<open>
  Loading notes where the table is and skips it. \<open>file\<close> is the whole file, of which
  \<open>mfile\<close> is what follows the current position; seeking before its start fails and leaves the
  position.
\<close>

definition loadDebugSection :: "u8 list \<Rightarrow> (module_file, nat) op" where
  "loadDebugSection file = andthen ejsModuleReadInt32 (\<lambda>sz mp.
     let pos = length file - length (mfile mp); target = int pos + sint sz
     in (Ok pos, if target < 0 then mp else mp\<lparr>mfile := drop (nat target) file\<rparr>))"

definition ejsModuleReadMultiAsWide :: "(module_file, string option) op" where
  "ejsModuleReadMultiAsWide = andthen ejsModuleReadMulti
     (\<lambda>bytes. ret (map_option (\<lambda>bs. c_text (map char_of_byte bs)) bytes))"

fun read_lines :: "nat \<Rightarrow> (module_file, debug_line list) op" where
  "read_lines 0 = ret []"
| "read_lines (Suc n) =
     andthen ejsModuleReadInt (\<lambda>offset.
     andthen ejsModuleReadMultiAsWide (\<lambda>source.
     andthen (read_lines n) (\<lambda>ls.
       ret (\<lparr>loffset = sint offset, lsource = (case source of None \<Rightarrow> [] | Some s \<Rightarrow> s)\<rparr> # ls))))"

definition loadDebug :: "u8 list \<Rightarrow> nat \<Rightarrow> debug option res" where
  "loadDebug file debugOffset =
     fst (andthen ejsModuleReadInt (\<lambda>len mp.
            if hasError mp then (Ok None, mp)
            else andthen (read_lines (nat (sint len))) (\<lambda>ls mp.
              (Ok (if hasError mp then None
                   else Some ((ejsCreateDebug (sint len))\<lparr>dlines := ls\<rparr>)), mp)) mp)
          \<lparr>mfile = drop debugOffset file, hasError = False\<rparr>)"

section \<open>Loader: names, types and the module header\<close>

text \<open>A module being loaded: its file and its constants.\<close>

type_synonym loading = "module_file \<times> constants"

definition on_file :: "(module_file, 'a) op \<Rightarrow> (loading, 'a) op" where
  "on_file m s = (case m (fst s) of (r, f) \<Rightarrow> (r, (f, snd s)))"

definition on_consts :: "(constants, 'a) op \<Rightarrow> (loading, 'a) op" where
  "on_consts m s = (case m (snd s) of (r, cs) \<Rightarrow> (r, (fst s, cs)))"

definition ejsModuleReadConst :: "(loading, string option) op" where
  "ejsModuleReadConst = andthen (on_file ejsModuleReadInt)
     (\<lambda>t. on_consts (ejsCreateStringFromConst (sint t)))"

definition ejsModuleReadName :: "(loading, string option \<times> string option) op" where
  "ejsModuleReadName =
     andthen (on_file ejsModuleReadInt) (\<lambda>t.
     andthen (on_consts (ejsCreateStringFromConst (sint t))) (\<lambda>name.
     andthen (on_file ejsModuleReadInt) (\<lambda>t'.
     andthen (on_consts (ejsCreateStringFromConst (sint t'))) (\<lambda>space. ret (name, space)))))"

text \<open>
  What a slot of the global object holds, as far as type references look at it; the name of an
  object that is not a type is never used. A reference yields the slot of the type, or a fixup to
  be resolved when all modules are loaded.
\<close>

datatype global_obj = NoObj | NullObj | TypeObj qname | OtherObj

record type_ref =
  typeRef :: "nat option"
  fixup :: "((string option \<times> string option) \<times> int) option"
  typeName :: "string option \<times> string option"
  slotNum :: int

definition no_ref :: type_ref where
  "no_ref = \<lparr>typeRef = None, fixup = None, typeName = (None, None), slotNum = -1\<rparr>"

definition MPR_ERR_CANT_LOAD :: int where "MPR_ERR_CANT_LOAD = -20"

definition load_error :: "(loading, int \<times> type_ref) op" where
  "load_error s = (Ok (MPR_ERR_CANT_LOAD, no_ref), ((fst s)\<lparr>hasError := True\<rparr>, snd s))"

definition bind_type ::
  "global_obj list \<Rightarrow> int \<Rightarrow> string option \<times> string option \<Rightarrow> (loading, int \<times> type_ref) op" where
  "bind_type globals slot qn s =
     (let obj = (if 0 \<le> slot \<and> slot < int (length globals) then globals ! nat slot else NoObj)
      in case obj of
           OtherObj \<Rightarrow> load_error s
         | TypeObj _ \<Rightarrow> (Ok (0, \<lparr>typeRef = Some (nat slot), fixup = None, typeName = qn, slotNum = slot\<rparr>), s)
         | _ \<Rightarrow> (Ok (0, \<lparr>typeRef = None, fixup = Some (qn, slot), typeName = qn, slotNum = slot\<rparr>), s))"

definition ejsModuleReadType ::
  "global_obj list \<Rightarrow> (qname \<Rightarrow> int) \<Rightarrow> (loading, int \<times> type_ref) op" where
  "ejsModuleReadType globals lookup = andthen (on_file ejsModuleReadInt) (\<lambda>t.
     let tag = sint t AND EJS_ENCODE_GLOBAL_MASK; v = drop_bit 2 (sint t)
     in if tag = EJS_ENCODE_GLOBAL_NOREF then ret (0, no_ref)
        else if tag = EJS_ENCODE_GLOBAL_SLOT then
          (let qn = (if 0 \<le> v \<and> v < int (length globals)
                     then case globals ! nat v of TypeObj q \<Rightarrow> (Some (fst q), Some (snd q)) | _ \<Rightarrow> (None, None)
                     else (None, None))
           in bind_type globals v qn)
        else if tag = EJS_ENCODE_GLOBAL_NAME then
          andthen (on_consts (ejsCreateStringFromConst v)) (\<lambda>name.
            case name of None \<Rightarrow> load_error
            | Some n \<Rightarrow> andthen ejsModuleReadConst (\<lambda>space.
                case space of None \<Rightarrow> load_error
                | Some sp \<Rightarrow> bind_type globals (lookup (n, sp)) (Some n, Some sp)))
        else load_error)"

subsection \<open>The module header, its constant pool and its dependencies\<close>

definition EJS_SECT_MODULE :: int where "EJS_SECT_MODULE = 1"
definition EJS_SECT_MODULE_END :: int where "EJS_SECT_MODULE_END = 2"
definition EJS_SECT_DEPENDENCY :: int where "EJS_SECT_DEPENDENCY = 4"
definition EJS_MAX_POOL :: int where "EJS_MAX_POOL = 4 * 1024 * 1024"
definition EJS_VERSION_FACTOR :: int where "EJS_VERSION_FACTOR = 1000"

text \<open>The fields of \<open>EjsModule\<close> that name it, order its versions and are written for it.\<close>

record ejs_module =
  mname :: string
  mversion :: int
  minVersion :: int
  maxVersion :: int
  mchecksum :: int
  mcompiling :: bool

text \<open>Versions are not negative, so the C division agrees with \<open>div\<close> on them.\<close>

definition EJS_MAKE_COMPAT_VERSION :: "int \<Rightarrow> int" where
  "EJS_MAKE_COMPAT_VERSION v = v div EJS_VERSION_FACTOR * EJS_VERSION_FACTOR"

text \<open>
  The dependencies of a module, skipped for a module compiled into the same output and for the
  module itself; a fatal error ends the loop. The result is what the loop adds to the checksum.
\<close>

fun createDependencySection ::
  "string \<Rightarrow> bool \<Rightarrow> bool \<Rightarrow> ejs_module list \<Rightarrow> (ec, int) op" where
  "createDependencySection self outputFile bnd [] = ret 0"
| "createDependencySection self outputFile bnd (m # ms) =
     (if mcompiling m \<and> outputFile then createDependencySection self outputFile bnd ms
      else if self = mname m then createDependencySection self outputFile bnd ms
      else
        andthen (ecEncodeByte EJS_SECT_DEPENDENCY) (\<lambda>_.
        andthen (ecEncodeConst (Some (mname m))) (\<lambda>_.
        andthen (ecEncodeNum (mchecksum m)) (\<lambda>_.
        andthen (ecEncodeNum (if bnd then EJS_MAKE_COMPAT_VERSION (mversion m) else minVersion m)) (\<lambda>_.
        andthen (ecEncodeNum (if bnd then EJS_MAKE_COMPAT_VERSION (mversion m) else maxVersion m)) (\<lambda>_ cp.
          if fatalError cp then (Ok 0, cp)
          else andthen (createDependencySection self outputFile bnd ms)
                 (\<lambda>sum. ret (sumString (Some (mname m)) + sum)) cp))))))"

text \<open>
  \<open>sections\<close> stands for what the module holds after its header: the dependencies, the
  initializer and the global properties. It yields what these add to the checksum.
\<close>

definition ecCreateModuleSection :: "string \<Rightarrow> int \<Rightarrow> int \<Rightarrow> (ec, int) op \<Rightarrow> (ec, int \<times> int) op" where
  "ecCreateModuleSection name version checksum sections =
     andthen (ecEncodeByte EJS_SECT_MODULE) (\<lambda>_.
     andthen (ecEncodeConst (Some name)) (\<lambda>_.
     andthen (ecEncodeNum version) (\<lambda>_ cp.
     let checksumOffset = ecGetCodeOffset cp
     in andthen (ecEncodeInt32 0) (\<lambda>_ cp.
        andthen (ecEncodeNum (int (length (pool (mconsts cp))))) (\<lambda>_.
        andthen (ecEncodeNum (int (length (index (mconsts cp))))) (\<lambda>_.
        andthen (ecEncodeBlock (map byte_of (pool (mconsts cp)))) (\<lambda>_.
        andthen sections (\<lambda>sums.
        andthen (ecEncodeByte EJS_SECT_MODULE_END) (\<lambda>_ cp.
          if fatalError cp then (Ok (MPR_ERR_CANT_WRITE, checksum + sums), cp)
          else
            (let sum = checksum + sums + (sumString (Some name) AND sint EJS_ENCODE_MAX_WORD)
             in andthen (ecEncodeInt32AtPos checksumOffset sum) (\<lambda>_. ret (0, sum)) cp))))))
          (cp\<lparr>mconsts := (mconsts cp)\<lparr>locked := True\<rparr>\<rparr>)) cp)))"

text \<open>
  What \<open>loadModuleSection\<close> reads: the interned name, the version, the checksum and the
  constants; \<open>None\<close> where it returns a null pointer. A negative string count makes the
  allocation of the index fail.
\<close>

record module_header =
  hname :: "string option"
  hversion :: int
  hchecksum :: int
  hconsts :: constants

definition loadModuleSection :: "(module_file, module_header option) op" where
  "loadModuleSection =
     andthen ejsModuleReadInt (\<lambda>nameToken.
     andthen ejsModuleReadInt (\<lambda>version.
     andthen ejsModuleReadInt32 (\<lambda>checksum.
     andthen ejsModuleReadInt (\<lambda>poolSize.
     andthen ejsModuleReadInt (\<lambda>poolCount mp.
       if hasError mp \<or> sint poolSize \<le> 0 \<or> EJS_MAX_POOL < sint poolSize then (Ok None, mp)
       else if sint nameToken < 0 \<or> sint poolSize \<le> sint nameToken then (Ok None, mp)
       else let sz = nat (sint poolSize)
         in if length (mfile mp) < sz then (Ok None, mp\<lparr>mfile := []\<rparr>)
            else if sint poolCount < 0 then (Ok None, mp\<lparr>mfile := drop sz (mfile mp)\<rparr>)
            else case ejsCreateConstants False (nat (sint poolCount)) sz
                        (Some (map char_of_byte (take sz (mfile mp)))) of
                Ok cs \<Rightarrow>
                  (case ejsCreateStringFromConst (sint nameToken) cs of
                     (Ok name, cs') \<Rightarrow>
                       (Ok (Some \<lparr>hname = name, hversion = sint version, hchecksum = sint checksum,
                                  hconsts = cs'\<rparr>), mp\<lparr>mfile := drop sz (mfile mp)\<rparr>)
                   | _ \<Rightarrow> (Fault, mp))
              | _ \<Rightarrow> (Fault, mp))))))"

text \<open>The fields of a dependency record, in the order the loader reads them.\<close>

definition read_dependency :: "(loading, string option \<times> int \<times> int \<times> int) op" where
  "read_dependency =
     andthen ejsModuleReadConst (\<lambda>name.
     andthen (on_file ejsModuleReadInt) (\<lambda>checksum.
     andthen (on_file ejsModuleReadInt) (\<lambda>minv.
     andthen (on_file ejsModuleReadInt) (\<lambda>maxv.
       ret (name, sint checksum, sint minv, sint maxv)))))"

section \<open>Loaded and native modules\<close>

definition MAXINT :: int where "MAXINT = 0x7fffffff"

definition acceptable_version :: "int \<Rightarrow> int \<Rightarrow> int \<Rightarrow> bool" where
  "acceptable_version minv maxv v \<longleftrightarrow> (minv = 0 \<and> maxv = 0) \<or> (minv \<le> v \<and> v \<le> maxv)"

fun best_module ::
  "string \<Rightarrow> int \<Rightarrow> int \<Rightarrow> ejs_module option \<Rightarrow> ejs_module list \<Rightarrow> ejs_module option" where
  "best_module name minv maxv best [] = best"
| "best_module name minv maxv best (mp # ms) =
     best_module name minv maxv
       (if acceptable_version minv maxv (mversion mp) \<and> mname mp = name
          \<and> (case best of None \<Rightarrow> True | Some b \<Rightarrow> mversion b < mversion mp)
        then Some mp else best) ms"

definition ejsLookupModule :: "ejs_module list \<Rightarrow> string \<Rightarrow> int \<Rightarrow> int \<Rightarrow> ejs_module option" where
  "ejsLookupModule mods name minv maxv =
     best_module name minv (if maxv < 0 then MAXINT else maxv) None mods"

definition ejsAddModule :: "ejs_module \<Rightarrow> ejs_module list \<Rightarrow> ejs_module list" where
  "ejsAddModule mp mods = mods @ [mp]"

definition ejsRemoveModule :: "ejs_module \<Rightarrow> ejs_module list \<Rightarrow> ejs_module list" where
  "ejsRemoveModule mp mods = remove1 mp mods"

definition ejsRemoveModuleFromAll :: "ejs_module \<Rightarrow> ejs_module list list \<Rightarrow> ejs_module list list" where
  "ejsRemoveModuleFromAll mp vms = map (ejsRemoveModule mp) vms"

text \<open>Native modules are found by name; the first registration of a name stays.\<close>

definition ejsLookupNativeModule :: "(string \<Rightarrow> 'a option) \<Rightarrow> string \<Rightarrow> 'a option" where
  "ejsLookupNativeModule natives name = natives name"

definition ejsAddNativeModule ::
  "string \<Rightarrow> 'a \<Rightarrow> (string \<Rightarrow> 'a option) \<Rightarrow> (string \<Rightarrow> 'a option)" where
  "ejsAddNativeModule name nm natives =
     (if ejsLookupNativeModule natives name \<noteq> None then natives else natives(name \<mapsto> nm))"

section \<open>Integers and names, written and read\<close>

lemma sint_small32: "\<bar>k\<bar> < 2 ^ 31 \<Longrightarrow> sint (word_of_int k :: u32) = k"
  by (simp add: sint_sbintrunc' signed_take_bit_int_eq_self)

lemma sint_small64: "\<bar>k\<bar> < 2 ^ 31 \<Longrightarrow> sint (word_of_int k :: u64) = k"
  by (simp add: sint_sbintrunc' signed_take_bit_int_eq_self)

lemma uint_small32: "0 \<le> k \<Longrightarrow> k < 2 ^ 31 \<Longrightarrow> uint (word_of_int k :: u32) = k"
  by (simp add: uint_word_of_int_eq take_bit_int_eq_self)

lemma scast_small: "\<bar>k\<bar> < 2 ^ 31 \<Longrightarrow> (scast (word_of_int k :: u32) :: u64) = word_of_int k"
  by (metis sint_small32 scast_eq)

lemma read_int:
  assumes "\<bar>k\<bar> < 2 ^ 31" and "mfile mp = ejsEncodeNum (word_of_int k) @ rest"
  shows "ejsModuleReadInt mp = (Ok (word_of_int k), mp\<lparr>mfile := rest\<rparr>)"
proof (rule read_encode_int)
  show "mfile mp = ejsEncodeNum (scast (word_of_int k :: u32)) @ rest"
    using assms by (simp only: scast_small)
  show "sint (word_of_int k :: u32) \<noteq> - (2 ^ 31)"
    using assms(1) by (simp only: sint_small32)
qed

lemma ecEncodeConst_emits:
  assumes "pool_rel (mconsts cp) strs" and "\<not> locked (mconsts cp)" and "NUL \<notin> set s"
  shows "\<exists>i cs' strs'. ecEncodeConst (Some s) cp
             = (Ok (), cp\<lparr>cbuf := cbuf cp @ ejsEncodeNum (word_of_int (int i)), mconsts := cs'\<rparr>)
           \<and> pool_rel cs' strs' \<and> \<not> locked cs' \<and> (strs' = strs \<or> strs' = strs @ [s])
           \<and> i < length strs' \<and> strs' ! i = s"
proof -
  from ecAddModuleConstant_refines [OF assms] obtain i cs' strs' where
    step: "ecAddModuleConstant s (mconsts cp) = (Ok (int i), cs')" and
    res: "pool_rel cs' strs'" "\<not> locked cs'" "strs' = strs \<or> strs' = strs @ [s]"
      "i < length strs'" "strs' ! i = s"
    by (elim exE conjE, intro that)
  have "or_empty (Some s) = s"
    using assms(3) by (simp add: or_empty_def c_text_def) (metis (full_types) takeWhile_eq_all_conv)
  then have "ecEncodeConst (Some s) cp
      = (Ok (), cp\<lparr>cbuf := cbuf cp @ ejsEncodeNum (word_of_int (int i)), mconsts := cs'\<rparr>)"
    using step by (simp add: ecEncodeConst_def on_pool_def andthen_def ecEncodeNum_def)
  with res show ?thesis by blast
qed

lemma pool_rel_prefix:
  "strs' = strs \<or> strs' = strs @ [s] \<Longrightarrow> i < length strs \<Longrightarrow> i < length strs' \<and> strs' ! i = strs ! i"
  by (auto simp: nth_append)

lemma ejsModuleReadConst_reads:
  assumes "pool_rel cs strs" and "i < length strs" and "length strs < 2 ^ 31"
    and "mfile mp = ejsEncodeNum (word_of_int (int i)) @ rest"
  shows "\<exists>cs'. ejsModuleReadConst (mp, cs) = (Ok (Some (strs ! i)), (mp\<lparr>mfile := rest\<rparr>, cs'))
           \<and> pool_rel cs' strs"
proof -
  have k: "\<bar>int i\<bar> < 2 ^ 31" using assms(2,3) by simp
  from ejsCreateStringFromConst_refines [OF assms(1,2)] obtain cs' where
    "ejsCreateStringFromConst (int i) cs = (Ok (Some (strs ! i)), cs')" "pool_rel cs' strs"
    by (elim exE conjE, intro that)
  then show ?thesis
    using read_int [OF k assms(4)] sint_small32 [OF k]
    by (intro exI [of _ cs'])
      (simp add: ejsModuleReadConst_def on_file_def on_consts_def andthen_def)
qed

lemma ejsModuleReadName_alt:
  "ejsModuleReadName = andthen ejsModuleReadConst (\<lambda>name.
     andthen ejsModuleReadConst (\<lambda>space. ret (name, space)))"
  by (rule ext)
    (auto simp: ejsModuleReadName_def ejsModuleReadConst_def andthen_def split: res.splits prod.splits)

lemma name_write_read:
  assumes rel: "pool_rel (mconsts cp) strs" and unlocked: "\<not> locked (mconsts cp)"
    and nul: "NUL \<notin> set name" "NUL \<notin> set space" and few: "length strs + 2 < 2 ^ 31"
  shows "\<exists>cp' strs' bs. ecEncodeName (name, space) cp = (Ok (), cp')
           \<and> cbuf cp' = cbuf cp @ bs \<and> pool_rel (mconsts cp') strs' \<and> \<not> locked (mconsts cp')
           \<and> strs' \<noteq> [] \<and> length strs' \<le> length strs + 2
           \<and> (\<forall>cs mp rest. pool_rel cs strs' \<longrightarrow> mfile mp = bs @ rest \<longrightarrow>
                (\<exists>cs'. ejsModuleReadName (mp, cs)
                   = (Ok (Some name, Some space), (mp\<lparr>mfile := rest\<rparr>, cs')) \<and> pool_rel cs' strs'))"
proof -
  from ecEncodeConst_emits [OF rel unlocked nul(1)] obtain i cs1 strs1 where
    w1: "ecEncodeConst (Some name) cp
           = (Ok (), cp\<lparr>cbuf := cbuf cp @ ejsEncodeNum (word_of_int (int i)), mconsts := cs1\<rparr>)"
      (is "_ = (_, ?cp1)") and
    r1: "pool_rel cs1 strs1" "\<not> locked cs1" "strs1 = strs \<or> strs1 = strs @ [name]"
      "i < length strs1" "strs1 ! i = name"
    by (elim exE conjE, intro that)
  have "pool_rel (mconsts ?cp1) strs1" "\<not> locked (mconsts ?cp1)" using r1 by simp_all
  from ecEncodeConst_emits [OF this nul(2)] obtain j cs2 strs2 where
    w2: "ecEncodeConst (Some space) ?cp1
           = (Ok (), ?cp1\<lparr>cbuf := cbuf ?cp1 @ ejsEncodeNum (word_of_int (int j)), mconsts := cs2\<rparr>)"
      (is "_ = (_, ?cp2)") and
    r2: "pool_rel cs2 strs2" "\<not> locked cs2" "strs2 = strs1 \<or> strs2 = strs1 @ [space]"
      "j < length strs2" "strs2 ! j = space"
    by (elim exE conjE, intro that)
  let ?bs = "ejsEncodeNum (word_of_int (int i)) @ ejsEncodeNum (word_of_int (int j))"
  have i2: "i < length strs2" "strs2 ! i = name"
    using pool_rel_prefix [OF r2(3) r1(4)] r1(5) by auto
  have few2: "length strs2 \<le> length strs + 2" using r1(3) r2(3) by auto
  have "\<exists>cs'. ejsModuleReadName (mp, cs) = (Ok (Some name, Some space), (mp\<lparr>mfile := rest\<rparr>, cs'))
          \<and> pool_rel cs' strs2"
    if cs: "pool_rel cs strs2" and mp: "mfile mp = ?bs @ rest" for cs mp rest
  proof -
    have few3: "length strs2 < 2 ^ 31" using few few2 by simp
    have mp': "mfile mp = ejsEncodeNum (word_of_int (int i)) @ ejsEncodeNum (word_of_int (int j)) @ rest"
      using mp by simp
    from ejsModuleReadConst_reads [OF cs i2(1) few3 mp'] obtain cs' where
      s1: "ejsModuleReadConst (mp, cs) = (Ok (Some (strs2 ! i)),
         (mp\<lparr>mfile := ejsEncodeNum (word_of_int (int j)) @ rest\<rparr>, cs'))" "pool_rel cs' strs2"
      by (elim exE conjE, intro that)
    have "mfile (mp\<lparr>mfile := ejsEncodeNum (word_of_int (int j)) @ rest\<rparr>)
        = ejsEncodeNum (word_of_int (int j)) @ rest" by simp
    from ejsModuleReadConst_reads [OF s1(2) r2(4) few3 this] obtain cs'' where
      s2: "ejsModuleReadConst (mp\<lparr>mfile := ejsEncodeNum (word_of_int (int j)) @ rest\<rparr>, cs')
        = (Ok (Some (strs2 ! j)), (mp\<lparr>mfile := rest\<rparr>, cs''))" "pool_rel cs'' strs2"
      by (elim exE conjE, intro that) simp_all
    show ?thesis using s1 s2 i2(2) r2(5)
      by (intro exI [of _ cs'']) (simp add: ejsModuleReadName_alt)
  qed
  moreover have "ecEncodeName (name, space) cp = (Ok (), ?cp2)"
    using w1 w2 by (simp add: ecEncodeName_def)
  moreover have "strs2 \<noteq> []" using r2(4) by auto
  ultimately show ?thesis using r2 few2 by (intro exI [of _ ?cp2] exI [of _ strs2] exI [of _ ?bs]) simp
qed

section \<open>Debug tables, written and loaded\<close>

lemma c_text_no_NUL: "NUL \<notin> set (c_text s)"
  unfolding c_text_def by (metis (full_types) set_takeWhileD)

lemma c_text_id: "NUL \<notin> set s \<Longrightarrow> c_text s = s"
  by (simp add: c_text_def) (metis (full_types) takeWhile_eq_all_conv)

lemma c_text_terminated: "c_text (c_text s @ [NUL]) = c_text s"
proof -
  have "\<forall>x \<in> set (c_text s). x \<noteq> NUL" using c_text_no_NUL by blast
  then show ?thesis by (simp add: c_text_def [of "c_text s @ [NUL]"])
qed

definition wide_bytes :: "string \<Rightarrow> u8 list" where
  "wide_bytes s = ejsEncodeNum (word_of_int (int (length (c_text s)) + 1))
     @ map byte_of (c_text s @ [NUL])"

lemma ecEncodeWideAsMulti_emits:
  "ecEncodeWideAsMulti s cp = (Ok (), cp\<lparr>cbuf := cbuf cp @ wide_bytes s\<rparr>)"
  by (simp add: ecEncodeWideAsMulti_def wide_bytes_def andthen_def ecEncodeNum_def ecEncodeBlock_def)

lemma read_wide:
  assumes "length (c_text s) + 1 < 2 ^ 31" and "mfile mp = wide_bytes s @ rest"
    and "\<not> hasError mp"
  shows "ejsModuleReadMultiAsWide mp = (Ok (Some (c_text s)), mp\<lparr>mfile := rest\<rparr>)"
proof -
  let ?n = "int (length (c_text s)) + 1" and ?data = "map byte_of (c_text s @ [NUL])"
  have k: "\<bar>?n\<bar> < 2 ^ 31" using assms(1) by simp
  have "mfile mp = ejsEncodeNum (word_of_int ?n) @ (?data @ rest)"
    using assms(2) by (simp add: wide_bytes_def)
  note r = read_int [OF k this]
  have pos: "\<not> (word_of_int ?n :: u32) <s 0"
    by (simp only: word_sless_alt sint_small32 [OF k]) simp
  have "uint (word_of_int ?n :: u32) = ?n" using assms(1) by (intro uint_small32) simp_all
  then have u: "unat (word_of_int ?n :: u32) = length ?data" by (simp add: unat_eq_nat_uint)
  have "ejsModuleReadMulti mp = (Ok (Some ?data), mp\<lparr>mfile := rest\<rparr>)"
    using r pos u assms(3) by (simp add: ejsModuleReadMulti_def del: map_append)
  then show ?thesis
    using c_text_terminated [of s]
    by (simp only: ejsModuleReadMultiAsWide_def andthen_Ok ret_simp option.map map_char_of_byte_of)
qed

definition line_bytes :: "debug_line \<Rightarrow> u8 list" where
  "line_bytes l = ejsEncodeNum (word_of_int (loffset l)) @ wide_bytes (lsource l)"

lemma encode_lines_emits:
  "encode_lines ls cp = (Ok (), cp\<lparr>cbuf := cbuf cp @ concat (map line_bytes ls)\<rparr>)"
  by (induction ls arbitrary: cp)
    (simp_all add: andthen_def ecEncodeNum_def ecEncodeWideAsMulti_emits line_bytes_def)

text \<open>What a debug table needs to be representable in a module file.\<close>

definition line_ok :: "debug_line \<Rightarrow> bool" where
  "line_ok l \<longleftrightarrow> \<bar>loffset l\<bar> < 2 ^ 31 \<and> NUL \<notin> set (lsource l) \<and> length (lsource l) + 1 < 2 ^ 31"

lemma read_lines_reads:
  "\<forall>l \<in> set ls. line_ok l \<Longrightarrow> mfile mp = concat (map line_bytes ls) @ rest \<Longrightarrow> \<not> hasError mp \<Longrightarrow>
     read_lines (length ls) mp = (Ok ls, mp\<lparr>mfile := rest\<rparr>)"
proof (induction ls arbitrary: mp)
  case (Cons l ls)
  let ?tail = "concat (map line_bytes ls) @ rest"
  from Cons.prems(1) have ok: "\<bar>loffset l\<bar> < 2 ^ 31" "c_text (lsource l) = lsource l"
    "length (c_text (lsource l)) + 1 < 2 ^ 31"
    by (auto simp: line_ok_def c_text_id)
  have "mfile mp = ejsEncodeNum (word_of_int (loffset l)) @ (wide_bytes (lsource l) @ ?tail)"
    using Cons.prems(2) line_bytes_def [of l] by simp
  note r1 = read_int [OF ok(1) this]
  have r2: "ejsModuleReadMultiAsWide (mp\<lparr>mfile := wide_bytes (lsource l) @ ?tail\<rparr>)
      = (Ok (Some (lsource l)), mp\<lparr>mfile := ?tail\<rparr>)"
    using read_wide [OF ok(3), of "mp\<lparr>mfile := wide_bytes (lsource l) @ ?tail\<rparr>" ?tail]
      Cons.prems(3) ok(2) by simp
  have r3: "read_lines (length ls) (mp\<lparr>mfile := ?tail\<rparr>) = (Ok ls, mp\<lparr>mfile := rest\<rparr>)"
    using Cons.IH [of "mp\<lparr>mfile := ?tail\<rparr>"] Cons.prems(1,3) by simp
  show ?case using r1 r2 r3 sint_small32 [OF ok(1)] by simp
qed simp

definition debug_bytes :: "debug \<Rightarrow> u8 list" where
  "debug_bytes d = ejsEncodeNum (word_of_int (int (length (dlines d)))) @ concat (map line_bytes (dlines d))"

lemma loadDebug_reads:
  assumes "\<forall>l \<in> set (dlines d). line_ok l" and few: "length (dlines d) < 2 ^ 31"
    and "drop pos file = debug_bytes d @ rest"
  shows "\<exists>n. loadDebug file pos = Ok (Some \<lparr>dsize = n, dlines = dlines d\<rparr>)"
proof -
  let ?n = "int (length (dlines d))"
  have k: "\<bar>?n\<bar> < 2 ^ 31" using few by simp
  let ?mp = "\<lparr>mfile = drop pos file, hasError = False\<rparr>"
  have "mfile ?mp = ejsEncodeNum (word_of_int ?n) @ (concat (map line_bytes (dlines d)) @ rest)"
    using assms(3) by (simp add: debug_bytes_def)
  note r1 = read_int [OF k this]
  have r2: "read_lines (nat (sint (word_of_int ?n :: u32)))
      (?mp\<lparr>mfile := concat (map line_bytes (dlines d)) @ rest\<rparr>) = (Ok (dlines d), ?mp\<lparr>mfile := rest\<rparr>)"
    using read_lines_reads [OF assms(1), of _ rest] by (simp only: sint_small32 [OF k]) simp
  show ?thesis using r1 r2 by (simp add: loadDebug_def ejsCreateDebug_def)
qed

lemma zero_word_bytes: "ejsEncodeInt32 0 = Some [0, 0, 0, 0]"
  by (simp add: ejsEncodeInt32_def EJS_ENCODE_MAX_WORD_def abs32_def word_sless_alt Let_def
      ejsEncodeNum_def encode_tail.simps write_block_def)

text \<open>Patching a reserved word in place changes those four bytes only.\<close>

lemma patch_word:
  assumes "\<bar>k\<bar> \<le> 0x07FFFFFF" and "cbuf cp = before @ [a, b, c, d] @ behind"
  shows "\<exists>bs. length bs = 4
     \<and> ecEncodeInt32AtPos (length before) k cp = (Ok (), cp\<lparr>cbuf := before @ bs @ behind\<rparr>)
     \<and> (\<forall>rest. ejsDecodeInt32 (bs @ rest) = Ok (word_of_int k, rest))"
proof -
  have k31: "\<bar>k\<bar> < 2 ^ 31" using assms(1) by simp
  then have "\<bar>sint (word_of_int k :: u32)\<bar> \<le> 0x07FFFFFF"
    using assms(1) by (simp only: sint_small32)
  from encode_int32_Some [OF this] obtain bs where
    bs: "ejsEncodeInt32 (word_of_int k) = Some bs" "length bs = 4"
      "\<forall>rest. ejsDecodeInt32 (bs @ rest) = Ok (word_of_int k, rest)"
    by (elim exE conjE, intro that)
  have "\<not> sint EJS_ENCODE_MAX_WORD < \<bar>k\<bar>" using assms(1) by (simp add: EJS_ENCODE_MAX_WORD_def)
  moreover have "ejsEncodeInt32AtPos (cbuf cp) (length before) (word_of_int k)
      = Ok (before @ bs @ behind)"
    using assms(2) bs by (simp add: ejsEncodeInt32AtPos_def write_block_def)
  ultimately show ?thesis
    using bs by (intro exI [of _ bs]) (simp add: ecEncodeInt32AtPos_def)
qed

lemma createDebugSection_emits:
  assumes "length (debug_bytes d) \<le> 0x07FFFFFF"
  shows "\<exists>sz. createDebugSection d cp
       = (Ok (), cp\<lparr>cbuf := cbuf cp @ [word_of_int EJS_SECT_DEBUG] @ sz @ debug_bytes d\<rparr>)
     \<and> length sz = 4
     \<and> (\<forall>rest. ejsDecodeInt32 (sz @ rest) = Ok (word_of_int (int (length (debug_bytes d))), rest))"
proof -
  let ?before = "cbuf cp @ [word_of_int EJS_SECT_DEBUG]"
  let ?cp = "cp\<lparr>cbuf := ?before @ [0, 0, 0, 0] @ debug_bytes d\<rparr>"
  have small: "\<bar>int (length (debug_bytes d))\<bar> \<le> 0x07FFFFFF" using assms by simp
  have buf: "cbuf ?cp = ?before @ [0, 0, 0, 0] @ debug_bytes d" by simp
  from patch_word [OF small buf] obtain sz where
    sz: "length sz = 4"
      "ecEncodeInt32AtPos (length ?before) (int (length (debug_bytes d))) ?cp
        = (Ok (), ?cp\<lparr>cbuf := ?before @ sz @ debug_bytes d\<rparr>)"
      "\<forall>rest. ejsDecodeInt32 (sz @ rest) = Ok (word_of_int (int (length (debug_bytes d))), rest)"
    by (elim exE conjE, intro that)
  have "createDebugSection d cp
      = ecEncodeInt32AtPos (length ?before) (int (length (debug_bytes d))) ?cp"
    by (simp add: createDebugSection_def andthen_def ecEncodeByte_def ecEncodeInt32_def ecEncodeNum_def
        ecGetCodeOffset_def zero_word_bytes encode_lines_emits debug_bytes_def Let_def)
  with sz show ?thesis by (intro exI [of _ sz]) simp
qed

lemma read_int32_word:
  assumes "length bs = 4" and "ejsDecodeInt32 (bs @ []) = Ok (w, [])"
  shows "ejsModuleReadInt32 (mp\<lparr>mfile := bs @ rest\<rparr>) = (Ok w, mp\<lparr>mfile := rest\<rparr>)"
  using assms by (simp add: ejsModuleReadInt32_def)

lemma debug_section_loads:
  assumes "\<forall>l \<in> set (dlines d). line_ok l" and "length (dlines d) < 2 ^ 31"
    and small: "length (debug_bytes d) \<le> 0x07FFFFFF"
  shows "\<exists>cp' pos n. createDebugSection d cp = (Ok (), cp')
     \<and> loadDebugSection (cbuf cp' @ rest)
         \<lparr>mfile = drop (length (cbuf cp) + 1) (cbuf cp' @ rest), hasError = False\<rparr>
         = (Ok pos, \<lparr>mfile = rest, hasError = False\<rparr>)
     \<and> loadDebug (cbuf cp' @ rest) pos = Ok (Some \<lparr>dsize = n, dlines = dlines d\<rparr>)"
proof -
  let ?n = "int (length (debug_bytes d))"
  from createDebugSection_emits [OF small, of cp] obtain sz where
    w: "createDebugSection d cp
         = (Ok (), cp\<lparr>cbuf := cbuf cp @ [word_of_int EJS_SECT_DEBUG] @ sz @ debug_bytes d\<rparr>)"
      (is "_ = (_, ?cp')") and len: "length sz = 4" and
    dec: "\<forall>rest. ejsDecodeInt32 (sz @ rest) = Ok (word_of_int ?n, rest)"
    by (elim exE conjE, intro that)
  let ?file = "cbuf ?cp' @ rest"
  let ?pos = "length (cbuf cp) + 5"
  have at: "drop (length (cbuf cp) + 1) ?file = sz @ debug_bytes d @ rest"
    "drop ?pos ?file = debug_bytes d @ rest" using len by simp_all
  have k: "\<bar>?n\<bar> < 2 ^ 31" using small by simp
  have "ejsModuleReadInt32 \<lparr>mfile = sz @ debug_bytes d @ rest, hasError = False\<rparr>
      = (Ok (word_of_int ?n), \<lparr>mfile = debug_bytes d @ rest, hasError = False\<rparr>)"
    using dec [rule_format, of "[]"] len by (simp add: ejsModuleReadInt32_def)
  moreover have "length ?file - length (debug_bytes d @ rest) = ?pos" using len by simp
  moreover have "drop (nat (int ?pos + ?n)) ?file = rest"
  proof -
    have "nat (int ?pos + ?n) = length (debug_bytes d) + ?pos" by simp
    then have "drop (nat (int ?pos + ?n)) ?file = drop (length (debug_bytes d)) (drop ?pos ?file)"
      by (simp only: drop_drop)
    then show ?thesis by (simp only: at(2)) simp
  qed
  ultimately have "loadDebugSection ?file \<lparr>mfile = sz @ debug_bytes d @ rest, hasError = False\<rparr>
      = (Ok ?pos, \<lparr>mfile = rest, hasError = False\<rparr>)"
    unfolding loadDebugSection_def Let_def
    by (simp only: andthen_Ok module_file.simps sint_small32 [OF k]) simp
  then have "loadDebugSection ?file
         \<lparr>mfile = drop (length (cbuf cp) + 1) ?file, hasError = False\<rparr>
         = (Ok ?pos, \<lparr>mfile = rest, hasError = False\<rparr>)" by (simp only: at)
  moreover from loadDebug_reads [OF assms(1,2) at(2)] obtain n where
    "loadDebug ?file ?pos = Ok (Some \<lparr>dsize = n, dlines = dlines d\<rparr>)" by (elim exE)
  ultimately show ?thesis using w by blast
qed

section \<open>The module header, written and loaded\<close>

lemma const_at_locked: "const_at (cs\<lparr>locked := b\<rparr>) i = const_at cs i"
  by (simp add: const_at_def split: const_ref.splits)

lemma length_terminated: "length strs \<le> length (terminated strs)"
  by (induction strs) simp_all

text \<open>The part of the header before the pool, as bytes.\<close>

lemma load_header_ints:
  assumes bytes: "mfile mp = ejsEncodeNum (word_of_int tok) @ ejsEncodeNum (word_of_int version)
      @ cks @ ejsEncodeNum (word_of_int ps) @ ejsEncodeNum (word_of_int pc) @ data @ rest"
    and cks: "length cks = 4" "ejsDecodeInt32 (cks @ []) = Ok (word_of_int checksum, [])"
    and small: "\<bar>version\<bar> < 2 ^ 31" "\<bar>checksum\<bar> < 2 ^ 31"
    and tok: "0 \<le> tok" "tok < ps" "ps \<le> EJS_MAX_POOL" "0 \<le> pc" "pc < 2 ^ 31"
    and data: "length data = nat ps"
      "ejsCreateConstants False (nat pc) (nat ps) (Some (map char_of_byte data)) = Ok lc"
      "ejsCreateStringFromConst tok lc = (Ok name, lc')"
    and clean: "\<not> hasError mp"
  shows "loadModuleSection mp = (Ok (Some \<lparr>hname = name, hversion = version,
        hchecksum = checksum, hconsts = lc'\<rparr>), mp\<lparr>mfile := rest\<rparr>)"
proof -
  have k: "\<bar>tok\<bar> < 2 ^ 31" "\<bar>ps\<bar> < 2 ^ 31" "\<bar>pc\<bar> < 2 ^ 31"
    using tok by (simp_all add: EJS_MAX_POOL_def)
  define f where "f bs = mp\<lparr>mfile := bs\<rparr>" for bs
  have f [simp]: "mfile (f bs) = bs" "hasError (f bs) = False" "(f bs)\<lparr>mfile := bs'\<rparr> = f bs'" for bs bs'
    using clean by (simp_all add: f_def)
  have mp: "mp = f (mfile mp)" by (simp add: f_def)
  have rd: "\<bar>n\<bar> < 2 ^ 31 \<Longrightarrow> ejsModuleReadInt (f (ejsEncodeNum (word_of_int n) @ bs))
      = (Ok (word_of_int n), f bs)" for n bs
    by (subst read_int) simp_all
  have rw: "ejsModuleReadInt32 (f (cks @ bs)) = (Ok (word_of_int checksum), f bs)" for bs
    using cks by (simp add: ejsModuleReadInt32_def)
  have "loadModuleSection (f (mfile mp)) = (Ok (Some \<lparr>hname = name, hversion = version,
        hchecksum = checksum, hconsts = lc'\<rparr>), f rest)"
    unfolding loadModuleSection_def bytes
    using tok data
    by (simp add: rd [OF k(1)] rd [OF k(2)] rd [OF k(3)] rd [OF small(1)] rw sint_small32 [OF k(1)]
        sint_small32 [OF k(2)] sint_small32 [OF k(3)] sint_small32 [OF small(1)] sint_small32 [OF small(2)])
  then show ?thesis by (simp add: f_def)
qed

lemma load_header:
  assumes bytes: "mfile mp = ejsEncodeNum (word_of_int (int i)) @ ejsEncodeNum (word_of_int version)
      @ cks @ ejsEncodeNum (word_of_int (int (length (pool cs))))
      @ ejsEncodeNum (word_of_int (int (length (index cs)))) @ map byte_of (pool cs) @ rest"
    and cks: "length cks = 4" "ejsDecodeInt32 (cks @ []) = Ok (word_of_int checksum, [])"
    and rel: "pool_rel cs strs" and i: "i < length strs"
    and small: "\<bar>version\<bar> < 2 ^ 31" "\<bar>checksum\<bar> < 2 ^ 31" "int (length (pool cs)) \<le> EJS_MAX_POOL"
    and clean: "\<not> hasError mp"
  shows "\<exists>lc. loadModuleSection mp = (Ok (Some \<lparr>hname = Some (strs ! i), hversion = version,
        hchecksum = checksum, hconsts = lc\<rparr>), mp\<lparr>mfile := rest\<rparr>) \<and> pool_rel lc strs"
proof -
  have pool: "pool cs = terminated strs" "length (index cs) = length strs"
    using rel by (auto simp: pool_rel_def)
  have ne: "strs \<noteq> []" using i by auto
  have le: "length strs \<le> length (pool cs)" using length_terminated pool(1) by simp
  from ejsCreateConstants_refines [OF rel ne] obtain lc where
    lc: "ejsCreateConstants False (length (index cs)) (length (pool cs)) (Some (pool cs)) = Ok lc"
      "pool_rel lc strs" by (elim exE conjE, intro that)
  from ejsCreateStringFromConst_refines [OF lc(2) i] obtain lc' where
    lc': "ejsCreateStringFromConst (int i) lc = (Ok (Some (strs ! i)), lc')" "pool_rel lc' strs"
    by (elim exE conjE, intro that)
  have "loadModuleSection mp = (Ok (Some \<lparr>hname = Some (strs ! i), hversion = version,
        hchecksum = checksum, hconsts = lc'\<rparr>), mp\<lparr>mfile := rest\<rparr>)"
    by (rule load_header_ints [OF bytes cks small(1,2)])
      (use i le pool(2) small(3) lc(1) lc'(1) clean in \<open>simp_all add: EJS_MAX_POOL_def comp_def\<close>)
  with lc'(2) show ?thesis by blast
qed

lemma module_section_emits:
  assumes rel: "pool_rel (mconsts cp) strs" and "\<not> locked (mconsts cp)" "\<not> fatalError cp"
    and nul: "NUL \<notin> set name"
    and sections: "\<And>cp2. sections cp2 = (Ok sums, cp2\<lparr>cbuf := cbuf cp2 @ body\<rparr>)"
    and csum: "csum = checksum + sums + (sumString (Some name) AND sint EJS_ENCODE_MAX_WORD)"
    and fits: "\<bar>csum\<bar> \<le> 0x07FFFFFF"
  shows "\<exists>i cs strs' cks cp'. ecCreateModuleSection name version checksum sections cp = (Ok (0, csum), cp')
     \<and> cbuf cp' = cbuf cp @ word_of_int EJS_SECT_MODULE # ejsEncodeNum (word_of_int (int i))
         @ ejsEncodeNum (word_of_int version) @ cks @ ejsEncodeNum (word_of_int (int (length (pool cs))))
         @ ejsEncodeNum (word_of_int (int (length (index cs)))) @ map byte_of (pool cs)
         @ body @ [word_of_int EJS_SECT_MODULE_END]
     \<and> mconsts cp' = cs\<lparr>locked := True\<rparr> \<and> pool_rel cs strs' \<and> (strs' = strs \<or> strs' = strs @ [name])
     \<and> i < length strs' \<and> strs' ! i = name
     \<and> length cks = 4 \<and> ejsDecodeInt32 (cks @ []) = Ok (word_of_int csum, [])"
proof -
  let ?cp0 = "cp\<lparr>cbuf := cbuf cp @ [word_of_int EJS_SECT_MODULE]\<rparr>"
  have "pool_rel (mconsts ?cp0) strs" "\<not> locked (mconsts ?cp0)" using assms(1,2) by simp_all
  from ecEncodeConst_emits [OF this nul] obtain i cs strs' where
    w1: "ecEncodeConst (Some name) ?cp0
      = (Ok (), ?cp0\<lparr>cbuf := cbuf ?cp0 @ ejsEncodeNum (word_of_int (int i)), mconsts := cs\<rparr>)" and
    r1: "pool_rel cs strs'" "\<not> locked cs" "strs' = strs \<or> strs' = strs @ [name]"
      "i < length strs'" "strs' ! i = name"
    by (elim exE conjE, intro that)
  let ?before = "cbuf cp @ word_of_int EJS_SECT_MODULE # ejsEncodeNum (word_of_int (int i))
      @ ejsEncodeNum (word_of_int version)"
  let ?behind = "ejsEncodeNum (word_of_int (int (length (pool cs))))
      @ ejsEncodeNum (word_of_int (int (length (index cs)))) @ map byte_of (pool cs)
      @ body @ [word_of_int EJS_SECT_MODULE_END]"
  let ?cp = "cp\<lparr>mconsts := cs\<lparr>locked := True\<rparr>, cbuf := ?before @ [0, 0, 0, 0] @ ?behind\<rparr>"
  have buf: "cbuf ?cp = ?before @ [0, 0, 0, 0] @ ?behind" by simp
  from patch_word [OF fits buf] obtain cks where
    cks: "length cks = 4"
      "ecEncodeInt32AtPos (length ?before) csum ?cp = (Ok (), ?cp\<lparr>cbuf := ?before @ cks @ ?behind\<rparr>)"
      "\<forall>rest. ejsDecodeInt32 (cks @ rest) = Ok (word_of_int csum, rest)"
    by (elim exE conjE, intro that)
  have "ecCreateModuleSection name version checksum sections cp
      = andthen (ecEncodeInt32AtPos (length ?before) csum) (\<lambda>_. ret (0, csum)) ?cp"
    using w1 assms(3)
    by (simp add: ecCreateModuleSection_def ecEncodeByte_def ecEncodeNum_def ecEncodeInt32_def
        ecEncodeBlock_def ecGetCodeOffset_def zero_word_bytes sections Let_def csum)
  then have "ecCreateModuleSection name version checksum sections cp
      = (Ok (0, csum), ?cp\<lparr>cbuf := ?before @ cks @ ?behind\<rparr>)"
    using cks(2) by simp
  with r1 cks(1) cks(3) [rule_format, of "[]"] show ?thesis
    by (intro exI [of _ i] exI [of _ cs] exI [of _ strs'] exI [of _ cks]
        exI [of _ "?cp\<lparr>cbuf := ?before @ cks @ ?behind\<rparr>"]) simp
qed

section \<open>Lookup of debug lines and of modules\<close>

lemma first_beyond_le: "first_beyond offset ls \<le> length ls"
  by (induction ls) simp_all

lemma first_beyond_before: "j < first_beyond offset ls \<Longrightarrow> loffset (ls ! j) \<le> offset"
proof (induction ls arbitrary: j)
  case (Cons l ls)
  then show ?case by (cases j) (simp_all split: if_splits)
qed simp

lemma first_beyond_at: "first_beyond offset ls < length ls \<Longrightarrow> offset < loffset (ls ! first_beyond offset ls)"
  by (induction ls) (auto split: if_splits)

lemma best_module_best:
  "best_module name minv maxv best ms = Some m \<Longrightarrow>
     (best = Some m \<or> m \<in> set ms \<and> mname m = name \<and> acceptable_version minv maxv (mversion m))
     \<and> (\<forall>b. best = Some b \<longrightarrow> mversion b \<le> mversion m)
     \<and> (\<forall>m' \<in> set ms. mname m' = name \<and> acceptable_version minv maxv (mversion m')
          \<longrightarrow> mversion m' \<le> mversion m)"
proof (induction ms arbitrary: best)
  case (Cons mp ms)
  let ?take = "acceptable_version minv maxv (mversion mp) \<and> mname mp = name
     \<and> (case best of None \<Rightarrow> True | Some b \<Rightarrow> mversion b < mversion mp)"
  show ?case
  proof (cases ?take)
    case True
    then have "best_module name minv maxv (Some mp) ms = Some m" using Cons.prems by simp
    from Cons.IH [OF this] True show ?thesis by (cases best) auto
  next
    case False
    then have "best_module name minv maxv best ms = Some m" using Cons.prems by (simp split: if_splits)
    from Cons.IH [OF this] False show ?thesis by (cases best) auto
  qed
qed simp

lemma best_module_None:
  "best_module name minv maxv best ms = None \<longleftrightarrow>
     best = None \<and> (\<forall>m \<in> set ms. mname m = name \<longrightarrow> \<not> acceptable_version minv maxv (mversion m))"
  by (induction ms arbitrary: best) auto

section \<open>Properties\<close>

text \<open>
  C6: A qualified name that the compiler emits for a module is read back by the loader after the
  constant pool of the module has been saved and loaded: \<open>ecEncodeName\<close> appends some bytes, the
  saved pool loads, and \<open>ejsModuleReadName\<close> on these bytes returns the name and its namespace and
  leaves the bytes that follow.
\<close>

theorem name_survives_save_and_load:
  assumes rel: "pool_rel (mconsts cp) strs" and unlocked: "\<not> locked (mconsts cp)"
    and nul: "NUL \<notin> set name" "NUL \<notin> set space" and few: "length strs + 2 < 2 ^ 31"
  shows "\<exists>cp' bs lc. ecEncodeName (name, space) cp = (Ok (), cp') \<and> cbuf cp' = cbuf cp @ bs
    \<and> ejsCreateConstants False (length (index (mconsts cp'))) (length (pool (mconsts cp')))
         (Some (pool (mconsts cp'))) = Ok lc
    \<and> (\<exists>lc'. ejsModuleReadName (\<lparr>mfile = bs @ rest, hasError = False\<rparr>, lc)
         = (Ok (Some name, Some space), (\<lparr>mfile = rest, hasError = False\<rparr>, lc')))"
proof -
  from name_write_read [OF assms] obtain cp' strs' bs where
    w: "ecEncodeName (name, space) cp = (Ok (), cp')" "cbuf cp' = cbuf cp @ bs"
      "pool_rel (mconsts cp') strs'" "strs' \<noteq> []" and
    r: "\<forall>cs mp rest. pool_rel cs strs' \<longrightarrow> mfile mp = bs @ rest \<longrightarrow>
      (\<exists>cs'. ejsModuleReadName (mp, cs)
         = (Ok (Some name, Some space), (mp\<lparr>mfile := rest\<rparr>, cs')) \<and> pool_rel cs' strs')"
    by (elim exE conjE, intro that)
  from ejsCreateConstants_refines [OF w(3,4)] obtain lc where
    lc: "ejsCreateConstants False (length (index (mconsts cp'))) (length (pool (mconsts cp')))
         (Some (pool (mconsts cp'))) = Ok lc" "pool_rel lc strs'"
    by (elim exE conjE, intro that)
  from r [rule_format, OF lc(2), of "\<lparr>mfile = bs @ rest, hasError = False\<rparr>" rest] obtain lc' where
    "ejsModuleReadName (\<lparr>mfile = bs @ rest, hasError = False\<rparr>, lc)
       = (Ok (Some name, Some space), (\<lparr>mfile = rest, hasError = False\<rparr>, lc'))" by auto
  with w lc show ?thesis by blast
qed

definition sample_ec :: ec where
  "sample_ec = \<lparr>cbuf = [7], mconsts = sample_constants, lastOpcode = 0, fatalError = False, ecError = False\<rparr>"

lemma sample_ec_ok: "pool_rel (mconsts sample_ec) [''x'']" "\<not> locked (mconsts sample_ec)"
  "\<not> fatalError sample_ec"
  using sample_constants_ok by (simp_all add: sample_ec_def sample_constants_def)

theorem name_survives_save_and_load_witness:
  "\<exists>cp' bs lc. ecEncodeName (''run'', ''public'') sample_ec = (Ok (), cp')
    \<and> cbuf cp' = cbuf sample_ec @ bs
    \<and> ejsCreateConstants False (length (index (mconsts cp'))) (length (pool (mconsts cp')))
         (Some (pool (mconsts cp'))) = Ok lc
    \<and> (\<exists>lc'. ejsModuleReadName (\<lparr>mfile = bs @ [9], hasError = False\<rparr>, lc)
         = (Ok (Some ''run'', Some ''public''), (\<lparr>mfile = [9], hasError = False\<rparr>, lc')))"
  by (rule name_survives_save_and_load [OF sample_ec_ok(1,2)]) simp_all

text \<open>
  C5: The header of a module file loads back: after \<open>ecCreateModuleSection\<close>, the section type byte
  is followed by bytes from which \<open>loadModuleSection\<close> recovers the name, the version, the final
  checksum patched in at the end, and constants that denote the same strings under the same indices
  as those of the compiler; it stops where the other sections begin. The other sections are any
  emitter that only appends to the code buffer.
\<close>

theorem module_header_loads:
  assumes rel: "pool_rel (mconsts cp) strs" and clean: "\<not> locked (mconsts cp)" "\<not> fatalError cp"
    and nul: "NUL \<notin> set name" and version: "\<bar>version\<bar> < 2 ^ 31"
    and sections: "\<And>cp2. sections cp2 = (Ok sums, cp2\<lparr>cbuf := cbuf cp2 @ body\<rparr>)"
    and fits: "\<bar>checksum + sums + (sumString (Some name) AND sint EJS_ENCODE_MAX_WORD)\<bar> \<le> 0x07FFFFFF"
    and small: "int (length (terminated strs) + length name + 1) \<le> EJS_MAX_POOL"
  shows "\<exists>cp' csum tail hdr strs'.
    ecCreateModuleSection name version checksum sections cp = (Ok (0, csum), cp')
    \<and> cbuf cp' = cbuf cp @ word_of_int EJS_SECT_MODULE # tail
    \<and> loadModuleSection \<lparr>mfile = tail, hasError = False\<rparr>
        = (Ok (Some hdr), \<lparr>mfile = body @ [word_of_int EJS_SECT_MODULE_END], hasError = False\<rparr>)
    \<and> hname hdr = Some name \<and> hversion hdr = version \<and> hchecksum hdr = csum
    \<and> pool_rel (mconsts cp') strs' \<and> pool_rel (hconsts hdr) strs'"
proof -
  define csum where "csum = checksum + sums + (sumString (Some name) AND sint EJS_ENCODE_MAX_WORD)"
  have fits': "\<bar>csum\<bar> \<le> 0x07FFFFFF" using fits by (simp add: csum_def)
  from module_section_emits [OF rel clean nul sections csum_def fits', of version] obtain i cs strs' cks cp' where
    w: "ecCreateModuleSection name version checksum sections cp = (Ok (0, csum), cp')"
      "cbuf cp' = cbuf cp @ word_of_int EJS_SECT_MODULE # ejsEncodeNum (word_of_int (int i))
         @ ejsEncodeNum (word_of_int version) @ cks @ ejsEncodeNum (word_of_int (int (length (pool cs))))
         @ ejsEncodeNum (word_of_int (int (length (index cs)))) @ map byte_of (pool cs)
         @ body @ [word_of_int EJS_SECT_MODULE_END]" (is "_ = _ @ _ # ?tail")
      "mconsts cp' = cs\<lparr>locked := True\<rparr>" and
    r: "pool_rel cs strs'" "strs' = strs \<or> strs' = strs @ [name]" "i < length strs'" "strs' ! i = name"
      "length cks = 4" "ejsDecodeInt32 (cks @ []) = Ok (word_of_int csum, [])"
    by (elim exE conjE, intro that)
  have csum: "\<bar>csum\<bar> < 2 ^ 31" using fits' by simp
  have pool: "int (length (pool cs)) \<le> EJS_MAX_POOL" using r(1,2) small by (auto simp: pool_rel_def)
  have "mfile \<lparr>mfile = ?tail, hasError = False\<rparr> = ?tail" by simp
  from load_header [OF this r(5,6,1,3) version csum pool] obtain lc where
    "loadModuleSection \<lparr>mfile = ?tail, hasError = False\<rparr> = (Ok (Some \<lparr>hname = Some (strs' ! i),
        hversion = version, hchecksum = csum, hconsts = lc\<rparr>),
        \<lparr>mfile = body @ [word_of_int EJS_SECT_MODULE_END], hasError = False\<rparr>)" "pool_rel lc strs'"
    by auto
  moreover have "pool_rel (cs\<lparr>locked := True\<rparr>) strs'"
    using r(1) by (auto simp: pool_rel_def const_at_locked table_sound_def)
  ultimately show ?thesis using w r(4) by fastforce
qed

theorem module_header_loads_witness:
  "\<exists>cp' csum tail hdr strs'.
    ecCreateModuleSection ''app'' 1000 0 (\<lambda>cp2. (Ok 5, cp2\<lparr>cbuf := cbuf cp2 @ [11]\<rparr>)) sample_ec
      = (Ok (0, csum), cp')
    \<and> cbuf cp' = cbuf sample_ec @ word_of_int EJS_SECT_MODULE # tail
    \<and> loadModuleSection \<lparr>mfile = tail, hasError = False\<rparr>
        = (Ok (Some hdr), \<lparr>mfile = [11] @ [word_of_int EJS_SECT_MODULE_END], hasError = False\<rparr>)
    \<and> hname hdr = Some ''app'' \<and> hversion hdr = 1000 \<and> hchecksum hdr = csum
    \<and> pool_rel (mconsts cp') strs' \<and> pool_rel (hconsts hdr) strs'"
  by (rule module_header_loads [OF sample_ec_ok, of _ _ _ 5])
    (simp_all add: EJS_MAX_POOL_def EJS_ENCODE_MAX_WORD_def sumString_def char_val_def)

text \<open>
  C7: A debug table written by \<open>createDebugSection\<close>, whose size is patched in after its lines, is
  skipped exactly by \<open>loadDebugSection\<close> and read back line by line by \<open>loadDebug\<close> from the offset
  noted there.
\<close>

theorem debug_table_round_trip:
  assumes "\<forall>l \<in> set (dlines d). line_ok l" and "length (dlines d) < 2 ^ 31"
    and "length (debug_bytes d) \<le> 0x07FFFFFF"
  shows "\<exists>cp' pos n. createDebugSection d cp = (Ok (), cp')
     \<and> loadDebugSection (cbuf cp' @ rest)
         \<lparr>mfile = drop (length (cbuf cp) + 1) (cbuf cp' @ rest), hasError = False\<rparr>
         = (Ok pos, \<lparr>mfile = rest, hasError = False\<rparr>)
     \<and> loadDebug (cbuf cp' @ rest) pos = Ok (Some \<lparr>dsize = n, dlines = dlines d\<rparr>)"
  by (rule debug_section_loads [OF assms])

definition sample_debug :: debug where
  "sample_debug = \<lparr>dsize = 16, dlines = [\<lparr>loffset = 0, lsource = ''a.es|1|x''\<rparr>,
     \<lparr>loffset = 300, lsource = ''a.es|2|y''\<rparr>]\<rparr>"

theorem debug_table_round_trip_witness:
  "\<exists>cp' pos n. createDebugSection sample_debug sample_ec = (Ok (), cp')
     \<and> loadDebugSection (cbuf cp' @ [8])
         \<lparr>mfile = drop (length (cbuf sample_ec) + 1) (cbuf cp' @ [8]), hasError = False\<rparr>
         = (Ok pos, \<lparr>mfile = [8], hasError = False\<rparr>)
     \<and> loadDebug (cbuf cp' @ [8]) pos = Ok (Some \<lparr>dsize = n, dlines = dlines sample_debug\<rparr>)"
proof (rule debug_table_round_trip)
  show "\<forall>l \<in> set (dlines sample_debug). line_ok l" "length (dlines sample_debug) < 2 ^ 31"
    by (simp_all add: sample_debug_def line_ok_def)
  show "length (debug_bytes sample_debug) \<le> 0x07FFFFFF"
    by (simp add: debug_bytes_def line_bytes_def wide_bytes_def sample_debug_def c_text_def
        ejsEncodeNum_def encode_tail.simps word_sless_alt Let_def drop_bit_eq_div)
qed

text \<open>
  C8: For a table of lines whose offsets ascend, \<open>ejsGetDebugLine\<close> returns the last line that does
  not start after the instruction before \<open>pc\<close>, and the first line when there is none.
\<close>

theorem ejsGetDebugLine_last_at_or_before:
  assumes "sorted (map loffset (dlines d))" and "dlines d \<noteq> []"
  shows "\<exists>i < length (dlines d). ejsGetDebugLine (Some d) pc = Some (dlines d ! i)
     \<and> (\<forall>j < length (dlines d). i < j \<longrightarrow> pc - 1 < loffset (dlines d ! j))
     \<and> (loffset (dlines d ! i) \<le> pc - 1 \<or> i = 0)"
proof -
  let ?ls = "dlines d" and ?b = "first_beyond (pc - 1) (dlines d)"
  let ?i = "if 0 < ?b then ?b - 1 else ?b"
  have "?b \<le> length ?ls" by (rule first_beyond_le)
  then have i: "?i < length ?ls" using assms(2) by (cases "?ls") auto
  have "pc - 1 < loffset (?ls ! j)" if j: "j < length ?ls" "?i < j" for j
  proof -
    have "?b < length ?ls" "?b \<le> j" using j by (auto split: if_splits)
    then have "loffset (?ls ! ?b) \<le> loffset (?ls ! j)"
      using sorted_nth_mono [OF assms(1), of ?b j] j by simp
    with first_beyond_at [OF \<open>?b < length ?ls\<close>] show ?thesis by simp
  qed
  moreover have "loffset (?ls ! ?i) \<le> pc - 1 \<or> ?i = 0"
    using first_beyond_before [of ?i "pc - 1" ?ls] by auto
  moreover have "ejsGetDebugLine (Some d) pc = Some (?ls ! ?i)"
    using assms(2) by (simp add: ejsGetDebugLine_def Let_def)
  ultimately show ?thesis using i by blast
qed

theorem ejsGetDebugLine_last_at_or_before_witness:
  "\<exists>i < length (dlines sample_debug). ejsGetDebugLine (Some sample_debug) 40 = Some (dlines sample_debug ! i)
     \<and> (\<forall>j < length (dlines sample_debug). i < j \<longrightarrow> 40 - 1 < loffset (dlines sample_debug ! j))
     \<and> (loffset (dlines sample_debug ! i) \<le> 40 - 1 \<or> i = 0)"
  by (rule ejsGetDebugLine_last_at_or_before) (simp_all add: sample_debug_def)

text \<open>
  C9: \<open>ejsLookupModule\<close> finds a module exactly when one of that name has an acceptable version, and
  then one of the highest acceptable version. The bounds are inclusive on both sides.
\<close>

theorem ejsLookupModule_best:
  "(\<exists>m. ejsLookupModule mods name minv maxv = Some m \<and> m \<in> set mods \<and> mname m = name
        \<and> acceptable_version minv (if maxv < 0 then MAXINT else maxv) (mversion m)
        \<and> (\<forall>m' \<in> set mods. mname m' = name
              \<and> acceptable_version minv (if maxv < 0 then MAXINT else maxv) (mversion m')
              \<longrightarrow> mversion m' \<le> mversion m))
   \<or> (ejsLookupModule mods name minv maxv = None
        \<and> \<not> (\<exists>m' \<in> set mods. mname m' = name
              \<and> acceptable_version minv (if maxv < 0 then MAXINT else maxv) (mversion m')))"
  (is "?found \<or> ?none")
proof (cases "ejsLookupModule mods name minv maxv")
  case None
  then have ?none by (auto simp: ejsLookupModule_def best_module_None)
  then show ?thesis by blast
next
  case (Some m)
  then have ?found
    using best_module_best [of name minv _ None mods m] unfolding ejsLookupModule_def by blast
  then show ?thesis by blast
qed

definition sample_modules :: "ejs_module list" where
  "sample_modules = [\<lparr>mname = ''ejs'', mversion = 2003, minVersion = 0, maxVersion = 0,
      mchecksum = 1, mcompiling = False\<rparr>,
    \<lparr>mname = ''ejs'', mversion = 2005, minVersion = 0, maxVersion = 0, mchecksum = 2,
      mcompiling = False\<rparr>]"

theorem ejsLookupModule_best_witness:
  "(\<exists>m. ejsLookupModule sample_modules ''ejs'' 2000 2005 = Some m \<and> mversion m = 2005)"
  using ejsLookupModule_best [of sample_modules "''ejs''" 2000 2005]
  by (auto simp: sample_modules_def acceptable_version_def)

text \<open>
  Patching a 4-byte word that was reserved in the code buffer, as the generator does for jumps
  and section sizes, changes these four bytes only, and the VM then decodes the patched value and
  continues after the word.
\<close>

lemma patched_word_decodes:
  assumes "\<bar>k\<bar> \<le> 0x07FFFFFF" and "cbuf cp = before @ [a, b, c, d] @ behind"
  shows "\<exists>bs. length bs = 4
     \<and> ecEncodeInt32AtPos (length before) k cp = (Ok (), cp\<lparr>cbuf := before @ bs @ behind\<rparr>)
     \<and> ejsDecodeInt32 (bs @ behind) = Ok (word_of_int k, behind)"
  using patch_word [OF assms] by blast

theorem patched_word_decodes_witness:
  "\<exists>bs. length bs = 4
     \<and> ecEncodeInt32AtPos (length [20 :: u8]) (-150) (sample_ec\<lparr>cbuf := [20, 0, 0, 0, 0, 30]\<rparr>)
       = (Ok (), (sample_ec\<lparr>cbuf := [20, 0, 0, 0, 0, 30]\<rparr>)\<lparr>cbuf := [20] @ bs @ [30]\<rparr>)
     \<and> ejsDecodeInt32 (bs @ [30]) = Ok (word_of_int (-150), [30])"
  by (rule patched_word_decodes) simp_all

end
