(* ===== verification/NamedStore.thy ===== *)
theory NamedStore
  imports Prelude
begin

text \<open>
  The interface of a store of named values, which the interpreter relies on where it keeps values by
  name: property objects (\<open>Pot\<close>) and the local cache (\<open>LocalCache\<close>) provide it.
\<close>

text \<open>
  A write is a map update and a read yields the map, as long as there is room.
\<close>

fun put_all :: "('k \<Rightarrow> 'v \<Rightarrow> ('s, 'x) op) \<Rightarrow> ('k \<times> 'v) list \<Rightarrow> ('s, unit) op" where
  "put_all put [] = ret ()"
| "put_all put ((k, v) # kvs) = andthen (put k v) (\<lambda>_. put_all put kvs)"

locale named_store =
  fixes inv :: "'s \<Rightarrow> bool"
    and valid :: "'k \<Rightarrow> bool"
    and count :: "'s \<Rightarrow> nat"
    and cap :: nat
    and view :: "'s \<Rightarrow> 'k \<Rightarrow> 'v option"
    and put :: "'k \<Rightarrow> 'v \<Rightarrow> ('s, 'x) op"
    and get :: "'k \<Rightarrow> 's \<Rightarrow> 'v option res"
  assumes put_law: "inv s \<Longrightarrow> valid k \<Longrightarrow> count s < cap \<Longrightarrow>
      \<exists>x s'. put k v s = (Ok x, s') \<and> inv s' \<and> view s' = (view s)(k \<mapsto> v) \<and> count s' \<le> count s + 1"
    and get_law: "inv s \<Longrightarrow> valid k \<Longrightarrow> get k s = Ok (view s k)"
begin

lemma put_all_view:
  "inv s \<Longrightarrow> \<forall>(k, v) \<in> set kvs. valid k \<Longrightarrow> count s + length kvs \<le> cap \<Longrightarrow>
     \<exists>s'. put_all put kvs s = (Ok (), s') \<and> inv s' \<and> view s' = view s ++ map_of (rev kvs)"
proof (induction kvs arbitrary: s)
  case (Cons kv kvs)
  obtain k v where kv: "kv = (k, v)" by (cases kv)
  have "valid k" "count s < cap" using Cons.prems(2,3) kv by auto
  from put_law [OF Cons.prems(1) this, of v] obtain x s1 where
    s1: "put k v s = (Ok x, s1)" "inv s1" "view s1 = (view s)(k \<mapsto> v)" "count s1 \<le> count s + 1"
    by blast
  have "\<exists>s'. put_all put kvs s1 = (Ok (), s') \<and> inv s' \<and> view s' = view s1 ++ map_of (rev kvs)"
    by (rule Cons.IH) (use Cons.prems s1 in auto)
  then show ?case using s1 kv by (auto simp: map_add_assoc)
qed simp

lemma get_after_put_all:
  assumes "inv s" and "\<forall>(k, v) \<in> set kvs. valid k" and "count s + length kvs \<le> cap" and "valid k"
  shows "\<exists>s'. put_all put kvs s = (Ok (), s') \<and> get k s' = Ok ((view s ++ map_of (rev kvs)) k)"
  using put_all_view [OF assms(1-3)] get_law assms(4) by metis

end

end
