(* ===== verification/Pot.thy ===== *)
theory Pot
  imports NamedStore
begin

text \<open>
  Property objects (\<open>src/src/core/src/ejsPot.c\<close>): a vector of slots, each with a qualified
  name, traits, a value and the link of its hash chain, and a hash from names to slots that is built
  when an object has more than eight properties. The name-based access of
  \<open>src/src/vm/ejsHelper.c\<close> is the client of the slot operations.

  Names are interned strings, so pointer equality is equality of the texts. The hash function
  \<open>whash\<close> belongs to a vendored library and is the parameter \<open>wh\<close> of every
  definition that hashes. An object without storage has no slots. The flags that tell the collector
  which memory blocks are separate are not part of the state.
\<close>

section \<open>Slots and property objects\<close>

type_synonym pname = "string \<times> string"

datatype pvalue = Undefined | Null | Obj nat | Fun nat

record pslot =
  sname :: pname
  traitType :: "nat option"
  attributes :: int
  hashChain :: int
  sval :: pvalue

text \<open>\<open>slots\<close> is the allocated vector (its length is \<open>properties->size\<close>); \<open>buckets\<close> the hash.\<close>

record pot =
  slots :: "pslot list"
  numProp :: nat
  buckets :: "int list option"
  dynamic :: bool

definition EJS_HASH_MIN_PROP :: nat where "EJS_HASH_MIN_PROP = 8"
definition EJS_LOTSA_PROP :: nat where "EJS_LOTSA_PROP = 256"
definition EJS_ROUND_PROP :: nat where "EJS_ROUND_PROP = 16"
definition EJS_TRAIT_DELETED :: int where "EJS_TRAIT_DELETED = 2"
definition EJS_TRAIT_GETTER :: int where "EJS_TRAIT_GETTER = 4"
definition EJS_TRAIT_HIDDEN :: int where "EJS_TRAIT_HIDDEN = 16"
definition EJS_TRAIT_SETTER :: int where "EJS_TRAIT_SETTER = 128"

definition EJS_PROP_ROUNDUP :: "nat \<Rightarrow> nat" where
  "EJS_PROP_ROUNDUP x = (x + EJS_ROUND_PROP - 1) div EJS_ROUND_PROP * EJS_ROUND_PROP"

definition empty_name :: pname where
  "empty_name = ([], [])"

definition zero_slot :: pslot where
  "zero_slot = \<lparr>sname = empty_name, traitType = None, attributes = 0, hashChain = -1, sval = Null\<rparr>"

definition ejsZeroSlots :: "nat \<Rightarrow> nat \<Rightarrow> pslot list \<Rightarrow> pslot list" where
  "ejsZeroSlots start count ss = write_block ss start (replicate count zero_slot)"

definition growSlots :: "nat \<Rightarrow> pot \<Rightarrow> pot" where
  "growSlots slotCount p =
     (let oldSize = length (slots p)
      in if oldSize < slotCount then
           (let factor = max (oldSize div 4) EJS_ROUND_PROP;
                n = (if EJS_LOTSA_PROP < slotCount then (slotCount + factor) div factor * factor else slotCount);
                n = EJS_PROP_ROUNDUP n
            in p\<lparr>slots := slots p @ replicate (n - oldSize) zero_slot\<rparr>)
         else p)"

definition ejsGrowPot :: "nat \<Rightarrow> pot \<Rightarrow> pot" where
  "ejsGrowPot n p =
     (let p = (if length (slots p) < n then growSlots n p else p)
      in if numProp p < n then p\<lparr>numProp := n\<rparr> else p)"

text \<open>
  Validation of a slot number; a negative one asks for the next free slot. The three messages of a
  sealed object are all reference errors.
\<close>

definition ejsCheckSlot :: "int \<Rightarrow> (pot, nat) op" where
  "ejsCheckSlot slotNum p =
     (if slotNum < 0 \<or> int (numProp p) \<le> slotNum then
        if \<not> dynamic p then (Throw ReferenceError, p)
        else
          let s = (if slotNum < 0 then numProp p else nat slotNum);
              p = (if length (slots p) \<le> s then growSlots (s + 1) p else p);
              p = (if numProp p < s then p\<lparr>numProp := s\<rparr> else p)
          in (Ok s, p\<lparr>numProp := numProp p + 1\<rparr>)
      else (Ok (nat slotNum), p))"

definition setPotProperty :: "int \<Rightarrow> pvalue \<Rightarrow> (pot, nat) op" where
  "setPotProperty slotNum v = andthen (ejsCheckSlot slotNum)
     (\<lambda>s p. (Ok s, p\<lparr>slots := (slots p)[s := (slots p ! s)\<lparr>sval := v\<rparr>]\<rparr>))"

definition getPotProperty :: "int \<Rightarrow> pot \<Rightarrow> pvalue res" where
  "getPotProperty slotNum p =
     (if slotNum < 0 \<or> int (numProp p) \<le> slotNum then Throw ReferenceError
      else Ok (sval (slots p ! nat slotNum)))"

definition getPotPropertyCount :: "pot \<Rightarrow> nat" where
  "getPotPropertyCount p = numProp p"

definition ejsGetPotPropertyName :: "int \<Rightarrow> pot \<Rightarrow> pname option" where
  "ejsGetPotPropertyName slotNum p =
     (if slotNum < 0 \<or> int (numProp p) \<le> slotNum then None else Some (sname (slots p ! nat slotNum)))"

definition getPotPropertyTraits :: "int \<Rightarrow> pot \<Rightarrow> (nat option \<times> int) option" where
  "getPotPropertyTraits slotNum p =
     (if slotNum < 0 \<or> int (numProp p) \<le> slotNum then None
      else Some (traitType (slots p ! nat slotNum), attributes (slots p ! nat slotNum)))"

definition setPotPropertyTraits :: "int \<Rightarrow> nat option \<Rightarrow> int \<Rightarrow> (pot, nat) op" where
  "setPotPropertyTraits slotNum type attrs = andthen (ejsCheckSlot slotNum)
     (\<lambda>s p. let sp = slots p ! s;
                sp = (if type \<noteq> None then sp\<lparr>traitType := type\<rparr> else sp);
                sp = (if attrs \<noteq> -1 then sp\<lparr>attributes := attrs\<rparr> else sp)
            in (Ok s, p\<lparr>slots := (slots p)[s := sp]\<rparr>))"

section \<open>The hash of property names\<close>

definition hashSizes :: "nat list" where
  "hashSizes = [19, 29, 59, 79, 97, 193, 389, 769, 1543, 3079, 6151, 12289, 24593, 49157, 98317, 196613]"

fun hash_size_for :: "nat \<Rightarrow> nat list \<Rightarrow> nat" where
  "hash_size_for n [] = 0"
| "hash_size_for n [s] = s"
| "hash_size_for n (s # s' # ss) = (if n < s then s else hash_size_for n (s' # ss))"

definition ejsGetHashSize :: "nat \<Rightarrow> nat" where
  "ejsGetHashSize n = hash_size_for n hashSizes"

text \<open>
  The walk along a hash chain that looks for a qualified name: the slot that holds it, if any, and
  the slot visited before. A chain longer than the slot vector visits a slot twice and never ends,
  so running out of the fuel \<open>length slots\<close> is a fault, as is a link outside the vector.
\<close>

fun chain_scan :: "nat \<Rightarrow> pslot list \<Rightarrow> pname \<Rightarrow> int \<Rightarrow> int \<Rightarrow> (int option \<times> int) res" where
  "chain_scan n ss q prev cur =
     (if cur < 0 then Ok (None, prev)
      else if int (length ss) \<le> cur then Fault
      else if sname (ss ! nat cur) = q then Ok (Some cur, prev)
      else case n of 0 \<Rightarrow> Fault | Suc m \<Rightarrow> chain_scan m ss q cur (hashChain (ss ! nat cur)))"

declare chain_scan.simps [simp del]

definition bucket_of :: "(string \<Rightarrow> nat) \<Rightarrow> pname \<Rightarrow> int list \<Rightarrow> nat" where
  "bucket_of wh q bs = wh (fst q) mod length bs"

text \<open>Appending a slot to the chain of its name, unless a slot of that name is already there.\<close>

definition hash_append :: "(string \<Rightarrow> nat) \<Rightarrow> nat \<Rightarrow> pname \<Rightarrow> int list \<Rightarrow> pot \<Rightarrow> pot res" where
  "hash_append wh s q bs p =
     (case chain_scan (length (slots p)) (slots p) q (-1) (bs ! bucket_of wh q bs) of
        Ok (Some _, _) \<Rightarrow> Ok p
      | Ok (None, lastSlot) \<Rightarrow>
          let p = (if 0 \<le> lastSlot
                   then p\<lparr>slots := (slots p)[nat lastSlot := (slots p ! nat lastSlot)\<lparr>hashChain := int s\<rparr>]\<rparr>
                   else p\<lparr>buckets := Some (bs[bucket_of wh q bs := int s])\<rparr>)
          in Ok (p\<lparr>slots := (slots p)[s := (slots p ! s)\<lparr>hashChain := -2, sname := q\<rparr>]\<rparr>)
      | _ \<Rightarrow> Fault)"

fun hash_all :: "(string \<Rightarrow> nat) \<Rightarrow> nat list \<Rightarrow> pot \<Rightarrow> pot res" where
  "hash_all wh [] p = Ok p"
| "hash_all wh (i # is) p =
     (case buckets p of None \<Rightarrow> Fault
      | Some bs \<Rightarrow> bind_res (hash_append wh i (sname (slots p ! i)) bs p) (hash_all wh is))"

text \<open>
  Rebuilding the hash. \<open>ejsIndexProperties\<close> calls \<open>hashProperty\<close> for every slot, which
  calls \<open>ejsIndexProperties\<close> again while the hash has fewer buckets than there are properties.
  After the growth here this is the case only beyond the largest table size, and then the two call
  each other without end: a fault.
\<close>

definition clear_chains :: "nat \<Rightarrow> pslot list \<Rightarrow> pslot list" where
  "clear_chains n ss = map (\<lambda>sp. sp\<lparr>hashChain := -1\<rparr>) (take n ss) @ drop n ss"

definition ejsIndexProperties :: "(string \<Rightarrow> nat) \<Rightarrow> pot \<Rightarrow> pot res" where
  "ejsIndexProperties wh p =
     (if slots p = [] then Ok p
      else if numProp p \<le> EJS_HASH_MIN_PROP \<and> buckets p = None then Ok p
      else
        let newSize = ejsGetHashSize (numProp p);
            sz = (case buckets p of None \<Rightarrow> newSize
                    | Some bs \<Rightarrow> if length bs < newSize then newSize else length bs);
            p' = p\<lparr>buckets := Some (replicate sz (-1)),
                   slots := (if buckets p = None then slots p else clear_chains (numProp p) (slots p))\<rparr>
        in if sz < numProp p then Fault else hash_all wh [0 ..< numProp p] p')"

definition hashProperty :: "(string \<Rightarrow> nat) \<Rightarrow> nat \<Rightarrow> pname \<Rightarrow> pot \<Rightarrow> pot res" where
  "hashProperty wh s q p =
     (case buckets p of None \<Rightarrow> ejsIndexProperties wh p
      | Some bs \<Rightarrow> if length bs < numProp p then ejsIndexProperties wh p else hash_append wh s q bs p)"

fun first_named :: "pname \<Rightarrow> nat \<Rightarrow> pslot list \<Rightarrow> nat option" where
  "first_named q i [] = None"
| "first_named q i (sp # ss) = (if sname sp = q then Some i else first_named q (Suc i) ss)"

definition forget_name :: "pslot \<Rightarrow> pslot" where
  "forget_name sp = sp\<lparr>sname := empty_name, hashChain := -1\<rparr>"

text \<open>A name that is not found fails an assertion, which has no effect in a release build.\<close>

definition removeHashEntry :: "(string \<Rightarrow> nat) \<Rightarrow> pname \<Rightarrow> pot \<Rightarrow> pot res" where
  "removeHashEntry wh q p =
     (case buckets p of
        None \<Rightarrow>
          (case first_named q 0 (take (numProp p) (slots p)) of None \<Rightarrow> Ok p
           | Some i \<Rightarrow> Ok (p\<lparr>slots := (slots p)[i := forget_name (slots p ! i)]\<rparr>))
      | Some bs \<Rightarrow>
          (case chain_scan (length (slots p)) (slots p) q (-1) (bs ! bucket_of wh q bs) of
             Ok (None, _) \<Rightarrow> Ok p
           | Ok (Some s, lastSlot) \<Rightarrow>
               let next = hashChain (slots p ! nat s);
                   p = (if 0 \<le> lastSlot
                        then p\<lparr>slots := (slots p)[nat lastSlot := (slots p ! nat lastSlot)\<lparr>hashChain := next\<rparr>]\<rparr>
                        else p\<lparr>buckets := Some (bs[bucket_of wh q bs := next])\<rparr>)
               in Ok (p\<lparr>slots := (slots p)[nat s := forget_name (slots p ! nat s)]\<rparr>)
           | _ \<Rightarrow> Fault))"

section \<open>Lookup by name\<close>

text \<open>
  The search without a namespace: a name found in two slots is not found. \<open>unique_from\<close> is the
  loop over the slots, \<open>chain_unique\<close> the two loops over a hash chain.
\<close>

fun unique_from :: "string \<Rightarrow> nat \<Rightarrow> int \<Rightarrow> pslot list \<Rightarrow> int" where
  "unique_from n i prior [] = prior"
| "unique_from n i prior (sp # ss) =
     (if fst (sname sp) = n then if 0 \<le> prior then -1 else unique_from n (Suc i) (int i) ss
      else unique_from n (Suc i) prior ss)"

fun chain_unique :: "nat \<Rightarrow> pslot list \<Rightarrow> string \<Rightarrow> int \<Rightarrow> int \<Rightarrow> int res" where
  "chain_unique k ss n found cur =
     (if cur < 0 then Ok found
      else if int (length ss) \<le> cur then Fault
      else if fst (sname (ss ! nat cur)) = n then
        if 0 \<le> found then Ok (-1)
        else case k of 0 \<Rightarrow> Fault | Suc m \<Rightarrow> chain_unique m ss n cur (hashChain (ss ! nat cur))
      else case k of 0 \<Rightarrow> Fault | Suc m \<Rightarrow> chain_unique m ss n found (hashChain (ss ! nat cur)))"

declare chain_unique.simps [simp del]

definition ejsLookupPotProperty :: "(string \<Rightarrow> nat) \<Rightarrow> string \<Rightarrow> string option \<Rightarrow> pot \<Rightarrow> int res" where
  "ejsLookupPotProperty wh n space p =
     (if slots p = [] \<or> numProp p = 0 then Ok (-1)
      else
        let linear = (case space of
              Some sp \<Rightarrow> (case first_named (n, sp) 0 (take (numProp p) (slots p)) of
                            None \<Rightarrow> -1 | Some i \<Rightarrow> int i)
            | None \<Rightarrow> unique_from n 0 (-1) (take (numProp p) (slots p)))
        in case buckets p of
             None \<Rightarrow> Ok linear
           | Some bs \<Rightarrow>
               if length bs = 0 then Ok linear
               else case space of
                 Some sp \<Rightarrow>
                   map_res (\<lambda>r. case fst r of None \<Rightarrow> -1 | Some i \<Rightarrow> i)
                     (chain_scan (length (slots p)) (slots p) (n, sp) (-1) (bs ! bucket_of wh (n, sp) bs))
               | None \<Rightarrow> chain_unique (length (slots p)) (slots p) n (-1) (bs ! bucket_of wh (n, []) bs))"

definition lift_res :: "('s \<Rightarrow> 's res) \<Rightarrow> 'a \<Rightarrow> ('s, 'a) op" where
  "lift_res f x s = (case f s of Ok s' \<Rightarrow> (Ok x, s') | Throw e \<Rightarrow> (Throw e, s) | Fault \<Rightarrow> (Fault, s))"

text \<open>
  Naming a slot. The entry of the old name is removed when the slot has a successor in its chain;
  the name is then stored and hashed.
\<close>

definition setPotPropertyName :: "(string \<Rightarrow> nat) \<Rightarrow> int \<Rightarrow> pname \<Rightarrow> (pot, nat) op" where
  "setPotPropertyName wh slotNum q = andthen (ejsCheckSlot slotNum) (\<lambda>s p.
     if 0 \<le> hashChain (slots p ! s) \<and> sname (slots p ! s) = q then (Ok s, p)
     else
       andthen (if 0 \<le> hashChain (slots p ! s) then lift_res (removeHashEntry wh (sname (slots p ! s))) () else ret ())
         (\<lambda>_ p.
           let p = p\<lparr>slots := (slots p)[s := (slots p ! s)\<lparr>sname := q\<rparr>]\<rparr>
           in if buckets p \<noteq> None \<or> EJS_HASH_MIN_PROP < numProp p
              then lift_res (hashProperty wh s q) s p else (Ok s, p)) p)"

section \<open>Access by name\<close>

text \<open>The two-step access that \<open>ejsHelper.c\<close> falls back to for property objects.\<close>

definition ejsSetPropertyByName :: "(string \<Rightarrow> nat) \<Rightarrow> pname \<Rightarrow> pvalue \<Rightarrow> (pot, nat) op" where
  "ejsSetPropertyByName wh q v p =
     (case ejsLookupPotProperty wh (fst q) (Some (snd q)) p of
        Ok s \<Rightarrow>
          if s < 0 then andthen (setPotProperty (-1) v) (\<lambda>s. setPotPropertyName wh (int s) q) p
          else setPotProperty s v p
      | Throw e \<Rightarrow> (Throw e, p)
      | Fault \<Rightarrow> (Fault, p))"

definition ejsGetPropertyByName :: "(string \<Rightarrow> nat) \<Rightarrow> pname \<Rightarrow> pot \<Rightarrow> pvalue option res" where
  "ejsGetPropertyByName wh q p =
     bind_res (ejsLookupPotProperty wh (fst q) (Some (snd q)) p)
       (\<lambda>s. if s < 0 then Ok None else map_res Some (getPotProperty s p))"

text \<open>Deleting leaves the slot in place, without a name and hidden.\<close>

definition deletePotProperty :: "(string \<Rightarrow> nat) \<Rightarrow> int \<Rightarrow> (pot, unit) op" where
  "deletePotProperty wh slotNum p =
     (if slotNum < 0 \<or> int (numProp p) \<le> slotNum then (Throw ReferenceError, p)
      else andthen (lift_res (removeHashEntry wh (sname (slots p ! nat slotNum))) ())
        (\<lambda>_ p. let sp = slots p ! nat slotNum
               in (Ok (), p\<lparr>slots := (slots p)[nat slotNum :=
                     sp\<lparr>sval := Undefined, traitType := None,
                        attributes := EJS_TRAIT_DELETED OR EJS_TRAIT_HIDDEN\<rparr>]\<rparr>)) p)"

definition deletePotPropertyByName :: "(string \<Rightarrow> nat) \<Rightarrow> pname \<Rightarrow> (pot, unit) op" where
  "deletePotPropertyByName wh q p =
     (case ejsLookupPotProperty wh (fst q) (Some (snd q)) p of
        Ok s \<Rightarrow> if s < 0 then (Throw ReferenceError, p) else deletePotProperty wh s p
      | Throw e \<Rightarrow> (Throw e, p)
      | Fault \<Rightarrow> (Fault, p))"

subsection \<open>Definition of properties, accessors included\<close>

text \<open>
  The setter of a function object is shared by everything that refers to the function, so it is kept
  in a store from function addresses to setters. \<open>fresh\<close> is the address of the clone of the
  \<open>nop\<close> function that stands in for a missing getter.
\<close>

type_synonym setters = "nat \<Rightarrow> nat option"

definition has_trait :: "int \<Rightarrow> int \<Rightarrow> bool" where
  "has_trait attrs t \<longleftrightarrow> attrs AND t \<noteq> 0"

fun fun_addr :: "pvalue \<Rightarrow> nat option" where
  "fun_addr (Fun a) = Some a"
| "fun_addr _ = None"

definition prepareAccessors ::
  "nat \<Rightarrow> nat \<Rightarrow> int \<Rightarrow> nat \<Rightarrow> pot \<Rightarrow> setters \<Rightarrow> (int \<times> pvalue \<times> setters)" where
  "prepareAccessors fresh s attrs value p st =
     (let existing = fun_addr (sval (slots p ! s)); old = attributes (slots p ! s)
      in if has_trait attrs EJS_TRAIT_SETTER then
           (case existing of
              Some f \<Rightarrow> (attrs OR old, Fun f, st(f \<mapsto> value))
            | None \<Rightarrow> (attrs, Fun fresh, st(fresh \<mapsto> value)))
         else if has_trait attrs EJS_TRAIT_GETTER then
           (case existing of
              Some f \<Rightarrow>
                if has_trait old EJS_TRAIT_SETTER then
                  (case st f of None \<Rightarrow> (attrs, Fun value, st)
                   | Some g \<Rightarrow> (attrs OR EJS_TRAIT_SETTER, Fun value, st(value \<mapsto> g)))
                else (attrs, Fun value, st)
            | None \<Rightarrow> (attrs, Fun value, st))
         else (attrs, Fun value, st))"

text \<open>
  \<open>None\<close> for the value is a null pointer. The routine returns slot 0 after the type error
  for an accessor that is not a function, which is reported here as the exception alone.
\<close>

definition definePotProperty ::
  "(string \<Rightarrow> nat) \<Rightarrow> nat \<Rightarrow> int \<Rightarrow> pname \<Rightarrow> nat option \<Rightarrow> int \<Rightarrow> pvalue option
     \<Rightarrow> (pot \<times> setters, nat) op" where
  "definePotProperty wh fresh slotNum q propType attrs value ps =
     (let (p, st) = ps; accessor = has_trait attrs (EJS_TRAIT_GETTER OR EJS_TRAIT_SETTER);
          addr = (case value of None \<Rightarrow> None | Some v \<Rightarrow> fun_addr v)
      in if accessor \<and> addr = None then (Throw TypeError, ps)
         else case ejsLookupPotProperty wh (fst q) (Some (snd q)) p of
           Throw e \<Rightarrow> (Throw e, ps)
         | Fault \<Rightarrow> (Fault, ps)
         | Ok priorSlot \<Rightarrow>
             let s = nat (if slotNum < 0 then if priorSlot < 0 then int (numProp p) else priorSlot else slotNum);
                 p = (if numProp p \<le> s \<and> \<not> dynamic p
                      then (if length (slots p) \<le> s then growSlots (s + 1) p else p)\<lparr>numProp := s + 1\<rparr>
                      else p);
                 (r, p) = (if priorSlot < 0 then setPotPropertyName wh (int s) q p else (Ok s, p))
             in case r of Throw e \<Rightarrow> (Throw e, (p, st)) | Fault \<Rightarrow> (Fault, (p, st))
                | Ok _ \<Rightarrow>
                    let (attrs, v, st) =
                          (case (accessor, addr) of
                             (True, Some a) \<Rightarrow>
                               (case prepareAccessors fresh s attrs a p st of (at, v, st') \<Rightarrow> (at, Some v, st'))
                           | _ \<Rightarrow> (attrs, value, st));
                        (r, p) = (case v of None \<Rightarrow> (Ok s, p) | Some x \<Rightarrow> setPotProperty (int s) x p)
                    in case r of Throw e \<Rightarrow> (Throw e, (p, st)) | Fault \<Rightarrow> (Fault, (p, st))
                       | Ok _ \<Rightarrow>
                           (case setPotPropertyTraits (int s) propType attrs p of
                              (Ok _, p) \<Rightarrow> (Ok s, (p, st))
                            | (Throw e, p) \<Rightarrow> (Throw e, (p, st))
                            | (Fault, p) \<Rightarrow> (Fault, (p, st))))"

section \<open>Moving slots\<close>

text \<open>
  Making room for inherited properties. The loop copies downwards from the end, so that a slot is
  read before it is overwritten as long as the source is below the target. It reads the slot
  \<open>mark = offset + incr\<close> places before its target.
\<close>

fun shift_slots :: "nat \<Rightarrow> nat list \<Rightarrow> pslot list \<Rightarrow> pslot list" where
  "shift_slots mark [] ss = ss"
| "shift_slots mark (i # is) ss = shift_slots mark is (ss[i := ss ! (i - mark)])"

definition ejsInsertPotProperties :: "(string \<Rightarrow> nat) \<Rightarrow> nat \<Rightarrow> nat \<Rightarrow> pot \<Rightarrow> pot res" where
  "ejsInsertPotProperties wh incr offset p =
     (if incr = 0 then Ok p
      else
        let p = (if length (slots p) < numProp p + incr then growSlots (numProp p + incr) p else p);
            n = numProp p + incr;
            ss = shift_slots (offset + incr) (rev [offset + incr ..< n]) (slots p)
        in ejsIndexProperties wh (p\<lparr>numProp := n, slots := ejsZeroSlots offset incr ss\<rparr>))"

definition removeSlot :: "(string \<Rightarrow> nat) \<Rightarrow> nat \<Rightarrow> bool \<Rightarrow> pot \<Rightarrow> pot res" where
  "removeSlot wh s compact p =
     (if slots p = [] then Ok p
      else if compact then
        ejsIndexProperties wh
          (p\<lparr>slots := ejsZeroSlots (numProp p - 1) 1
                (take s (slots p) @ drop (s + 1) (take (numProp p) (slots p)) @ drop (numProp p - 1) (slots p)),
             numProp := numProp p - 1\<rparr>)
      else ejsIndexProperties wh (p\<lparr>slots := ejsZeroSlots s 1 (slots p)\<rparr>))"

definition ejsRemovePotProperty :: "(string \<Rightarrow> nat) \<Rightarrow> int \<Rightarrow> (pot, int) op" where
  "ejsRemovePotProperty wh slotNum p =
     (if slotNum < 0 \<or> int (numProp p) \<le> slotNum then (Ok EJS_ERR, p)
      else lift_res (removeSlot wh (nat slotNum) True) 0 p)"

definition ejsCopySlots :: "nat \<Rightarrow> pslot list \<Rightarrow> nat \<Rightarrow> nat \<Rightarrow> pslot list \<Rightarrow> pslot list" where
  "ejsCopySlots destOff src srcOff count dest =
     write_block dest destOff (map (\<lambda>sp. sp\<lparr>hashChain := -1\<rparr>) (take count (drop srcOff src)))"

definition ejsCompactPot :: "(string \<Rightarrow> nat) \<Rightarrow> (pot, nat) op" where
  "ejsCompactPot wh p =
     (let kept = filter (\<lambda>sp. sval sp \<noteq> Undefined \<and> sval sp \<noteq> Null) (take (numProp p) (slots p))
      in lift_res (ejsIndexProperties wh) (length kept)
           (p\<lparr>slots := kept @ drop (length kept) (slots p), numProp := length kept\<rparr>))"

definition ejsMatchName :: "pname \<Rightarrow> pname \<Rightarrow> bool" where
  "ejsMatchName a b \<longleftrightarrow> fst a = fst b \<and> snd a = snd b"

section \<open>Creation and cloning\<close>

record ptype =
  hasInstanceVars :: bool
  dynamicInstances :: bool
  prototype :: pot

definition ejsCreatePot :: "(string \<Rightarrow> nat) \<Rightarrow> ptype \<Rightarrow> nat \<Rightarrow> pot res" where
  "ejsCreatePot wh type n =
     (let n = (if hasInstanceVars type then max n (numProp (prototype type)) else n);
          p = \<lparr>slots = [], numProp = 0, buckets = None, dynamic = dynamicInstances type\<rparr>;
          p = (if 0 < n then
                 if dynamicInstances type then growSlots n p
                 else p\<lparr>slots := replicate n zero_slot\<rparr>
               else p);
          p = p\<lparr>numProp := n\<rparr>
      in if 0 < n \<and> hasInstanceVars type then
           let m = numProp (prototype type);
               ss = (if 0 < m then ejsCopySlots 0 (slots (prototype type)) 0 m (slots p) else slots p);
               p = p\<lparr>slots := ejsZeroSlots m (length ss - m) ss\<rparr>
           in if EJS_HASH_MIN_PROP < n then ejsIndexProperties wh p else Ok p
         else Ok p)"

text \<open>
  Cloning keeps the slots and rebuilds their hash. \<open>cloneValue\<close> is the clone of a value by its
  own type, for values that are mutable and not functions.
\<close>

definition ejsClonePot ::
  "(string \<Rightarrow> nat) \<Rightarrow> (pvalue \<Rightarrow> pvalue) \<Rightarrow> ptype \<Rightarrow> bool \<Rightarrow> pot \<Rightarrow> pot res" where
  "ejsClonePot wh cloneValue type deep src =
     bind_res (ejsCreatePot wh type (numProp src)) (\<lambda>dest.
       let copy = (\<lambda>sp. let sp = sp\<lparr>hashChain := -1\<rparr>
                        in case sval sp of Obj a \<Rightarrow> if deep then sp\<lparr>sval := cloneValue (Obj a)\<rparr> else sp | _ \<Rightarrow> sp);
           dest = dest\<lparr>dynamic := dynamic src, numProp := numProp src,
                       slots := map copy (take (numProp src) (slots src)) @ drop (numProp src) (slots dest)\<rparr>
       in if EJS_HASH_MIN_PROP < numProp dest then ejsIndexProperties wh dest else Ok dest)"

section \<open>Chains\<close>

text \<open>
  \<open>seg ss i js e\<close>: following the links from \<open>i\<close> visits the slots \<open>js\<close> and arrives at \<open>e\<close>.
\<close>

fun seg :: "pslot list \<Rightarrow> int \<Rightarrow> nat list \<Rightarrow> int \<Rightarrow> bool" where
  "seg ss i [] e \<longleftrightarrow> i = e"
| "seg ss i (j # js) e \<longleftrightarrow> i = int j \<and> j < length ss \<and> seg ss (hashChain (ss ! j)) js e"

lemma seg_append: "seg ss i (xs @ ys) e \<longleftrightarrow> (\<exists>m. seg ss i xs m \<and> seg ss m ys e)"
  by (induction xs arbitrary: i) auto

lemma seg_cong:
  "(\<And>j. j \<in> set js \<Longrightarrow> hashChain (ss' ! j) = hashChain (ss ! j)) \<Longrightarrow> length ss' = length ss \<Longrightarrow>
     seg ss' i js e \<longleftrightarrow> seg ss i js e"
  by (induction js arbitrary: i) auto

lemma seg_bounds: "seg ss i js e \<Longrightarrow> \<forall>j \<in> set js. j < length ss"
  by (induction js arbitrary: i) auto

fun scan_list :: "pslot list \<Rightarrow> pname \<Rightarrow> int \<Rightarrow> nat list \<Rightarrow> int option \<times> int" where
  "scan_list ss q prev [] = (None, prev)"
| "scan_list ss q prev (j # js) = (if sname (ss ! j) = q then (Some (int j), prev) else scan_list ss q (int j) js)"

lemma chain_scan_seg:
  "seg ss cur js e \<Longrightarrow> e < 0 \<Longrightarrow> length js \<le> n \<Longrightarrow> chain_scan n ss q prev cur = Ok (scan_list ss q prev js)"
proof (induction js arbitrary: n prev cur)
  case Nil
  then show ?case by (simp add: chain_scan.simps)
next
  case (Cons j js)
  then show ?case by (cases n) (simp_all add: chain_scan.simps [of _ ss q prev])
qed

lemma chain_scan_step:
  "cur < 0 \<Longrightarrow> chain_scan n ss q prev cur = Ok (None, prev)"
  "0 \<le> cur \<Longrightarrow> cur < int (length ss) \<Longrightarrow> sname (ss ! nat cur) = q \<Longrightarrow>
     chain_scan n ss q prev cur = Ok (Some cur, prev)"
  "0 \<le> cur \<Longrightarrow> cur < int (length ss) \<Longrightarrow> sname (ss ! nat cur) \<noteq> q \<Longrightarrow> 0 < n \<Longrightarrow>
     chain_scan n ss q prev cur = chain_scan (n - 1) ss q cur (hashChain (ss ! nat cur))"
  by (simp_all add: chain_scan.simps [of n]) (cases n; simp)

lemma scan_list_absent: "\<forall>j \<in> set js. sname (ss ! j) \<noteq> q \<Longrightarrow>
    scan_list ss q prev js = (None, if js = [] then prev else int (last js))"
  by (induction js arbitrary: prev) auto

lemma scan_list_split:
  "\<forall>j \<in> set xs. sname (ss ! j) \<noteq> q \<Longrightarrow> sname (ss ! s) = q \<Longrightarrow>
     scan_list ss q prev (xs @ s # ys) = (Some (int s), if xs = [] then prev else int (last xs))"
  by (induction xs arbitrary: prev) auto

lemma scan_list_present:
  "j \<in> set js \<Longrightarrow> sname (ss ! j) = q \<Longrightarrow> \<exists>i prev'. scan_list ss q prev js = (Some i, prev')"
  by (induction js arbitrary: prev) auto

lemma distinct_bounded_length: "distinct js \<Longrightarrow> \<forall>j \<in> set js. j < n \<Longrightarrow> length js \<le> n"
proof -
  assume d: "distinct js" and b: "\<forall>j \<in> set js. j < n"
  then have "set js \<subseteq> {..< n}" by auto
  then have "card (set js) \<le> n" using card_mono [of "{..< n}" "set js"] by simp
  then show ?thesis using d by (simp add: distinct_card)
qed

text \<open>
  The hash is sound for the bucket contents \<open>f\<close>: every bucket heads an ended chain of distinct
  slots in use, with distinct names that all belong to this bucket.
\<close>

definition chain_ok :: "(string \<Rightarrow> nat) \<Rightarrow> int list \<Rightarrow> pot \<Rightarrow> nat \<Rightarrow> nat list \<Rightarrow> bool" where
  "chain_ok wh bs p k js \<longleftrightarrow> (\<exists>e < 0. seg (slots p) (bs ! k) js e) \<and> distinct js
     \<and> (\<forall>i \<in> set js. \<forall>j \<in> set js. sname (slots p ! i) = sname (slots p ! j) \<longrightarrow> i = j)
     \<and> (\<forall>j \<in> set js. j < numProp p \<and> bucket_of wh (sname (slots p ! j)) bs = k)"

definition hash_sound :: "(string \<Rightarrow> nat) \<Rightarrow> int list \<Rightarrow> (nat \<Rightarrow> nat list) \<Rightarrow> pot \<Rightarrow> bool" where
  "hash_sound wh bs f p \<longleftrightarrow> buckets p = Some bs \<and> bs \<noteq> [] \<and> numProp p \<le> length (slots p)
     \<and> (\<forall>k < length bs. chain_ok wh bs p k (f k))"

lemma bucket_of_less [simp]: "bs \<noteq> [] \<Longrightarrow> bucket_of wh q bs < length bs"
  by (simp add: bucket_of_def)

lemma bucket_of_update [simp]: "bucket_of wh q (bs[k := x]) = bucket_of wh q bs"
  by (simp add: bucket_of_def)

lemma bucket_of_cong: "length bs' = length bs \<Longrightarrow> bucket_of wh q bs' = bucket_of wh q bs"
  by (simp add: bucket_of_def)

lemma chain_scan_ok:
  assumes "hash_sound wh bs f p"
  shows "chain_scan (length (slots p)) (slots p) q (-1) (bs ! bucket_of wh q bs)
     = Ok (scan_list (slots p) q (-1) (f (bucket_of wh q bs)))"
proof -
  have "chain_ok wh bs p (bucket_of wh q bs) (f (bucket_of wh q bs))"
    using assms by (simp add: hash_sound_def)
  then obtain e where "e < 0" "seg (slots p) (bs ! bucket_of wh q bs) (f (bucket_of wh q bs)) e"
    "distinct (f (bucket_of wh q bs))" by (auto simp: chain_ok_def)
  moreover from this have "length (f (bucket_of wh q bs)) \<le> length (slots p)"
    using distinct_bounded_length seg_bounds by blast
  ultimately show ?thesis by (intro chain_scan_seg)
qed

text \<open>A chain is untouched by changes to slots that are not on it.\<close>

lemma chain_ok_other:
  assumes "chain_ok wh bs p k js" and "length (slots p') = length (slots p)"
    and "bs' ! k = bs ! k" and "length bs' = length bs" and "numProp p \<le> numProp p'"
    and "\<And>j. j \<in> set js \<Longrightarrow> hashChain (slots p' ! j) = hashChain (slots p ! j)
           \<and> sname (slots p' ! j) = sname (slots p ! j)"
  shows "chain_ok wh bs' p' k js"
proof -
  have "seg (slots p') i js e \<longleftrightarrow> seg (slots p) i js e" for i e
    by (rule seg_cong) (use assms in auto)
  then show ?thesis using assms by (fastforce simp: chain_ok_def bucket_of_def)
qed

text \<open>The slots without their links: what hashing does not change.\<close>

definition strip :: "pslot list \<Rightarrow> pslot list" where
  "strip ss = map (\<lambda>sp. sp\<lparr>hashChain := 0\<rparr>) ss"

lemma strip_eq_iff:
  "strip ss' = strip ss \<longleftrightarrow> length ss' = length ss
     \<and> (\<forall>i < length ss. sname (ss' ! i) = sname (ss ! i) \<and> sval (ss' ! i) = sval (ss ! i)
          \<and> traitType (ss' ! i) = traitType (ss ! i) \<and> attributes (ss' ! i) = attributes (ss ! i))"
proof -
  have r: "a\<lparr>hashChain := 0\<rparr> = b\<lparr>hashChain := 0\<rparr> \<longleftrightarrow> sname a = sname b \<and> sval a = sval b
      \<and> traitType a = traitType b \<and> attributes a = attributes b" for a b :: pslot
    by (cases a; cases b) auto
  show ?thesis unfolding strip_def list_eq_iff_nth_eq by (auto simp: r)
qed

lemma strip_append: "strip (xs @ ys) = strip xs @ strip ys"
  by (simp add: strip_def)

lemma strip_map_chain: "strip (map (\<lambda>sp. sp\<lparr>hashChain := x\<rparr>) ss) = strip ss"
  by (simp add: strip_def comp_def)

lemma strip_update_chain [simp]: "strip (ss[i := (ss ! i)\<lparr>hashChain := x\<rparr>]) = strip ss"
  by (cases "i < length ss") (auto simp: strip_eq_iff nth_list_update)

lemma hash_append_present:
  assumes "hash_sound wh bs f p" and "j \<in> set (f (bucket_of wh q bs))" and "sname (slots p ! j) = q"
  shows "hash_append wh s q bs p = Ok p"
  using chain_scan_ok [OF assms(1), of q] scan_list_present [OF assms(2,3), of "-1"]
  by (auto simp: hash_append_def)

lemma hash_append_new:
  assumes sound: "hash_sound wh bs f p" and s: "s < numProp p" "sname (slots p ! s) = q"
    and new: "\<forall>k < length bs. s \<notin> set (f k)"
    and absent: "\<forall>j \<in> set (f (bucket_of wh q bs)). sname (slots p ! j) \<noteq> q"
  shows "\<exists>bs' p'. hash_append wh s q bs p = Ok p'
     \<and> hash_sound wh bs' (f(bucket_of wh q bs := f (bucket_of wh q bs) @ [s])) p'
     \<and> strip (slots p') = strip (slots p) \<and> numProp p' = numProp p \<and> dynamic p' = dynamic p
     \<and> length bs' = length bs \<and> drop (numProp p) (slots p') = drop (numProp p) (slots p)"
proof -
  let ?b = "bucket_of wh q bs" and ?ss = "slots p"
  let ?f = "f(?b := f ?b @ [s])"
  have bs: "bs \<noteq> []" "buckets p = Some bs" "numProp p \<le> length ?ss" and b: "?b < length bs"
    using sound by (auto simp: hash_sound_def)
  have sl: "s < length ?ss" using s bs by simp
  have ok: "\<And>k. k < length bs \<Longrightarrow> chain_ok wh bs p k (f k)" using sound by (simp add: hash_sound_def)
  from ok [OF b] obtain e where e: "e < 0" "seg ?ss (bs ! ?b) (f ?b) e" "distinct (f ?b)"
    by (auto simp: chain_ok_def)
  have scan: "chain_scan (length ?ss) ?ss q (-1) (bs ! ?b)
      = Ok (None, if f ?b = [] then -1 else int (last (f ?b)))"
    using chain_scan_ok [OF sound, of q] scan_list_absent [OF absent] by simp
  define last where "last = (if f ?b = [] then -1 else int (List.last (f ?b)))"
  define ss1 where "ss1 = (if f ?b = [] then ?ss
      else ?ss[nat last := (?ss ! nat last)\<lparr>hashChain := int s\<rparr>])"
  define ss2 where "ss2 = ss1[s := (ss1 ! s)\<lparr>hashChain := -2, sname := q\<rparr>]"
  define bs' where "bs' = (if f ?b = [] then bs[?b := int s] else bs)"
  let ?p = "p\<lparr>slots := ss2, buckets := Some bs'\<rparr>"
  have step: "hash_append wh s q bs p = Ok ?p"
    using scan bs(2) by (simp add: hash_append_def Let_def last_def ss1_def ss2_def bs'_def)
  have len: "length ss1 = length ?ss" "length ss2 = length ?ss" by (simp_all add: ss1_def ss2_def)
  have snot: "s \<notin> set (f ?b)" using new b by blast
  have name1: "sname (ss1 ! i) = sname (?ss ! i)" for i
    by (cases "nat last < length ?ss") (auto simp: ss1_def nth_list_update list_update_beyond)
  have strip: "strip ss2 = strip ?ss"
  proof -
    have "(ss1 ! s)\<lparr>hashChain := -2, sname := q\<rparr> = (ss1 ! s)\<lparr>hashChain := -2\<rparr>"
      using name1 [of s] s(2) by (cases "ss1 ! s") simp
    then have "ss2 = ss1[s := (ss1 ! s)\<lparr>hashChain := -2\<rparr>]" by (simp add: ss2_def)
    then show ?thesis by (simp add: ss1_def)
  qed
  have same: "hashChain (ss2 ! j) = hashChain (?ss ! j) \<and> sname (ss2 ! j) = sname (?ss ! j)"
    if "j \<noteq> s" "f ?b = [] \<or> j \<noteq> List.last (f ?b)" for j
    using that by (auto simp: ss2_def ss1_def last_def)
  have name2: "sname (ss2 ! i) = sname (?ss ! i)" for i
    using name1 s(2) sl len by (cases "i = s") (auto simp: ss2_def)
  have other: "chain_ok wh bs' ?p k (f k)" if k: "k < length bs" "k \<noteq> ?b" for k
  proof (rule chain_ok_other [OF ok [OF k(1)]])
    fix j assume j: "j \<in> set (f k)"
    have "j \<noteq> s" using new k j by auto
    moreover have "f ?b = [] \<or> j \<noteq> List.last (f ?b)"
    proof (rule ccontr)
      assume "\<not> ?thesis"
      then have "j \<in> set (f ?b)" by auto
      then have "bucket_of wh (sname (?ss ! j)) bs = ?b" using ok [OF b] by (simp add: chain_ok_def)
      moreover have "bucket_of wh (sname (?ss ! j)) bs = k" using ok [OF k(1)] j by (simp add: chain_ok_def)
      ultimately show False using k(2) by simp
    qed
    ultimately show "hashChain (slots ?p ! j) = hashChain (?ss ! j) \<and> sname (slots ?p ! j) = sname (?ss ! j)"
      using same by simp
  qed (use k len in \<open>auto simp: bs'_def\<close>)
  have seg2: "seg ss2 (bs' ! ?b) (f ?b @ [s]) (-2)"
  proof (cases "f ?b = []")
    case True
    then show ?thesis using b sl len by (simp add: bs'_def ss2_def ss1_def)
  next
    case False
    then obtain xs l where xs: "f ?b = xs @ [l]" by (metis rev_exhaust)
    then have l: "last = int l" "l \<in> set (f ?b)" by (simp_all add: last_def)
    from e(2) xs obtain m where m: "seg ?ss (bs ! ?b) xs m" "m = int l" "l < length ?ss"
      by (auto simp: seg_append)
    have "seg ss2 (bs ! ?b) xs m \<longleftrightarrow> seg ?ss (bs ! ?b) xs m"
    proof (rule seg_cong)
      fix j assume "j \<in> set xs"
      then have "j \<noteq> s" "j \<noteq> List.last (f ?b)" using xs e(3) snot by auto
      then show "hashChain (ss2 ! j) = hashChain (?ss ! j)" using same by blast
    qed (rule len(2))
    moreover have "hashChain (ss2 ! l) = int s"
      using xs l m(3) snot by (auto simp: ss2_def ss1_def)
    moreover have "hashChain (ss2 ! s) = -2" using sl len by (simp add: ss2_def)
    ultimately show ?thesis using m xs sl len by (simp add: seg_append bs'_def)
  qed
  have lb: "length bs' = length bs" by (simp add: bs'_def)
  note old = ok [OF b, unfolded chain_ok_def]
  have inj: "\<forall>i \<in> set (f ?b @ [s]). \<forall>j \<in> set (f ?b @ [s]). sname (ss2 ! i) = sname (ss2 ! j) \<longrightarrow> i = j"
    unfolding name2
  proof (intro ballI impI)
    fix i j
    assume ij: "i \<in> set (f ?b @ [s])" "j \<in> set (f ?b @ [s])" "sname (?ss ! i) = sname (?ss ! j)"
    consider "i \<in> set (f ?b)" "j \<in> set (f ?b)" | "i = s" "j = s"
      | "i \<in> set (f ?b)" "j = s" | "i = s" "j \<in> set (f ?b)" using ij(1,2) by fastforce
    then show "i = j"
    proof cases
      case 1 then show ?thesis using old ij(3) by blast
    next
      case 3 then show ?thesis using absent ij(3) s(2) by metis
    next
      case 4 then show ?thesis using absent ij(3) s(2) by metis
    qed simp
  qed
  have inb: "\<forall>j \<in> set (f ?b @ [s]). j < numProp p \<and> bucket_of wh (sname (ss2 ! j)) bs = ?b"
    unfolding name2
  proof
    fix j assume "j \<in> set (f ?b @ [s])"
    then consider "j \<in> set (f ?b)" | "j = s" by auto
    then show "j < numProp p \<and> bucket_of wh (sname (?ss ! j)) bs = ?b"
      by cases (use old s in blast, simp add: s)
  qed
  have "chain_ok wh bs' ?p ?b (f ?b @ [s])"
    unfolding chain_ok_def
  proof (intro conjI)
    show "\<exists>e<0. seg (slots ?p) (bs' ! ?b) (f ?b @ [s]) e" using seg2 by (intro exI [of _ "-2"]) simp
    show "distinct (f ?b @ [s])" using e(3) snot by simp
    show "\<forall>i \<in> set (f ?b @ [s]). \<forall>j \<in> set (f ?b @ [s]).
        sname (slots ?p ! i) = sname (slots ?p ! j) \<longrightarrow> i = j" using inj by simp
    show "\<forall>j \<in> set (f ?b @ [s]). j < numProp ?p \<and> bucket_of wh (sname (slots ?p ! j)) bs' = ?b"
      using inb bucket_of_cong [OF lb, of wh] by simp
  qed
  then have "hash_sound wh bs' ?f ?p"
    using other bs b len by (auto simp: hash_sound_def bs'_def)
  moreover have "drop (numProp p) ss2 = drop (numProp p) ?ss"
  proof (cases "f ?b = []")
    case True
    then show ?thesis using s(1) by (simp add: ss2_def ss1_def)
  next
    case False
    then have "List.last (f ?b) < numProp p" using old by simp
    then show ?thesis using False s(1) by (simp add: ss2_def ss1_def last_def)
  qed
  ultimately show ?thesis using step strip
    by (intro exI [of _ bs'] exI [of _ ?p]) (auto simp: bs'_def)
qed

text \<open>The hash is complete: every named slot has its name on a chain, at or before it.\<close>

definition hash_complete :: "(string \<Rightarrow> nat) \<Rightarrow> int list \<Rightarrow> (nat \<Rightarrow> nat list) \<Rightarrow> nat \<Rightarrow> pslot list \<Rightarrow> bool" where
  "hash_complete wh bs f n ss \<longleftrightarrow> (\<forall>i < n. sname (ss ! i) \<noteq> empty_name \<longrightarrow>
     (\<exists>j \<in> set (f (bucket_of wh (sname (ss ! i)) bs)). sname (ss ! j) = sname (ss ! i) \<and> j \<le> i))"

lemma hash_all_from:
  assumes "hash_sound wh bs f p" and "i \<le> numProp p" and "\<forall>k < length bs. \<forall>j \<in> set (f k). j < i"
    and "hash_complete wh bs f i (slots p)"
  shows "\<exists>bs' f' p'. hash_all wh [i ..< numProp p] p = Ok p' \<and> hash_sound wh bs' f' p'
     \<and> strip (slots p') = strip (slots p) \<and> numProp p' = numProp p \<and> dynamic p' = dynamic p
     \<and> length bs' = length bs \<and> hash_complete wh bs' f' (numProp p) (slots p')
     \<and> drop (numProp p) (slots p') = drop (numProp p) (slots p)"
  using assms
proof (induction "numProp p - i" arbitrary: i bs f p)
  case 0
  then show ?case by (intro exI [of _ bs] exI [of _ f] exI [of _ p]) simp
next
  case (Suc n)
  let ?q = "sname (slots p ! i)"
  let ?b = "bucket_of wh ?q bs"
  have i: "i < numProp p" using Suc.hyps(2) by simp
  have bs: "buckets p = Some bs" "bs \<noteq> []" "numProp p \<le> length (slots p)"
    using Suc.prems(1) by (auto simp: hash_sound_def)
  have up: "[i ..< numProp p] = i # [Suc i ..< numProp p]" using i by (simp add: upt_conv_Cons)
  show ?case
  proof (cases "\<exists>j \<in> set (f ?b). sname (slots p ! j) = ?q")
    case True
    then obtain j where j: "j \<in> set (f ?b)" "sname (slots p ! j) = ?q" by blast
    have step: "hash_append wh i ?q bs p = Ok p" by (rule hash_append_present [OF Suc.prems(1) j])
    have ji: "j < i" using Suc.prems(3) j(1) bucket_of_less [OF bs(2)] by blast
    have c: "hash_complete wh bs f (Suc i) (slots p)"
      using Suc.prems(4) j ji by (auto simp: hash_complete_def less_Suc_eq intro: less_imp_le)
    have "\<exists>bs' f' p'. hash_all wh [Suc i ..< numProp p] p = Ok p' \<and> hash_sound wh bs' f' p'
     \<and> strip (slots p') = strip (slots p) \<and> numProp p' = numProp p \<and> dynamic p' = dynamic p
     \<and> length bs' = length bs \<and> hash_complete wh bs' f' (numProp p) (slots p')
     \<and> drop (numProp p) (slots p') = drop (numProp p) (slots p)"
      by (rule Suc.hyps(1)) (use Suc.hyps(2) Suc.prems(1,3) i c in \<open>auto intro: less_SucI\<close>)
    then show ?thesis using step bs(1) up by simp
  next
    case False
    have new: "\<forall>k < length bs. i \<notin> set (f k)" using Suc.prems(3) by blast
    have absent: "\<forall>j \<in> set (f ?b). sname (slots p ! j) \<noteq> ?q" using False by blast
    from hash_append_new [OF Suc.prems(1) i refl new absent] obtain bs1 p1 where
      s1: "hash_append wh i ?q bs p = Ok p1" and
      r1: "hash_sound wh bs1 (f(?b := f ?b @ [i])) p1" "strip (slots p1) = strip (slots p)"
        "numProp p1 = numProp p" "dynamic p1 = dynamic p" "length bs1 = length bs"
        "drop (numProp p) (slots p1) = drop (numProp p) (slots p)"
      by (elim exE conjE, intro that)
    let ?f = "f(?b := f ?b @ [i])"
    have names: "sname (slots p1 ! j) = sname (slots p ! j)" if "j < length (slots p)" for j
      using r1(2) that by (simp add: strip_eq_iff)
    have fi: "j \<in> set (f k) \<Longrightarrow> k < length bs \<Longrightarrow> j < i" for j k using Suc.prems(3) by blast
    have c: "hash_complete wh bs1 ?f (Suc i) (slots p1)"
      unfolding hash_complete_def
    proof (intro allI impI)
      fix i' assume i': "i' < Suc i" and ne: "sname (slots p1 ! i') \<noteq> empty_name"
      let ?k = "bucket_of wh (sname (slots p1 ! i')) bs1"
      have nm: "sname (slots p1 ! i') = sname (slots p ! i')" using names i' i bs(3) by simp
      have k: "?k = bucket_of wh (sname (slots p ! i')) bs" using nm r1(5) by (simp add: bucket_of_def)
      show "\<exists>j \<in> set (?f ?k). sname (slots p1 ! j) = sname (slots p1 ! i') \<and> j \<le> i'"
      proof (cases "i' = i")
        case True
        then show ?thesis using k by auto
      next
        case False
        then have "i' < i" using i' by simp
        with Suc.prems(4) ne nm obtain j where
          j: "j \<in> set (f (bucket_of wh (sname (slots p ! i')) bs))" "sname (slots p ! j) = sname (slots p ! i')" "j \<le> i'"
          by (auto simp: hash_complete_def)
        have "sname (slots p1 ! j) = sname (slots p ! j)" using names j(3) \<open>i' < i\<close> i bs(3) by simp
        with j nm k show ?thesis by (intro bexI [of _ j]) auto
      qed
    qed
    have "\<exists>bs' f' p'. hash_all wh [Suc i ..< numProp p1] p1 = Ok p' \<and> hash_sound wh bs' f' p'
     \<and> strip (slots p') = strip (slots p1) \<and> numProp p' = numProp p1 \<and> dynamic p' = dynamic p1
     \<and> length bs' = length bs1 \<and> hash_complete wh bs' f' (numProp p1) (slots p')
     \<and> drop (numProp p1) (slots p') = drop (numProp p1) (slots p1)"
    proof (rule Suc.hyps(1) [where f = ?f and bs = bs1])
      show "n = numProp p1 - Suc i" using Suc.hyps(2) r1(3) by simp
      show "Suc i \<le> numProp p1" using i r1(3) by simp
      show "hash_sound wh bs1 ?f p1" by (rule r1(1))
      show "hash_complete wh bs1 ?f (Suc i) (slots p1)" by (rule c)
      show "\<forall>k < length bs1. \<forall>j \<in> set (?f k). j < Suc i"
        using fi r1(5) bs(2) by (auto intro: less_SucI)
    qed
    then show ?thesis using s1 bs(1) up r1 by simp
  qed
qed

lemma hash_size_for_bounds:
  "n \<le> List.last (s # ss) \<Longrightarrow> 0 < n \<or> (\<forall>x \<in> set (s # ss). 0 < x) \<Longrightarrow>
     n \<le> hash_size_for n (s # ss) \<and> (0 < hash_size_for n (s # ss))"
  by (induction n "s # ss" arbitrary: s ss rule: hash_size_for.induct) (auto split: if_splits)

lemma ejsGetHashSize_bounds:
  assumes "n \<le> 196613"
  shows "n \<le> ejsGetHashSize n" and "0 < ejsGetHashSize n"
  using hash_size_for_bounds [of n 19 "tl hashSizes"] assms
  by (simp_all add: ejsGetHashSize_def hashSizes_def)

lemma drop_clear_chains [simp]: "n \<le> length ss \<Longrightarrow> drop n (clear_chains n ss) = drop n ss"
  by (simp add: clear_chains_def)

text \<open>Indexing keeps the slots and builds a sound and complete hash.\<close>

lemma ejsIndexProperties_ok:
  assumes "numProp p \<le> length (slots p)" and "numProp p \<le> 196613"
  shows "\<exists>p'. ejsIndexProperties wh p = Ok p' \<and> strip (slots p') = strip (slots p)
     \<and> numProp p' = numProp p \<and> dynamic p' = dynamic p
     \<and> (slots p \<noteq> [] \<longrightarrow> buckets p' \<noteq> None \<longrightarrow> (\<exists>bs f. hash_sound wh bs f p' \<and> hash_complete wh bs f (numProp p) (slots p')
           \<and> numProp p \<le> length bs))
     \<and> (buckets p' = None \<longrightarrow> buckets p = None \<and> (slots p = [] \<or> numProp p \<le> EJS_HASH_MIN_PROP))
     \<and> (slots p = [] \<longrightarrow> p' = p)
     \<and> drop (numProp p) (slots p') = drop (numProp p) (slots p)"
proof (cases "slots p = [] \<or> numProp p \<le> EJS_HASH_MIN_PROP \<and> buckets p = None")
  case True
  then have "ejsIndexProperties wh p = Ok p" by (auto simp: ejsIndexProperties_def)
  then show ?thesis using True by auto
next
  case False
  define sz where "sz = (case buckets p of None \<Rightarrow> ejsGetHashSize (numProp p)
      | Some bs \<Rightarrow> if length bs < ejsGetHashSize (numProp p) then ejsGetHashSize (numProp p) else length bs)"
  let ?bs = "replicate sz (-1 :: int)"
  let ?p = "p\<lparr>buckets := Some ?bs,
      slots := (if buckets p = None then slots p else clear_chains (numProp p) (slots p))\<rparr>"
  have sz: "numProp p \<le> sz" "0 < sz"
    using ejsGetHashSize_bounds [OF assms(2)] by (auto simp: sz_def split: option.splits)
  have strip: "strip (slots ?p) = strip (slots p)"
  proof -
    have "strip (clear_chains (numProp p) (slots p)) = strip (slots p)"
      by (simp add: clear_chains_def strip_append strip_map_chain) (simp flip: strip_append)
    then show ?thesis by simp
  qed
  then have len: "length (slots ?p) = length (slots p)" by (simp only: strip_eq_iff)
  have "\<forall>k < sz. \<exists>e < 0. seg (slots ?p) (?bs ! k) [] e" by simp
  then have sound: "hash_sound wh ?bs (\<lambda>_. []) ?p"
    using assms(1) sz len by (simp add: hash_sound_def chain_ok_def)
  have step: "ejsIndexProperties wh p = hash_all wh [0 ..< numProp ?p] ?p"
    using False sz(1) by (auto simp: ejsIndexProperties_def Let_def sz_def)
  from hash_all_from [OF sound, of 0] obtain bs' f' p' where
    r: "hash_all wh [0 ..< numProp ?p] ?p = Ok p'" "hash_sound wh bs' f' p'"
      "strip (slots p') = strip (slots ?p)" "numProp p' = numProp ?p" "dynamic p' = dynamic ?p"
      "length bs' = length ?bs" "hash_complete wh bs' f' (numProp ?p) (slots p')"
      "drop (numProp ?p) (slots p') = drop (numProp ?p) (slots ?p)"
    by (auto simp: hash_complete_def)
  have "buckets p' = Some bs'" using r(2) by (simp add: hash_sound_def)
  then show ?thesis using r step strip sz False assms(1) by auto
qed

section \<open>The invariant, and lookup as a search of the slots\<close>

definition pot_inv :: "(string \<Rightarrow> nat) \<Rightarrow> pot \<Rightarrow> bool" where
  "pot_inv wh p \<longleftrightarrow> numProp p \<le> length (slots p)
     \<and> (\<forall>i < numProp p. \<forall>j < numProp p. sname (slots p ! i) = sname (slots p ! j)
          \<longrightarrow> sname (slots p ! i) \<noteq> empty_name \<longrightarrow> i = j)
     \<and> (\<forall>sp \<in> set (drop (numProp p) (slots p)). hashChain sp < 0)
     \<and> (\<forall>bs. buckets p = Some bs \<longrightarrow>
          (\<exists>f. hash_sound wh bs f p \<and> hash_complete wh bs f (numProp p) (slots p)))"

definition pot_find :: "pname \<Rightarrow> pot \<Rightarrow> nat option" where
  "pot_find q p = first_named q 0 (take (numProp p) (slots p))"

lemma first_named_None: "first_named q k ss = None \<longleftrightarrow> (\<forall>sp \<in> set ss. sname sp \<noteq> q)"
  by (induction ss arbitrary: k) auto

lemma first_named_Some:
  "first_named q k ss = Some i \<longleftrightarrow>
     k \<le> i \<and> i - k < length ss \<and> sname (ss ! (i - k)) = q \<and> (\<forall>j < i - k. sname (ss ! j) \<noteq> q)"
proof (induction ss arbitrary: k)
  case (Cons sp ss)
  show ?case
  proof (cases "sname sp = q")
    case True
    have "(\<forall>j < i - k. sname ((sp # ss) ! j) \<noteq> q) \<longrightarrow> i - k = 0" using True by (cases "i - k") auto
    then show ?thesis using True by auto
  next
    case False
    show ?thesis
    proof (cases "k < i")
      case True
      then obtain d where d: "i - k = Suc d" "i - Suc k = d" by (metis Suc_diff_Suc)
      then show ?thesis using Cons.IH [of "Suc k"] False True
        by (auto simp: All_less_Suc2)
    next
      case le: False
      then have "first_named q (Suc k) ss \<noteq> Some i" using Cons.IH [of "Suc k"] by auto
      then show ?thesis using False le by auto
    qed
  qed
qed simp

lemma pot_find_None:
  "numProp p \<le> length (slots p) \<Longrightarrow> pot_find q p = None \<longleftrightarrow> (\<forall>i < numProp p. sname (slots p ! i) \<noteq> q)"
  by (auto simp: pot_find_def first_named_None all_set_conv_all_nth)

lemma pot_find_Some:
  "numProp p \<le> length (slots p) \<Longrightarrow> pot_find q p = Some i \<longleftrightarrow>
     i < numProp p \<and> sname (slots p ! i) = q \<and> (\<forall>j < i. sname (slots p ! j) \<noteq> q)"
  by (auto simp: pot_find_def first_named_Some)

lemma scan_list_Some:
  "scan_list ss q prev js = (Some x, prev') \<Longrightarrow> \<exists>j \<in> set js. x = int j \<and> sname (ss ! j) = q"
  by (induction js arbitrary: prev) (auto split: if_splits)

text \<open>A sound and complete hash finds the first slot of the name, as the linear search does.\<close>

lemma scan_list_first:
  assumes sound: "hash_sound wh bs f p" and complete: "hash_complete wh bs f (numProp p) (slots p)"
    and q: "q \<noteq> empty_name"
  shows "fst (scan_list (slots p) q (-1) (f (bucket_of wh q bs))) = map_option int (pot_find q p)"
proof -
  let ?js = "f (bucket_of wh q bs)"
  have n: "numProp p \<le> length (slots p)" "bs \<noteq> []" using sound by (simp_all add: hash_sound_def)
  have ok: "chain_ok wh bs p (bucket_of wh q bs) ?js"
    using sound n(2) by (simp add: hash_sound_def)
  show ?thesis
  proof (cases "pot_find q p")
    case None
    then have "\<forall>j \<in> set ?js. sname (slots p ! j) \<noteq> q"
      using ok n(1) by (auto simp: pot_find_None chain_ok_def)
    then show ?thesis using None by (simp add: scan_list_absent)
  next
    case (Some i)
    then have i: "i < numProp p" "sname (slots p ! i) = q" "\<forall>j < i. sname (slots p ! j) \<noteq> q"
      using n(1) by (auto simp: pot_find_Some)
    from complete i q obtain j where j: "j \<in> set ?js" "sname (slots p ! j) = q" "j \<le> i"
      by (auto simp: hash_complete_def)
    then have "j = i" using i(3) by (metis le_neq_implies_less)
    obtain x prev where x: "scan_list (slots p) q (-1) ?js = (Some x, prev)"
      using scan_list_present [OF j(1,2)] by blast
    from scan_list_Some [OF x] obtain j' where "j' \<in> set ?js" "x = int j'" "sname (slots p ! j') = q"
      by blast
    then have "x = int i" using ok j(1,2) \<open>j = i\<close> by (auto simp: chain_ok_def)
    then show ?thesis using x Some by simp
  qed
qed

lemma lookup_correct:
  assumes "pot_inv wh p" and "(n, sp) \<noteq> empty_name"
  shows "ejsLookupPotProperty wh n (Some sp) p
     = Ok (case pot_find (n, sp) p of None \<Rightarrow> -1 | Some i \<Rightarrow> int i)"
proof (cases "slots p = [] \<or> numProp p = 0")
  case True
  then show ?thesis by (auto simp: ejsLookupPotProperty_def pot_find_def)
next
  case False
  show ?thesis
  proof (cases "buckets p")
    case None
    then show ?thesis using False by (simp add: ejsLookupPotProperty_def pot_find_def)
  next
    case (Some bs)
    then obtain f where f: "hash_sound wh bs f p" "hash_complete wh bs f (numProp p) (slots p)"
      using assms(1) by (auto simp: pot_inv_def)
    have "bs \<noteq> []" using f(1) by (simp add: hash_sound_def)
    then show ?thesis
      using False Some chain_scan_ok [OF f(1), of "(n, sp)"] scan_list_first [OF f assms(2)]
      by (simp add: ejsLookupPotProperty_def split: option.splits)
  qed
qed

section \<open>Growth\<close>

lemma growSlots_shape:
  "\<exists>k. growSlots n p = p\<lparr>slots := slots p @ replicate k zero_slot\<rparr> \<and> n \<le> length (slots p) + k
     \<and> (length (slots p) < n \<longrightarrow> (length (slots p) + k) mod EJS_ROUND_PROP = 0)"
proof (cases "length (slots p) < n")
  case False
  then show ?thesis by (intro exI [of _ 0]) (simp add: growSlots_def)
next
  case True
  let ?f = "max (length (slots p) div 4) EJS_ROUND_PROP"
  define m where "m = (if EJS_LOTSA_PROP < n then (n + ?f) div ?f * ?f else n)"
  have "n \<le> m" using round_up_multiple(2) [of ?f n, THEN less_imp_le] by (simp add: m_def EJS_ROUND_PROP_def)
  moreover have "m \<le> EJS_PROP_ROUNDUP m"
    unfolding EJS_PROP_ROUNDUP_def by (rule round_up_multiple(1)) (simp add: EJS_ROUND_PROP_def)
  ultimately have le: "n \<le> EJS_PROP_ROUNDUP m" by simp
  have "growSlots n p
      = p\<lparr>slots := slots p @ replicate (EJS_PROP_ROUNDUP m - length (slots p)) zero_slot\<rparr>"
    using True by (simp add: growSlots_def Let_def m_def)
  moreover have "EJS_PROP_ROUNDUP m mod EJS_ROUND_PROP = 0" by (simp add: EJS_PROP_ROUNDUP_def)
  ultimately show ?thesis using le True
    by (intro exI [of _ "EJS_PROP_ROUNDUP m - length (slots p)"]) simp
qed

lemma ejsCheckSlot_next:
  assumes "dynamic p" and "numProp p \<le> length (slots p)"
  shows "\<exists>k. ejsCheckSlot (-1) p = (Ok (numProp p),
        p\<lparr>slots := slots p @ replicate k zero_slot, numProp := numProp p + 1\<rparr>)
     \<and> numProp p < length (slots p) + k"
proof -
  from growSlots_shape [of "numProp p + 1" p] obtain k where
    k: "growSlots (numProp p + 1) p = p\<lparr>slots := slots p @ replicate k zero_slot\<rparr>"
      "numProp p + 1 \<le> length (slots p) + k" by blast
  show ?thesis
  proof (cases "length (slots p) \<le> numProp p")
    case True
    then show ?thesis using assms k by (intro exI [of _ k]) (simp add: ejsCheckSlot_def Let_def)
  next
    case False
    then show ?thesis using assms by (intro exI [of _ 0]) (simp add: ejsCheckSlot_def Let_def)
  qed
qed

lemma ejsCheckSlot_in [simp]: "i < numProp p \<Longrightarrow> ejsCheckSlot (int i) p = (Ok i, p)"
  by (simp add: ejsCheckSlot_def)

section \<open>Properties as a map from names to values\<close>

definition pot_map :: "pot \<Rightarrow> pname \<Rightarrow> pvalue option" where
  "pot_map p q = (if q = empty_name then None else map_option (\<lambda>i. sval (slots p ! i)) (pot_find q p))"

lemma seg_mono:
  "(\<And>j. j \<in> set js \<Longrightarrow> j < length ss' \<and> hashChain (ss' ! j) = hashChain (ss ! j)) \<Longrightarrow>
     seg ss i js e \<Longrightarrow> seg ss' i js e"
  by (induction js arbitrary: i) auto

lemma hash_sound_ext:
  assumes "hash_sound wh bs f p" and "buckets p' = buckets p" and "numProp p \<le> numProp p'"
    and "numProp p' \<le> length (slots p')"
    and same: "\<And>j. j < numProp p \<Longrightarrow> hashChain (slots p' ! j) = hashChain (slots p ! j)
           \<and> sname (slots p' ! j) = sname (slots p ! j)"
  shows "hash_sound wh bs f p'"
proof -
  have "chain_ok wh bs p' k (f k)" if "k < length bs" for k
  proof -
    have ok: "chain_ok wh bs p k (f k)" using assms(1) that by (simp add: hash_sound_def)
    then have in_use: "\<And>j. j \<in> set (f k) \<Longrightarrow> j < numProp p" by (simp add: chain_ok_def)
    have "seg (slots p') i (f k) e" if "seg (slots p) i (f k) e" for i e
      by (rule seg_mono [OF _ that]) (use in_use same assms(3,4) in fastforce)
    then show ?thesis using ok in_use same assms(3) by (fastforce simp: chain_ok_def)
  qed
  then show ?thesis using assms by (simp add: hash_sound_def)
qed

lemma hash_complete_ext:
  assumes "hash_complete wh bs f n ss" and "\<And>j. j < n \<Longrightarrow> sname (ss' ! j) = sname (ss ! j)"
  shows "hash_complete wh bs f n ss'"
  unfolding hash_complete_def
proof (intro allI impI)
  fix i assume i: "i < n" "sname (ss' ! i) \<noteq> empty_name"
  then obtain j where "j \<in> set (f (bucket_of wh (sname (ss ! i)) bs))" "sname (ss ! j) = sname (ss ! i)" "j \<le> i"
    using assms by (fastforce simp: hash_complete_def)
  then show "\<exists>j \<in> set (f (bucket_of wh (sname (ss' ! i)) bs)). sname (ss' ! j) = sname (ss' ! i) \<and> j \<le> i"
    using assms(2) i(1) by (metis le_less_trans)
qed

text \<open>Hashing changes neither the values nor the names: what it has to provide is a good hash.\<close>

lemma pot_inv_rehashed:
  assumes "numProp p \<le> length (slots p)"
    and "\<forall>i < numProp p. \<forall>j < numProp p. sname (slots p ! i) = sname (slots p ! j)
          \<longrightarrow> sname (slots p ! i) \<noteq> empty_name \<longrightarrow> i = j"
    and "\<forall>sp \<in> set (drop (numProp p) (slots p)). hashChain sp < 0"
    and "strip (slots p') = strip (slots p)" and "numProp p' = numProp p"
    and "drop (numProp p) (slots p') = drop (numProp p) (slots p)"
    and "\<And>bs. buckets p' = Some bs \<Longrightarrow>
          \<exists>f. hash_sound wh bs f p' \<and> hash_complete wh bs f (numProp p) (slots p')"
  shows "pot_inv wh p' \<and> pot_map p' = pot_map p"
proof -
  from assms(4) have len: "length (slots p') = length (slots p)"
    and nm: "\<And>i. i < length (slots p) \<Longrightarrow> sname (slots p' ! i) = sname (slots p ! i)
        \<and> sval (slots p' ! i) = sval (slots p ! i)" by (auto simp: strip_eq_iff)
  have "pot_inv wh p'" using assms len nm by (auto simp: pot_inv_def)
  moreover have "pot_find q p' = pot_find q p" for q
  proof (cases "pot_find q p")
    case None
    then have "pot_find q p' = None" using assms(1,5) len nm by (auto simp: pot_find_None)
    with None show ?thesis by simp
  next
    case (Some i)
    then have "pot_find q p' = Some i" using assms(1,5) len nm by (auto simp: pot_find_Some)
    with Some show ?thesis by simp
  qed
  then have "pot_map p' = pot_map p"
    using nm assms(1) by (auto simp: pot_map_def fun_eq_iff pot_find_Some
        split: option.splits intro!: option.map_cong0)
  ultimately show ?thesis ..
qed

lemma first_named_snoc:
  "first_named q k (xs @ [x]) = (case first_named q k xs of Some i \<Rightarrow> Some i
     | None \<Rightarrow> if sname x = q then Some (k + length xs) else None)"
  by (induction xs arbitrary: k) (auto split: option.splits)

lemma ejsIndexProperties_inv:
  assumes "numProp p \<le> length (slots p)" and "numProp p \<le> 196613"
    and "\<forall>i < numProp p. \<forall>j < numProp p. sname (slots p ! i) = sname (slots p ! j)
          \<longrightarrow> sname (slots p ! i) \<noteq> empty_name \<longrightarrow> i = j"
    and "\<forall>sp \<in> set (drop (numProp p) (slots p)). hashChain sp < 0"
    and "slots p \<noteq> []"
  shows "\<exists>p'. ejsIndexProperties wh p = Ok p' \<and> pot_inv wh p' \<and> pot_map p' = pot_map p
     \<and> numProp p' = numProp p \<and> dynamic p' = dynamic p"
proof -
  from ejsIndexProperties_ok [OF assms(1,2), of wh] obtain p' where
    p': "ejsIndexProperties wh p = Ok p'" "strip (slots p') = strip (slots p)" "numProp p' = numProp p"
      "dynamic p' = dynamic p" "drop (numProp p) (slots p') = drop (numProp p) (slots p)" and
    h: "buckets p' \<noteq> None \<longrightarrow> (\<exists>bs f. hash_sound wh bs f p' \<and> hash_complete wh bs f (numProp p) (slots p'))"
    using assms(5) by blast
  have "\<exists>f. hash_sound wh bs f p' \<and> hash_complete wh bs f (numProp p) (slots p')"
    if "buckets p' = Some bs" for bs
    using h that by (auto simp: hash_sound_def)
  with pot_inv_rehashed [OF assms(1,3,4) p'(2,3,5)] p' show ?thesis by blast
qed

text \<open>Giving a new name to the slot just added.\<close>

lemma hashProperty_inv:
  assumes base: "numProp p = Suc n" "n < length (slots p)" "n < 196613" "sname (slots p ! n) = q"
      "q \<noteq> empty_name"
    and fresh: "\<forall>i < n. sname (slots p ! i) \<noteq> q"
    and old: "pot_inv wh p0" "numProp p0 = n" "buckets p0 = buckets p"
      "\<And>i. i < n \<Longrightarrow> sname (slots p ! i) = sname (slots p0 ! i)
         \<and> hashChain (slots p ! i) = hashChain (slots p0 ! i)"
    and tail: "\<forall>sp \<in> set (drop (Suc n) (slots p)). hashChain sp < 0"
  shows "\<exists>p'. hashProperty wh n q p = Ok p' \<and> pot_inv wh p' \<and> pot_map p' = pot_map p
     \<and> numProp p' = numProp p \<and> dynamic p' = dynamic p"
proof -
  have len: "numProp p \<le> length (slots p)" using base by simp
  have inj0: "\<forall>i < n. \<forall>j < n. sname (slots p ! i) = sname (slots p ! j)
      \<longrightarrow> sname (slots p ! i) \<noteq> empty_name \<longrightarrow> i = j"
    using old by (simp add: pot_inv_def)
  have inj: "\<forall>i < numProp p. \<forall>j < numProp p. sname (slots p ! i) = sname (slots p ! j)
      \<longrightarrow> sname (slots p ! i) \<noteq> empty_name \<longrightarrow> i = j"
    unfolding base(1) less_Suc_eq using inj0 fresh base(4) by metis
  have tail': "\<forall>sp \<in> set (drop (numProp p) (slots p)). hashChain sp < 0" using tail base(1) by simp
  have ne: "slots p \<noteq> []" using base(2) by auto
  have idx: "\<exists>p'. ejsIndexProperties wh p = Ok p' \<and> pot_inv wh p' \<and> pot_map p' = pot_map p
     \<and> numProp p' = numProp p \<and> dynamic p' = dynamic p"
    by (rule ejsIndexProperties_inv [OF len _ inj tail' ne]) (use base in simp)
  show ?thesis
  proof (cases "buckets p")
    case None
    then show ?thesis using idx by (simp add: hashProperty_def)
  next
    case (Some bs)
    show ?thesis
    proof (cases "length bs < numProp p")
      case True
      then show ?thesis using Some idx by (simp add: hashProperty_def)
    next
      case False
      from old(1,3) Some obtain f where
        f: "hash_sound wh bs f p0" "hash_complete wh bs f n (slots p0)"
        using old(2) by (auto simp: pot_inv_def)
      have s: "hash_sound wh bs f p"
        by (rule hash_sound_ext [OF f(1)]) (use old base len in auto)
      have c: "hash_complete wh bs f n (slots p)"
        by (rule hash_complete_ext [OF f(2)]) (use old in auto)
      have used: "j < n" if "j \<in> set (f k)" "k < length bs" for j k
        using f(1) that old(2) by (auto simp: hash_sound_def chain_ok_def)
      have bs: "bs \<noteq> []" using s by (simp add: hash_sound_def)
      have new: "\<forall>k < length bs. n \<notin> set (f k)" using used by blast
      have absent: "\<forall>j \<in> set (f (bucket_of wh q bs)). sname (slots p ! j) \<noteq> q"
        using used [OF _ bucket_of_less [OF bs]] fresh by blast
      have nlt: "n < numProp p" using base(1) by simp
      from hash_append_new [OF s nlt base(4) new absent] obtain bs' p' where
        p': "hash_append wh n q bs p = Ok p'"
          "hash_sound wh bs' (f(bucket_of wh q bs := f (bucket_of wh q bs) @ [n])) p'"
          "strip (slots p') = strip (slots p)" "numProp p' = numProp p" "dynamic p' = dynamic p"
          "length bs' = length bs" "drop (numProp p) (slots p') = drop (numProp p) (slots p)"
        by blast
      let ?f = "f(bucket_of wh q bs := f (bucket_of wh q bs) @ [n])"
      have nm: "i < length (slots p) \<Longrightarrow> sname (slots p' ! i) = sname (slots p ! i)" for i
        using p'(3) by (simp add: strip_eq_iff)
      have "hash_complete wh bs' ?f (numProp p) (slots p)"
        unfolding hash_complete_def
      proof (intro allI impI)
        fix i assume i: "i < numProp p" "sname (slots p ! i) \<noteq> empty_name"
        let ?k = "bucket_of wh (sname (slots p ! i)) bs"
        have k: "bucket_of wh (sname (slots p ! i)) bs' = ?k" by (rule bucket_of_cong [OF p'(6)])
        show "\<exists>j \<in> set (?f (bucket_of wh (sname (slots p ! i)) bs')).
            sname (slots p ! j) = sname (slots p ! i) \<and> j \<le> i"
        proof (cases "i = n")
          case True
          then show ?thesis using base(4) k by auto
        next
          case False
          with i base(1) c obtain j where "j \<in> set (f ?k)" "sname (slots p ! j) = sname (slots p ! i)" "j \<le> i"
            by (auto simp: hash_complete_def less_Suc_eq)
          then show ?thesis using k by (intro bexI [of _ j]) auto
        qed
      qed
      then have "hash_complete wh bs' ?f (numProp p) (slots p')"
        by (rule hash_complete_ext) (use nm len in simp)
      then have "\<exists>f. hash_sound wh b f p' \<and> hash_complete wh b f (numProp p) (slots p')"
        if "buckets p' = Some b" for b
        using p'(2) that by (metis hash_sound_def option.inject)
      from pot_inv_rehashed [OF len inj tail' p'(3,4,7) this]
      show ?thesis using p' Some False by (auto simp: hashProperty_def)
    qed
  qed
qed

lemma ejsGetPropertyByName_map:
  assumes "pot_inv wh p" and "q \<noteq> empty_name"
  shows "ejsGetPropertyByName wh q p = Ok (pot_map p q)"
proof -
  have n: "numProp p \<le> length (slots p)" using assms(1) by (simp add: pot_inv_def)
  have "i < numProp p" if "pot_find q p = Some i" for i using that n by (simp add: pot_find_Some)
  then show ?thesis
    using lookup_correct [OF assms(1), of "fst q" "snd q"] assms(2)
    by (cases "pot_find q p") (auto simp: ejsGetPropertyByName_def pot_map_def getPotProperty_def)
qed

lemma pot_inv_set_value:
  fixes v
  assumes "pot_inv wh p" and "i < numProp p"
  defines "p' \<equiv> p\<lparr>slots := (slots p)[i := (slots p ! i)\<lparr>sval := v\<rparr>]\<rparr>"
  shows "pot_inv wh p'" and "pot_find q p' = pot_find q p"
proof -
  have n: "numProp p \<le> length (slots p)" using assms(1) by (simp add: pot_inv_def)
  have same: "sname (slots p' ! j) = sname (slots p ! j) \<and> hashChain (slots p' ! j) = hashChain (slots p ! j)" for j
    using assms(2) n by (cases "j = i") (auto simp: p'_def)
  have shape: "numProp p' = numProp p" "buckets p' = buckets p" "length (slots p') = length (slots p)"
    "drop (numProp p) (slots p') = drop (numProp p) (slots p)"
    using assms(2) by (simp_all add: p'_def)
  have "\<exists>f. hash_sound wh bs f p' \<and> hash_complete wh bs f (numProp p') (slots p')"
    if bs: "buckets p' = Some bs" for bs
  proof -
    from bs shape(2) assms(1) obtain f where
      f: "hash_sound wh bs f p" "hash_complete wh bs f (numProp p) (slots p)" by (auto simp: pot_inv_def)
    have "hash_sound wh bs f p'" by (rule hash_sound_ext [OF f(1)]) (use shape same n in auto)
    moreover have "hash_complete wh bs f (numProp p) (slots p')"
      by (rule hash_complete_ext [OF f(2)]) (use same in auto)
    ultimately show ?thesis using shape(1) by auto
  qed
  then show "pot_inv wh p'"
    using assms(1) shape same by (auto simp: pot_inv_def)
  show "pot_find q p' = pot_find q p"
  proof (cases "pot_find q p")
    case None
    then have "pot_find q p' = None" using n shape same by (auto simp: pot_find_None)
    with None show ?thesis by simp
  next
    case (Some k)
    then have "pot_find q p' = Some k" using n shape same by (auto simp: pot_find_Some)
    with Some show ?thesis by simp
  qed
qed

lemma ejsSetPropertyByName_map:
  assumes inv: "pot_inv wh p" and dyn: "dynamic p" and room: "numProp p < 196613" and q: "q \<noteq> empty_name"
  shows "\<exists>s p'. ejsSetPropertyByName wh q v p = (Ok s, p') \<and> pot_inv wh p' \<and> dynamic p'
     \<and> pot_map p' = (pot_map p)(q \<mapsto> v) \<and> numProp p' \<le> numProp p + 1"
proof (cases "pot_find q p")
  case (Some i)
  have n: "numProp p \<le> length (slots p)" using inv by (simp add: pot_inv_def)
  have i: "i < numProp p" "sname (slots p ! i) = q" using Some n by (auto simp: pot_find_Some)
  let ?p = "p\<lparr>slots := (slots p)[i := (slots p ! i)\<lparr>sval := v\<rparr>]\<rparr>"
  have step: "ejsSetPropertyByName wh q v p = (Ok i, ?p)"
    using lookup_correct [OF inv, of "fst q" "snd q"] q Some i(1)
    by (simp add: ejsSetPropertyByName_def setPotProperty_def)
  have "pot_map ?p r = ((pot_map p)(q \<mapsto> v)) r" for r
  proof (cases "pot_find r p")
    case None
    then show ?thesis using pot_inv_set_value(2) [OF inv i(1), where v = v and q = r] Some q by (auto simp: pot_map_def)
  next
    case (Some j)
    then have "j < numProp p" "sname (slots p ! j) = r" using n by (auto simp: pot_find_Some)
    then show ?thesis
      using pot_inv_set_value(2) [OF inv i(1), where v = v and q = r] Some i n q \<open>pot_find q p = Some i\<close>
      by (cases "j = i") (auto simp: pot_map_def)
  qed
  then show ?thesis using step pot_inv_set_value(1) [OF inv i(1), where v = v] dyn by (intro exI [of _ i] exI [of _ ?p]) auto
next
  case None
  let ?n = "numProp p"
  have n: "?n \<le> length (slots p)" using inv by (simp add: pot_inv_def)
  have fresh: "\<forall>i < ?n. sname (slots p ! i) \<noteq> q" using None n by (simp add: pot_find_None)
  from ejsCheckSlot_next [OF dyn n] obtain k where
    k: "ejsCheckSlot (-1) p = (Ok ?n, p\<lparr>slots := slots p @ replicate k zero_slot, numProp := ?n + 1\<rparr>)"
      "?n < length (slots p) + k" by blast
  let ?ss = "slots p @ replicate k zero_slot"
  let ?sp = "(?ss ! ?n)\<lparr>sval := v, sname := q\<rparr>"
  let ?p = "p\<lparr>numProp := ?n + 1, slots := ?ss[?n := ?sp]\<rparr>"
  have tail: "\<forall>sp \<in> set (drop ?n ?ss). hashChain sp < 0"
    using inv by (auto simp: pot_inv_def zero_slot_def)
  have chain: "hashChain (?ss ! ?n) < 0"
  proof -
    have "drop ?n ?ss ! 0 = ?ss ! ?n" using k(2) by (subst nth_drop) simp_all
    moreover have "drop ?n ?ss ! 0 \<in> set (drop ?n ?ss)" using k(2) by (intro nth_mem) simp
    ultimately show ?thesis using tail by metis
  qed
  have tail2: "\<forall>sp \<in> set (drop (Suc ?n) (slots ?p)). hashChain sp < 0"
    using tail set_drop_subset_set_drop [of ?n "Suc ?n" ?ss] by auto
  have old: "i < ?n \<Longrightarrow> slots ?p ! i = slots p ! i" for i using n by (simp add: nth_append)
  have at: "slots ?p ! ?n = ?sp" using k(2) by simp
  have find: "pot_find r ?p = (case pot_find r p of Some i \<Rightarrow> Some i | None \<Rightarrow> if q = r then Some ?n else None)" for r
  proof -
    have "take (Suc ?n) (slots ?p) = take ?n (slots p) @ [?sp]"
      using k(2) n by (simp add: take_Suc_conv_app_nth)
    then show ?thesis using n by (simp add: pot_find_def first_named_snoc split: option.splits)
  qed
  have map: "pot_map ?p = (pot_map p)(q \<mapsto> v)"
  proof
    fix r
    show "pot_map ?p r = ((pot_map p)(q \<mapsto> v)) r"
    proof (cases "pot_find r p")
      case None
      then show ?thesis using find [of r] at q by (cases "r = q") (simp_all add: pot_map_def)
    next
      case (Some j)
      then have "j < ?n" using n by (simp add: pot_find_Some)
      moreover have "r \<noteq> q" using Some \<open>pot_find q p = None\<close> by auto
      ultimately show ?thesis using find [of r] old Some by (simp add: pot_map_def)
    qed
  qed
  have inj: "\<forall>i < ?n + 1. \<forall>j < ?n + 1. sname (slots ?p ! i) = sname (slots ?p ! j)
      \<longrightarrow> sname (slots ?p ! i) \<noteq> empty_name \<longrightarrow> i = j"
  proof -
    have "\<forall>i < ?n. \<forall>j < ?n. sname (slots p ! i) = sname (slots p ! j)
      \<longrightarrow> sname (slots p ! i) \<noteq> empty_name \<longrightarrow> i = j" using inv by (simp add: pot_inv_def)
    then show ?thesis using old at fresh by (auto simp: less_Suc_eq)
  qed
  have step: "ejsSetPropertyByName wh q v p
      = (if buckets p \<noteq> None \<or> EJS_HASH_MIN_PROP < ?n + 1
         then lift_res (hashProperty wh ?n q) ?n ?p else (Ok ?n, ?p))"
  proof -
    have "setPotProperty (-1) v p
        = (Ok ?n, p\<lparr>numProp := ?n + 1, slots := ?ss[?n := (?ss ! ?n)\<lparr>sval := v\<rparr>]\<rparr>)"
      using k(1) by (simp add: setPotProperty_def)
    moreover have "setPotPropertyName wh (int ?n) q
          (p\<lparr>numProp := ?n + 1, slots := ?ss[?n := (?ss ! ?n)\<lparr>sval := v\<rparr>]\<rparr>)
        = (if buckets p \<noteq> None \<or> EJS_HASH_MIN_PROP < ?n + 1
           then lift_res (hashProperty wh ?n q) ?n ?p else (Ok ?n, ?p))"
      using k(2) chain by (simp add: setPotPropertyName_def Let_def)
    ultimately show ?thesis
      using lookup_correct [OF inv, of "fst q" "snd q"] q None by (simp add: ejsSetPropertyByName_def)
  qed
  show ?thesis
  proof (cases "buckets p \<noteq> None \<or> EJS_HASH_MIN_PROP < ?n + 1")
    case True
    have "\<exists>p'. hashProperty wh ?n q ?p = Ok p' \<and> pot_inv wh p' \<and> pot_map p' = pot_map ?p
        \<and> numProp p' = numProp ?p \<and> dynamic p' = dynamic ?p"
      by (rule hashProperty_inv [OF _ _ _ _ q _ inv]) (use k(2) room fresh old at tail2 in auto)
    then show ?thesis using True step map dyn by (auto simp: lift_res_def)
  next
    case False
    then have "pot_inv wh ?p" using k(2) inj tail2 by (simp add: pot_inv_def)
    then show ?thesis using False step map dyn by auto
  qed
qed

section \<open>Deletion\<close>

lemma chain_remove:
  assumes ok: "chain_ok wh bs p k (xs @ s # ys)" and n: "numProp p \<le> length (slots p)"
    and bs: "k < length bs"
  defines "ss1 \<equiv> (if xs = [] then slots p else
      (slots p)[List.last xs := (slots p ! List.last xs)\<lparr>hashChain := hashChain (slots p ! s)\<rparr>])"
  defines "bs' \<equiv> (if xs = [] then bs[k := hashChain (slots p ! s)] else bs)"
  defines "ss2 \<equiv> ss1[s := forget_name (slots p ! s)]"
  shows "chain_ok wh bs' (p\<lparr>slots := ss2, buckets := Some bs'\<rparr>) k (xs @ ys)"
proof -
  from ok obtain e where e: "e < 0" "seg (slots p) (bs ! k) (xs @ s # ys) e" "distinct (xs @ s # ys)"
    by (auto simp: chain_ok_def)
  then obtain m where m: "seg (slots p) (bs ! k) xs m" "m = int s" "s < length (slots p)"
      "seg (slots p) (hashChain (slots p ! s)) ys e" by (auto simp: seg_append)
  have len: "length ss2 = length (slots p)" "length ss1 = length (slots p)" by (simp_all add: ss2_def ss1_def)
  have same: "hashChain (ss2 ! j) = hashChain (slots p ! j)" if "j \<noteq> s" "xs = [] \<or> j \<noteq> List.last xs" for j
    using that by (auto simp: ss2_def ss1_def)
  have name: "sname (ss2 ! j) = sname (slots p ! j)" if "j \<noteq> s" for j
    using that by (cases "xs \<noteq> [] \<and> j = List.last xs \<and> j < length (slots p)")
      (auto simp: ss2_def ss1_def nth_list_update list_update_beyond)
  have ys: "seg ss2 i ys e" if "seg (slots p) i ys e" for i
  proof (rule seg_mono [OF _ that])
    fix j assume j: "j \<in> set ys"
    then have "j \<noteq> s" "j \<notin> set xs" using e(3) by auto
    then have "xs = [] \<or> j \<noteq> List.last xs" by auto
    with \<open>j \<noteq> s\<close> show "j < length ss2 \<and> hashChain (ss2 ! j) = hashChain (slots p ! j)"
      using same seg_bounds [OF that] j len by simp
  qed
  have "seg ss2 (bs' ! k) (xs @ ys) e"
  proof (cases "xs = []")
    case True
    then show ?thesis using ys [OF m(4)] bs by (simp add: bs'_def)
  next
    case False
    then obtain zs l where xs: "xs = zs @ [l]" by (metis rev_exhaust)
    from m(1) xs obtain m' where m': "seg (slots p) (bs ! k) zs m'" "m' = int l" "l < length (slots p)"
      by (auto simp: seg_append)
    have "seg ss2 (bs ! k) zs m'"
    proof (rule seg_mono [OF _ m'(1)])
      fix j assume j: "j \<in> set zs"
      then have "j \<noteq> s" "j \<noteq> List.last xs" using e(3) xs by auto
      then show "j < length ss2 \<and> hashChain (ss2 ! j) = hashChain (slots p ! j)"
        using same seg_bounds [OF m'(1)] j len by simp
    qed
    moreover have "hashChain (ss2 ! l) = hashChain (slots p ! s)"
      using xs m'(3) e(3) by (auto simp: ss2_def ss1_def)
    ultimately show ?thesis using ys [OF m(4)] m' xs len by (simp add: seg_append bs'_def)
  qed
  moreover have "bucket_of wh q bs' = bucket_of wh q bs" for q by (simp add: bs'_def bucket_of_def)
  moreover have "\<And>j. j \<in> set (xs @ ys) \<Longrightarrow> j \<noteq> s" using e(3) by auto
  ultimately show ?thesis using ok e(1,3) name by (auto simp: chain_ok_def)
qed

lemma removeHashEntry_inv:
  assumes inv: "pot_inv wh p" and found: "pot_find q p = Some i" and q: "q \<noteq> empty_name"
  shows "\<exists>p'. removeHashEntry wh q p = Ok p' \<and> pot_inv wh p' \<and> numProp p' = numProp p
     \<and> dynamic p' = dynamic p \<and> length (slots p') = length (slots p)
     \<and> (\<forall>j. sname (slots p' ! j) = (if j = i then empty_name else sname (slots p ! j)))
     \<and> (\<forall>j. sval (slots p' ! j) = sval (slots p ! j))"
proof -
  have n: "numProp p \<le> length (slots p)" using inv by (simp add: pot_inv_def)
  have i: "i < numProp p" "sname (slots p ! i) = q" using found n by (auto simp: pot_find_Some)
  have il: "i < length (slots p)" using i(1) n by simp
  have inj: "\<And>a b. a < numProp p \<Longrightarrow> b < numProp p \<Longrightarrow> sname (slots p ! a) = sname (slots p ! b)
      \<Longrightarrow> sname (slots p ! a) \<noteq> empty_name \<Longrightarrow> a = b" using inv by (simp add: pot_inv_def)
  have tail: "\<forall>sp \<in> set (drop (numProp p) (slots p)). hashChain sp < 0" using inv by (simp add: pot_inv_def)
  show ?thesis
  proof (cases "buckets p")
    case None
    let ?p = "p\<lparr>slots := (slots p)[i := forget_name (slots p ! i)]\<rparr>"
    have "removeHashEntry wh q p = Ok ?p"
      using None found by (simp add: removeHashEntry_def pot_find_def)
    moreover have nm: "sname (slots ?p ! j) = (if j = i then empty_name else sname (slots p ! j))"
      "sval (slots ?p ! j) = sval (slots p ! j)" for j
      using il by (cases "j = i", simp_all add: forget_name_def)+
    moreover have "pot_inv wh ?p"
      using None n i(1) tail inj nm(1) by (auto simp: pot_inv_def)
    ultimately show ?thesis by (intro exI [of _ ?p]) simp
  next
    case (Some bs)
    then obtain f where f: "hash_sound wh bs f p" "hash_complete wh bs f (numProp p) (slots p)"
      using inv by (auto simp: pot_inv_def)
    let ?b = "bucket_of wh q bs"
    have bs: "bs \<noteq> []" "?b < length bs" using f(1) by (simp_all add: hash_sound_def)
    have ok: "\<And>k. k < length bs \<Longrightarrow> chain_ok wh bs p k (f k)" using f(1) by (simp add: hash_sound_def)
    from f(2) i q obtain j where j: "j \<in> set (f ?b)" "sname (slots p ! j) = q"
      by (auto simp: hash_complete_def)
    then have "j < numProp p" using ok [OF bs(2)] by (simp add: chain_ok_def)
    then have "j = i" using inj i j q by metis
    then obtain xs ys where js: "f ?b = xs @ i # ys" using j(1) by (metis in_set_conv_decomp)
    have dist: "distinct (xs @ i # ys)" using ok [OF bs(2)] js by (simp add: chain_ok_def)
    have xs: "\<forall>a \<in> set xs. sname (slots p ! a) \<noteq> q"
    proof
      fix a assume "a \<in> set xs"
      then have "a < numProp p" "a \<noteq> i" using ok [OF bs(2)] js dist by (auto simp: chain_ok_def)
      then show "sname (slots p ! a) \<noteq> q" using inj i q by metis
    qed
    define ss1 where "ss1 = (if xs = [] then slots p else
      (slots p)[List.last xs := (slots p ! List.last xs)\<lparr>hashChain := hashChain (slots p ! i)\<rparr>])"
    define bs' where "bs' = (if xs = [] then bs[?b := hashChain (slots p ! i)] else bs)"
    define ss2 where "ss2 = ss1[i := forget_name (slots p ! i)]"
    let ?p = "p\<lparr>slots := ss2, buckets := Some bs'\<rparr>" and ?f = "f(?b := xs @ ys)"
    have li: "xs = [] \<or> List.last xs \<noteq> i" using dist by (cases xs) auto
    have s1i: "ss1 ! i = slots p ! i" using li by (auto simp: ss1_def)
    have scan: "chain_scan (length (slots p)) (slots p) q (-1) (bs ! ?b)
        = Ok (Some (int i), if xs = [] then -1 else int (List.last xs))"
      using chain_scan_ok [OF f(1), of q] scan_list_split [OF xs i(2)] js by simp
    have step: "removeHashEntry wh q p = Ok ?p"
    proof (cases "xs = []")
      case True
      then show ?thesis using scan Some by (simp add: removeHashEntry_def Let_def ss2_def ss1_def bs'_def)
    next
      case False
      then show ?thesis using scan Some li
        by (simp add: removeHashEntry_def Let_def ss2_def ss1_def bs'_def)
    qed
    have len: "length ss2 = length (slots p)" "length bs' = length bs"
      by (simp_all add: ss2_def ss1_def bs'_def)
    have nm: "sname (ss2 ! a) = (if a = i then empty_name else sname (slots p ! a))"
      "sval (ss2 ! a) = sval (slots p ! a)" for a
      using il s1i by (cases "a = i"; cases "List.last xs < length (slots p)";
        auto simp: ss2_def ss1_def forget_name_def nth_list_update list_update_beyond)+
    have bk: "bucket_of wh r bs' = bucket_of wh r bs" for r by (rule bucket_of_cong [OF len(2)])
    have "chain_ok wh bs' ?p k (?f k)" if k: "k < length bs" for k
    proof (cases "k = ?b")
      case True
      then show ?thesis
        using chain_remove [OF ok [OF bs(2), unfolded js] n bs(2)] js
        by (simp add: ss2_def ss1_def bs'_def)
    next
      case False
      have "chain_ok wh bs' ?p k (f k)"
      proof (rule chain_ok_other [OF ok [OF k]])
        fix a assume a: "a \<in> set (f k)"
        have "bucket_of wh (sname (slots p ! a)) bs = k" using ok [OF k] a by (simp add: chain_ok_def)
        then have "a \<notin> set (f ?b)" using ok [OF bs(2)] False by (auto simp: chain_ok_def)
        then have "a \<noteq> i" "xs = [] \<or> a \<noteq> List.last xs" using js by (cases xs rule: rev_cases, auto)+
        then show "hashChain (slots ?p ! a) = hashChain (slots p ! a)
            \<and> sname (slots ?p ! a) = sname (slots p ! a)"
          by (auto simp: ss2_def ss1_def)
      qed (use len False in \<open>auto simp: bs'_def\<close>)
      then show ?thesis using False by simp
    qed
    then have sound: "hash_sound wh bs' ?f ?p"
      using n len bs by (auto simp: hash_sound_def)
    have complete: "hash_complete wh bs' ?f (numProp ?p) (slots ?p)"
      unfolding hash_complete_def
    proof (intro allI impI)
      fix a assume a: "a < numProp ?p" "sname (slots ?p ! a) \<noteq> empty_name"
      then have ai: "a \<noteq> i" "sname (slots ?p ! a) = sname (slots p ! a)" using nm(1) by (auto split: if_splits)
      with a f(2) obtain j where j: "j \<in> set (f (bucket_of wh (sname (slots p ! a)) bs))"
        "sname (slots p ! j) = sname (slots p ! a)" "j \<le> a"
        by (auto simp: hash_complete_def)
      have "j = a" using inj [of j a] a j ai by auto
      then show "\<exists>j \<in> set (?f (bucket_of wh (sname (slots ?p ! a)) bs')).
          sname (slots ?p ! j) = sname (slots ?p ! a) \<and> j \<le> a"
        using j ai js bk by (intro bexI [of _ a]) auto
    qed
    have drop: "drop (numProp p) ss2 = drop (numProp p) (slots p)"
    proof (cases "xs = []")
      case True
      then show ?thesis using i(1) by (simp add: ss2_def ss1_def)
    next
      case False
      then have "List.last xs < numProp p" using ok [OF bs(2)] js by (simp add: chain_ok_def)
      then show ?thesis using False i(1) by (simp add: ss2_def ss1_def)
    qed
    have "pot_inv wh ?p"
      using sound complete n len drop tail inj nm(1) by (auto simp: pot_inv_def)
    then show ?thesis using step nm len by (intro exI [of _ ?p]) simp
  qed
qed

lemma deletePotPropertyByName_map:
  assumes inv: "pot_inv wh p" and q: "q \<noteq> empty_name"
  shows "(pot_map p q = None \<and> deletePotPropertyByName wh q p = (Throw ReferenceError, p))
    \<or> (\<exists>p'. deletePotPropertyByName wh q p = (Ok (), p') \<and> pot_inv wh p' \<and> numProp p' = numProp p
         \<and> dynamic p' = dynamic p \<and> pot_map p' = (pot_map p)(q := None))"
proof (cases "pot_find q p")
  case None
  then show ?thesis using lookup_correct [OF inv, of "fst q" "snd q"] q
    by (simp add: deletePotPropertyByName_def pot_map_def)
next
  case (Some i)
  have n: "numProp p \<le> length (slots p)" using inv by (simp add: pot_inv_def)
  have i: "i < numProp p" "sname (slots p ! i) = q" using Some n by (auto simp: pot_find_Some)
  from removeHashEntry_inv [OF inv Some q] obtain p1 where
    p1: "removeHashEntry wh q p = Ok p1" "pot_inv wh p1" "numProp p1 = numProp p"
      "dynamic p1 = dynamic p" "length (slots p1) = length (slots p)"
      "\<And>j. sname (slots p1 ! j) = (if j = i then empty_name else sname (slots p ! j))"
      "\<And>j. sval (slots p1 ! j) = sval (slots p ! j)"
    by blast
  let ?sp = "(slots p1 ! i)\<lparr>sval := Undefined, traitType := None,
      attributes := EJS_TRAIT_DELETED OR EJS_TRAIT_HIDDEN\<rparr>"
  let ?p = "p1\<lparr>slots := (slots p1)[i := ?sp]\<rparr>"
  let ?p2 = "p1\<lparr>slots := (slots p1)[i := (slots p1 ! i)\<lparr>sval := Undefined\<rparr>]\<rparr>"
  have i1: "i < numProp p1" using i(1) p1(3) by simp
  note set = pot_inv_set_value [OF p1(2) i1, where v = Undefined]
  have s: "strip (slots ?p) = (strip (slots ?p2))[i := ?sp\<lparr>hashChain := 0\<rparr>]"
    by (simp add: strip_def map_update)
  have same: "sname (slots ?p ! j) = sname (slots ?p2 ! j) \<and> hashChain (slots ?p ! j) = hashChain (slots ?p2 ! j)
      \<and> sval (slots ?p ! j) = sval (slots ?p2 ! j)" for j
    using i1 n p1(3,5) by (cases "j = i") auto
  have inv2: "pot_inv wh ?p"
  proof -
    have "\<exists>f. hash_sound wh bs f ?p \<and> hash_complete wh bs f (numProp ?p) (slots ?p)"
      if "buckets ?p = Some bs" for bs
    proof -
      from that set(1) obtain f where
        f: "hash_sound wh bs f ?p2" "hash_complete wh bs f (numProp ?p2) (slots ?p2)"
        by (auto simp: pot_inv_def)
      have "hash_sound wh bs f ?p"
        by (rule hash_sound_ext [OF f(1)]) (use same n p1(3,5) in auto)
      moreover have "hash_complete wh bs f (numProp ?p2) (slots ?p)"
        by (rule hash_complete_ext [OF f(2)]) (use same in auto)
      ultimately show ?thesis by auto
    qed
    moreover have "drop (numProp p1) (slots ?p) = drop (numProp p1) (slots ?p2)" using i1 by simp
    ultimately show ?thesis using set(1) same by (auto simp: pot_inv_def)
  qed
  have step: "deletePotPropertyByName wh q p = (Ok (), ?p)"
    using lookup_correct [OF inv, of "fst q" "snd q"] q Some i p1(1)
    by (simp add: deletePotPropertyByName_def deletePotProperty_def lift_res_def Let_def)
  have nm: "sname (slots ?p ! j) = (if j = i then empty_name else sname (slots p ! j))" for j
    using p1(6) i1 n p1(3,5) by (cases "j = i") auto
  have vl: "sval (slots ?p ! j) = sval (slots p ! j)" if "j \<noteq> i" for j using p1(7) that by simp
  have np: "numProp ?p \<le> length (slots ?p)" using n p1(3,5) by simp
  have inj: "\<And>a b. a < numProp p \<Longrightarrow> b < numProp p \<Longrightarrow> sname (slots p ! a) = sname (slots p ! b)
      \<Longrightarrow> sname (slots p ! a) \<noteq> empty_name \<Longrightarrow> a = b" using inv by (simp add: pot_inv_def)
  have "pot_map ?p r = ((pot_map p)(q := None)) r" for r
  proof (cases "r = empty_name")
    case True
    then show ?thesis using q by (simp add: pot_map_def)
  next
    case ne: False
    show ?thesis
    proof (cases "pot_find r p")
      case None
      then have "\<forall>j < numProp p. sname (slots p ! j) \<noteq> r" using n by (simp add: pot_find_None)
      then have "pot_find r ?p = None" using nm np p1(3) ne by (auto simp: pot_find_None)
      then show ?thesis using None by (cases "r = q") (simp_all add: pot_map_def)
    next
      case (Some k)
      then have k: "k < numProp p" "sname (slots p ! k) = r" "\<forall>j < k. sname (slots p ! j) \<noteq> r"
        using n by (auto simp: pot_find_Some)
      show ?thesis
      proof (cases "r = q")
        case True
        then have "\<forall>j < numProp p. j \<noteq> i \<longrightarrow> sname (slots p ! j) \<noteq> r" using inj i ne by metis
        then have "pot_find r ?p = None" using nm np p1(3) ne by (auto simp: pot_find_None)
        then show ?thesis using True by (simp add: pot_map_def)
      next
        case False
        then have "k \<noteq> i" using k i by auto
        then have "pot_find r ?p = Some k" using k nm p1(6) np p1(3) ne by (auto simp: pot_find_Some)
        then show ?thesis using Some False vl [OF \<open>k \<noteq> i\<close>] by (simp add: pot_map_def)
      qed
    qed
  qed
  then have "pot_map ?p = (pot_map p)(q := None)" by (rule ext)
  then show ?thesis using step inv2 p1 by (intro disjI2 exI [of _ ?p]) simp
qed

section \<open>Objects as named stores\<close>

interpretation pot: named_store "\<lambda>p. pot_inv wh p \<and> dynamic p" "\<lambda>q. q \<noteq> empty_name" numProp
    "196613" pot_map "ejsSetPropertyByName wh" "ejsGetPropertyByName wh" for wh
proof
  fix s k v
  assume "pot_inv wh s \<and> dynamic s" "k \<noteq> empty_name" "numProp s < 196613"
  then show "\<exists>x s'. ejsSetPropertyByName wh k v s = (Ok x, s') \<and> (pot_inv wh s' \<and> dynamic s')
      \<and> pot_map s' = (pot_map s)(k \<mapsto> v) \<and> numProp s' \<le> numProp s + 1"
    using ejsSetPropertyByName_map [of wh s k v] by blast
next
  fix s k
  assume "pot_inv wh s \<and> dynamic s" "k \<noteq> empty_name"
  then show "ejsGetPropertyByName wh k s = Ok (pot_map s k)"
    using ejsGetPropertyByName_map by blast
qed

definition empty_pot :: pot where
  "empty_pot = \<lparr>slots = [], numProp = 0, buckets = None, dynamic = True\<rparr>"

lemma empty_pot_inv: "pot_inv wh empty_pot"
  by (simp add: empty_pot_def pot_inv_def)

lemma empty_pot_simps [simp]: "dynamic empty_pot" "numProp empty_pot = 0" "pot_map empty_pot = Map.empty"
  by (simp_all add: empty_pot_def pot_map_def pot_find_def fun_eq_iff)

section \<open>Moving slots\<close>

lemma length_shift_slots [simp]: "length (shift_slots m is ss) = length ss"
  by (induction "is" arbitrary: ss) simp_all

lemma nth_shift_slots:
  "0 < m \<Longrightarrow> n \<le> length ss \<Longrightarrow>
     shift_slots m (rev [m ..< n]) ss ! i = (if m \<le> i \<and> i < n then ss ! (i - m) else ss ! i)"
proof (induction n arbitrary: ss)
  case (Suc n)
  show ?case
  proof (cases "m \<le> n")
    case True
    then have "rev [m ..< Suc n] = n # rev [m ..< n]" by simp
    then have s: "shift_slots m (rev [m ..< Suc n]) ss ! i
        = (if m \<le> i \<and> i < n then ss[n := ss ! (n - m)] ! (i - m) else ss[n := ss ! (n - m)] ! i)"
      using Suc.IH [of "ss[n := ss ! (n - m)]"] Suc.prems by simp
    consider "i < n" | "i = n" | "n < i" by linarith
    then show ?thesis by cases (use s Suc.prems True in \<open>simp_all\<close>)
  next
    case False
    then show ?thesis by auto
  qed
qed simp

lemma growSlots_simps [simp]:
  "numProp (growSlots n p) = numProp p" "buckets (growSlots n p) = buckets p"
  "dynamic (growSlots n p) = dynamic p"
  by (simp_all add: growSlots_def Let_def)

lemma ejsInsertPotProperties_names:
  assumes "numProp p \<le> length (slots p)" and "numProp p + incr \<le> 196613" and "0 < incr"
  shows "\<exists>p'. ejsInsertPotProperties wh incr 0 p = Ok p' \<and> numProp p' = numProp p + incr
     \<and> (\<forall>i < numProp p. sname (slots p' ! (i + incr)) = sname (slots p ! i)
          \<and> sval (slots p' ! (i + incr)) = sval (slots p ! i))
     \<and> (\<forall>i < incr. sname (slots p' ! i) = empty_name \<and> sval (slots p' ! i) = Null)"
proof -
  let ?n = "numProp p + incr"
  define p1 where "p1 = (if length (slots p) < ?n then growSlots ?n p else p)"
  have p1: "numProp p1 = numProp p" "?n \<le> length (slots p1)" "\<And>i. i < numProp p \<Longrightarrow> slots p1 ! i = slots p ! i"
    using growSlots_shape [of ?n p] assms(1) by (auto simp: p1_def nth_append)
  define ss where "ss = shift_slots incr (rev [incr ..< ?n]) (slots p1)"
  let ?p = "p1\<lparr>numProp := ?n, slots := ejsZeroSlots 0 incr ss\<rparr>"
  have step: "ejsInsertPotProperties wh incr 0 p = ejsIndexProperties wh ?p"
    using assms(3) p1(1) by (simp add: ejsInsertPotProperties_def Let_def ss_def flip: p1_def)
  have len: "length ss = length (slots p1)" by (simp add: ss_def)
  have zs: "ejsZeroSlots 0 incr ss = replicate incr zero_slot @ drop incr ss"
    by (simp add: ejsZeroSlots_def write_block_def)
  have at: "ejsZeroSlots 0 incr ss ! (i + incr) = slots p ! i" if i: "i < numProp p" for i
  proof -
    have "ss ! (i + incr) = slots p1 ! i"
      unfolding ss_def using nth_shift_slots [OF assms(3) p1(2), of "i + incr"] i by simp
    then show ?thesis using i p1 len zs by (simp add: nth_append add.commute)
  qed
  have zero: "ejsZeroSlots 0 incr ss ! i = zero_slot" if "i < incr" for i
    using that zs by (simp add: nth_append)
  have "numProp ?p \<le> length (slots ?p)" "numProp ?p \<le> 196613"
    using p1(2) len zs assms(2) by auto
  from ejsIndexProperties_ok [OF this, of wh] obtain p' where
    p': "ejsIndexProperties wh ?p = Ok p'" "strip (slots p') = strip (slots ?p)" "numProp p' = ?n"
    by auto
  have "sname (slots p' ! i) = sname (slots ?p ! i) \<and> sval (slots p' ! i) = sval (slots ?p ! i)"
    if "i < ?n" for i
    using p'(2) that p1(2) len zs by (auto simp: strip_eq_iff)
  then show ?thesis using step p' at zero by (intro exI [of _ p']) (auto simp: zero_slot_def)
qed

section \<open>Properties\<close>

text \<open>
  C12: Writing any sequence of named values to a dynamic object and reading a name back yields the last
  value written to that name, or what the object held before: the slots, their growth and the hash
  of names, built when the ninth property is added, implement a map, for every hash function and up
  to the 196613 properties of the largest table.
\<close>

theorem pot_implements_map:
  assumes "pot_inv wh p" and "dynamic p" and "\<forall>(q, v) \<in> set kvs. q \<noteq> empty_name"
    and "numProp p + length kvs \<le> 196613" and "q \<noteq> empty_name"
  shows "\<exists>p'. put_all (ejsSetPropertyByName wh) kvs p = (Ok (), p')
     \<and> ejsGetPropertyByName wh q p' = Ok ((pot_map p ++ map_of (rev kvs)) q)"
  using pot.get_after_put_all [of wh p kvs q] assms by blast

theorem pot_implements_map_witness:
  "\<exists>p'. put_all (ejsSetPropertyByName length) [((''a'', []), Obj 1), ((''b'', []), Obj 2),
       ((''a'', []), Obj 3)] empty_pot = (Ok (), p')
     \<and> ejsGetPropertyByName length (''a'', []) p' = Ok ((pot_map empty_pot ++ map_of (rev
         [((''a'', []), Obj 1), ((''b'', []), Obj 2), ((''a'', []), Obj 3)])) (''a'', []))"
  by (rule pot_implements_map [OF empty_pot_inv]) (simp_all add: empty_name_def)

text \<open>
  Deleting a property by name keeps the object well formed and removes exactly that name; a name
  the object does not have is a reference error that changes nothing.
\<close>

lemma delete_removes_only_that_name:
  assumes "pot_inv wh p" and "q \<noteq> empty_name"
  shows "(pot_map p q = None \<and> deletePotPropertyByName wh q p = (Throw ReferenceError, p))
    \<or> (\<exists>p'. deletePotPropertyByName wh q p = (Ok (), p') \<and> pot_inv wh p' \<and> numProp p' = numProp p
         \<and> dynamic p' = dynamic p \<and> pot_map p' = (pot_map p)(q := None))"
  by (rule deletePotPropertyByName_map [OF assms])

definition sample_pot :: pot where
  "sample_pot = \<lparr>slots = [zero_slot\<lparr>sname := (''a'', []), sval := Obj 1\<rparr>, zero_slot], numProp = 1,
     buckets = None, dynamic = True\<rparr>"

lemma sample_pot_inv: "pot_inv wh sample_pot"
  by (simp add: sample_pot_def pot_inv_def zero_slot_def)

theorem delete_removes_only_that_name_witness:
  "(pot_map sample_pot (''a'', []) = None
      \<and> deletePotPropertyByName length (''a'', []) sample_pot = (Throw ReferenceError, sample_pot))
    \<or> (\<exists>p'. deletePotPropertyByName length (''a'', []) sample_pot = (Ok (), p') \<and> pot_inv length p'
         \<and> numProp p' = numProp sample_pot \<and> dynamic p' = dynamic sample_pot
         \<and> pot_map p' = (pot_map sample_pot)((''a'', []) := None))"
  by (rule delete_removes_only_that_name [OF sample_pot_inv]) (simp add: empty_name_def)

text \<open>
  C13: The hashed lookup agrees with the linear search that it replaces: after
  \<open>ejsIndexProperties\<close>, looking a qualified name up through its hash chain finds the first slot of
  that name, whatever links and buckets the object had before.
\<close>

theorem hashed_lookup_is_linear_search:
  assumes "numProp p \<le> length (slots p)" and "numProp p \<le> 196613" and "q \<noteq> empty_name"
  shows "\<exists>p'. ejsIndexProperties wh p = Ok p'
     \<and> ejsLookupPotProperty wh (fst q) (Some (snd q)) p'
        = Ok (case first_named q 0 (take (numProp p) (slots p)) of None \<Rightarrow> -1 | Some i \<Rightarrow> int i)"
proof -
  from ejsIndexProperties_ok [OF assms(1,2), of wh] obtain p' where
    p': "ejsIndexProperties wh p = Ok p'" "strip (slots p') = strip (slots p)" "numProp p' = numProp p" and
    h: "slots p \<noteq> [] \<longrightarrow> buckets p' \<noteq> None \<longrightarrow>
        (\<exists>bs f. hash_sound wh bs f p' \<and> hash_complete wh bs f (numProp p) (slots p') \<and> numProp p \<le> length bs)"
    by blast
  have len: "length (slots p') = length (slots p)"
    and nm: "\<And>i. i < length (slots p) \<Longrightarrow> sname (slots p' ! i) = sname (slots p ! i)"
    using p'(2) by (auto simp: strip_eq_iff)
  have "first_named q 0 (take (numProp p) (slots p)) = pot_find q p'"
  proof (cases "pot_find q p'")
    case None
    then have "pot_find q p = None" using assms(1) p'(3) len nm by (auto simp: pot_find_None)
    with None show ?thesis by (simp add: pot_find_def)
  next
    case (Some i)
    then have "pot_find q p = Some i" using assms(1) p'(3) len nm by (auto simp: pot_find_Some)
    with Some show ?thesis by (simp add: pot_find_def)
  qed
  moreover have "ejsLookupPotProperty wh (fst q) (Some (snd q)) p'
      = Ok (case pot_find q p' of None \<Rightarrow> -1 | Some i \<Rightarrow> int i)"
  proof (cases "slots p' = [] \<or> numProp p' = 0")
    case True
    then show ?thesis by (auto simp: ejsLookupPotProperty_def pot_find_def)
  next
    case False
    then have ne: "slots p \<noteq> []" using len by auto
    show ?thesis
    proof (cases "buckets p'")
      case None
      then show ?thesis using False by (simp add: ejsLookupPotProperty_def pot_find_def)
    next
      case (Some bs)
      with h ne obtain bs' f where f: "hash_sound wh bs' f p'" "hash_complete wh bs' f (numProp p') (slots p')"
        using p'(3) by auto
      have "bs' = bs" "bs \<noteq> []" using f(1) Some by (simp_all add: hash_sound_def)
      then show ?thesis
        using False Some chain_scan_ok [OF f(1), of q] scan_list_first [OF f assms(3)]
        by (simp add: ejsLookupPotProperty_def split: option.splits)
    qed
  qed
  ultimately show ?thesis using p'(1) by auto
qed

theorem hashed_lookup_is_linear_search_witness:
  "\<exists>p'. ejsIndexProperties length sample_pot = Ok p'
     \<and> ejsLookupPotProperty length (fst (''a'', [])) (Some (snd (''a'', []))) p'
        = Ok (case first_named (''a'', []) 0 (take (numProp sample_pot) (slots sample_pot)) of
              None \<Rightarrow> -1 | Some i \<Rightarrow> int i)"
  using hashed_lookup_is_linear_search [of sample_pot "(''a'', [])" length]
  by (simp add: sample_pot_def empty_name_def)

text \<open>
  Making room for \<open>incr\<close> inherited properties at the front, as a type does for the instance
  properties of its base, moves every property up by \<open>incr\<close> slots with its name and value, and
  leaves the new slots empty.
\<close>

lemma inserting_at_front_shifts_properties:
  assumes "numProp p \<le> length (slots p)" and "numProp p + incr \<le> 196613" and "0 < incr"
  shows "\<exists>p'. ejsInsertPotProperties wh incr 0 p = Ok p' \<and> numProp p' = numProp p + incr
     \<and> (\<forall>i < numProp p. sname (slots p' ! (i + incr)) = sname (slots p ! i)
          \<and> sval (slots p' ! (i + incr)) = sval (slots p ! i))
     \<and> (\<forall>i < incr. sname (slots p' ! i) = empty_name \<and> sval (slots p' ! i) = Null)"
  by (rule ejsInsertPotProperties_names [OF assms])

theorem inserting_at_front_shifts_properties_witness:
  "\<exists>p'. ejsInsertPotProperties length 2 0 sample_pot = Ok p' \<and> numProp p' = numProp sample_pot + 2
     \<and> (\<forall>i < numProp sample_pot. sname (slots p' ! (i + 2)) = sname (slots sample_pot ! i)
          \<and> sval (slots p' ! (i + 2)) = sval (slots sample_pot ! i))
     \<and> (\<forall>i < 2. sname (slots p' ! i) = empty_name \<and> sval (slots p' ! i) = Null)"
  by (rule inserting_at_front_shifts_properties) (simp_all add: sample_pot_def)

definition abc_pot :: pot where
  "abc_pot = \<lparr>slots = map (\<lambda>c. zero_slot\<lparr>sname := ([c], []), sval := Obj 1\<rparr>) ''abc'' @ [zero_slot],
     numProp = 3, buckets = None, dynamic = True\<rparr>"

text \<open>
  At an offset other than the front the copy reads from the wrong slots: inserting one slot after
  the first of three properties yields the first one twice and loses the third.
\<close>

lemma inserting_after_front_duplicates:
  "map_res (\<lambda>p. map (fst \<circ> sname) (take 4 (slots p))) (ejsInsertPotProperties wh 1 1 abc_pot)
     = Ok [''a'', [], ''a'', ''b'']"
  by (simp add: abc_pot_def ejsInsertPotProperties_def ejsIndexProperties_def EJS_HASH_MIN_PROP_def
      upt_rec ejsZeroSlots_def write_block_def zero_slot_def empty_name_def Let_def numeral_nat)

definition wh_sample :: "string \<Rightarrow> nat" where
  "wh_sample s = (if s = ''z'' then 1 else 0)"

definition pub :: "char \<Rightarrow> pname" where
  "pub c = ([c], ''public'')"

text \<open>
  An object with nine properties, all hashed to bucket 0 and linked in one chain, as nine writes
  build it; what renaming the end of the chain to a name of bucket 1, adding a property of bucket 0
  and deleting the renamed one make of it.
\<close>

definition nine_pot :: pot where
  "nine_pot = \<lparr>slots = [
     \<lparr>sname = pub CHR ''a'', traitType = None, attributes = 0, hashChain = 1, sval = Obj 1\<rparr>,
     \<lparr>sname = pub CHR ''b'', traitType = None, attributes = 0, hashChain = 2, sval = Obj 1\<rparr>,
     \<lparr>sname = pub CHR ''c'', traitType = None, attributes = 0, hashChain = 3, sval = Obj 1\<rparr>,
     \<lparr>sname = pub CHR ''d'', traitType = None, attributes = 0, hashChain = 4, sval = Obj 1\<rparr>,
     \<lparr>sname = pub CHR ''e'', traitType = None, attributes = 0, hashChain = 5, sval = Obj 1\<rparr>,
     \<lparr>sname = pub CHR ''f'', traitType = None, attributes = 0, hashChain = 6, sval = Obj 1\<rparr>,
     \<lparr>sname = pub CHR ''g'', traitType = None, attributes = 0, hashChain = 7, sval = Obj 1\<rparr>,
     \<lparr>sname = pub CHR ''h'', traitType = None, attributes = 0, hashChain = 8, sval = Obj 1\<rparr>,
     \<lparr>sname = pub CHR ''i'', traitType = None, attributes = 0, hashChain = -2, sval = Obj 1\<rparr>,
     zero_slot, zero_slot, zero_slot, zero_slot, zero_slot, zero_slot, zero_slot],
     numProp = 9, buckets = Some [0, -1, -1, -1, -1, -1, -1, -1, -1, -1, -1, -1, -1, -1, -1, -1, -1, -1, -1],
     dynamic = True\<rparr>"

definition renamed_pot :: pot where
  "renamed_pot = nine_pot\<lparr>slots := (slots nine_pot)[8 := (slots nine_pot ! 8)\<lparr>sname := pub CHR ''z'', hashChain := -2\<rparr>],
   buckets := Some ((replicate 19 (-1))[0 := 0, 1 := 8])\<rparr>"

definition extended_pot :: pot where
  "extended_pot = renamed_pot\<lparr>numProp := 10, slots := (slots renamed_pot)[8 := (slots renamed_pot ! 8)\<lparr>hashChain := 9\<rparr>,
     9 := zero_slot\<lparr>sname := pub CHR ''n'', sval := Obj 7, hashChain := -2\<rparr>]\<rparr>"

definition cut_pot :: pot where
  "cut_pot = extended_pot\<lparr>slots := (slots extended_pot)[8 := zero_slot\<lparr>sval := Undefined, attributes := EJS_TRAIT_DELETED OR EJS_TRAIT_HIDDEN\<rparr>],
     buckets := Some ((replicate 19 (-1))[0 := 0, 1 := 9])\<rparr>"

definition eight_pot :: pot where
  "eight_pot = \<lparr>slots = map (\<lambda>c. zero_slot\<lparr>sname := pub c, sval := Obj 1\<rparr>) ''abcdefgh'' @ replicate 8 zero_slot,
     numProp = 8, buckets = None, dynamic = True\<rparr>"

lemma eight_built: "put_all (ejsSetPropertyByName wh_sample) (map (\<lambda>c. (pub c, Obj 1)) ''abcdefgh'') empty_pot = (Ok (), eight_pot)"
  by code_simp

definition ninth_pot :: pot where
  "ninth_pot = eight_pot\<lparr>slots := (slots eight_pot)[8 := zero_slot\<lparr>sname := pub CHR ''i'', sval := Obj 1\<rparr>], numProp := 9\<rparr>"

lemma nine_hashed: "hash_all wh_sample [0..<9] (ninth_pot\<lparr>buckets := Some (replicate 19 (-1))\<rparr>) = Ok nine_pot"
  by code_simp

lemma hash_size_9: "ejsGetHashSize 9 = 19" by (simp add: ejsGetHashSize_def hashSizes_def)

lemma ninth_indexed: "ejsIndexProperties wh_sample ninth_pot = Ok nine_pot"
proof -
  have "slots ninth_pot \<noteq> []" "numProp ninth_pot = 9" "buckets ninth_pot = None" by (simp_all add: ninth_pot_def eight_pot_def)
  then show ?thesis using nine_hashed by (simp add: ejsIndexProperties_def EJS_HASH_MIN_PROP_def hash_size_9)
qed

lemma ninth_value: "setPotProperty (-1) (Obj 1) eight_pot = (Ok 8, ninth_pot\<lparr>slots := (slots ninth_pot)[8 := zero_slot\<lparr>sval := Obj 1\<rparr>]\<rparr>)"
  by code_simp

lemma ninth_unknown: "ejsLookupPotProperty wh_sample (fst (pub CHR ''i'')) (Some (snd (pub CHR ''i''))) eight_pot = Ok (-1)"
  by code_simp

lemma ninth_added: "ejsSetPropertyByName wh_sample (pub CHR ''i'') (Obj 1) eight_pot = (Ok 8, nine_pot)"
proof -
  let ?p = "ninth_pot\<lparr>slots := (slots ninth_pot)[8 := zero_slot\<lparr>sval := Obj 1\<rparr>]\<rparr>"
  have "ejsCheckSlot (int 8) ?p = (Ok 8, ?p)" by (rule ejsCheckSlot_in) (simp add: ninth_pot_def)
  moreover have "?p\<lparr>slots := (slots ?p)[8 := (slots ?p ! 8)\<lparr>sname := pub CHR ''i''\<rparr>]\<rparr> = ninth_pot" by code_simp
  moreover have "hashChain (slots ?p ! 8) = -1" "buckets ?p = None" "buckets ninth_pot = None" "numProp ninth_pot = 9" by code_simp+
  ultimately have "setPotPropertyName wh_sample (int 8) (pub CHR ''i'') ?p = (Ok 8, nine_pot)"
    using ninth_indexed by (simp add: setPotPropertyName_def Let_def EJS_HASH_MIN_PROP_def lift_res_def hashProperty_def)
  then show ?thesis using ninth_value ninth_unknown by (simp add: ejsSetPropertyByName_def)
qed

lemma rename_step: "setPotPropertyName wh_sample 8 (pub CHR ''z'') nine_pot = (Ok 8, renamed_pot)"
  by code_simp

lemma extend_step: "ejsSetPropertyByName wh_sample (pub CHR ''n'') (Obj 7) renamed_pot = (Ok 9, extended_pot)"
  by code_simp

lemma cut_step: "deletePotPropertyByName wh_sample (pub CHR ''z'') extended_pot = (Ok (), cut_pot)"
  by code_simp

lemma cut_lookup: "ejsGetPropertyByName wh_sample (pub CHR ''n'') cut_pot = Ok None"
  by code_simp

lemma put_all_append:
  "put_all put (xs @ ys) = andthen (put_all put xs) (\<lambda>_. put_all put ys)"
proof (induction xs)
  case Nil
  then show ?case by (simp add: andthen_def fun_eq_iff)
next
  case (Cons x xs)
  then show ?case by (cases x) (auto simp: andthen_def fun_eq_iff split: res.splits prod.splits)
qed

lemma nine_built:
  "put_all (ejsSetPropertyByName wh_sample) (map (\<lambda>c. (pub c, Obj 1)) (''abcdefgh'' @ ''i'')) empty_pot
     = (Ok (), nine_pot)"
  using eight_built ninth_added by (simp only: map_append put_all_append andthen_Ok) simp

text \<open>
  Renaming the last slot of a hash chain leaves it linked in the chain of its old name, because
  the end of a chain is marked by a negative link and only slots with a successor are removed. Nine
  properties written to an empty object, the last renamed, one more written and the renamed one
  deleted: the property written last is then in its slot but is not found by name.
\<close>

lemma rename_of_chain_end_loses_property:
  "\<exists>p. andthen (put_all (ejsSetPropertyByName wh_sample) (map (\<lambda>c. (pub c, Obj 1)) (''abcdefgh'' @ ''i'')))
         (\<lambda>_. andthen (setPotPropertyName wh_sample 8 (pub CHR ''z''))
         (\<lambda>_. andthen (ejsSetPropertyByName wh_sample (pub CHR ''n'') (Obj 7))
         (\<lambda>_. deletePotPropertyByName wh_sample (pub CHR ''z'')))) empty_pot = (Ok (), p)
     \<and> sname (slots p ! 9) = pub CHR ''n'' \<and> sval (slots p ! 9) = Obj 7
     \<and> ejsGetPropertyByName wh_sample (pub CHR ''n'') p = Ok None"
proof -
  have "sname (slots cut_pot ! 9) = pub CHR ''n''" "sval (slots cut_pot ! 9) = Obj 7" by code_simp+
  then show ?thesis
    by (intro exI [of _ cut_pot])
      (simp only: andthen_def nine_built rename_step extend_step cut_step cut_lookup prod.case res.case
        simp_thms)
qed

end
