(* ===== verification/ByteArray.thy ===== *)
theory ByteArray
  imports Prelude
begin

text \<open>
  Byte arrays (\<open>src/src/core/src/ejsByteArray.c\<close>): a buffer of bytes with a read and a write
  position, used as a stream between producers and consumers. Arguments are the integers and
  strings that the arguments of the script are converted to. A double is its 64-bit pattern. The host is little endian. A source or
  destination array given as an argument is another object than the receiver.

  Registered observers run arbitrary script code. They are the parameter \<open>ob\<close>: what an event of a
  given name does to the array. No exception is pending when a method is called, and observers raise none.
\<close>

record bytearray =
  bytes :: "u8 list"
  readPosition :: int
  writePosition :: int
  growInc :: int
  endian :: int
  swap :: bool
  resizable :: bool
  emitter :: bool
  async :: bool

type_synonym observers = "string \<Rightarrow> bytearray \<Rightarrow> bytearray"

definition BIT_MAX_BUFFER :: int where "BIT_MAX_BUFFER = 4096"
definition HOST_ENDIAN :: int where "HOST_ENDIAN = 0"
definition MAXINT32 :: int where "MAXINT32 = 0x7fffffff"

definition sz :: "bytearray \<Rightarrow> int" where
  "sz ap = int (length (bytes ap))"

definition availableBytes :: "bytearray \<Rightarrow> int" where
  "availableBytes ap = writePosition ap - readPosition ap"

definition room :: "bytearray \<Rightarrow> int" where
  "room ap = sz ap - writePosition ap"

definition sendEvent :: "observers \<Rightarrow> string \<Rightarrow> bytearray \<Rightarrow> bytearray" where
  "sendEvent ob name ap = (if emitter ap then ob name ap else ap)"

definition adjustReadPosition :: "int \<Rightarrow> bytearray \<Rightarrow> bytearray" where
  "adjustReadPosition amt ap =
     (let ap = ap\<lparr>readPosition := readPosition ap + amt\<rparr>
      in if readPosition ap = writePosition ap then ap\<lparr>readPosition := 0, writePosition := 0\<rparr> else ap)"

text \<open>Reading and writing the memory of the array; outside it is a fault.\<close>

definition load :: "int \<Rightarrow> int \<Rightarrow> bytearray \<Rightarrow> u8 list res" where
  "load pos n ap =
     (if n \<le> 0 then Ok []
      else if pos < 0 \<or> sz ap < pos + n then Fault
      else Ok (take (nat n) (drop (nat pos) (bytes ap))))"

definition store :: "int \<Rightarrow> u8 list \<Rightarrow> bytearray \<Rightarrow> bytearray res" where
  "store pos bs ap =
     (if bs = [] then Ok ap
      else if pos < 0 \<or> sz ap < pos + int (length bs) then Fault
      else Ok (ap\<lparr>bytes := write_block (bytes ap) (nat pos) bs\<rparr>))"

section \<open>Growth\<close>

definition ejsGrowByteArray :: "int \<Rightarrow> (bytearray, int) op" where
  "ejsGrowByteArray len ap =
     (if sz ap < len then
        if \<not> resizable ap then (Throw ResourceError, ap)
        else (Ok len, ap\<lparr>bytes := bytes ap @ replicate (nat (len - sz ap)) 0,
                          growInc := min (growInc ap * 2) (32 * 1024)\<rparr>)
      else (Ok (sz ap), ap))"

definition ejsMakeRoomInByteArray :: "observers \<Rightarrow> int \<Rightarrow> (bytearray, unit) op" where
  "ejsMakeRoomInByteArray ob require ap =
     (if room ap < require then
        let ap = (if availableBytes ap \<noteq> 0 then sendEvent ob ''readable'' ap else ap)
        in if room ap < require
           then andthen (ejsGrowByteArray (max (sz ap + require) (sz ap + growInc ap))) (\<lambda>_. ret ()) ap
           else (Ok (), ap)
      else (Ok (), ap))"

definition ba_ByteArray :: "int option \<Rightarrow> bool option \<Rightarrow> (bytearray, unit) op" where
  "ba_ByteArray len resiz ap =
     (let len0 = (case len of None \<Rightarrow> BIT_MAX_BUFFER | Some n \<Rightarrow> n);
          len1 = (if len0 \<le> 0 then 1 else len0);
          r = (case resiz of None \<Rightarrow> True | Some b \<Rightarrow> b);
          ap = ap\<lparr>growInc := (if r then BIT_MAX_BUFFER else 0), endian := HOST_ENDIAN, resizable := True\<rparr>
      in andthen (ejsGrowByteArray len1) (\<lambda>_ ap. (Ok (), ap\<lparr>resizable := r\<rparr>)) ap)"

definition blank_array :: bytearray where
  "blank_array = \<lparr>bytes = [], readPosition = 0, writePosition = 0, growInc = 0, endian = 0, swap = False,
     resizable = False, emitter = False, async = False\<rparr>"

definition ejsCreateByteArray :: "int \<Rightarrow> bytearray res" where
  "ejsCreateByteArray len =
     fst (andthen (ejsGrowByteArray (if len \<le> 0 then BIT_MAX_BUFFER else len)) (\<lambda>_ ap. (Ok ap, ap))
       (blank_array\<lparr>async := True, resizable := True, growInc := BIT_MAX_BUFFER, endian := HOST_ENDIAN\<rparr>))"

text \<open>A clone is a new array of the same size, without the settings of the original.\<close>

definition cloneByteArrayVar :: "bytearray \<Rightarrow> bytearray res" where
  "cloneByteArrayVar ap = map_res (\<lambda>n. n\<lparr>bytes := bytes ap @ drop (length (bytes ap)) (bytes n),
     readPosition := readPosition ap, writePosition := writePosition ap\<rparr>) (ejsCreateByteArray (sz ap))"

section \<open>Access by index\<close>

definition getByteArrayPropertyCount :: "bytearray \<Rightarrow> int" where
  "getByteArrayPropertyCount ap = sz ap"

definition getByteArrayProperty :: "int \<Rightarrow> bytearray \<Rightarrow> u8 res" where
  "getByteArrayProperty slot ap =
     (if slot < 0 \<or> sz ap \<le> slot then Throw OutOfBoundsError else Ok (bytes ap ! nat slot))"

definition setByteArrayProperty :: "int \<Rightarrow> int \<Rightarrow> (bytearray, int) op" where
  "setByteArrayProperty slot v = andthen (\<lambda>ap. if sz ap \<le> slot then ejsGrowByteArray (slot + 1) ap else (Ok 0, ap))
     (\<lambda>_ ap. case store slot [word_of_int v] ap of Ok ap' \<Rightarrow> (Ok slot, ap') | _ \<Rightarrow> (Fault, ap))"

text \<open>
  Deleting the last element shrinks the array and then assigns undefined to the element, which grows
  it again. The byte assigned is that of the integer for a value that is not a number, 0. A slot comes
  from a lookup of the name, and is not negative.
\<close>

definition deleteByteArrayProperty :: "int \<Rightarrow> (bytearray, unit) op" where
  "deleteByteArrayProperty slot ap =
     (if sz ap \<le> slot then (Throw OutOfBoundsError, ap)
      else
        let ap = (if slot + 1 = sz ap then
              let ap = ap\<lparr>bytes := butlast (bytes ap)\<rparr>;
                  ap = (if sz ap \<le> readPosition ap then ap\<lparr>readPosition := sz ap - 1\<rparr> else ap)
              in if sz ap \<le> writePosition ap then ap\<lparr>writePosition := sz ap - 1\<rparr> else ap
            else ap)
        in andthen (setByteArrayProperty slot 0) (\<lambda>_. ret ()) ap)"

section \<open>Byte order\<close>

text \<open>
  The swaps of the source, applied when the byte order of the array is not that of the host. In C the
  shift binds tighter than the mask, so that \<open>a & 0xFF00 >> 8\<close> is \<open>a & 0xFF\<close>.
\<close>

definition swap16 :: "bytearray \<Rightarrow> u32 \<Rightarrow> u32" where
  "swap16 ap a = (if \<not> swap ap then a else push_bit 8 (a AND 0xFF) OR (a AND drop_bit 8 0xFF00))"

definition swap_word :: "'a :: len word \<Rightarrow> 'a word" where
  "swap_word a = push_bit 24 (a AND 0xFF) OR (a AND push_bit 8 0xFF00) OR (a AND drop_bit 8 0xFF0000)
     OR (a AND drop_bit 16 0xFF000000)"

definition swap32 :: "bytearray \<Rightarrow> u32 \<Rightarrow> u32" where
  "swap32 ap a = (if \<not> swap ap then a else swap_word a)"

definition swap64 :: "bytearray \<Rightarrow> u64 \<Rightarrow> u64" where
  "swap64 ap a =
     (if \<not> swap ap then a
      else let low = a AND 0xFFFFFFFF; high = signed_drop_bit 32 a AND 0xFFFFFFFF
        in swap_word low OR push_bit 32 (swap_word high))"

text \<open>
  The swap of a double converts the number to an integer and the swapped integer back; the two
  conversions between the pattern of a double and an integer are the parameters \<open>toi\<close> and \<open>tod\<close>.
\<close>

definition swapDouble :: "(u64 \<Rightarrow> u64) \<Rightarrow> (u64 \<Rightarrow> u64) \<Rightarrow> bytearray \<Rightarrow> u64 \<Rightarrow> u64" where
  "swapDouble toi tod ap a =
     (if \<not> swap ap then a
      else let low = toi a AND 0xFFFFFFFF; high = signed_drop_bit 32 (toi a) AND 0xFFFFFFFF
        in tod (swap_word low OR push_bit 32 (swap_word high)))"

fun le_bytes :: "nat \<Rightarrow> 'a :: len word \<Rightarrow> u8 list" where
  "le_bytes 0 a = []"
| "le_bytes (Suc n) a = ucast a # le_bytes n (drop_bit 8 a)"

fun le_word :: "u8 list \<Rightarrow> 'a :: len word" where
  "le_word [] = 0"
| "le_word (b # bs) = ucast b OR push_bit 8 (le_word bs)"

section \<open>Writing\<close>

definition advance :: "int \<Rightarrow> bytearray \<Rightarrow> bytearray" where
  "advance n ap = ap\<lparr>writePosition := writePosition ap + n\<rparr>"

definition put_bytes :: "u8 list \<Rightarrow> (bytearray, int) op" where
  "put_bytes bs ap = (case store (writePosition ap) bs ap of
     Ok ap' \<Rightarrow> (Ok (int (length bs)), advance (int (length bs)) ap') | _ \<Rightarrow> (Fault, ap))"

definition putByte :: "u32 \<Rightarrow> (bytearray, int) op" where
  "putByte v = put_bytes [ucast v]"

definition putShort :: "u32 \<Rightarrow> (bytearray, int) op" where
  "putShort v ap = put_bytes (le_bytes 2 (swap16 ap v)) ap"

definition putInteger :: "u32 \<Rightarrow> (bytearray, int) op" where
  "putInteger v ap = put_bytes (le_bytes 4 (swap32 ap v)) ap"

definition putLong :: "u64 \<Rightarrow> (bytearray, int) op" where
  "putLong v ap = put_bytes (le_bytes 8 (swap64 ap v)) ap"

definition putDouble :: "(u64 \<Rightarrow> u64) \<Rightarrow> (u64 \<Rightarrow> u64) \<Rightarrow> u64 \<Rightarrow> (bytearray, int) op" where
  "putDouble toi tod v ap = put_bytes (le_bytes 8 (swapDouble toi tod ap v)) ap"

definition putNumber :: "(u64 \<Rightarrow> u64) \<Rightarrow> (u64 \<Rightarrow> u64) \<Rightarrow> u64 \<Rightarrow> (bytearray, int) op" where
  "putNumber toi tod v = putDouble toi tod v"

text \<open>
  The checked copy of the vendored library writes nothing when there is some room but too little,
  and copies without a check when there is none at all; the write position advances in any case.
\<close>

definition putString :: "string \<Rightarrow> (bytearray, int) op" where
  "putString s ap =
     (let n = int (length s)
      in if 0 < room ap \<and> room ap < n then (Ok n, advance n ap)
         else put_bytes (map byte_of s) ap)"

definition ejsCopyToByteArray :: "observers \<Rightarrow> int \<Rightarrow> u8 list \<Rightarrow> (bytearray, int) op" where
  "ejsCopyToByteArray ob offset data ap =
     (let offset = (if offset < 0 then writePosition ap else offset); n = int (length data)
      in andthen (ejsMakeRoomInByteArray ob (offset + n)) (\<lambda>_ ap.
           if sz ap < offset + n then (Ok EJS_ERR, ap)
           else case store offset data ap of Ok ap' \<Rightarrow> (Ok n, ap') | _ \<Rightarrow> (Fault, ap)) ap)"

text \<open>
  The values that \<open>write\<close> tells apart: a boolean, a date, a number, a string, another byte array (as
  the bytes between its positions), an array (with its elements and its string form) and any other
  object (as its string form); \<open>None\<close> is a null pointer.
\<close>

datatype warg = WBool bool | WDate u64 | WNumber u64 | WString string | WBytes "u8 list"
  | WArray "warg option list" string | WOther string

fun unwrap_args :: "warg option list \<Rightarrow> warg option list" where
  "unwrap_args [Some (WArray xs s)] = unwrap_args xs"
| "unwrap_args xs = xs"

text \<open>
  A value that is written yields the number of bytes counted as written and the exception left pending:
  the code does not look at the outcome of the copy of a byte array, and advances in any case.
\<close>

fun write_value ::
  "(u64 \<Rightarrow> u64) \<Rightarrow> (u64 \<Rightarrow> u64) \<Rightarrow> observers \<Rightarrow> warg \<Rightarrow> (bytearray, int \<times> ejs_error option) op" where
  "write_value toi tod ob (WBool b) = andthen (ejsMakeRoomInByteArray ob 1)
     (\<lambda>_. andthen (putByte (if b then 1 else 0)) (\<lambda>n. ret (n, None)))"
| "write_value toi tod ob (WDate t) = andthen (ejsMakeRoomInByteArray ob 8)
     (\<lambda>_. andthen (putNumber toi tod (tod t)) (\<lambda>n. ret (n, None)))"
| "write_value toi tod ob (WNumber d) = andthen (ejsMakeRoomInByteArray ob 8)
     (\<lambda>_. andthen (putNumber toi tod d) (\<lambda>n. ret (n, None)))"
| "write_value toi tod ob (WString s) = andthen (ejsMakeRoomInByteArray ob (int (length s)))
     (\<lambda>_. andthen (putString s) (\<lambda>n. ret (n, None)))"
| "write_value toi tod ob (WBytes bs) = andthen (ejsMakeRoomInByteArray ob (int (length bs)))
     (\<lambda>_ ap. case ejsCopyToByteArray ob (writePosition ap) bs ap of
        (Ok _, ap) \<Rightarrow> (Ok (int (length bs), None), advance (int (length bs)) ap)
      | (Throw e, ap) \<Rightarrow> (Ok (int (length bs), Some e), advance (int (length bs)) ap)
      | (Fault, ap) \<Rightarrow> (Fault, ap))"
| "write_value toi tod ob (WArray xs s) = andthen (putString s) (\<lambda>n. ret (n, None))"
| "write_value toi tod ob (WOther s) = andthen (putString s) (\<lambda>n. ret (n, None))"

fun write_values ::
  "(u64 \<Rightarrow> u64) \<Rightarrow> (u64 \<Rightarrow> u64) \<Rightarrow> observers \<Rightarrow> int \<Rightarrow> ejs_error option \<Rightarrow> warg option list
    \<Rightarrow> (bytearray, int \<times> ejs_error option) op" where
  "write_values toi tod ob wrote pend [] = ret (wrote, pend)"
| "write_values toi tod ob wrote pend (None # vs) = write_values toi tod ob wrote pend vs"
| "write_values toi tod ob wrote pend (Some v # vs) = andthen (write_value toi tod ob v)
     (\<lambda>(n, e). write_values toi tod ob (wrote + n) (case e of None \<Rightarrow> pend | Some _ \<Rightarrow> e) vs)"

definition reset_if_empty :: "bytearray \<Rightarrow> bytearray" where
  "reset_if_empty ap = (if availableBytes ap = 0 then ap\<lparr>readPosition := 0, writePosition := 0\<rparr> else ap)"

definition ejsWriteToByteArray ::
  "(u64 \<Rightarrow> u64) \<Rightarrow> (u64 \<Rightarrow> u64) \<Rightarrow> observers \<Rightarrow> warg option list \<Rightarrow> (bytearray, int) op" where
  "ejsWriteToByteArray toi tod ob args ap =
     andthen (write_values toi tod ob 0 None (unwrap_args args)) (\<lambda>(wrote, pend) ap.
       (case pend of None \<Rightarrow> Ok wrote | Some e \<Rightarrow> Throw e,
        if 0 < wrote \<and> 0 < availableBytes ap then sendEvent ob ''readable'' ap else ap))
     (reset_if_empty ap)"

definition ba_write1 :: "observers \<Rightarrow> int \<Rightarrow> (bytearray, int) op \<Rightarrow> (bytearray, unit) op" where
  "ba_write1 ob n put = andthen (ejsMakeRoomInByteArray ob n)
     (\<lambda>_. andthen put (\<lambda>_ ap. (Ok (), sendEvent ob ''readable'' ap)))"

definition ba_writeByte :: "observers \<Rightarrow> u32 \<Rightarrow> (bytearray, unit) op" where
  "ba_writeByte ob v = ba_write1 ob 1 (putByte v)"

definition ba_writeShort :: "observers \<Rightarrow> u32 \<Rightarrow> (bytearray, unit) op" where
  "ba_writeShort ob v = ba_write1 ob 2 (putShort v)"

definition ba_writeInteger :: "observers \<Rightarrow> u32 \<Rightarrow> (bytearray, unit) op" where
  "ba_writeInteger ob v = ba_write1 ob 4 (putInteger v)"

definition ba_writeDouble :: "(u64 \<Rightarrow> u64) \<Rightarrow> (u64 \<Rightarrow> u64) \<Rightarrow> observers \<Rightarrow> u64 \<Rightarrow> (bytearray, unit) op" where
  "ba_writeDouble toi tod ob v = ba_write1 ob 8 (putDouble toi tod v)"

text \<open>The source makes room for an \<open>int\<close> and converts the argument to an \<open>int\<close>.\<close>

definition ba_writeLong :: "observers \<Rightarrow> u32 \<Rightarrow> (bytearray, unit) op" where
  "ba_writeLong ob v = ba_write1 ob 4 (putLong (scast v))"

section \<open>Reading\<close>

text \<open>\<open>getInput\<close> yields 0 when fewer bytes than required are available, after asking the writer.\<close>

definition getInput :: "observers \<Rightarrow> int \<Rightarrow> (bytearray, int) op" where
  "getInput ob required ap =
     (let ap = reset_if_empty ap;
          ap = (if availableBytes ap < required then sendEvent ob ''writable'' ap else ap)
      in (Ok (if availableBytes ap < required then 0 else availableBytes ap), ap))"

definition fetch :: "int \<Rightarrow> (u8 list \<Rightarrow> 'a) \<Rightarrow> (bytearray, 'a) op" where
  "fetch n conv ap = (case load (readPosition ap) n ap of
     Ok bs \<Rightarrow> (Ok (conv bs), adjustReadPosition n ap) | _ \<Rightarrow> (Fault, ap))"

text \<open>\<open>None\<close> is the null that a reader gets at the end of the data.\<close>

definition ba_readByte :: "observers \<Rightarrow> (bytearray, u8 option) op" where
  "ba_readByte ob = andthen (getInput ob 1)
     (\<lambda>n. if n \<le> 0 then ret None else fetch 1 (\<lambda>bs. Some (hd bs)))"

definition ba_readBoolean :: "observers \<Rightarrow> (bytearray, bool option) op" where
  "ba_readBoolean ob = andthen (getInput ob 1)
     (\<lambda>n. if n \<le> 0 then ret None else fetch 1 (\<lambda>bs. Some (hd bs \<noteq> 0)))"

definition ba_readShort :: "observers \<Rightarrow> (bytearray, u32 option) op" where
  "ba_readShort ob = andthen (getInput ob 2)
     (\<lambda>n ap. if n \<le> 0 then (Ok None, ap)
             else fetch 2 (\<lambda>bs. Some (swap16 ap (scast (le_word bs :: 16 word)))) ap)"

definition read_whole :: "observers \<Rightarrow> int \<Rightarrow> (bytearray \<Rightarrow> u8 list \<Rightarrow> 'a) \<Rightarrow> (bytearray, 'a option) op" where
  "read_whole ob n conv = andthen (getInput ob n)
     (\<lambda>k ap. if k \<le> 0 then if 0 < availableBytes ap then (Throw IOError, ap) else (Ok None, ap)
             else fetch n (\<lambda>bs. Some (conv ap bs)) ap)"

definition ba_readInteger :: "observers \<Rightarrow> (bytearray, u32 option) op" where
  "ba_readInteger ob = read_whole ob 4 (\<lambda>ap bs. swap32 ap (le_word bs))"

definition ba_readLong :: "observers \<Rightarrow> (bytearray, u64 option) op" where
  "ba_readLong ob = read_whole ob 8 (\<lambda>ap bs. swap64 ap (le_word bs))"

definition ba_readDouble :: "(u64 \<Rightarrow> u64) \<Rightarrow> (u64 \<Rightarrow> u64) \<Rightarrow> observers \<Rightarrow> (bytearray, u64 option) op" where
  "ba_readDouble toi tod ob = read_whole ob 8 (\<lambda>ap bs. swapDouble toi tod ap (le_word bs))"

definition ba_readDate :: "(u64 \<Rightarrow> u64) \<Rightarrow> (u64 \<Rightarrow> u64) \<Rightarrow> observers \<Rightarrow> (bytearray, u64 option) op" where
  "ba_readDate toi tod ob = read_whole ob 8 (\<lambda>ap bs. toi (swapDouble toi tod ap (le_word bs)))"

definition ba_readString :: "observers \<Rightarrow> int option \<Rightarrow> (bytearray, string) op" where
  "ba_readString ob cnt =
     (let c = (case cnt of None \<Rightarrow> -1 | Some c \<Rightarrow> c)
      in andthen (getInput ob (if c < 0 then 1 else c)) (\<lambda>_ ap.
           let n = (if c < 0 then availableBytes ap else min c (availableBytes ap))
           in if n < 0 then (Fault, ap) else fetch n (map char_of_byte) ap))"

definition ba_toString :: "bytearray \<Rightarrow> string res" where
  "ba_toString ap = (if availableBytes ap < 0 then Fault
     else map_res (map char_of_byte) (load (readPosition ap) (availableBytes ap) ap))"

text \<open>
  \<open>read\<close> moves data to another array: the arguments after the array are the list \<open>args\<close>, of at
  most two. The offset is looked at when it is the last argument, the count when there are both.
\<close>

definition ba_read :: "observers \<Rightarrow> int list \<Rightarrow> (bytearray \<times> bytearray, int option) op" where
  "ba_read ob args = (\<lambda>(ap, buffer).
     let offset = (if length args = 1 then args ! 0 else 0);
         cnt = (if length args = 2 then args ! 1 else sz buffer);
         cnt = (if cnt < 0 then sz buffer else cnt)
     in if 0 \<le> offset \<and> sz buffer \<le> offset then (Throw OutOfBoundsError, ap, buffer)
        else
          let pos = (if offset < 0 then writePosition buffer else offset);
              buffer = (if offset < 0 then buffer else buffer\<lparr>readPosition := 0, writePosition := 0\<rparr>)
          in case getInput ob 1 ap of
               (Ok k, ap) \<Rightarrow>
                 if k \<le> 0 then (Ok None, ap, buffer)
                 else let n = min (availableBytes ap) cnt
                   in (case load (readPosition ap) n ap of
                         Ok bs \<Rightarrow> (case store pos bs buffer of
                             Ok buffer \<Rightarrow>
                               (let ap = ap\<lparr>readPosition := readPosition ap + n\<rparr>
                                in (Ok (Some n), if availableBytes ap \<noteq> 0 then sendEvent ob ''writable'' ap else ap,
                                    advance n buffer))
                           | _ \<Rightarrow> (Fault, ap, buffer))
                       | _ \<Rightarrow> (Fault, ap, buffer))
             | (_, ap) \<Rightarrow> (Fault, ap, buffer))"

section \<open>Copying\<close>

text \<open>
  Making room may throw; \<open>copyIn\<close> and \<open>copyOut\<close> go on with the exception pending.
\<close>

definition copyIn_count :: "int option \<Rightarrow> int" where
  "copyIn_count cnt = (case cnt of None \<Rightarrow> MAXINT32 | Some c \<Rightarrow> if c < 0 then MAXINT32 else c)"

definition ba_copyIn ::
  "observers \<Rightarrow> int \<Rightarrow> bytearray \<Rightarrow> int option \<Rightarrow> int option \<Rightarrow> (bytearray, int) op" where
  "ba_copyIn ob destOffset src srcOff cnt ap =
     (let srcOffset = (case srcOff of None \<Rightarrow> 0 | Some n \<Rightarrow> n)
      in if sz src \<le> srcOffset then (Throw OutOfBoundsError, ap)
         else
           let n = min (sz src - srcOffset) (copyIn_count cnt);
               (r, ap) = ejsMakeRoomInByteArray ob (destOffset + n) ap
           in if sz src < destOffset + n then (Throw OutOfBoundsError, ap)
              else case bind_res (load srcOffset n src) (\<lambda>bs. store destOffset bs ap) of
                Ok ap \<Rightarrow> (map_res (\<lambda>_. n) r, ap)
              | _ \<Rightarrow> (Fault, ap))"

definition ba_copyOut ::
  "observers \<Rightarrow> int \<Rightarrow> bytearray \<Rightarrow> int option \<Rightarrow> int option \<Rightarrow> (bytearray, int) op" where
  "ba_copyOut ob srcOffset ap destOff cnt dest =
     (let destOffset = (case destOff of None \<Rightarrow> 0 | Some n \<Rightarrow> n)
      in if sz ap \<le> srcOffset then (Throw OutOfBoundsError, dest)
         else
           let n = min (sz ap - srcOffset) (case cnt of None \<Rightarrow> MAXINT32 | Some c \<Rightarrow> c);
               (r, dest) = ejsMakeRoomInByteArray ob (destOffset + n) dest
           in if sz dest < destOffset + n then (Throw OutOfBoundsError, dest)
              else case bind_res (load srcOffset n ap) (\<lambda>bs. store destOffset bs dest) of
                Ok dest \<Rightarrow> (map_res (\<lambda>_. n) r, dest)
              | _ \<Rightarrow> (Fault, dest))"

section \<open>Positions and settings\<close>

definition ba_compact :: "(bytearray, unit) op" where
  "ba_compact ap =
     (if writePosition ap = readPosition ap then (Ok (), ap\<lparr>readPosition := 0, writePosition := 0\<rparr>)
      else if 0 < readPosition ap then
        if availableBytes ap < 0 then (Fault, ap)
        else case bind_res (load (readPosition ap) (availableBytes ap) ap) (\<lambda>bs. store 0 bs ap) of
          Ok ap' \<Rightarrow> (Ok (), ap'\<lparr>readPosition := 0, writePosition := writePosition ap - readPosition ap\<rparr>)
        | _ \<Rightarrow> (Fault, ap)
      else (Ok (), ap))"

definition zero_bytes :: "bytearray \<Rightarrow> bytearray" where
  "zero_bytes ap = ap\<lparr>bytes := replicate (length (bytes ap)) 0\<rparr>"

definition ejsResetByteArray :: "bytearray \<Rightarrow> bytearray" where
  "ejsResetByteArray ap =
     (if writePosition ap = readPosition ap
      then zero_bytes (ap\<lparr>readPosition := 0, writePosition := 0\<rparr>) else ap)"

definition flushByteArray :: "observers \<Rightarrow> bytearray \<Rightarrow> bytearray" where
  "flushByteArray ob ap =
     (let ap = (if availableBytes ap \<noteq> 0 then sendEvent ob ''flush'' ap else ap);
          ap = ap\<lparr>readPosition := 0, writePosition := 0\<rparr>
      in sendEvent ob ''writable'' ap)"

definition ba_flush :: "observers \<Rightarrow> bytearray \<Rightarrow> bytearray" where
  "ba_flush ob ap = zero_bytes ((flushByteArray ob ap)\<lparr>readPosition := 0, writePosition := 0\<rparr>)"

definition ba_close :: "observers \<Rightarrow> bytearray \<Rightarrow> bytearray" where
  "ba_close ob ap = (sendEvent ob ''close'' ap)\<lparr>readPosition := 0, writePosition := 0\<rparr>"

definition ba_setReadPosition :: "int \<Rightarrow> (bytearray, unit) op" where
  "ba_setReadPosition pos ap =
     (if pos < 0 \<or> sz ap < pos then (Throw OutOfBoundsError, ap)
      else if writePosition ap < pos then (Throw StateError, ap)
      else (Ok (), ap\<lparr>readPosition := pos\<rparr>))"

definition ba_setWritePosition :: "int \<Rightarrow> (bytearray, unit) op" where
  "ba_setWritePosition pos ap =
     (if pos < 0 \<or> sz ap < pos then (Throw StateError, ap)
      else if pos < readPosition ap then (Throw StateError, ap)
      else (Ok (), ap\<lparr>writePosition := pos\<rparr>))"

definition ejsSetByteArrayPositions :: "int \<Rightarrow> int \<Rightarrow> bytearray \<Rightarrow> bytearray" where
  "ejsSetByteArrayPositions r w ap =
     (let ap = (if 0 \<le> r then ap\<lparr>readPosition := r\<rparr> else ap)
      in if 0 \<le> w then ap\<lparr>writePosition := w\<rparr> else ap)"

definition setEndian :: "int \<Rightarrow> (bytearray, unit) op" where
  "setEndian e ap =
     (if e \<noteq> 0 \<and> e \<noteq> 1 then (Throw ArgError, ap)
      else (Ok (), ap\<lparr>endian := e, swap := (e \<noteq> HOST_ENDIAN)\<rparr>))"

definition ba_setAsync :: "bool \<Rightarrow> bytearray \<Rightarrow> bytearray" where
  "ba_setAsync b ap = ap\<lparr>async := b\<rparr>"

definition ba_on :: "bytearray \<Rightarrow> bytearray" where
  "ba_on ap = ap\<lparr>emitter := True\<rparr>"

definition ba_getLength :: "bytearray \<Rightarrow> int" where
  "ba_getLength ap = writePosition ap - readPosition ap"

definition ba_room :: "bytearray \<Rightarrow> int" where
  "ba_room ap = room ap"

definition ba_size :: "bytearray \<Rightarrow> int" where
  "ba_size ap = sz ap"

text \<open>The iterators visit the elements between the positions; the state is the index of the iterator.\<close>

definition nextByteArrayKey :: "bytearray \<Rightarrow> (int, int) op" where
  "nextByteArrayKey ap i =
     (let i = (if i < readPosition ap then readPosition ap else i)
      in if i < writePosition ap then (Ok i, i + 1) else (Throw StopIteration, i))"

definition nextByteArrayValue :: "bytearray \<Rightarrow> (int, u8) op" where
  "nextByteArrayValue ap i =
     (let i = (if i < readPosition ap then readPosition ap else i)
      in if i < writePosition ap
         then case load i 1 ap of Ok bs \<Rightarrow> (Ok (hd bs), i + 1) | _ \<Rightarrow> (Fault, i)
         else (Throw StopIteration, i))"

end
