(* ===== verification/ByteStream.thy ===== *)
theory ByteStream
  imports ByteArray
begin

text \<open>
  The stream behaviour of the byte arrays of \<open>ByteArray\<close>: the position invariant under every
  stream call, the order of data between writers and readers as an abstract queue, and the calls whose
  outcome differs from what their documentation says.
\<close>

section \<open>Positions and content\<close>

definition positions_ok :: "bytearray \<Rightarrow> bool" where
  "positions_ok ap \<longleftrightarrow>
     0 \<le> readPosition ap \<and> readPosition ap \<le> writePosition ap \<and> writePosition ap \<le> sz ap \<and> 0 \<le> growInc ap"

text \<open>The data that is written and not read.\<close>

definition content :: "bytearray \<Rightarrow> u8 list" where
  "content ap = take (nat (availableBytes ap)) (drop (nat (readPosition ap)) (bytes ap))"

lemmas ba_defs = sz_def availableBytes_def room_def

lemma positions_okI:
  "\<lbrakk>0 \<le> readPosition ap; readPosition ap \<le> writePosition ap; writePosition ap \<le> sz ap; 0 \<le> growInc ap\<rbrakk>
   \<Longrightarrow> positions_ok ap"
  by (simp add: positions_ok_def)

lemma length_content: "positions_ok ap \<Longrightarrow> length (content ap) = nat (availableBytes ap)"
  by (auto simp: content_def positions_ok_def ba_defs)

lemma available_content: "positions_ok ap \<Longrightarrow> availableBytes ap = int (length (content ap))"
  by (subst length_content) (auto simp: positions_ok_def ba_defs)


lemma room_nonneg: "positions_ok ap \<Longrightarrow> 0 \<le> room ap"
  by (simp add: positions_ok_def ba_defs)

lemma positions_ok_reset [wf_intros]: "positions_ok ap \<Longrightarrow> positions_ok (reset_if_empty ap)"
  by (auto simp: positions_ok_def reset_if_empty_def ba_defs)

lemma content_reset [simp]: "content (reset_if_empty ap) = content ap"
  by (simp add: content_def reset_if_empty_def ba_defs)

lemma positions_ok_adjust [wf_intros]:
  "\<lbrakk>positions_ok ap; 0 \<le> n; n \<le> availableBytes ap\<rbrakk> \<Longrightarrow> positions_ok (adjustReadPosition n ap)"
  by (auto simp: positions_ok_def adjustReadPosition_def Let_def ba_defs)

lemma content_advance:
  assumes "positions_ok ap" "0 \<le> n" "n \<le> availableBytes ap"
  shows "content (ap\<lparr>readPosition := readPosition ap + n\<rparr>) = drop (nat n) (content ap)"
proof -
  have "nat (readPosition ap + n) = nat n + nat (readPosition ap)"
    using assms by (auto simp: positions_ok_def)
  moreover have "nat (writePosition ap - (readPosition ap + n)) = nat (writePosition ap - readPosition ap) - nat n"
    using assms by (simp add: nat_diff_distrib' ba_defs flip: diff_diff_add)
  ultimately show ?thesis
    by (simp add: content_def ba_defs drop_take)
qed

lemma content_adjust:
  assumes "positions_ok ap" "0 \<le> n" "n \<le> availableBytes ap"
  shows "content (adjustReadPosition n ap) = drop (nat n) (content ap)"
  unfolding content_advance [OF assms, symmetric] by (simp add: content_def adjustReadPosition_def Let_def ba_defs)

lemma load_content:
  assumes "positions_ok ap" "0 \<le> n" "n \<le> availableBytes ap"
  shows "load (readPosition ap) n ap = Ok (take (nat n) (content ap))"
proof -
  have "min (nat n) (nat (availableBytes ap)) = nat n" using assms by auto
  then show ?thesis
    using assms by (auto simp: load_def content_def positions_ok_def ba_defs)
qed

lemma fetch_content:
  "\<lbrakk>positions_ok ap; 0 \<le> n; n \<le> availableBytes ap\<rbrakk>
   \<Longrightarrow> fetch n conv ap = (Ok (conv (take (nat n) (content ap))), adjustReadPosition n ap)"
  by (simp add: fetch_def load_content)

section \<open>Writing into the room that was made\<close>

definition appended :: "u8 list \<Rightarrow> bytearray \<Rightarrow> bytearray" where
  "appended bs ap = ap\<lparr>bytes := write_block (bytes ap) (nat (writePosition ap)) bs,
     writePosition := writePosition ap + int (length bs)\<rparr>"

lemma put_bytes_appended:
  "\<lbrakk>positions_ok ap; int (length bs) \<le> room ap\<rbrakk>
   \<Longrightarrow> put_bytes bs ap = (Ok (int (length bs)), appended bs ap)"
  by (cases "bs = []") (auto simp: put_bytes_def store_def appended_def advance_def positions_ok_def ba_defs)

lemma appended_fits: "\<lbrakk>positions_ok ap; int (length bs) \<le> room ap\<rbrakk>
   \<Longrightarrow> nat (writePosition ap) + length bs \<le> length (bytes ap)"
  by (auto simp: positions_ok_def ba_defs)

lemma positions_ok_appended [wf_intros]:
  "\<lbrakk>positions_ok ap; int (length bs) \<le> room ap\<rbrakk> \<Longrightarrow> positions_ok (appended bs ap)"
  using appended_fits [of ap bs] by (auto simp: positions_ok_def appended_def ba_defs)

lemma content_appended:
  assumes "positions_ok ap" "int (length bs) \<le> room ap"
  shows "content (appended bs ap) = content ap @ bs"
proof -
  let ?r = "nat (readPosition ap)" and ?w = "nat (writePosition ap)"
  have fits: "?w + length bs \<le> length (bytes ap)" using assms by (rule appended_fits)
  have rw: "?r \<le> ?w" using assms by (auto simp: positions_ok_def)
  have c: "content (appended bs ap) = take (?w + length bs - ?r) (drop ?r (write_block (bytes ap) ?w bs))"
    using assms by (auto simp: content_def appended_def positions_ok_def ba_defs nat_diff_distrib nat_add_distrib)
  have d: "content ap = take (?w - ?r) (drop ?r (bytes ap))"
    using assms by (auto simp: content_def positions_ok_def ba_defs nat_diff_distrib)
  show ?thesis
    using rw fits by (simp add: c d take_drop_split drop_append)
qed

lemma appended_settings [simp]:
  "swap (appended bs ap) = swap ap" "resizable (appended bs ap) = resizable ap"
  "emitter (appended bs ap) = emitter ap" "growInc (appended bs ap) = growInc ap"
  by (simp_all add: appended_def)

section \<open>Growth\<close>

lemma ejsGrowByteArray_fits: "len \<le> sz ap \<Longrightarrow> ejsGrowByteArray len ap = (Ok (sz ap), ap)"
  by (simp add: ejsGrowByteArray_def)

lemma ejsGrowByteArray_grows:
  assumes "positions_ok ap" "resizable ap" "sz ap < len"
  obtains ap' where "ejsGrowByteArray len ap = (Ok len, ap')" "positions_ok ap'" "content ap' = content ap"
    "sz ap' = len" "readPosition ap' = readPosition ap" "writePosition ap' = writePosition ap"
    "swap ap' = swap ap" "resizable ap'" "emitter ap' = emitter ap"
    "bytes ap' = bytes ap @ replicate (nat (len - sz ap)) 0"
proof
  let ?ap = "ap\<lparr>bytes := bytes ap @ replicate (nat (len - sz ap)) 0, growInc := min (growInc ap * 2) (32 * 1024)\<rparr>"
  show "ejsGrowByteArray len ap = (Ok len, ?ap)" using assms by (simp add: ejsGrowByteArray_def)
  show "positions_ok ?ap" using assms by (auto simp: positions_ok_def ba_defs)
  show "content ?ap = content ap" using assms by (auto simp: content_def positions_ok_def ba_defs)
qed (use assms in \<open>auto simp: ba_defs\<close>)

text \<open>A private array: nobody observes it, so that making room only grows it.\<close>

lemma make_room_private:
  assumes "positions_ok ap" "resizable ap" "\<not> emitter ap"
  obtains ap' where "ejsMakeRoomInByteArray ob n ap = (Ok (), ap')" "positions_ok ap'" "content ap' = content ap"
    "n \<le> room ap'" "swap ap' = swap ap" "resizable ap'" "\<not> emitter ap'" "writePosition ap' = writePosition ap"
proof (cases "room ap < n")
  case True
  have lt: "sz ap < max (sz ap + n) (sz ap + growInc ap)"
    using True room_nonneg [OF assms(1)] by simp
  obtain ap' where g: "ejsGrowByteArray (max (sz ap + n) (sz ap + growInc ap)) ap
        = (Ok (max (sz ap + n) (sz ap + growInc ap)), ap')"
      "positions_ok ap'" "content ap' = content ap" "sz ap' = max (sz ap + n) (sz ap + growInc ap)"
      "writePosition ap' = writePosition ap" "swap ap' = swap ap" "resizable ap'" "emitter ap' = emitter ap"
    using ejsGrowByteArray_grows [OF assms(1,2) lt] by metis
  have "n \<le> room ap'" using g(4,5) assms(1) by (auto simp: room_def positions_ok_def)
  moreover have "ejsMakeRoomInByteArray ob n ap = (Ok (), ap')"
    using True g(1) assms(3) by (simp add: ejsMakeRoomInByteArray_def sendEvent_def andthen_def)
  ultimately show thesis using that g assms(3) by simp
next
  case False
  then have "ejsMakeRoomInByteArray ob n ap = (Ok (), ap)" by (simp add: ejsMakeRoomInByteArray_def)
  then show thesis using that False assms by simp
qed

section \<open>Bytes of a word\<close>

lemma length_le_bytes [simp]: "length (le_bytes n a) = n"
  by (induction n arbitrary: a) auto

lemma bit_le_word_le_bytes:
  fixes a :: "'a :: len word"
  shows "bit (le_word (le_bytes n a) :: 'b :: len word) i \<longleftrightarrow> bit a i \<and> i < 8 * n \<and> i < LENGTH('b)"
proof (induction n arbitrary: a i)
  case (Suc n)
  have "bit a i \<Longrightarrow> i < LENGTH('a)" by (rule bit_imp_le_length)
  then show ?case
    by (cases "i < 8") (auto simp: bit_or_iff bit_push_bit_iff bit_unsigned_iff Suc bit_drop_bit_eq)
qed simp

lemma le_word_le_bytes:
  fixes a :: "'a :: len word"
  assumes "LENGTH('a) \<le> 8 * n"
  shows "le_word (le_bytes n a) = a"
  using assms by (auto intro!: bit_word_eqI simp: bit_le_word_le_bytes)

section \<open>An abstract queue\<close>

text \<open>
  The contract of a stream of items: a writer appends the bytes of an item, a reader takes an item
  off the front, or yields nothing when there is no data, and a tidying call keeps the data.
\<close>

datatype 'v call = Put 'v | Get | Tidy

fun run_calls :: "('v \<Rightarrow> ('s, unit) op) \<Rightarrow> ('s, 'v option) op \<Rightarrow> ('s, unit) op \<Rightarrow> 'v call list
    \<Rightarrow> ('s, 'v option list) op" where
  "run_calls put get tidy [] = ret []"
| "run_calls put get tidy (Put v # cs) = andthen (put v) (\<lambda>_. run_calls put get tidy cs)"
| "run_calls put get tidy (Get # cs) =
     andthen get (\<lambda>v. andthen (run_calls put get tidy cs) (\<lambda>vs. ret (v # vs)))"
| "run_calls put get tidy (Tidy # cs) = andthen tidy (\<lambda>_. run_calls put get tidy cs)"

fun queue_calls :: "'v call list \<Rightarrow> 'v list \<Rightarrow> 'v option list" where
  "queue_calls [] q = []"
| "queue_calls (Put v # cs) q = queue_calls cs (q @ [v])"
| "queue_calls (Get # cs) [] = None # queue_calls cs []"
| "queue_calls (Get # cs) (v # q) = Some v # queue_calls cs q"
| "queue_calls (Tidy # cs) q = queue_calls cs q"

locale item_stream =
  fixes put :: "'v \<Rightarrow> 's \<Rightarrow> unit res \<times> 's"
    and get :: "'s \<Rightarrow> 'v option res \<times> 's"
    and tidy :: "'s \<Rightarrow> unit res \<times> 's"
    and data :: "'s \<Rightarrow> u8 list"
    and ready :: "'s \<Rightarrow> bool"
    and enc :: "'v \<Rightarrow> u8 list"
  assumes put_law: "ready s \<Longrightarrow> \<exists>s'. put v s = (Ok (), s') \<and> ready s' \<and> data s' = data s @ enc v"
    and get_law: "\<lbrakk>ready s; data s = enc v @ rest\<rbrakk>
      \<Longrightarrow> \<exists>s'. get s = (Ok (Some v), s') \<and> ready s' \<and> data s' = rest"
    and get_end: "\<lbrakk>ready s; data s = []\<rbrakk> \<Longrightarrow> \<exists>s'. get s = (Ok None, s') \<and> ready s' \<and> data s' = []"
    and tidy_law: "ready s \<Longrightarrow> \<exists>s'. tidy s = (Ok (), s') \<and> ready s' \<and> data s' = data s"
begin

text \<open>Whatever the interleaving of the calls, the readers see what the queue of items yields.\<close>

lemma fifo:
  "\<lbrakk>ready s; data s = concat (map enc q)\<rbrakk>
   \<Longrightarrow> \<exists>s'. run_calls put get tidy cs s = (Ok (queue_calls cs q), s')"
proof (induction cs q arbitrary: s rule: queue_calls.induct)
  case (2 v cs q)
  then show ?case using put_law [of s v] by (fastforce simp: andthen_def)
next
  case (3 cs)
  then show ?case using get_end [of s] by (fastforce simp: andthen_def)
next
  case (4 cs v q)
  then show ?case using get_law [of s v] by (fastforce simp: andthen_def)
next
  case (5 cs q)
  then show ?case using tidy_law [of s] by (fastforce simp: andthen_def)
qed simp

end

section \<open>Byte arrays as streams\<close>

text \<open>An array that grows, that nobody observes, and whose byte order is that of the host or not.\<close>

definition stream_of :: "bool \<Rightarrow> bytearray \<Rightarrow> bool" where
  "stream_of b ap \<longleftrightarrow> positions_ok ap \<and> resizable ap \<and> \<not> emitter ap \<and> swap ap = b"

abbreviation private_stream :: "bytearray \<Rightarrow> bool" where
  "private_stream \<equiv> stream_of False"

lemma write_private:
  assumes "stream_of b ap" "int (length bs) \<le> n"
    and put: "\<And>ap. swap ap = b \<Longrightarrow> put ap = put_bytes bs ap"
  shows "\<exists>ap'. ba_write1 ob n put ap = (Ok (), ap') \<and> stream_of b ap' \<and> content ap' = content ap @ bs"
proof -
  have ap: "positions_ok ap" "resizable ap" "\<not> emitter ap" "swap ap = b"
    using assms(1) by (auto simp: stream_of_def)
  obtain ap1 where m: "ejsMakeRoomInByteArray ob n ap = (Ok (), ap1)" "positions_ok ap1"
      "content ap1 = content ap" "n \<le> room ap1" "swap ap1 = swap ap" "resizable ap1" "\<not> emitter ap1"
    using make_room_private [OF ap(1-3)] by metis
  have fit: "int (length bs) \<le> room ap1" using m(4) assms(2) by simp
  have p: "put ap1 = (Ok (int (length bs)), appended bs ap1)"
    using put_bytes_appended [OF m(2) fit] put m(5) ap(4) by simp
  have "ba_write1 ob n put ap = (Ok (), appended bs ap1)"
    using m(1,7) p by (simp add: ba_write1_def andthen_def sendEvent_def)
  moreover have "stream_of b (appended bs ap1)"
    using m ap(4) positions_ok_appended [OF m(2) fit] by (simp add: stream_of_def)
  ultimately show ?thesis using content_appended [OF m(2) fit] m(3) by simp
qed

lemma getInput_private:
  assumes "stream_of b ap"
  shows "getInput ob n ap =
    (Ok (if availableBytes ap < n then 0 else availableBytes ap), reset_if_empty ap)"
  using assms by (auto simp: getInput_def Let_def sendEvent_def stream_of_def reset_if_empty_def ba_defs)

lemma private_reset [simp]: "stream_of b ap \<Longrightarrow> stream_of b (reset_if_empty ap)"
  by (auto simp: stream_of_def reset_if_empty_def positions_ok_reset positions_ok_def ba_defs)

lemma private_adjust:
  "\<lbrakk>stream_of b ap; 0 \<le> n; n \<le> availableBytes ap\<rbrakk> \<Longrightarrow> stream_of b (adjustReadPosition n ap)"
  using positions_ok_adjust [of ap n] by (auto simp: stream_of_def adjustReadPosition_def Let_def)

lemma available_reset [simp]: "availableBytes (reset_if_empty ap) = availableBytes ap"
  by (simp add: reset_if_empty_def ba_defs)

lemma private_positions: "stream_of b ap \<Longrightarrow> positions_ok ap"
  by (simp add: stream_of_def)

lemma fetch_private:
  assumes "stream_of b ap" "0 < length bs" "content ap = bs @ rest" "int (length bs) = n"
  shows "\<exists>ap'. fetch n conv (reset_if_empty ap) = (Ok (conv bs), ap') \<and> stream_of b ap' \<and> content ap' = rest"
proof -
  let ?ap = "reset_if_empty ap"
  have p: "stream_of b ?ap" using assms(1) by simp
  have n: "0 \<le> n" "n \<le> availableBytes ?ap" "nat n = length bs"
    using assms available_content [OF private_positions [OF p]] by auto
  show ?thesis
    using fetch_content [OF private_positions [OF p] n(1,2), where conv = conv] private_adjust [OF p n(1,2)]
      content_adjust [OF private_positions [OF p] n(1,2)] n(3) assms(3) by simp
qed

lemma available_of_content: "stream_of b ap \<Longrightarrow> content ap = bs @ rest
   \<Longrightarrow> int (length bs) \<le> availableBytes ap"
  using available_content [OF private_positions] by simp

lemma no_data: "stream_of b ap \<Longrightarrow> content ap = [] \<Longrightarrow> availableBytes ap = 0"
  using available_content [OF private_positions] by simp

text \<open>The readers of whole items: one that finds its bytes, and one that finds none.\<close>

lemma read_whole_item:
  assumes "stream_of b ap" "content ap = bs @ rest" "0 < n" "int (length bs) = n"
    and "\<And>ap. swap ap = b \<Longrightarrow> conv ap bs = v"
  shows "\<exists>ap'. read_whole ob n conv ap = (Ok (Some v), ap') \<and> stream_of b ap' \<and> content ap' = rest"
proof -
  have a: "n \<le> availableBytes ap" using available_of_content [OF assms(1,2)] assms(4) by simp
  have s: "swap (reset_if_empty ap) = b" using assms(1) by (simp add: stream_of_def reset_if_empty_def)
  have l: "0 < length bs" using assms(3,4) by auto
  show ?thesis
    using fetch_private [OF assms(1) l assms(2,4), where conv = "\<lambda>bs. Some (conv (reset_if_empty ap) bs)"]
      a assms(3) assms(5) [OF s]
    by (auto simp: read_whole_def getInput_private [OF assms(1)] andthen_def)
qed

lemma read_whole_end:
  assumes "stream_of b ap" "0 < n" "content ap = []"
  shows "read_whole ob n conv ap = (Ok None, reset_if_empty ap)"
  using no_data [OF assms(1,3)] assms(2)
  by (simp add: read_whole_def getInput_private [OF assms(1)] andthen_def)

lemma compact_private:
  assumes "stream_of b ap"
  shows "\<exists>ap'. ba_compact ap = (Ok (), ap') \<and> stream_of b ap' \<and> content ap' = content ap"
proof -
  have ok: "positions_ok ap" using assms by (rule private_positions)
  let ?n = "availableBytes ap"
  consider "writePosition ap = readPosition ap" | "?n > 0" "readPosition ap \<le> 0" | "?n > 0" "0 < readPosition ap"
    using ok by (fastforce simp: positions_ok_def ba_defs)
  then show ?thesis
  proof cases
    case 1
    then show ?thesis using assms ok
      by (simp add: ba_compact_def stream_of_def positions_ok_def content_def ba_defs)
  next
    case 2
    then show ?thesis using assms by (simp add: ba_compact_def ba_defs)
  next
    case 3
    let ?bs = "content ap"
    have l: "load (readPosition ap) ?n ap = Ok ?bs"
      using load_content [OF ok, of ?n] 3 length_content [OF ok] by simp
    have fit: "length ?bs \<le> length (bytes ap)" "?bs \<noteq> []" "int (length ?bs) = ?n"
      using 3 ok length_content [OF ok] by (auto simp: positions_ok_def ba_defs)
    have "store 0 ?bs ap = Ok (ap\<lparr>bytes := write_block (bytes ap) 0 ?bs\<rparr>)"
      using fit by (simp add: store_def ba_defs)
    then have c: "ba_compact ap = (Ok (), ap\<lparr>bytes := write_block (bytes ap) 0 ?bs, readPosition := 0,
        writePosition := ?n\<rparr>)" (is "_ = (_, ?ap)")
      using 3 l by (auto simp: ba_compact_def ba_defs)
    have "stream_of b ?ap" using assms fit 3 ok
      by (auto simp: stream_of_def positions_ok_def ba_defs)
    moreover have "content ?ap = ?bs" using fit take_write_block [of 0 ?bs "bytes ap"]
      by (simp add: content_def ba_defs flip: fit(3))
    ultimately show ?thesis using c by simp
  qed
qed

interpretation integers: item_stream "ba_writeInteger ob" "ba_readInteger ob" ba_compact content private_stream
  "le_bytes 4" for ob
proof (unfold_locales, goal_cases)
  case (1 s v)
  then show ?case
    using write_private [of False s "le_bytes 4 v" 4 "putInteger v"]
    by (simp add: ba_writeInteger_def putInteger_def swap32_def)
next
  case (2 s v rest)
  then show ?case unfolding ba_readInteger_def
    by (rule read_whole_item) (simp_all add: swap32_def le_word_le_bytes)
next
  case (3 s)
  then show ?case by (simp add: ba_readInteger_def read_whole_end)
next
  case (4 s)
  then show ?case by (rule compact_private)
qed

interpretation doubles: item_stream "ba_writeDouble toi tod ob" "ba_readDouble toi tod ob" ba_compact content
  private_stream "le_bytes 8" for toi tod ob
proof (unfold_locales, goal_cases)
  case (1 s v)
  then show ?case
    using write_private [of False s "le_bytes 8 v" 8 "putDouble toi tod v"]
    by (simp add: ba_writeDouble_def putDouble_def swapDouble_def)
next
  case (2 s v rest)
  then show ?case unfolding ba_readDouble_def
    by (rule read_whole_item) (simp_all add: swapDouble_def le_word_le_bytes)
next
  case (3 s)
  then show ?case by (simp add: ba_readDouble_def read_whole_end)
next
  case (4 s)
  then show ?case by (rule compact_private)
qed

text \<open>A short is read back as its sign extension; only its low 16 bits are written.\<close>

lemma scast_le_word_short: "scast (le_word (le_bytes 2 (scast v :: u32)) :: 16 word) = (scast v :: u32)"
  for v :: "16 word"
proof -
  have "le_word (le_bytes 2 (scast v :: u32)) = v"
    by (rule bit_word_eqI) (auto simp: bit_le_word_le_bytes bit_signed_iff bit_simps)
  then show ?thesis by simp
qed

lemma readShort_item:
  assumes "private_stream ap" "content ap = le_bytes 2 (scast v :: u32) @ rest"
  shows "\<exists>ap'. ba_readShort ob ap = (Ok (Some (scast (v :: 16 word))), ap') \<and> private_stream ap' \<and> content ap' = rest"
proof -
  have a: "2 \<le> availableBytes ap" using available_of_content [OF assms] by simp
  have s: "\<not> swap (reset_if_empty ap)" using assms(1) by (simp add: stream_of_def reset_if_empty_def)
  have c: "Some (swap16 (reset_if_empty ap) (scast (le_word (le_bytes 2 (scast v :: u32)) :: 16 word))) = Some (scast v)"
    using s by (simp add: swap16_def scast_le_word_short)
  show ?thesis
    using fetch_private [OF assms(1) _ assms(2), of 2
        "\<lambda>bs. Some (swap16 (reset_if_empty ap) (scast (le_word bs :: 16 word)))"] a c
    by (auto simp: ba_readShort_def getInput_private [OF assms(1)] andthen_def)
qed

text \<open>The stream of the shorts, with the conversions of a script number to 16 bits and back.\<close>

definition put_short :: "observers \<Rightarrow> 16 word \<Rightarrow> (bytearray, unit) op" where
  "put_short ob v = ba_writeShort ob (scast v)"

definition get_short :: "observers \<Rightarrow> (bytearray, 16 word option) op" where
  "get_short ob = andthen (ba_readShort ob) (\<lambda>r. ret (map_option ucast r))"

lemma ucast_scast_short: "ucast (scast v :: u32) = v" for v :: "16 word"
  by (rule bit_word_eqI) (auto simp: bit_simps)

interpretation shorts: item_stream "put_short ob" "get_short ob" ba_compact content private_stream
  "\<lambda>v. le_bytes 2 (scast v :: u32)" for ob
proof (unfold_locales, goal_cases)
  case (1 s v)
  then show ?case
    using write_private [of False s "le_bytes 2 (scast v :: u32)" 2 "putShort (scast v)"]
    by (simp add: put_short_def ba_writeShort_def putShort_def swap16_def)
next
  case (2 s v rest)
  then show ?case using readShort_item [of s v rest ob] by (auto simp: get_short_def andthen_def ucast_scast_short)
next
  case (3 s)
  then show ?case
    using no_data [OF 3] by (simp add: get_short_def ba_readShort_def getInput_private [OF 3(1)] andthen_def)
next
  case (4 s)
  then show ?case by (rule compact_private)
qed

interpretation octets: item_stream "\<lambda>v. ba_writeByte ob (ucast v)" "ba_readByte ob" ba_compact content
  private_stream "\<lambda>v. [v]" for ob
proof (unfold_locales, goal_cases)
  case (1 s v)
  then show ?case
    using write_private [of False s "[v]" 1 "putByte (ucast v)"]
    by (simp add: ba_writeByte_def putByte_def ucast_up_ucast_id is_up)
next
  case (2 s v rest)
  have a: "1 \<le> availableBytes s" using available_of_content [OF 2] by simp
  show ?case
    using fetch_private [OF 2(1) _ 2(2), of 1 "\<lambda>bs. Some (hd bs)"] a
    by (auto simp: ba_readByte_def getInput_private [OF 2(1)] andthen_def)
next
  case (3 s)
  then show ?case
    using no_data [OF 3] by (simp add: ba_readByte_def getInput_private [OF 3(1)] andthen_def)
next
  case (4 s)
  then show ?case by (rule compact_private)
qed

section \<open>The other byte order\<close>

lemma byte_masks:
  "(0xFF :: u32) = mask 8" "(0xFF00 :: u32) = push_bit 8 (mask 8)" "(0xFF0000 :: u32) = push_bit 16 (mask 8)"
  "(0xFF000000 :: u32) = push_bit 24 (mask 8)" "(0xFFFF00 :: u32) = push_bit 8 (mask 16)"
  by (simp_all add: mask_numeral)

lemma bit_swap_word:
  "bit (swap_word v) n \<longleftrightarrow> (if 24 \<le> n then bit v (n - 24) \<and> n < 32 else 8 \<le> n \<and> bit v n)" for v :: u32
  unfolding swap_word_def byte_masks
  by (auto simp: bit_or_iff bit_and_iff bit_push_bit_iff bit_drop_bit_eq bit_mask_iff)

lemma swap_word_twice: "swap_word (swap_word v) = v AND 0xFFFF00" for v :: u32
  unfolding byte_masks
  by (rule bit_word_eqI) (auto simp: bit_swap_word bit_and_iff bit_push_bit_iff bit_mask_iff)

lemma order_free_write_read:
  assumes "stream_of b ap" "content ap = []" "length bs = n" "0 < n"
    and "\<And>ap. swap ap = b \<Longrightarrow> put ap = put_bytes bs ap"
    and "\<And>ap. swap ap = b \<Longrightarrow> conv ap bs = v"
  shows "fst (andthen (ba_write1 ob (int n) put) (\<lambda>_. read_whole ob (int n) conv) ap) = Ok (Some v)"
proof -
  obtain ap1 where w: "ba_write1 ob (int n) put ap = (Ok (), ap1)" "stream_of b ap1" "content ap1 = bs @ []"
    using write_private [OF assms(1) _ assms(5), of "int n"] assms(2,3) by auto
  show ?thesis
    using read_whole_item [OF w(2,3), of "int n" conv v ob] assms(3,4,6) w(1) by (auto simp: andthen_def)
qed

section \<open>Properties\<close>

text \<open>
  C14: A byte array that grows, that nobody observes and that has the byte order of the host is a
  first-in first-out queue of integers, of doubles, of shorts and of bytes: however writes, reads and
  \<open>compact\<close> calls are interleaved, and however often the array grows meanwhile, every read yields the
  oldest item that was not read yet, or null when there is none, and no call throws or leaves the buffer.
\<close>

theorem byte_array_is_fifo:
  assumes "private_stream ap" "content ap = []"
  shows "fst (run_calls (ba_writeInteger ob) (ba_readInteger ob) ba_compact cs ap) = Ok (queue_calls cs [])
    \<and> fst (run_calls (ba_writeDouble toi tod ob) (ba_readDouble toi tod ob) ba_compact ds ap) = Ok (queue_calls ds [])
    \<and> fst (run_calls (put_short ob) (get_short ob) ba_compact ss ap) = Ok (queue_calls ss [])
    \<and> fst (run_calls (\<lambda>v. ba_writeByte ob (ucast v)) (ba_readByte ob) ba_compact bs ap) = Ok (queue_calls bs [])"
  using integers.fifo [of ap "[]" ob cs] doubles.fifo [of ap "[]" toi tod ob ds] shorts.fifo [of ap "[]" ob ss]
    octets.fifo [of ap "[]" ob bs] assms
  by auto

definition small_array :: bytearray where
  "small_array = blank_array\<lparr>bytes := [0, 0, 0], resizable := True, growInc := 2\<rparr>"

theorem byte_array_is_fifo_witness:
  "fst (run_calls (ba_writeInteger (\<lambda>_. id)) (ba_readInteger (\<lambda>_. id)) ba_compact
     [Put 70000, Put 5, Get, Tidy, Put 6, Get, Get, Get] small_array)
   = Ok [Some 70000, Some 5, Some 6, None]"
proof -
  have "private_stream small_array" "content small_array = []"
    by (simp_all add: stream_of_def positions_ok_def small_array_def blank_array_def content_def ba_defs)
  from byte_array_is_fifo [OF this, of "\<lambda>_. id" "[Put 70000, Put 5, Get, Tidy, Put 6, Get, Get, Get]" id id "[]" "[]" "[]"]
  show ?thesis by simp
qed

text \<open>
  In the byte order that is not that of the host, an integer does not survive being written and read
  back: \<open>swap32\<close> binds its masks to the shifted constants, so that only the two middle bytes are left
  and the first and last byte are lost.
\<close>

lemma swapped_integer_loses_outer_bytes:
  assumes "stream_of True ap" "content ap = []"
  shows "fst (andthen (ba_writeInteger ob v) (\<lambda>_. ba_readInteger ob) ap) = Ok (Some (v AND 0xFFFF00))"
  unfolding ba_writeInteger_def ba_readInteger_def
  using order_free_write_read [OF assms, of "le_bytes 4 (swap_word v)" 4 "putInteger v"
      "\<lambda>ap bs. swap32 ap (le_word bs)" "v AND 0xFFFF00" ob]
  by (simp add: putInteger_def swap32_def le_word_le_bytes swap_word_twice)

theorem swapped_integer_loses_outer_bytes_witness:
  "fst (andthen (ba_writeInteger (\<lambda>_. id) 0x12345678) (\<lambda>_. ba_readInteger (\<lambda>_. id)) (small_array\<lparr>swap := True\<rparr>))
   = Ok (Some 0x345600)"
proof -
  have "stream_of True (small_array\<lparr>swap := True\<rparr>)" "content (small_array\<lparr>swap := True\<rparr>) = []"
    by (simp_all add: stream_of_def positions_ok_def small_array_def blank_array_def content_def ba_defs)
  from swapped_integer_loses_outer_bytes [OF this, of "\<lambda>_. id" "0x12345678"] show ?thesis by simp
qed

text \<open>
  C16: \<open>writeLong\<close> makes room for four bytes and stores eight: with four to seven bytes of room left the
  store leaves the buffer, whether the array can grow or not.
\<close>

theorem writeLong_overruns:
  assumes "positions_ok ap" "4 \<le> room ap" "room ap < 8"
  shows "fst (ba_writeLong ob v ap) = Fault"
proof -
  have "ejsMakeRoomInByteArray ob 4 ap = (Ok (), ap)" using assms(2) by (simp add: ejsMakeRoomInByteArray_def)
  moreover have "putLong (scast v) ap = (Fault, ap)"
    using assms by (auto simp: putLong_def put_bytes_def store_def ba_defs simp flip: length_greater_0_conv)
  ultimately show ?thesis by (simp add: ba_writeLong_def ba_write1_def andthen_def)
qed

theorem writeLong_overruns_witness:
  "fst (ba_writeLong (\<lambda>_. id) 1 (blank_array\<lparr>bytes := [0, 0, 0, 0], resizable := True\<rparr>)) = Fault"
  by (rule writeLong_overruns) (simp_all add: positions_ok_def blank_array_def ba_defs)

text \<open>
  \<open>copyIn\<close> compares the end of the copy with the size of the source, not of the destination. Copying
  a whole array to any offset but the first throws, although room for the data was made.
\<close>

lemma copyIn_beyond_source_throws:
  assumes "0 < destOffset" "0 < sz src" "sz src \<le> MAXINT32"
  shows "fst (ba_copyIn ob destOffset src None None ap) = Throw OutOfBoundsError"
  using assms by (simp add: ba_copyIn_def copyIn_count_def split_beta Let_def)

theorem copyIn_beyond_source_throws_witness:
  "fst (ba_copyIn (\<lambda>_. id) 1 (blank_array\<lparr>bytes := [7, 8]\<rparr>) None None (blank_array\<lparr>bytes := replicate 9 0\<rparr>))
   = Throw OutOfBoundsError"
  by (rule copyIn_beyond_source_throws) (simp_all add: blank_array_def sz_def MAXINT32_def)

section \<open>The calls of a script on one array\<close>








text \<open>An outcome that leaves the array well formed, and no access outside the buffer.\<close>

fun safe :: "'a res \<times> bytearray \<Rightarrow> bool" where
  "safe (Fault, ap) = False"
| "safe (r, ap) = positions_ok ap"


lemma safe_Ok [simp]: "safe (Ok x, ap) = positions_ok ap" by simp




















section \<open>Reading safely\<close>








section \<open>Every call keeps the positions\<close>







lemma positions_ok_resizable [simp]: "positions_ok (ap\<lparr>resizable := r\<rparr>) = positions_ok ap"
  by (simp add: positions_ok_def ba_defs)






section \<open>Writing many values\<close>

text \<open>The bytes of a value in an array that has the byte order of the host.\<close>

fun encoded :: "(u64 \<Rightarrow> u64) \<Rightarrow> warg option \<Rightarrow> u8 list" where
  "encoded tod (Some (WBool b)) = [if b then 1 else 0]"
| "encoded tod (Some (WDate t)) = le_bytes 8 (tod t)"
| "encoded tod (Some (WNumber d)) = le_bytes 8 d"
| "encoded tod (Some (WString s)) = map byte_of s"
| "encoded tod (Some (WBytes bs)) = bs"
| "encoded tod _ = []"

fun primitive :: "warg option \<Rightarrow> bool" where
  "primitive (Some (WArray xs s)) = False"
| "primitive (Some (WOther s)) = False"
| "primitive _ = True"

lemma make_room_stream:
  assumes "stream_of b ap"
  obtains ap' where "ejsMakeRoomInByteArray ob n ap = (Ok (), ap')" "stream_of b ap'" "content ap' = content ap"
    "n \<le> room ap'" "writePosition ap' = writePosition ap"
proof -
  have ap: "positions_ok ap" "resizable ap" "\<not> emitter ap" "swap ap = b" using assms by (auto simp: stream_of_def)
  obtain ap' where m: "ejsMakeRoomInByteArray ob n ap = (Ok (), ap')" "positions_ok ap'" "content ap' = content ap"
      "n \<le> room ap'" "swap ap' = swap ap" "resizable ap'" "\<not> emitter ap'" "writePosition ap' = writePosition ap"
    using make_room_private [OF ap(1-3), of ob n] by metis
  show thesis by (rule that [of ap']) (simp_all add: m stream_of_def ap(4))
qed

lemma make_room_then_append:
  assumes "private_stream ap" "int (length bs) \<le> n"
    and put: "\<And>ap. \<lbrakk>private_stream ap; n \<le> room ap\<rbrakk> \<Longrightarrow> f ap = put_bytes bs ap"
  shows "\<exists>ap'. andthen (ejsMakeRoomInByteArray ob n) (\<lambda>_. andthen f (\<lambda>k. ret (k, None))) ap
      = (Ok (int (length bs), None), ap') \<and> private_stream ap' \<and> content ap' = content ap @ bs"
proof -
  obtain ap1 where m: "ejsMakeRoomInByteArray ob n ap = (Ok (), ap1)" "private_stream ap1"
      "content ap1 = content ap" "n \<le> room ap1"
    by (rule make_room_stream [OF assms(1), of ob n])
  have fit: "int (length bs) \<le> room ap1" using m(4) assms(2) by simp
  note p = private_positions [OF m(2)]
  have "private_stream (appended bs ap1)"
    using m(2) positions_ok_appended [OF p fit] by (simp add: stream_of_def)
  then show ?thesis
    using m put [OF m(2,4)] put_bytes_appended [OF p fit] content_appended [OF p fit] by (simp add: andthen_def)
qed

lemma write_bytes_private:
  assumes "private_stream ap"
  shows "\<exists>ap'. write_value toi tod ob (WBytes bs) ap = (Ok (int (length bs), None), ap')
    \<and> private_stream ap' \<and> content ap' = content ap @ bs"
proof -
  obtain ap1 where m: "ejsMakeRoomInByteArray ob (int (length bs)) ap = (Ok (), ap1)" "private_stream ap1"
      "content ap1 = content ap"
    by (rule make_room_stream [OF assms, of ob "int (length bs)"])
  let ?n = "writePosition ap1 + int (length bs)"
  obtain ap2 where n: "ejsMakeRoomInByteArray ob ?n ap1 = (Ok (), ap2)" "private_stream ap2"
      "content ap2 = content ap1" "?n \<le> room ap2" "writePosition ap2 = writePosition ap1"
    by (rule make_room_stream [OF m(2), of ob ?n])
  note p = private_positions [OF n(2)]
  have w: "0 \<le> writePosition ap1" using private_positions [OF m(2)] by (simp add: positions_ok_def)
  have fit: "int (length bs) \<le> room ap2" using n(4) w by simp
  obtain ap3 where s: "store (writePosition ap2) bs ap2 = Ok ap3" "advance (int (length bs)) ap3 = appended bs ap2"
    using put_bytes_appended [OF p fit] by (auto simp: put_bytes_def split: res.splits)
  have "\<not> sz ap2 < ?n" using n(4,5) w by (simp add: room_def)
  then have "ejsCopyToByteArray ob (writePosition ap1) bs ap1 = (Ok (int (length bs)), ap3)"
    using n(1,5) s(1) w by (simp add: ejsCopyToByteArray_def Let_def andthen_def)
  then have "write_value toi tod ob (WBytes bs) ap = (Ok (int (length bs), None), appended bs ap2)"
    using m(1) s(2) by (simp add: andthen_def)
  moreover have "private_stream (appended bs ap2)"
    using n(2) positions_ok_appended [OF p fit] by (simp add: stream_of_def)
  ultimately show ?thesis using content_appended [OF p fit] n(3) m(3) by simp
qed

lemma write_value_appends:
  assumes "private_stream ap" "primitive (Some v)"
  shows "\<exists>ap'. write_value toi tod ob v ap = (Ok (int (length (encoded tod (Some v))), None), ap')
    \<and> private_stream ap' \<and> content ap' = content ap @ encoded tod (Some v)"
proof (cases v)
  case (WBool b)
  then show ?thesis
    using make_room_then_append [OF assms(1), of "[if b then 1 else 0]" 1 "putByte (if b then 1 else 0)" ob]
    by (cases b) (simp_all add: putByte_def)
next
  case (WDate t)
  then show ?thesis
    using make_room_then_append [OF assms(1), of "le_bytes 8 (tod t)" 8 "putNumber toi tod (tod t)" ob]
    by (simp add: putNumber_def putDouble_def swapDouble_def stream_of_def)
next
  case (WNumber d)
  then show ?thesis
    using make_room_then_append [OF assms(1), of "le_bytes 8 d" 8 "putNumber toi tod d" ob]
    by (simp add: putNumber_def putDouble_def swapDouble_def stream_of_def)
next
  case (WString s)
  then show ?thesis
    using make_room_then_append [OF assms(1), of "map byte_of s" "int (length s)" "putString s" ob]
    by (simp add: putString_def Let_def)
qed (use assms write_bytes_private in auto)

lemma write_values_append:
  "\<lbrakk>private_stream ap; list_all primitive vs\<rbrakk>
   \<Longrightarrow> \<exists>ap'. write_values toi tod ob n None vs ap
      = (Ok (n + int (length (concat (map (encoded tod) vs))), None), ap')
    \<and> private_stream ap' \<and> content ap' = content ap @ concat (map (encoded tod) vs)"
proof (induction vs arbitrary: ap n)
  case (Cons v vs)
  show ?case
  proof (cases v)
    case None
    then show ?thesis using Cons by simp
  next
    case (Some w)
    then obtain ap1 where "write_value toi tod ob w ap = (Ok (int (length (encoded tod v)), None), ap1)"
        "private_stream ap1" "content ap1 = content ap @ encoded tod v"
      using write_value_appends [OF Cons.prems(1), of w toi tod ob] Cons.prems(2) by auto
    then show ?thesis
      using Cons.IH [of ap1 "n + int (length (encoded tod v))"] Cons.prems(2) Some
      by (auto simp: andthen_def add.assoc)
  qed
qed simp

text \<open>
  \<open>write\<close> with booleans, numbers, dates, strings and byte arrays as its arguments, or in one array,
  appends the bytes of the arguments, in their order and whole, to the data of an array that can grow,
  and returns how many they are; null arguments are skipped.
\<close>

lemma write_appends_all:
  assumes "private_stream ap" "list_all primitive (unwrap_args args)"
  shows "\<exists>ap'. ejsWriteToByteArray toi tod ob args ap
      = (Ok (int (length (concat (map (encoded tod) (unwrap_args args))))), ap')
    \<and> content ap' = content ap @ concat (map (encoded tod) (unwrap_args args))"
proof -
  obtain ap' where "write_values toi tod ob 0 None (unwrap_args args) (reset_if_empty ap)
      = (Ok (int (length (concat (map (encoded tod) (unwrap_args args)))), None), ap')" "private_stream ap'"
      "content ap' = content ap @ concat (map (encoded tod) (unwrap_args args))"
    using write_values_append [of "reset_if_empty ap" "unwrap_args args" toi tod ob 0] assms by auto
  then show ?thesis
    by (simp add: ejsWriteToByteArray_def andthen_def sendEvent_def stream_of_def)
qed

theorem write_appends_all_witness:
  "\<exists>ap'. ejsWriteToByteArray id id (\<lambda>_. id) [Some (WArray [Some (WString ''ab''), None, Some (WBool True)] ''x'')] small_array
     = (Ok 3, ap') \<and> content ap' = [0x61, 0x62, 1]"
proof -
  have "private_stream small_array" "content small_array = []"
    by (simp_all add: stream_of_def positions_ok_def small_array_def blank_array_def content_def ba_defs)
  with write_appends_all [of small_array "[Some (WArray [Some (WString ''ab''), None, Some (WBool True)] ''x'')]" id id "\<lambda>_. id"]
  show ?thesis by (simp add: byte_of_def)
qed

text \<open>
  \<open>read\<close> into another array moves the oldest data there: as many bytes as there are, but no more than
  the size of that array, leave the data of the source and become the data of the destination.
\<close>

lemma read_moves_data:
  assumes "private_stream ap" "content ap \<noteq> []" "bytes buffer \<noteq> []"
  defines "n \<equiv> min (length (content ap)) (length (bytes buffer))"
  shows "\<exists>ap' buffer'. ba_read ob [] (ap, buffer) = (Ok (Some (int n)), ap', buffer')
    \<and> content ap' = drop n (content ap) \<and> content buffer' = take n (content ap)"
proof -
  note p = private_positions [OF assms(1)]
  have n: "n \<le> length (content ap)" "n \<le> length (bytes buffer)" "0 < n" using assms by simp_all
  have av: "availableBytes ap = int (length (content ap))" using available_content [OF p] .
  then have e: "reset_if_empty ap = ap" using assms(2) by (auto simp: reset_if_empty_def)
  have g: "getInput ob 1 ap = (Ok (int (length (content ap))), ap)"
    using getInput_private [OF assms(1), of ob 1] av e assms(2) by (auto simp: Suc_le_eq)
  have cnt: "min (availableBytes ap) (sz buffer) = int n" using av by (simp add: n_def sz_def)
  have l: "load (readPosition ap) (int n) ap = Ok (take n (content ap))"
    using load_content [OF p, of "int n"] n av by simp
  let ?b = "buffer\<lparr>readPosition := 0, writePosition := 0\<rparr>"
  let ?b' = "?b\<lparr>bytes := write_block (bytes buffer) 0 (take n (content ap))\<rparr>"
  have s: "store 0 (take n (content ap)) ?b = Ok ?b'"
    using n by (auto simp: store_def sz_def)
  let ?ap = "ap\<lparr>readPosition := readPosition ap + int n\<rparr>"
  have "ba_read ob [] (ap, buffer) = (Ok (Some (int n)), ?ap, advance (int n) ?b')"
    using g l s cnt assms(1-3) by (simp add: ba_read_def sz_def sendEvent_def stream_of_def Let_def)
  moreover have "content (advance (int n) ?b') = take n (content ap)"
    using n take_write_block [of 0 "take n (content ap)" "bytes buffer"] by (simp add: content_def advance_def ba_defs)
  moreover have "content ?ap = drop n (content ap)"
    using content_advance [OF p, of "int n"] n av by simp
  ultimately show ?thesis by blast
qed

theorem read_moves_data_witness:
  "\<exists>ap' buffer'. ba_read (\<lambda>_. id) [] (small_array\<lparr>bytes := [9, 8, 7], writePosition := 3\<rparr>,
       blank_array\<lparr>bytes := [0, 0]\<rparr>) = (Ok (Some 2), ap', buffer')
     \<and> content ap' = [7] \<and> content buffer' = [9, 8]"
proof -
  let ?ap = "small_array\<lparr>bytes := [9, 8, 7], writePosition := 3\<rparr>" and ?b = "blank_array\<lparr>bytes := [0, 0 :: u8]\<rparr>"
  have "private_stream ?ap" "content ?ap = [9, 8, 7]" "bytes ?b = [0, 0]"
    by (simp_all add: stream_of_def positions_ok_def small_array_def blank_array_def content_def ba_defs)
  with read_moves_data [of ?ap ?b "\<lambda>_. id"] show ?thesis by simp
qed

section \<open>Copies that go wrong\<close>

text \<open>The documented way to ask \<open>copyOut\<close> for all the data, a count of -1, copies nothing and yields -1.\<close>

lemma copyOut_minus_one:
  assumes "0 \<le> srcOffset" "srcOffset < sz ap" "positions_ok dest"
  shows "ba_copyOut ob srcOffset ap (Some 0) (Some (-1)) dest = (Ok (-1), dest)"
proof -
  have "ejsMakeRoomInByteArray ob (- 1) dest = (Ok (), dest)"
    using assms(3) by (simp add: ejsMakeRoomInByteArray_def positions_ok_def room_def)
  then show ?thesis using assms by (simp add: ba_copyOut_def load_def store_def sz_def)
qed

text \<open>Reading to an offset other than the first leaves the data beyond the write position.\<close>

lemma read_at_offset_misplaces:
  "ba_read ob [2] (small_array\<lparr>bytes := [9, 8, 7], writePosition := 2\<rparr>, blank_array\<lparr>bytes := [0, 0, 0, 0]\<rparr>)
   = (Ok (Some 2), small_array\<lparr>bytes := [9, 8, 7], readPosition := 2, writePosition := 2\<rparr>,
      blank_array\<lparr>bytes := [0, 0, 9, 8], writePosition := 2\<rparr>)"
  by (simp add: ba_read_def getInput_def reset_if_empty_def sendEvent_def small_array_def blank_array_def load_def
      store_def write_block_def advance_def ba_defs Let_def)

text \<open>
  A byte array of fixed size that is written to at all accepts no other byte array: the copy asks for the
  room of the data beyond an offset that it counts twice, throws, and the position moves over bytes that
  were not written.
\<close>

lemma write_bytes_to_fixed_array:
  "ejsWriteToByteArray toi tod ob [Some (WBytes [5])] (blank_array\<lparr>bytes := [1, 0], writePosition := 1\<rparr>)
   = (Throw ResourceError, blank_array\<lparr>bytes := [1, 0], writePosition := 2\<rparr>)"
  by (simp add: ejsWriteToByteArray_def reset_if_empty_def andthen_def ejsMakeRoomInByteArray_def sendEvent_def
      ejsGrowByteArray_def ejsCopyToByteArray_def blank_array_def advance_def ba_defs Let_def)

text \<open>Deleting the only element of an array of one byte leaves both positions below the buffer.\<close>

lemma delete_single_element_breaks_positions:
  "deleteByteArrayProperty 0 (blank_array\<lparr>bytes := [1], resizable := True\<rparr>)
   = (Ok (), blank_array\<lparr>bytes := [0], resizable := True, readPosition := -1, writePosition := -1\<rparr>)"
  by (simp add: deleteByteArrayProperty_def setByteArrayProperty_def andthen_def ejsGrowByteArray_def blank_array_def
      store_def write_block_def ba_defs Let_def)

end
