(* ===== verification/LocalCache.thy ===== *)
theory LocalCache
  imports NamedStore "HOL-Library.AList"
begin

text \<open>
  The in-memory cache of keys and values (\<open>src/src/core/src/ejsLocalCache.c\<close>): entries with an
  expiry and a version, memory accounting, limits, a pruner, and a cache shared between instances.

  The hash table of the vendored library is the association list of its entries; its keys are C strings,
  which end at the first NUL. Times are milliseconds; the time of a call is its parameter \<open>now\<close>. The lock
  of a cache is a recursive mutex: \<open>depth\<close> is how often the thread of the script holds it. The pruner
  runs on another thread. Options are given as the values that they are converted to.
\<close>

record citem =
  ikey :: string
  idata :: string
  iexpires :: int
  ilife :: int
  iversion :: int

record localcache =
  store :: "(string \<times> citem) list"
  depth :: nat
  timer :: bool
  lifespan :: int
  resolution :: int
  usedMem :: int
  maxKeys :: int
  maxMem :: int
  shared_to :: "nat option"

definition MAXSSIZE :: int where "MAXSSIZE = 0x7fffffffffffffff"
definition MPR_TICKS_PER_SEC :: int where "MPR_TICKS_PER_SEC = 1000"
definition CACHE_TIMER_PERIOD :: int where "CACHE_TIMER_PERIOD = 60 * MPR_TICKS_PER_SEC"
definition CACHE_LIFESPAN :: int where "CACHE_LIFESPAN = 86400 * MPR_TICKS_PER_SEC"

definition cstring :: "string \<Rightarrow> string" where
  "cstring s = takeWhile (\<lambda>c. c \<noteq> CHR 0x00) s"

definition lock :: "localcache \<Rightarrow> localcache" where
  "lock c = c\<lparr>depth := Suc (depth c)\<rparr>"

definition unlock :: "localcache \<Rightarrow> localcache" where
  "unlock c = c\<lparr>depth := depth c - 1\<rparr>"

definition lookup_item :: "string \<Rightarrow> localcache \<Rightarrow> citem option" where
  "lookup_item key c = map_of (store c) (cstring key)"

definition set_item :: "string \<Rightarrow> citem \<Rightarrow> localcache \<Rightarrow> localcache" where
  "set_item key item c = c\<lparr>store := AList.update (cstring key) item (store c)\<rparr>"

text \<open>The length of the strings of an entry, as the cache counts its memory.\<close>

definition item_len :: "citem \<Rightarrow> int" where
  "item_len item = int (length (ikey item)) + int (length (idata item))"

definition removeItem :: "citem \<Rightarrow> localcache \<Rightarrow> localcache" where
  "removeItem item c =
     (let c = lock c;
          c = c\<lparr>store := AList.delete (cstring (ikey item)) (store c), usedMem := usedMem c - item_len item\<rparr>
      in unlock c)"

section \<open>Reading, expiry, increments and removal\<close>

text \<open>\<open>None\<close> is the null date.\<close>

definition sl_expire :: "string \<Rightarrow> int option \<Rightarrow> (localcache, bool) op" where
  "sl_expire key expires c =
     (let c = lock c
      in case lookup_item key c of
           None \<Rightarrow> (Ok False, unlock c)
         | Some item \<Rightarrow>
             (case expires of
                None \<Rightarrow> (Ok True, unlock (removeItem (item\<lparr>ilife := 0\<rparr>) (set_item key (item\<lparr>ilife := 0\<rparr>) c)))
              | Some e \<Rightarrow> (Ok True, unlock (set_item key (item\<lparr>iexpires := e, ilife := 0\<rparr>) c))))"

text \<open>
  \<open>itos\<close> and \<open>stoi\<close> of the vendored library are parameters. The item made for a key that is not in the
  cache is not put in the table.
\<close>

definition sl_inc ::
  "(int \<Rightarrow> string) \<Rightarrow> (string \<Rightarrow> int) \<Rightarrow> int \<Rightarrow> string \<Rightarrow> int \<Rightarrow> (localcache, string) op" where
  "sl_inc itos stoi now key amount c =
     (let c = lock c
      in case lookup_item key c of
           None \<Rightarrow>
             (let data = itos amount
              in (Ok data, unlock (c\<lparr>usedMem := usedMem c + int (length data)\<rparr>)))
         | Some item \<Rightarrow>
             (let data = itos (amount + stoi (idata item));
                  c = c\<lparr>usedMem := usedMem c - int (length (idata item)) + int (length data)\<rparr>
              in (Ok data, unlock (set_item key (item\<lparr>idata := data, iexpires := now + ilife item,
                    iversion := iversion item + 1\<rparr>) c))))"

text \<open>The data that is read, with the version of the item.\<close>

definition sl_read :: "int \<Rightarrow> string \<Rightarrow> (localcache, (string \<times> int) option) op" where
  "sl_read now key c =
     (let c = lock c
      in case lookup_item key c of
           None \<Rightarrow> (Ok None, unlock c)
         | Some item \<Rightarrow>
             if iexpires item \<noteq> 0 \<and> iexpires item \<le> now then (Ok None, unlock c)
             else (Ok (Some (idata item, iversion item)), unlock c))"

definition sl_remove :: "string option \<Rightarrow> (localcache, bool) op" where
  "sl_remove key c =
     (let c = lock c
      in case key of
           Some k \<Rightarrow>
             (case lookup_item k c of
                Some item \<Rightarrow>
                  (Ok True, unlock (c\<lparr>store := AList.delete (cstring k) (store c),
                     usedMem := usedMem c - (int (length k) + int (length (idata item)))\<rparr>))
              | None \<Rightarrow> (Ok False, unlock c))
         | None \<Rightarrow> (Ok (store c \<noteq> []), unlock (c\<lparr>store := [], usedMem := 0\<rparr>)))"

section \<open>Limits\<close>

record limits =
  l_keys :: "int option"
  l_lifespan :: "int option"
  l_memory :: "int option"
  l_resolution :: "int option"

fun limit_or_max :: "int option \<Rightarrow> int \<Rightarrow> int" where
  "limit_or_max None old = old"
| "limit_or_max (Some n) old = (if n \<le> 0 then MAXSSIZE else n)"

definition setLocalLimits :: "limits option \<Rightarrow> localcache \<Rightarrow> localcache" where
  "setLocalLimits opts c =
     (case opts of
        None \<Rightarrow> c
      | Some l \<Rightarrow>
          c\<lparr>lifespan := (case l_lifespan l of None \<Rightarrow> lifespan c | Some n \<Rightarrow> n * MPR_TICKS_PER_SEC),
            resolution := (case l_resolution l of None \<Rightarrow> resolution c
               | Some n \<Rightarrow> if n \<le> 0 then CACHE_TIMER_PERIOD else n),
            maxKeys := limit_or_max (l_keys l) (maxKeys c),
            maxMem := limit_or_max (l_memory l) (maxMem c)\<rparr>)"

text \<open>The keys, the lifespan and the memory that the getter reports.\<close>

definition sl_limits :: "localcache \<Rightarrow> int \<times> int \<times> int" where
  "sl_limits c = ((if maxKeys c = MAXSSIZE then 0 else maxKeys c), lifespan c div MPR_TICKS_PER_SEC,
     (if maxMem c = MAXSSIZE then 0 else maxMem c))"

section \<open>Writing\<close>

datatype wmode = MSet | MAdd | MAppend | MPrepend | MOther

record woptions =
  o_lifespan :: "int option"
  o_expires :: "int option"
  o_mode :: "string option"
  o_throw :: bool
  o_version :: "int option"

definition write_mode :: "woptions \<Rightarrow> wmode" where
  "write_mode opts =
     (case o_mode opts of
        None \<Rightarrow> MSet
      | Some s \<Rightarrow>
          if cstring s = ''add'' then MAdd
          else if cstring s = ''append'' then MAppend
          else if cstring s = ''prepend'' then MPrepend
          else if cstring s = ''set'' then MSet else MOther)"

fun new_data :: "wmode \<Rightarrow> string \<Rightarrow> string \<Rightarrow> string" where
  "new_data MSet old val = val"
| "new_data MAdd old val = val"
| "new_data MAppend old val = old @ val"
| "new_data MPrepend old val = val @ old"
| "new_data MOther old val = old"

definition new_expiry :: "int \<Rightarrow> int \<Rightarrow> int \<Rightarrow> citem \<Rightarrow> citem" where
  "new_expiry now expires life item =
     (if expires \<noteq> 0 then item\<lparr>iexpires := expires, ilife := 0\<rparr>
      else if life = 0 then item\<lparr>iexpires := 0\<rparr>
      else item\<lparr>iexpires := now + life, ilife := life\<rparr>)"

definition fresh_item :: "string \<Rightarrow> citem" where
  "fresh_item key = \<lparr>ikey = key, idata = [], iexpires = 0, ilife = 0, iversion = 0\<rparr>"

text \<open>The part of \<open>write\<close> after an item is found or made; \<open>oldLen\<close> is 0 for an item without data.\<close>

definition write_item :: "int \<Rightarrow> string \<Rightarrow> wmode \<Rightarrow> int \<Rightarrow> int \<Rightarrow> int \<Rightarrow> citem \<Rightarrow> (localcache, int option) op" where
  "write_item now val mode expires life oldLen item c =
     (let item' = new_expiry now expires life (item\<lparr>idata := new_data mode (idata item) val\<rparr>);
          item' = item'\<lparr>iversion := iversion item' + 1\<rparr>;
          len = item_len item';
          c = set_item (ikey item) item' c
      in (Ok (Some len), unlock (c\<lparr>usedMem := usedMem c + (len - oldLen), timer := True\<rparr>)))"

text \<open>The null that a failed write returns is \<open>None\<close>. Adding a key that exists returns with the lock held.\<close>

definition sl_write :: "int \<Rightarrow> string \<Rightarrow> string \<Rightarrow> woptions \<Rightarrow> (localcache, int option) op" where
  "sl_write now key val opts c =
     (let life = (case o_lifespan opts of None \<Rightarrow> lifespan c | Some n \<Rightarrow> n * MPR_TICKS_PER_SEC);
          expires = (case o_expires opts of None \<Rightarrow> 0 | Some e \<Rightarrow> e);
          mode = write_mode opts;
          c = lock c
      in case lookup_item key c of
           Some item \<Rightarrow>
             if (case o_version opts of None \<Rightarrow> False | Some v \<Rightarrow> iversion item \<noteq> v)
             then (if o_throw opts then Throw StateError else Ok None, unlock c)
             else if mode = MAdd then (Ok None, c)
             else write_item now val mode expires life (item_len item) item c
         | None \<Rightarrow> write_item now val MSet expires life 0 (fresh_item key) c)"

section \<open>Pruning\<close>

text \<open>One walk over the table; the result is the number of items that were due.\<close>

definition is_due :: "int \<Rightarrow> citem \<Rightarrow> bool" where
  "is_due when item \<longleftrightarrow> iexpires item \<noteq> 0 \<and> iexpires item \<le> when"

fun prune_walk :: "int \<Rightarrow> (string \<times> citem) list \<Rightarrow> int \<times> localcache \<Rightarrow> int \<times> localcache" where
  "prune_walk when [] (n, c) = (n, c)"
| "prune_walk when ((k, item) # kps) (n, c) =
     prune_walk when kps (if is_due when item then (n + 1, removeItem item c) else (n, c))"

text \<open>
  The loop for too many keys or too much memory, with its factor as \<open>3600 * 4 ^ k\<close>: it moves the time
  ahead while the limits are exceeded.
\<close>

function excess_loop :: "nat \<Rightarrow> int \<Rightarrow> int \<Rightarrow> localcache \<Rightarrow> localcache" where
  "excess_loop k when excessKeys c =
     (let factor = 3600 * 4 ^ k
      in if factor < 86400 * 1000 then
           if 0 < excessKeys \<or> maxMem c < usedMem c then
             let (n, c) = prune_walk when (store c) (0, c)
             in excess_loop (Suc k) (when + factor) (excessKeys - n) c
           else c
         else c)"
  by auto
termination
proof (relation "measure (\<lambda>(k, _). 16 - k)", goal_cases)
  case (2 k w n c f)
  have "k < 16"
  proof (rule ccontr)
    assume "\<not> k < 16"
    then have "(4 :: int) ^ 16 \<le> 4 ^ k" by (intro power_increasing) auto
    then show False using 2(1,2) by simp
  qed
  then show ?case by simp
qed simp

definition localPruner :: "int \<Rightarrow> localcache \<Rightarrow> localcache" where
  "localPruner now c =
     (if 0 < depth c then c
      else
        let c = lock c;
            (_, c) = prune_walk now (store c) (0, c);
            c = (if maxKeys c < MAXSSIZE \<or> maxMem c < MAXSSIZE
                 then excess_loop 0 now (int (length (store c)) - maxKeys c) c else c);
            c = (if store c = [] then c\<lparr>timer := False\<rparr> else c)
        in unlock c)"

section \<open>Instances and the shared cache\<close>

record caches =
  instances :: "localcache list"
  shared :: "nat option"

definition blank_cache :: localcache where
  "blank_cache = \<lparr>store = [], depth = 0, timer = False, lifespan = 0, resolution = 0, usedMem = 0,
     maxKeys = 0, maxMem = 0, shared_to = None\<rparr>"

text \<open>The constructor for the object \<open>i\<close>; the options are the limits and whether a shared cache is wanted.\<close>

definition localConstructor :: "nat \<Rightarrow> (limits \<times> bool) option \<Rightarrow> caches \<Rightarrow> caches" where
  "localConstructor i opts w =
     (let cache = instances w ! i;
          wantShared = (case opts of None \<Rightarrow> False | Some (_, b) \<Rightarrow> b)
      in if wantShared \<and> shared w \<noteq> None
         then w\<lparr>instances := (instances w)[i := cache\<lparr>shared_to := shared w\<rparr>]\<rparr>
         else
           let cache = cache\<lparr>store := [], depth := 0, lifespan := CACHE_LIFESPAN, resolution := CACHE_TIMER_PERIOD,
                 maxKeys := MAXSSIZE, maxMem := MAXSSIZE\<rparr>;
               cache = setLocalLimits (map_option fst opts) cache
           in w\<lparr>instances := (instances w)[i := cache],
                shared := (if wantShared then Some i else shared w)\<rparr>)"

definition sl_destroy :: "nat \<Rightarrow> caches \<Rightarrow> caches" where
  "sl_destroy i w =
     (let w = (if timer (instances w ! i) \<and> shared w \<noteq> Some i
               then w\<lparr>instances := (instances w)[i := (instances w ! i)\<lparr>timer := False\<rparr>]\<rparr> else w)
      in if shared w = Some i then w\<lparr>shared := None\<rparr> else w)"

text \<open>The cache that a method of the instance \<open>i\<close> works on, and the method on it.\<close>

definition target :: "nat \<Rightarrow> caches \<Rightarrow> nat" where
  "target i w = (case shared_to (instances w ! i) of None \<Rightarrow> i | Some j \<Rightarrow> j)"

definition on_cache :: "nat \<Rightarrow> (localcache, 'a) op \<Rightarrow> (caches, 'a) op" where
  "on_cache i m w =
     (let (r, c) = m (instances w ! target i w)
      in (r, w\<lparr>instances := (instances w)[target i w := c]\<rparr>))"

definition sl_setLimits :: "nat \<Rightarrow> limits \<Rightarrow> (caches, unit) op" where
  "sl_setLimits i l = on_cache i (\<lambda>c. (Ok (), setLocalLimits (Some l) c))"

definition cloneLocalCache :: "nat \<Rightarrow> caches \<Rightarrow> caches" where
  "cloneLocalCache i w =
     (let src = instances w ! i;
          dest = (case shared_to src of
              Some j \<Rightarrow> blank_cache\<lparr>shared_to := Some j\<rparr>
            | None \<Rightarrow>
                if shared w = Some i then blank_cache\<lparr>shared_to := Some i\<rparr>
                else blank_cache\<lparr>lifespan := lifespan src, resolution := resolution src, usedMem := usedMem src,
                       maxKeys := maxKeys src, maxMem := maxMem src, shared_to := shared_to src\<rparr>)
      in w\<lparr>instances := instances w @ [dest]\<rparr>)"

end
