(* ===== verification/CacheStore.thy ===== *)
theory CacheStore
  imports LocalCache
begin

text \<open>
  The properties of the local cache of \<open>LocalCache\<close>: it stores named values, its memory
  accounting, its versions, its lock and its pruner.
\<close>

declare excess_loop.simps [simp del]

section \<open>Keys, items and their memory\<close>

definition plain :: "string \<Rightarrow> bool" where
  "plain key \<longleftrightarrow> CHR 0x00 \<notin> set key"

lemma cstring_plain [simp]: "plain key \<Longrightarrow> cstring key = key"
  by (auto simp: plain_def cstring_def takeWhile_eq_all_conv)

definition memory :: "(string \<times> citem) list \<Rightarrow> int" where
  "memory st = sum_list (map (\<lambda>(k, item). item_len item) st)"

lemma memory_simps [simp]:
  "memory [] = 0" "memory ((k, item) # st) = item_len item + memory st"
  by (simp_all add: memory_def)

definition cache_ok :: "localcache \<Rightarrow> bool" where
  "cache_ok c \<longleftrightarrow> distinct (map fst (store c)) \<and> (\<forall>k item. map_of (store c) k = Some item \<longrightarrow> k = ikey item \<and> plain k)
     \<and> usedMem c = memory (store c)"

lemma memory_nonneg: "0 \<le> memory st"
  by (induction st) (auto simp: item_len_def)

lemma memory_update_new: "map_of st k = None \<Longrightarrow> memory (AList.update k item st) = memory st + item_len item"
  by (induction st) (auto split: if_splits)

lemma memory_update:
  "map_of st k = Some old \<Longrightarrow> memory (AList.update k item st) = memory st - item_len old + item_len item"
  by (induction st) (auto split: if_splits)

lemma delete_absent: "k \<notin> fst ` set st \<Longrightarrow> AList.delete k st = st"
  by (force simp: AList.delete_eq intro!: filter_True)

lemma memory_delete:
  "\<lbrakk>map_of st k = Some old; distinct (map fst st)\<rbrakk> \<Longrightarrow> memory (AList.delete k st) = memory st - item_len old"
  by (induction st) (auto simp: delete_absent split: if_splits)

lemma cache_ok_lookup: "\<lbrakk>cache_ok c; lookup_item key c = Some item\<rbrakk> \<Longrightarrow> ikey item = cstring key"
  by (auto simp: cache_ok_def lookup_item_def)

lemma cache_ok_settings [simp]:
  "cache_ok (lock c) = cache_ok c" "cache_ok (unlock c) = cache_ok c" "cache_ok (c\<lparr>timer := b\<rparr>) = cache_ok c"
  by (simp_all add: cache_ok_def lock_def unlock_def)

lemma store_locks [simp]:
  "store (lock c) = store c" "store (unlock c) = store c" "usedMem (lock c) = usedMem c" "usedMem (unlock c) = usedMem c"
  "depth (unlock c) = depth c - 1" "depth (lock c) = Suc (depth c)" "lifespan (lock c) = lifespan c"
  "lookup_item k (lock c) = lookup_item k c" "lookup_item k (unlock c) = lookup_item k c"
  by (simp_all add: lock_def unlock_def lookup_item_def)

lemma cache_ok_update:
  assumes "cache_ok c" "map_of (store c) k = Some old" "ikey item = ikey old"
    "usedMem c' = usedMem c + (item_len item - item_len old)" "store c' = AList.update k item (store c)"
  shows "cache_ok c'"
  using assms by (auto simp: cache_ok_def memory_update distinct_update update_conv' split: if_splits)

lemma cache_ok_add:
  assumes "cache_ok c" "map_of (store c) k = None" "plain k" "ikey item = k"
    "usedMem c' = usedMem c + item_len item" "store c' = AList.update k item (store c)"
  shows "cache_ok c'"
  using assms by (auto simp: cache_ok_def memory_update_new distinct_update update_conv' split: if_splits)

lemma cache_ok_drop:
  assumes "cache_ok c" "map_of (store c) k = Some old"
    "usedMem c' = usedMem c - item_len old" "store c' = AList.delete k (store c)"
  shows "cache_ok c'"
  using assms
  by (auto simp: cache_ok_def memory_delete distinct_delete delete_conv' simp del: map_of_eq_Some_iff
      split: if_splits)

section \<open>Every call keeps the accounting\<close>

datatype cache_call =
    KWrite int string string woptions | KRead int string | KExpire string "int option" | KInc int string int
  | KRemove "string option" | KSetLimits limits | KPrune int

definition quietly :: "(localcache, 'a) op \<Rightarrow> localcache \<Rightarrow> localcache" where
  "quietly m c = snd (m c)"

fun call_cache :: "(int \<Rightarrow> string) \<Rightarrow> (string \<Rightarrow> int) \<Rightarrow> cache_call \<Rightarrow> localcache \<Rightarrow> localcache" where
  "call_cache itos stoi (KWrite now key val opts) = quietly (sl_write now key val opts)"
| "call_cache itos stoi (KRead now key) = quietly (sl_read now key)"
| "call_cache itos stoi (KExpire key e) = quietly (sl_expire key e)"
| "call_cache itos stoi (KInc now key n) = quietly (sl_inc itos stoi now key n)"
| "call_cache itos stoi (KRemove key) = quietly (sl_remove key)"
| "call_cache itos stoi (KSetLimits l) = setLocalLimits (Some l)"
| "call_cache itos stoi (KPrune now) = localPruner now"

text \<open>Calls with keys that hold no NUL, and increments of keys that are there.\<close>

fun accounted :: "cache_call \<Rightarrow> localcache \<Rightarrow> bool" where
  "accounted (KWrite now key val opts) c = plain key"
| "accounted (KInc now key n) c = (lookup_item key c \<noteq> None)"
| "accounted (KRemove (Some key)) c = plain key"
| "accounted call c = True"

lemma new_expiry_simps [simp]:
  "ikey (new_expiry now expires life item) = ikey item" "idata (new_expiry now expires life item) = idata item"
  "iversion (new_expiry now expires life item) = iversion item"
  "item_len (new_expiry now expires life item) = item_len item"
  by (simp_all add: new_expiry_def item_len_def)

lemma item_len_version [simp]: "item_len (item\<lparr>iversion := v\<rparr>) = item_len item"
  by (simp add: item_len_def)

lemma cache_ok_write_item:
  assumes "cache_ok c" "map_of (store c) (cstring (ikey item)) = Some item" "plain (ikey item)"
  shows "cache_ok (snd (write_item now val mode expires life (item_len item) item c))"
  unfolding write_item_def Let_def snd_conv cache_ok_settings
  by (rule cache_ok_update [OF assms(1,2)])
    (simp_all add: assms set_item_def)

lemma cache_ok_write_fresh:
  assumes "cache_ok c" "map_of (store c) key = None" "plain key"
  shows "cache_ok (snd (write_item now val mode expires life 0 (fresh_item key) c))"
  unfolding write_item_def Let_def snd_conv cache_ok_settings
  by (rule cache_ok_add [OF assms]) (simp_all add: assms set_item_def fresh_item_def)

lemma cache_ok_item:
  "\<lbrakk>cache_ok c; lookup_item key c = Some item\<rbrakk>
   \<Longrightarrow> map_of (store c) (ikey item) = Some item \<and> plain (ikey item) \<and> cstring key = ikey item"
  unfolding cache_ok_def lookup_item_def by metis

lemma cache_ok_sl_write:
  assumes "cache_ok c" "plain key"
  shows "cache_ok (snd (sl_write now key val opts c))"
proof (cases "lookup_item key c")
  case None
  then show ?thesis using assms cache_ok_write_fresh [of "lock c" key]
    by (simp add: sl_write_def Let_def lookup_item_def)
next
  case (Some item)
  then show ?thesis using assms cache_ok_write_item [of "lock c" item] cache_ok_item [of c key item]
    by (auto simp: sl_write_def Let_def)
qed

lemma cache_ok_removeItem:
  assumes "cache_ok c" "map_of (store c) (cstring (ikey item)) = Some old" "item_len old = item_len item"
  shows "cache_ok (removeItem item c)"
  unfolding removeItem_def Let_def cache_ok_settings
  by (rule cache_ok_drop [of "lock c" "cstring (ikey item)" old]) (simp_all add: assms)

lemma cache_ok_sl_remove:
  assumes "cache_ok c" "pred_option plain key"
  shows "cache_ok (snd (sl_remove key c))"
proof (cases key)
  case None
  then show ?thesis by (simp add: sl_remove_def cache_ok_def Let_def)
next
  case (Some k)
  show ?thesis
  proof (cases "lookup_item k c")
    case None
    then show ?thesis using assms(1) Some by (simp add: sl_remove_def Let_def)
  next
    case (Some item)
    note i = cache_ok_item [OF assms(1) Some]
    have k: "cstring k = k" "ikey item = k" using i assms(2) \<open>key = Some k\<close> by simp_all
    have "cache_ok (lock c\<lparr>store := AList.delete (cstring k) (store c),
        usedMem := usedMem c - (int (length k) + int (length (idata item)))\<rparr>)"
      by (rule cache_ok_drop [of "lock c" k item]) (use assms(1) i k in \<open>simp_all add: item_len_def\<close>)
    then show ?thesis using \<open>key = Some k\<close> Some by (simp add: sl_remove_def Let_def)
  qed
qed

lemma cache_ok_sl_expire:
  assumes "cache_ok c"
  shows "cache_ok (snd (sl_expire key e c))"
proof (cases "lookup_item key c")
  case (Some item)
  note i = cache_ok_item [OF assms Some]
  let ?item = "item\<lparr>ilife := 0\<rparr>"
  have "cache_ok (set_item key ?item (lock c))"
    by (rule cache_ok_update [of "lock c" "ikey item" item ?item]) (simp_all add: assms i set_item_def item_len_def)
  then have "cache_ok (removeItem ?item (set_item key ?item (lock c)))"
    by (rule cache_ok_removeItem [where old = ?item]) (simp_all add: i set_item_def update_conv')
  moreover have "cache_ok (set_item key (item\<lparr>iexpires := e, ilife := 0\<rparr>) (lock c))" for e
    by (rule cache_ok_update [of "lock c" "ikey item" item "item\<lparr>iexpires := e, ilife := 0\<rparr>"])
      (simp_all add: assms i set_item_def item_len_def)
  ultimately show ?thesis using Some by (auto simp: sl_expire_def Let_def split: option.splits)
qed (use assms in \<open>simp add: sl_expire_def Let_def\<close>)

lemma cache_ok_sl_inc:
  assumes "cache_ok c" "lookup_item key c = Some item"
  shows "cache_ok (snd (sl_inc itos stoi now key n c))"
proof -
  note i = cache_ok_item [OF assms]
  let ?d = "itos (n + stoi (idata item))"
  let ?item = "item\<lparr>idata := ?d, iexpires := now + ilife item, iversion := iversion item + 1\<rparr>"
  have "cache_ok (set_item key ?item
      (lock c\<lparr>usedMem := usedMem c - int (length (idata item)) + int (length ?d)\<rparr>))"
    by (rule cache_ok_update [of "lock c" "ikey item" item ?item]) (simp_all add: assms i set_item_def item_len_def)
  then show ?thesis using assms(2) by (simp add: sl_inc_def Let_def)
qed

lemma cache_ok_setLocalLimits [simp]: "cache_ok (setLocalLimits l c) = cache_ok c"
  by (simp add: cache_ok_def setLocalLimits_def split: option.splits)

lemma cache_ok_sl_read [simp]: "cache_ok (snd (sl_read now key c)) = cache_ok c"
  by (simp add: sl_read_def Let_def split: option.splits)

section \<open>Pruning\<close>

text \<open>A walk over the items of the table, or over a part of it, drops those that are due.\<close>

lemma store_removeItem: "store (removeItem item c) = AList.delete (cstring (ikey item)) (store c)"
  by (simp add: removeItem_def Let_def)

lemma removeItem_settings [simp]:
  "depth (removeItem item c) = depth c" "maxKeys (removeItem item c) = maxKeys c"
  "maxMem (removeItem item c) = maxMem c" "lifespan (removeItem item c) = lifespan c"
  by (simp_all add: removeItem_def lock_def unlock_def)

lemma prune_walk_ok:
  assumes "cache_ok c" "set kps \<subseteq> set (store c)" "distinct (map fst kps)" "prune_walk when kps (n, c) = (n', c')"
  shows "cache_ok c' \<and> store c' = filter (\<lambda>(k, item). (k, item) \<notin> set kps \<or> \<not> is_due when item) (store c)
    \<and> depth c' = depth c \<and> maxKeys c' = maxKeys c \<and> maxMem c' = maxMem c"
  using assms
proof (induction kps arbitrary: n c)
  case Nil
  then show ?case by (simp add: filter_True)
next
  case (Cons kp kps)
  obtain k item where kp: "kp = (k, item)" by (cases kp)
  have st: "distinct (map fst (store c))" "(k, item) \<in> set (store c)"
    using Cons.prems kp by (auto simp: cache_ok_def)
  have m: "map_of (store c) k = Some item" using st by simp
  then have k: "cstring (ikey item) = k" "ikey item = k" using Cons.prems(1) by (auto simp: cache_ok_def)
  let ?c = "if is_due when item then removeItem item c else c"
  have s: "store ?c = filter (\<lambda>(k', i). (k', i) \<noteq> (k, item) \<or> \<not> is_due when i) (store c)"
  proof (cases "is_due when item")
    case True
    have "k' \<noteq> k \<longleftrightarrow> (k', i) \<noteq> (k, item)" if "(k', i) \<in> set (store c)" for k' i
      using that st by (auto dest: eq_key_imp_eq_value)
    then have "filter (\<lambda>(k', _). k \<noteq> k') (store c) = filter (\<lambda>(k', i). (k', i) \<noteq> (k, item)) (store c)"
      by (intro filter_cong) auto
    moreover have "filter (\<lambda>(k', i). (k', i) \<noteq> (k, item)) (store c)
        = filter (\<lambda>(k', i). (k', i) \<noteq> (k, item) \<or> \<not> is_due when i) (store c)"
      using True by (intro filter_cong) auto
    ultimately show ?thesis using True k by (simp add: store_removeItem AList.delete_eq)
  qed (auto intro: filter_True [symmetric])
  have ok: "cache_ok ?c" using Cons.prems(1) cache_ok_removeItem [OF Cons.prems(1), of item item] m k by simp
  have notin: "(k, i) \<notin> set kps" for i using Cons.prems(3) kp by force
  have sub: "set kps \<subseteq> set (store ?c)" using Cons.prems(2) notin by (auto simp: s)
  have "\<exists>n1. prune_walk when kps (n1, ?c) = (n', c')" using Cons.prems(4) kp by (auto split: if_splits)
  moreover have "filter (\<lambda>(k, i). (k, i) \<notin> set kps \<or> \<not> is_due when i) (store ?c)
      = filter (\<lambda>(k, i). (k, i) \<notin> set (kp # kps) \<or> \<not> is_due when i) (store c)"
    unfolding s filter_filter by (rule filter_cong) (auto simp: kp notin)
  ultimately show ?case
    using Cons.IH [OF ok sub] Cons.prems(3) by auto
qed

lemma prune_all:
  assumes "cache_ok c" "prune_walk when (store c) (n, c) = (n', c')"
  shows "cache_ok c'" "store c' = filter (\<lambda>(k, item). \<not> is_due when item) (store c)" "depth c' = depth c"
    "maxKeys c' = maxKeys c" "maxMem c' = maxMem c"
proof -
  have d: "distinct (map fst (store c))" using assms(1) by (simp add: cache_ok_def)
  note p = prune_walk_ok [OF assms(1) subset_refl d assms(2)]
  show "cache_ok c'" "depth c' = depth c" "maxKeys c' = maxKeys c" "maxMem c' = maxMem c" using p by auto
  show "store c' = filter (\<lambda>(k, item). \<not> is_due when item) (store c)" using p by (auto intro: filter_cong)
qed

lemma is_due_mono: "\<lbrakk>is_due w item; w \<le> w'\<rbrakk> \<Longrightarrow> is_due w' item"
  by (simp add: is_due_def)

text \<open>The loop ends with its eighth round, whose time is less than five and a half hours ahead.\<close>

lemma excess_loop_ok:
  assumes "cache_ok c" "k \<le> 8"
  shows "cache_ok (excess_loop k when e c) \<and> depth (excess_loop k when e c) = depth c
    \<and> set (store (excess_loop k when e c)) \<subseteq> set (store c)
    \<and> (\<forall>(key, item) \<in> set (store c). \<not> is_due (when + 1200 * (4 ^ 7 - 4 ^ k)) item \<and> \<not> is_due when item
         \<longrightarrow> (key, item) \<in> set (store (excess_loop k when e c)))"
  using assms
proof (induction "8 - k" arbitrary: k "when" e c)
  case 0
  then show ?case by (auto simp: excess_loop.simps)
next
  case (Suc d)
  obtain n c1 where w: "prune_walk when (store c) (0, c) = (n, c1)" by fastforce
  note p = prune_all [OF Suc.prems(1) w]
  let ?f = "3600 * 4 ^ k :: int" and ?h = "when + 1200 * (4 ^ 7 - 4 ^ k) :: int"
  have k: "k < 8" using Suc.hyps(2) by simp
  show ?case
  proof (cases "0 < e \<or> maxMem c < usedMem c")
    case False
    then show ?thesis using Suc.prems by (auto simp: excess_loop.simps)
  next
    case True
    have "(4 :: int) ^ k \<le> 4 ^ 7" by (rule power_increasing) (use k in auto)
    then have f: "?f < 86400 * 1000" by simp
    have step: "excess_loop k when e c = excess_loop (Suc k) (when + ?f) (e - n) c1"
      using True f w by (subst excess_loop.simps) (simp add: Let_def)
    have h: "when + ?f + 1200 * (4 ^ 7 - 4 ^ Suc k) = ?h" by (simp add: algebra_simps)
    have s: "set (store c1) = {(key, item) \<in> set (store c). \<not> is_due when item}" using p(2) by auto
    show ?thesis
    proof (cases "k = 7")
      case True
      have "excess_loop (Suc k) (when + ?f) (e - n) c1 = c1"
        using True by (subst excess_loop.simps) simp
      then show ?thesis using p s by (auto simp: step)
    next
      case False
      then have le: "when + ?f \<le> ?h"
        using k power_increasing [of "Suc k" 7 "4 :: int"] by (simp add: algebra_simps)
      have "8 - Suc k = d" "Suc k \<le> 8" using Suc.hyps(2) by simp_all
      then show ?thesis
        using Suc.hyps(1) [of "Suc k" c1 "when + ?f" "e - n", unfolded h] p s is_due_mono [OF _ le]
        by (fastforce simp: step)
    qed
  qed
qed

lemma localPruner_ok:
  assumes "cache_ok c"
  shows "cache_ok (localPruner now c) \<and> depth (localPruner now c) = depth c
    \<and> set (store (localPruner now c)) \<subseteq> set (store c)
    \<and> (\<forall>(key, item) \<in> set (store c). \<not> is_due (now + 19659600) item
         \<longrightarrow> (key, item) \<in> set (store (localPruner now c)))"
proof (cases "0 < depth c")
  case False
  obtain n c1 where w: "prune_walk now (store (lock c)) (0, lock c) = (n, c1)" by fastforce
  have l: "cache_ok (lock c)" using assms by simp
  note p = prune_all [OF l w]
  define c2 where "c2 = (if maxKeys c1 < MAXSSIZE \<or> maxMem c1 < MAXSSIZE
    then excess_loop 0 now (int (length (store c1)) - maxKeys c1) c1 else c1)"
  have e: "localPruner now c = unlock (if store c2 = [] then c2\<lparr>timer := False\<rparr> else c2)"
    using False w by (simp add: localPruner_def c2_def Let_def)
  have s: "set (store c1) = {(key, item) \<in> set (store c). \<not> is_due now item}" using p(2) by auto
  have d: "is_due now item \<Longrightarrow> is_due (now + 19659600) item" for item by (erule is_due_mono) simp
  have c2: "cache_ok c2 \<and> depth c2 = depth c1 \<and> set (store c2) \<subseteq> set (store c1)
    \<and> (\<forall>(key, item) \<in> set (store c1). \<not> is_due (now + 19659600) item \<longrightarrow> (key, item) \<in> set (store c2))"
    unfolding c2_def
    using excess_loop_ok [of c1 0 now "int (length (store c1)) - maxKeys c1"] p(1) d by auto
  have "(key, item) \<in> set (store c2)"
    if "(key, item) \<in> set (store c)" "\<not> is_due (now + 19659600) item" for key item
  proof -
    have "(key, item) \<in> set (store c1)" using that d [of item] s by auto
    then show ?thesis using c2 that(2) by auto
  qed
  then have "\<forall>(key, item) \<in> set (store c). \<not> is_due (now + 19659600) item \<longrightarrow> (key, item) \<in> set (store c2)"
    by blast
  moreover have "store (localPruner now c) = store c2" by (simp add: e)
  moreover have "cache_ok (localPruner now c)" "depth (localPruner now c) = depth c" using c2 p(3) by (auto simp: e)
  ultimately show ?thesis using c2 s by auto
qed (use assms in \<open>auto simp: localPruner_def\<close>)

lemma cache_ok_call: "\<lbrakk>cache_ok c; accounted call c\<rbrakk> \<Longrightarrow> cache_ok (call_cache itos stoi call c)"
  by (cases call) (auto simp: quietly_def cache_ok_sl_write cache_ok_sl_expire cache_ok_sl_inc cache_ok_sl_remove
      localPruner_ok split: option.splits elim!: accounted.elims)

section \<open>The cache as a named store\<close>

definition cache_map :: "int \<Rightarrow> localcache \<Rightarrow> string \<Rightarrow> string option" where
  "cache_map now c key =
     (if plain key then
        case map_of (store c) key of
          None \<Rightarrow> None
        | Some item \<Rightarrow> if is_due now item then None else Some (idata item)
      else None)"

definition no_options :: woptions where
  "no_options = \<lparr>o_lifespan = None, o_expires = None, o_mode = None, o_throw = False, o_version = None\<rparr>"

definition cache_put :: "int \<Rightarrow> string \<Rightarrow> string \<Rightarrow> (localcache, int option) op" where
  "cache_put now key val = sl_write now key val no_options"

definition cache_get :: "int \<Rightarrow> string \<Rightarrow> localcache \<Rightarrow> string option res" where
  "cache_get now key c = map_res (map_option fst) (fst (sl_read now key c))"

lemma cache_get_map: "plain key \<Longrightarrow> cache_get now key c = Ok (cache_map now c key)"
  by (simp add: cache_get_def cache_map_def sl_read_def lookup_item_def is_due_def Let_def split: option.splits)

lemma not_due_new_expiry: "0 \<le> life \<Longrightarrow> \<not> is_due now (new_expiry now 0 life item)"
  by (simp add: new_expiry_def is_due_def)

lemma is_due_version [simp]: "is_due now (item\<lparr>iversion := v\<rparr>) = is_due now item"
  by (simp add: is_due_def)

lemma write_item_simps:
  "fst (write_item now val mode expires life oldLen item c) \<noteq> Fault"
  "\<exists>n. fst (write_item now val mode expires life oldLen item c) = Ok n"
  "lifespan (snd (write_item now val mode expires life oldLen item c)) = lifespan c"
  "store (snd (write_item now val mode expires life oldLen item c))
   = AList.update (cstring (ikey item)) ((new_expiry now expires life
       (item\<lparr>idata := new_data mode (idata item) val\<rparr>))\<lparr>iversion := iversion item + 1\<rparr>) (store c)"
  by (simp_all add: write_item_def Let_def set_item_def unlock_def)

lemma cache_put_map:
  assumes "cache_ok c" "0 \<le> lifespan c" "plain key"
  shows "\<exists>x c'. cache_put now key val c = (Ok x, c') \<and> (cache_ok c' \<and> 0 \<le> lifespan c')
    \<and> cache_map now c' = (cache_map now c)(key \<mapsto> val)"
proof -
  define item where "item = (case lookup_item key c of None \<Rightarrow> fresh_item key | Some i \<Rightarrow> i)"
  have i: "ikey item = key" using cache_ok_item [OF assms(1), of key] assms(3)
    by (auto simp: item_def fresh_item_def split: option.splits)
  obtain oldLen where p: "cache_put now key val c = write_item now val MSet 0 (lifespan c) oldLen item (lock c)"
    by (cases "lookup_item key c") (simp_all add: item_def cache_put_def sl_write_def no_options_def write_mode_def Let_def)
  obtain x c' where e: "cache_put now key val c = (Ok x, c')"
    using write_item_simps(2) p by (metis prod.collapse)
  have st: "store c' = AList.update key ((new_expiry now 0 (lifespan c) (item\<lparr>idata := val\<rparr>))
      \<lparr>iversion := iversion item + 1\<rparr>) (store c)"
    using write_item_simps(4) [of now val MSet 0 "lifespan c" oldLen item "lock c"] e p i assms(3) by simp
  have "cache_ok c'" using cache_ok_sl_write [OF assms(1,3), of now val no_options] e by (simp add: cache_put_def)
  moreover have "lifespan c' = lifespan c"
    using write_item_simps(3) [of now val MSet 0 "lifespan c" oldLen item "lock c"] e p by simp
  moreover have "cache_map now c' = (cache_map now c)(key \<mapsto> val)"
    using not_due_new_expiry [OF assms(2), of now "item\<lparr>idata := val\<rparr>"] assms(3)
    by (auto simp: cache_map_def st update_conv' fun_eq_iff)
  ultimately show ?thesis using e assms(2) by auto
qed

interpretation cache: named_store "\<lambda>c. cache_ok c \<and> 0 \<le> lifespan c" plain "\<lambda>_. 0" n "cache_map now"
  "cache_put now" "cache_get now" for now n
proof (unfold_locales, goal_cases)
  case (1 c key val)
  then show ?case using cache_put_map [of c key now val] by auto
next
  case (2 c key)
  then show ?case by (simp add: cache_get_map)
qed

section \<open>Versions and the lock\<close>


lemma lookup_after_write_item:
  "lookup_item key (snd (write_item now val mode expires life oldLen item c))
   = (if cstring key = cstring (ikey item)
      then Some ((new_expiry now expires life (item\<lparr>idata := new_data mode (idata item) val\<rparr>))\<lparr>iversion := iversion item + 1\<rparr>)
      else lookup_item key c)"
  by (simp add: lookup_item_def write_item_simps update_conv')




lemma lookup_usedMem [simp]: "lookup_item k (c\<lparr>usedMem := u\<rparr>) = lookup_item k c"
  by (simp add: lookup_item_def)







text \<open>No call of a script gives the lock back that an earlier one kept.\<close>

lemma setting_depth [simp]: "depth (set_item k i c) = depth c" "depth (setLocalLimits l c) = depth c"
  by (simp_all add: set_item_def setLocalLimits_def split: option.splits)

lemma depth_write_item [simp]: "depth (snd (write_item now val mode e life old item c)) = depth c - 1"
  by (simp add: write_item_def Let_def)

lemma depth_call: "0 < depth c \<Longrightarrow> depth c \<le> depth (call_cache itos stoi call c)"
  by (cases call) (auto simp: quietly_def sl_write_def sl_read_def sl_expire_def sl_inc_def sl_remove_def
      localPruner_def Let_def split: option.splits)

fun call_all :: "(int \<Rightarrow> string) \<Rightarrow> (string \<Rightarrow> int) \<Rightarrow> cache_call list \<Rightarrow> localcache \<Rightarrow> localcache" where
  "call_all itos stoi [] c = c"
| "call_all itos stoi (call # calls) c = call_all itos stoi calls (call_cache itos stoi call c)"

lemma depth_call_all: "0 < depth c \<Longrightarrow> 0 < depth (call_all itos stoi calls c)"
proof (induction calls arbitrary: c)
  case (Cons call calls)
  then show ?case using depth_call [of c itos stoi call] by simp
qed simp

section \<open>Properties\<close>

text \<open>The caches that a script gets from the constructor and by calls that are accounted.\<close>

definition new_cache :: "(limits \<times> bool) option \<Rightarrow> localcache" where
  "new_cache opts = instances (localConstructor 0 opts \<lparr>instances = [blank_cache], shared = None\<rparr>) ! 0"

inductive cache_reached :: "(int \<Rightarrow> string) \<Rightarrow> (string \<Rightarrow> int) \<Rightarrow> localcache \<Rightarrow> bool" for itos stoi where
  made: "cache_reached itos stoi (new_cache opts)"
| used: "\<lbrakk>cache_reached itos stoi c; accounted call c\<rbrakk> \<Longrightarrow> cache_reached itos stoi (call_cache itos stoi call c)"

lemma new_cache_ok: "cache_ok (new_cache opts)"
  by (auto simp: new_cache_def localConstructor_def blank_cache_def cache_ok_def setLocalLimits_def Let_def
      split: option.splits)

lemma reached_cache_ok: "cache_reached itos stoi c \<Longrightarrow> cache_ok c"
  by (induction rule: cache_reached.induct) (auto simp: new_cache_ok cache_ok_call)

text \<open>
  C18: The memory that a cache counts as used is the sum of the lengths of the keys and the data that
  it holds, after any writes in any mode, expiries, removals, reads, prunes and changes of the limits, and
  increments of keys that are present, with keys that hold no NUL. An increment of an absent key breaks it (lemma
  \<open>inc_of_absent_key_is_lost\<close>), and so does a clone, which copies the count without the store.
\<close>

theorem memory_accounting:
  assumes "cache_reached itos stoi c"
  shows "usedMem c = sum_list (map (\<lambda>(k, item). int (length (ikey item)) + int (length (idata item))) (store c))"
  using reached_cache_ok [OF assms] by (simp add: cache_ok_def memory_def item_len_def)

theorem memory_accounting_witness:
  "usedMem (call_cache (\<lambda>_. []) (\<lambda>_. 0) (KWrite 5 ''key'' ''data'' no_options) (new_cache None)) = 7"
proof -
  let ?c = "call_cache (\<lambda>_. []) (\<lambda>_. 0) (KWrite 5 ''key'' ''data'' no_options) (new_cache None)"
  have "cache_reached (\<lambda>_. []) (\<lambda>_. 0) ?c"
    by (intro cache_reached.intros) (simp add: plain_def)
  from memory_accounting [OF this] show ?thesis
    by (simp add: quietly_def sl_write_def write_item_def lookup_item_def lock_def new_cache_def localConstructor_def
        blank_cache_def setLocalLimits_def no_options_def set_item_def unlock_def fresh_item_def new_expiry_def
        write_mode_def cstring_def item_len_def Let_def)
qed

text \<open>
  Incrementing a key that is not in the cache answers the amount and stores nothing, so that reading the
  key still yields null, while the memory counted as used grows.
\<close>

lemma inc_of_absent_key_is_lost:
  assumes "lookup_item key c = None"
  shows "\<exists>c'. sl_inc itos stoi now key amount c = (Ok (itos amount), c') \<and> fst (sl_read t key c') = Ok None
    \<and> usedMem c' = usedMem c + int (length (itos amount)) \<and> store c' = store c"
  using assms by (simp add: sl_inc_def sl_read_def Let_def)

theorem inc_of_absent_key_is_lost_witness:
  "\<exists>c'. sl_inc (\<lambda>_. ''1'') (\<lambda>_. 0) 5 ''n'' 1 (new_cache None) = (Ok ''1'', c') \<and> fst (sl_read 6 ''n'' c') = Ok None
    \<and> usedMem c' = usedMem (new_cache None) + 1 \<and> store c' = store (new_cache None)"
proof -
  have "lookup_item ''n'' (new_cache None) = None"
    by (simp add: lookup_item_def new_cache_def localConstructor_def setLocalLimits_def blank_cache_def)
  from inc_of_absent_key_is_lost [OF this, of "\<lambda>_. ''1''" "\<lambda>_. 0" 5 1 6] show ?thesis by simp
qed

text \<open>
  C17: The cache stores named values: after any sequence of writes, at one time, to keys that hold no NUL, a read
  of a key at that time yields the value written last to it, or what the cache held before when that is not expired.
\<close>

theorem cache_implements_map:
  assumes "cache_ok c" "0 \<le> lifespan c" "\<forall>(k, v) \<in> set kvs. plain k" "plain key"
  shows "\<exists>c'. put_all (cache_put now) kvs c = (Ok (), c')
    \<and> cache_get now key c' = Ok ((cache_map now c ++ map_of (rev kvs)) key)"
  by (rule cache.get_after_put_all [where n = "length kvs"]) (use assms in auto)

theorem cache_implements_map_witness:
  "\<exists>c'. put_all (cache_put 9) [(''a'', ''1''), (''b'', ''2''), (''a'', ''3'')] (new_cache None) = (Ok (), c')
    \<and> cache_get 9 ''a'' c' = Ok (Some ''3'')"
proof -
  have "0 \<le> lifespan (new_cache None)"
    by (simp add: new_cache_def localConstructor_def setLocalLimits_def blank_cache_def CACHE_LIFESPAN_def
        MPR_TICKS_PER_SEC_def)
  from cache_implements_map [OF new_cache_ok this, of "[(''a'', ''1''), (''b'', ''2''), (''a'', ''3'')]" "''a''" 9]
  show ?thesis by (simp add: plain_def)
qed


definition one_key :: localcache where
  "one_key = blank_cache\<lparr>store := [(''k'', \<lparr>ikey = ''k'', idata = ''v'', iexpires = 0, ilife = 0, iversion = 1\<rparr>)],
     usedMem := 2, maxKeys := MAXSSIZE, maxMem := MAXSSIZE\<rparr>"

lemma one_key_simps [simp]:
  "cache_ok one_key" "lookup_item ''k'' one_key = Some \<lparr>ikey = ''k'', idata = ''v'', iexpires = 0, ilife = 0, iversion = 1\<rparr>"
  "plain ''k''" "depth one_key = 0"
  by (auto simp: one_key_def cache_ok_def blank_cache_def item_len_def lookup_item_def plain_def cstring_def
      split: if_splits)


text \<open>
  Versions identify an update only as long as the key exists: a key that is removed and written again
  starts at version 1, so that a write with the version of a value from before the removal succeeds.
\<close>

lemma recreated_key_reuses_version:
  assumes "cache_ok c" "plain key" "lookup_item key c = Some item" "iversion item = 1"
    and "o_version opts = Some 1" "write_mode opts \<noteq> MAdd"
  shows "\<exists>n. fst (sl_write now key val opts
    (snd (cache_put now key other (snd (sl_remove (Some key) c))))) = Ok (Some n)"
proof -
  let ?c1 = "snd (sl_remove (Some key) c)"
  have "lookup_item key ?c1 = None"
    using assms(3) by (simp add: sl_remove_def Let_def lookup_item_def delete_conv')
  then have "\<exists>i. lookup_item key (snd (cache_put now key other ?c1)) = Some i \<and> iversion i = 1"
    using assms(2) by (simp add: cache_put_def sl_write_def Let_def lookup_after_write_item fresh_item_def)
  then show ?thesis using assms(5,6) by (auto simp: sl_write_def Let_def write_item_def)
qed

theorem recreated_key_reuses_version_witness:
  "\<exists>n. fst (sl_write 5 ''k'' ''stale'' (no_options\<lparr>o_version := Some 1\<rparr>)
    (snd (cache_put 5 ''k'' ''new'' (snd (sl_remove (Some ''k'') one_key))))) = Ok (Some n)"
  by (rule recreated_key_reuses_version [OF _ _ one_key_simps(2)]) (simp_all add: no_options_def write_mode_def)

text \<open>
  Adding a key that already exists returns with the lock of the cache held: whatever calls the script
  makes afterwards, the pruner, which runs on another thread, never does anything again.
\<close>

lemma add_of_existing_key_stops_pruner:
  assumes "lookup_item key c = Some item" "write_mode opts = MAdd" "o_version opts = None"
  shows "fst (sl_write now key val opts c) = Ok None
    \<and> localPruner t (call_all itos stoi calls (snd (sl_write now key val opts c)))
      = call_all itos stoi calls (snd (sl_write now key val opts c))"
proof -
  have w: "sl_write now key val opts c = (Ok None, lock c)" using assms by (simp add: sl_write_def Let_def)
  have "0 < depth (call_all itos stoi calls (lock c))" by (rule depth_call_all) simp
  then show ?thesis by (simp add: w localPruner_def)
qed

theorem add_of_existing_key_stops_pruner_witness:
  "localPruner 99 (snd (sl_write 5 ''k'' ''w'' (no_options\<lparr>o_mode := Some ''add''\<rparr>) one_key))
   = snd (sl_write 5 ''k'' ''w'' (no_options\<lparr>o_mode := Some ''add''\<rparr>) one_key)"
  using add_of_existing_key_stops_pruner [of "''k''" one_key _ "no_options\<lparr>o_mode := Some ''add''\<rparr>" 5 "''w''" 99
      "\<lambda>_. []" "\<lambda>_. 0" "[]"]
  by (simp add: no_options_def write_mode_def cstring_def)

text \<open>
  C20: When the cache has no limits and its lock is free, the pruner removes exactly the expired keys, keeps
  the accounting, and leaves the lock free; its loops end.
\<close>

theorem pruner_removes_exactly_expired:
  assumes "cache_ok c" "depth c = 0" "maxKeys c = MAXSSIZE" "maxMem c = MAXSSIZE"
  shows "store (localPruner now c) = filter (\<lambda>(k, item). iexpires item = 0 \<or> now < iexpires item) (store c)
    \<and> usedMem (localPruner now c) = memory (store (localPruner now c)) \<and> depth (localPruner now c) = 0"
proof -
  obtain n c1 where w: "prune_walk now (store (lock c)) (0, lock c) = (n, c1)" by fastforce
  have l: "cache_ok (lock c)" using assms by simp
  note p = prune_all [OF l w]
  have "maxKeys c1 = MAXSSIZE" "maxMem c1 = MAXSSIZE" using p(4,5) assms(3,4) by (simp_all add: lock_def)
  then have "store (localPruner now c) = store c1" using assms(2) w by (simp add: localPruner_def Let_def)
  moreover have "store c1 = filter (\<lambda>(k, item). iexpires item = 0 \<or> now < iexpires item) (store c)"
    unfolding p(2) store_locks by (rule filter_cong) (auto simp: is_due_def)
  ultimately show ?thesis
    using localPruner_ok [OF assms(1), of now] assms(2) by (simp add: cache_ok_def)
qed

theorem pruner_removes_exactly_expired_witness:
  "store (localPruner 50 (one_key\<lparr>store := [(''k'', (fresh_item ''k'')\<lparr>iexpires := 40\<rparr>)], usedMem := 1\<rparr>)) = []"
  using pruner_removes_exactly_expired
    [of "one_key\<lparr>store := [(''k'', (fresh_item ''k'')\<lparr>iexpires := 40\<rparr>)], usedMem := 1\<rparr>" 50]
  by (auto simp: cache_ok_def one_key_def blank_cache_def fresh_item_def item_len_def plain_def split: if_splits)

text \<open>
  The limits are not enforced for keys that expire late: whatever the limits on keys and memory, the pruner
  keeps every key that never expires or expires more than 19659600 milliseconds (about five and a half hours)
  ahead, as a key written with the default lifespan of a day does for its first eighteen hours.
\<close>

lemma limits_spare_late_keys:
  assumes "cache_ok c" "(key, item) \<in> set (store c)" "iexpires item = 0 \<or> now + 19659600 < iexpires item"
  shows "(key, item) \<in> set (store (localPruner now c))"
proof -
  have "\<not> is_due (now + 19659600) item" using assms(3) by (auto simp: is_due_def)
  then show ?thesis using localPruner_ok [OF assms(1), of now] assms(2) by blast
qed

theorem limits_spare_late_keys_witness:
  "(''k'', \<lparr>ikey = ''k'', idata = ''v'', iexpires = 0, ilife = 0, iversion = 1\<rparr>)
   \<in> set (store (localPruner 7 (one_key\<lparr>maxMem := 1\<rparr>)))"
proof (rule limits_spare_late_keys)
  show "cache_ok (one_key\<lparr>maxMem := 1\<rparr>)" using one_key_simps(1) by (simp add: cache_ok_def)
qed (simp_all add: one_key_def)

end
