(* ===== verification/ByteCode.thy ===== *)
theory ByteCode
  imports ModuleCode
begin

text \<open>
  The byte code (\<open>src/src/ejsByteCode.h\<close>, \<open>src/src/ejsByteCodeTable.h\<close>): the instructions of
  expressions, local variables, branches and exceptions with their numbers, operands and documented
  effects on the operand stack, and the decoding of one instruction by the interpreter
  (\<open>src/src/vm/ejsInterp.c\<close>).
\<close>

section \<open>Instructions\<close>

text \<open>
  Three groups of ten consecutive opcodes carry a small number in the opcode itself
  (\<open>LOAD_0\<close> .. \<open>LOAD_9\<close> and the local slots); they are one constructor each here.
\<close>

datatype binary_op =
    ADD | SUB | MUL | DIV | REM | SHL | SHR | USHR | BIT_AND | BIT_OR | BIT_XOR | COMPARE_EQ
  | COMPARE_STRICTLY_EQ | COMPARE_NE | COMPARE_STRICTLY_NE | COMPARE_GE | COMPARE_GT | COMPARE_LE
  | COMPARE_LT | INST_OF | IS_A | CAST | IN

datatype unary_op = NEG | LOGICAL_NOT | BIT_NOT | TYPE_OF

datatype opcode =
    OP_BINARY binary_op | OP_UNARY unary_op | OP_BRANCH_FALSE | OP_BRANCH_TRUE | OP_BRANCH_FALSE_8
  | OP_BRANCH_TRUE_8 | OP_CLOSE_BLOCK | OP_DUP | OP_END_CODE | OP_END_EXCEPTION | OP_GOTO
  | OP_GOTO_8 | OP_INC | OP_LOAD_N nat | OP_LOAD_DOUBLE | OP_LOAD_FALSE | OP_LOAD_INT | OP_LOAD_M1
  | OP_LOAD_NULL | OP_LOAD_THIS | OP_LOAD_TRUE | OP_LOAD_UNDEFINED | OP_GET_LOCAL_SLOT_N nat
  | OP_GET_LOCAL_SLOT | OP_NOP | OP_POP | OP_POP_ITEMS | OP_PUSH_CATCH_ARG
  | OP_PUT_LOCAL_SLOT_N nat | OP_PUT_LOCAL_SLOT | OP_RETURN | OP_RETURN_VALUE | OP_SAVE_RESULT
  | OP_SWAP | OP_THROW | OP_CALL_FINALLY | OP_GOTO_FINALLY

primrec binary_num :: "binary_op \<Rightarrow> int" where
  "binary_num ADD = 0"
| "binary_num SUB = 199"
| "binary_num MUL = 137"
| "binary_num DIV = 55"
| "binary_num REM = 192"
| "binary_num SHL = 196"
| "binary_num SHR = 197"
| "binary_num USHR = 204"
| "binary_num BIT_AND = 3"
| "binary_num BIT_OR = 146"
| "binary_num BIT_XOR = 205"
| "binary_num COMPARE_EQ = 37"
| "binary_num COMPARE_STRICTLY_EQ = 38"
| "binary_num COMPARE_NE = 44"
| "binary_num COMPARE_STRICTLY_NE = 45"
| "binary_num COMPARE_GE = 40"
| "binary_num COMPARE_GT = 41"
| "binary_num COMPARE_LE = 42"
| "binary_num COMPARE_LT = 43"
| "binary_num INST_OF = 66"
| "binary_num IS_A = 67"
| "binary_num CAST = 34"
| "binary_num IN = 134"

primrec unary_num :: "unary_op \<Rightarrow> int" where
  "unary_num NEG = 138"
| "unary_num LOGICAL_NOT = 136"
| "unary_num BIT_NOT = 143"
| "unary_num TYPE_OF = 203"

primrec opnum :: "opcode \<Rightarrow> int" where
  "opnum (OP_BINARY b) = binary_num b"
| "opnum (OP_UNARY u) = unary_num u"
| "opnum OP_BRANCH_FALSE = 7"
| "opnum OP_BRANCH_TRUE = 16"
| "opnum OP_BRANCH_FALSE_8 = 19"
| "opnum OP_BRANCH_TRUE_8 = 20"
| "opnum OP_CLOSE_BLOCK = 36"
| "opnum OP_DUP = 56"
| "opnum OP_END_CODE = 59"
| "opnum OP_END_EXCEPTION = 60"
| "opnum OP_GOTO = 61"
| "opnum OP_GOTO_8 = 62"
| "opnum OP_INC = 63"
| "opnum (OP_LOAD_N n) = 68 + int n"
| "opnum OP_LOAD_DOUBLE = 78"
| "opnum OP_LOAD_FALSE = 79"
| "opnum OP_LOAD_INT = 81"
| "opnum OP_LOAD_M1 = 82"
| "opnum OP_LOAD_NULL = 84"
| "opnum OP_LOAD_THIS = 87"
| "opnum OP_LOAD_TRUE = 90"
| "opnum OP_LOAD_UNDEFINED = 91"
| "opnum (OP_GET_LOCAL_SLOT_N n) = 93 + int n"
| "opnum OP_GET_LOCAL_SLOT = 129"
| "opnum OP_NOP = 142"
| "opnum OP_POP = 147"
| "opnum OP_POP_ITEMS = 148"
| "opnum OP_PUSH_CATCH_ARG = 149"
| "opnum (OP_PUT_LOCAL_SLOT_N n) = 151 + int n"
| "opnum OP_PUT_LOCAL_SLOT = 187"
| "opnum OP_RETURN = 193"
| "opnum OP_RETURN_VALUE = 194"
| "opnum OP_SAVE_RESULT = 195"
| "opnum OP_SWAP = 201"
| "opnum OP_THROW = 202"
| "opnum OP_CALL_FINALLY = 206"
| "opnum OP_GOTO_FINALLY = 207"

definition opcodes :: "opcode list" where
  "opcodes =
     map OP_BINARY
       [ADD, SUB, MUL, DIV, REM, SHL, SHR, USHR, BIT_AND, BIT_OR, BIT_XOR, COMPARE_EQ,
         COMPARE_STRICTLY_EQ, COMPARE_NE, COMPARE_STRICTLY_NE, COMPARE_GE, COMPARE_GT, COMPARE_LE,
         COMPARE_LT, INST_OF, IS_A, CAST, IN]
     @ map OP_UNARY [NEG, LOGICAL_NOT, BIT_NOT, TYPE_OF]
     @ map OP_LOAD_N [0..<10] @ map OP_GET_LOCAL_SLOT_N [0..<10] @ map OP_PUT_LOCAL_SLOT_N [0..<10]
     @
       [OP_BRANCH_FALSE, OP_BRANCH_TRUE, OP_BRANCH_FALSE_8, OP_BRANCH_TRUE_8, OP_CLOSE_BLOCK,
         OP_DUP, OP_END_CODE, OP_END_EXCEPTION, OP_GOTO, OP_GOTO_8, OP_INC, OP_LOAD_DOUBLE,
         OP_LOAD_FALSE, OP_LOAD_INT, OP_LOAD_M1, OP_LOAD_NULL, OP_LOAD_THIS, OP_LOAD_TRUE,
         OP_LOAD_UNDEFINED, OP_GET_LOCAL_SLOT, OP_NOP, OP_POP, OP_POP_ITEMS, OP_PUSH_CATCH_ARG,
         OP_PUT_LOCAL_SLOT, OP_RETURN, OP_RETURN_VALUE, OP_SAVE_RESULT, OP_SWAP, OP_THROW,
         OP_CALL_FINALLY, OP_GOTO_FINALLY]"

definition opcode_of :: "u8 \<Rightarrow> opcode option" where
  "opcode_of b = find (\<lambda>op. opnum op = uint b) opcodes"

text \<open>The kinds of operands and the change of the depth of the operand stack, as tabulated.\<close>

datatype operand = EBC_NONE | EBC_BYTE | EBC_JMP8 | EBC_JMP | EBC_NUM | EBC_DOUBLE

fun operand_kind :: "opcode \<Rightarrow> operand" where
  "operand_kind OP_BRANCH_FALSE = EBC_JMP"
| "operand_kind OP_BRANCH_TRUE = EBC_JMP"
| "operand_kind OP_BRANCH_FALSE_8 = EBC_JMP8"
| "operand_kind OP_BRANCH_TRUE_8 = EBC_JMP8"
| "operand_kind OP_GOTO = EBC_JMP"
| "operand_kind OP_GOTO_8 = EBC_JMP8"
| "operand_kind OP_INC = EBC_BYTE"
| "operand_kind OP_LOAD_DOUBLE = EBC_DOUBLE"
| "operand_kind OP_LOAD_INT = EBC_NUM"
| "operand_kind OP_GET_LOCAL_SLOT = EBC_NUM"
| "operand_kind OP_POP_ITEMS = EBC_BYTE"
| "operand_kind OP_PUT_LOCAL_SLOT = EBC_NUM"
| "operand_kind op = EBC_NONE"

text \<open>\<open>EBC_POPN\<close>, the effect of \<open>POP_ITEMS\<close>, is \<open>None\<close>.\<close>

fun ejsOptable :: "opcode \<Rightarrow> int option" where
  "ejsOptable (OP_BINARY b) = Some (-1)"
| "ejsOptable (OP_UNARY u) = Some (if u = TYPE_OF then -1 else 0)"
| "ejsOptable OP_BRANCH_FALSE = Some (-1)"
| "ejsOptable OP_BRANCH_TRUE = Some (-1)"
| "ejsOptable OP_BRANCH_FALSE_8 = Some (-1)"
| "ejsOptable OP_BRANCH_TRUE_8 = Some (-1)"
| "ejsOptable OP_CLOSE_BLOCK = Some 0"
| "ejsOptable OP_DUP = Some 1"
| "ejsOptable OP_END_CODE = Some 0"
| "ejsOptable OP_END_EXCEPTION = Some 0"
| "ejsOptable OP_GOTO = Some 0"
| "ejsOptable OP_GOTO_8 = Some 0"
| "ejsOptable OP_INC = Some 0"
| "ejsOptable (OP_LOAD_N n) = Some 1"
| "ejsOptable OP_LOAD_DOUBLE = Some 1"
| "ejsOptable OP_LOAD_FALSE = Some 1"
| "ejsOptable OP_LOAD_INT = Some 1"
| "ejsOptable OP_LOAD_M1 = Some 1"
| "ejsOptable OP_LOAD_NULL = Some 1"
| "ejsOptable OP_LOAD_THIS = Some 1"
| "ejsOptable OP_LOAD_TRUE = Some 1"
| "ejsOptable OP_LOAD_UNDEFINED = Some 1"
| "ejsOptable (OP_GET_LOCAL_SLOT_N n) = Some 1"
| "ejsOptable OP_GET_LOCAL_SLOT = Some 1"
| "ejsOptable OP_NOP = Some 0"
| "ejsOptable OP_POP = Some (-1)"
| "ejsOptable OP_POP_ITEMS = None"
| "ejsOptable OP_PUSH_CATCH_ARG = Some 1"
| "ejsOptable (OP_PUT_LOCAL_SLOT_N n) = Some (-1)"
| "ejsOptable OP_PUT_LOCAL_SLOT = Some (-1)"
| "ejsOptable OP_RETURN = Some 0"
| "ejsOptable OP_RETURN_VALUE = Some (-1)"
| "ejsOptable OP_SAVE_RESULT = Some (-1)"
| "ejsOptable OP_SWAP = Some 0"
| "ejsOptable OP_THROW = Some 0"
| "ejsOptable OP_CALL_FINALLY = Some 0"
| "ejsOptable OP_GOTO_FINALLY = Some 0"


section \<open>Decoding an instruction\<close>

text \<open>
  A double is its 64-bit pattern, stored with the low byte first (the byte order of the host).
  \<open>EJS_OP_LOAD_DOUBLE\<close> and the compiler use the same order.
\<close>

definition ejsEncodeDouble :: "u64 \<Rightarrow> u8 list" where
  "ejsEncodeDouble number = map (\<lambda>i. ucast (drop_bit (8 * i) number)) [0..<8]"

definition ejsDecodeDouble :: "u8 list \<Rightarrow> (u64 \<times> u8 list) res" where
  "ejsDecodeDouble pp =
     (if 8 \<le> length pp
      then Ok (fold (\<lambda>i v. v OR push_bit (8 * i) (ucast (pp ! i))) [0..<8] 0, drop 8 pp)
      else Fault)"

definition schar :: "u8 \<Rightarrow> int" where
  "schar b = sint b"

text \<open>The operand of an instruction as an integer, and the bytes after it.\<close>

fun get_operand :: "operand \<Rightarrow> u8 list \<Rightarrow> (int \<times> u8 list) res" where
  "get_operand EBC_NONE bs = Ok (0, bs)"
| "get_operand EBC_BYTE bs = (case bs of [] \<Rightarrow> Fault | b # rest \<Rightarrow> Ok (uint b, rest))"
| "get_operand EBC_JMP8 bs = (case bs of [] \<Rightarrow> Fault | b # rest \<Rightarrow> Ok (schar b, rest))"
| "get_operand EBC_JMP bs = bind_res (ejsDecodeInt32 bs) (\<lambda>(w, rest). Ok (sint w, rest))"
| "get_operand EBC_NUM bs = bind_res (ejsDecodeNum bs) (\<lambda>(w, rest). Ok (sint w, rest))"
| "get_operand EBC_DOUBLE bs = bind_res (ejsDecodeDouble bs) (\<lambda>(w, rest). Ok (uint w, rest))"

text \<open>
  The instruction at an offset of the code: opcode, operand, and the offset of the next instruction.
  \<open>None\<close> stands for reading past the end of the code and for the opcodes that are not modelled.
\<close>

definition fetch :: "u8 list \<Rightarrow> nat \<Rightarrow> (opcode \<times> int \<times> nat) option" where
  "fetch code pc =
     (case drop pc code of [] \<Rightarrow> None
      | b # rest \<Rightarrow>
          (case opcode_of b of None \<Rightarrow> None
           | Some op \<Rightarrow>
               (case get_operand (operand_kind op) rest of
                  Ok (n, rest') \<Rightarrow> Some (op, n, length code - length rest')
                | _ \<Rightarrow> None)))"


section \<open>Encoding and decoding are inverse\<close>

fun operand_bytes :: "operand \<Rightarrow> int \<Rightarrow> u8 list" where
  "operand_bytes EBC_NONE n = []"
| "operand_bytes EBC_BYTE n = [word_of_int n]"
| "operand_bytes EBC_JMP8 n = [word_of_int n]"
| "operand_bytes EBC_JMP n = the (ejsEncodeInt32 (word_of_int n))"
| "operand_bytes EBC_NUM n = ejsEncodeNum (word_of_int n)"
| "operand_bytes EBC_DOUBLE n = ejsEncodeDouble (word_of_int n)"

fun operand_fits :: "operand \<Rightarrow> int \<Rightarrow> bool" where
  "operand_fits EBC_NONE n \<longleftrightarrow> n = 0"
| "operand_fits EBC_BYTE n \<longleftrightarrow> 0 \<le> n \<and> n < 256"
| "operand_fits EBC_JMP8 n \<longleftrightarrow> - 128 \<le> n \<and> n < 128"
| "operand_fits EBC_JMP n \<longleftrightarrow> \<bar>n\<bar> < 2 ^ 27"
| "operand_fits EBC_NUM n \<longleftrightarrow> \<bar>n\<bar> < 2 ^ 32"
| "operand_fits EBC_DOUBLE n \<longleftrightarrow> 0 \<le> n \<and> n < 2 ^ 64"

definition instruction :: "opcode \<Rightarrow> int \<Rightarrow> u8 list" where
  "instruction op n = word_of_int (opnum op) # operand_bytes (operand_kind op) n"

lemma find_inj:
  "x \<in> set xs \<Longrightarrow> distinct (map f xs) \<Longrightarrow> find (\<lambda>y. f y = f x) xs = Some x"
  by (induction xs) (auto simp: image_iff)

lemma opnum_distinct: "distinct (map opnum opcodes)"
  by code_simp

lemma opnum_range: "op \<in> set opcodes \<Longrightarrow> 0 \<le> opnum op \<and> opnum op < 256"
proof -
  have "list_all (\<lambda>op. 0 \<le> opnum op \<and> opnum op < 256) opcodes" by code_simp
  then show "op \<in> set opcodes \<Longrightarrow> 0 \<le> opnum op \<and> opnum op < 256" by (simp add: list_all_iff)
qed

lemma opcode_of_opnum:
  assumes "op \<in> set opcodes"
  shows "opcode_of (word_of_int (opnum op)) = Some op"
proof -
  have "uint (word_of_int (opnum op) :: u8) = opnum op"
    using opnum_range [OF assms] by (simp add: uint_word_of_int_eq take_bit_int_eq_self)
  with find_inj [OF assms opnum_distinct] show ?thesis by (simp add: opcode_of_def)
qed

lemma join_bytes:
  "fold (\<lambda>i v. v OR push_bit (8 * i) (ucast (ucast (drop_bit (8 * i) d) :: u8))) [0..<k] 0
     = (take_bit (8 * k) d :: u64)"
proof (induction k)
  case (Suc k)
  have "take_bit (8 * k) d OR push_bit (8 * k) (ucast (ucast (drop_bit (8 * k) d) :: u8))
      = take_bit (8 * Suc k) d"
    by (rule bit_eqI) (auto simp: bit_simps)
  with Suc show ?case by simp
qed simp

lemma double_round_trip: "ejsDecodeDouble (ejsEncodeDouble d @ rest) = Ok (d, rest)"
proof -
  have "fold (\<lambda>i v. v OR push_bit (8 * i) (ucast ((ejsEncodeDouble d @ rest) ! i))) [0..<8] 0
      = fold (\<lambda>i v. v OR push_bit (8 * i) (ucast (ucast (drop_bit (8 * i) d) :: u8))) [0..<8] (0 :: u64)"
    by (rule fold_cong) (auto simp: ejsEncodeDouble_def nth_append)
  also have "\<dots> = d" unfolding join_bytes by (simp add: take_bit_word_eq_self)
  finally show ?thesis by (simp add: ejsDecodeDouble_def) (simp add: ejsEncodeDouble_def)
qed

lemma get_operand_bytes:
  assumes "operand_fits k n"
  shows "get_operand k (operand_bytes k n @ rest) = Ok (n, rest)"
  using assms
proof (cases k)
  case EBC_BYTE
  with assms show ?thesis by (simp add: uint_word_of_int_eq take_bit_int_eq_self)
next
  case EBC_JMP8
  with assms show ?thesis by (simp add: schar_def sint_sbintrunc' signed_take_bit_int_eq_self)
next
  case EBC_JMP
  with assms have s: "sint (word_of_int n :: u32) = n"
    by (simp add: sint_sbintrunc' signed_take_bit_int_eq_self abs_less_iff)
  with EBC_JMP assms have "\<bar>sint (word_of_int n :: u32)\<bar> \<le> 0x07FFFFFF" by simp
  from encode_int32_Some [OF this] s EBC_JMP show ?thesis by auto
next
  case EBC_NUM
  with assms have "sint (word_of_int n :: u64) = n"
    by (simp add: sint_sbintrunc' signed_take_bit_int_eq_self abs_less_iff)
  with decode_encode_num [of "word_of_int n"] EBC_NUM assms show ?thesis by simp
next
  case EBC_DOUBLE
  with assms double_round_trip show ?thesis by (simp add: uint_word_of_int_eq take_bit_int_eq_self)
qed simp

lemma fetch_emitted:
  assumes "op \<in> set opcodes" and "operand_fits (operand_kind op) n"
  shows "fetch (before @ instruction op n @ rest) (length before)
    = Some (op, n, length before + length (instruction op n))"
  by (simp add: fetch_def instruction_def opcode_of_opnum [OF assms(1)]
      get_operand_bytes [OF assms(2)])

text \<open>
  C23: Every instruction that the compiler can emit, with an operand in the range of its encoding,
  is decoded by the interpreter to the same opcode and operand, and the next instruction starts
  right behind it, whatever code surrounds it.
\<close>

theorem fetch_instruction:
  assumes "op \<in> set opcodes" and "operand_fits (operand_kind op) n"
  shows "fetch (before @ instruction op n @ rest) (length before)
    = Some (op, n, length before + length (instruction op n))"
  using assms by (rule fetch_emitted)

theorem fetch_instruction_witness:
  "fetch ([1, 2] @ instruction OP_GOTO (- 300) @ [7]) (length [1, 2 :: u8])
     = Some (OP_GOTO, - 300, length [1, 2 :: u8] + length (instruction OP_GOTO (- 300)))"
  by (rule fetch_instruction) (simp_all add: opcodes_def)

end
