(* ===== verification/CodeGen.thy ===== *)
theory CodeGen
  imports ByteCode
begin

text \<open>
  The code generator of the compiler (\<open>src/src/compiler/ecCodeGen.c\<close>) for the bodies of functions:
  expressions over local variables, branches, loops, switch, break and continue, return, throw and
  try. A part of a statement whose length must be known for a jump is generated into a buffer of its
  own and then copied; the jumps of \<open>break\<close> and \<open>continue\<close> are holes of four bytes that are patched
  when the enclosing statement is complete.

  Names are bound to slots of the activation of the current function. Debug lines and string constants
  are not generated here. The structure \<open>EcState\<close> is copied at the entry of every routine and
  dropped at its end, so its fields are arguments (\<open>state\<close>) of the routines, except for the code
  buffer, which is the result.
\<close>

section \<open>The abstract syntax tree\<close>

text \<open>The tokens of operators (\<open>tokenId\<close> of a node).\<close>

datatype token =
    T_BIT_AND | T_BIT_OR | T_BIT_XOR | T_DIV | T_EQ | T_NE | T_GT | T_GE | T_LT | T_LE
  | T_STRICT_EQ | T_STRICT_NE | T_LSH | T_MINUS | T_MOD | T_MUL | T_PLUS | T_RSH | T_RSH_ZERO
  | T_IS | T_INSTANCEOF | T_CAST | T_IN | T_LOGICAL_AND | T_LOGICAL_OR | T_LOGICAL_NOT
  | T_PLUS_PLUS | T_MINUS_MINUS | T_TILDE | T_TYPEOF | T_VOID

text \<open>A number literal is the 64-bit pattern of a double.\<close>

datatype literal = LBool bool | LNumber u64 | LNull | LVoid

text \<open>
  Expression nodes: literals, names bound to a local slot, assignments with the flag \<open>needDup\<close>,
  binary, unary and postfix operators, the conditional operator (an \<open>N_IF\<close> node) and lists of
  expressions, which is also what a parenthesised expression is parsed to.
\<close>

datatype expr =
    N_LITERAL literal
  | N_QNAME nat
  | N_ASSIGN_OP bool expr expr
  | N_BINARY_OP token expr expr
  | N_UNARY_OP token expr
  | N_POSTFIX_OP token expr
  | N_TENARY expr expr expr
  | N_EXPRESSIONS "expr list"
  | N_CATCH_ARG

text \<open>
  Statement nodes. The initializer of a variable is an assignment node; a block has no lexical block
  object. The catch clauses of a try have the type they catch and their block, and the number of
  lexical blocks that are open around the try.
\<close>

datatype stmt =
    N_EXPRESSION expr
  | N_NOP
  | N_VAR_DEFINITION "expr option list"
  | N_BLOCK "stmt list"
  | N_DIRECTIVES "stmt list"
  | N_IF expr stmt "stmt option"
  | N_FOR "stmt option" "expr option" "expr option" "stmt option"
  | N_DO stmt expr
  | N_BREAK
  | N_CONTINUE
  | N_SWITCH expr "(expr option \<times> stmt list) list"
  | N_RETURN "expr option" bool
  | N_THROW expr
  | N_TRY stmt "(string option \<times> stmt) list" "stmt option" nat

section \<open>The state of the generator\<close>

text \<open>\<open>EcCodeGen\<close>: a buffer with the jumps to patch in it and the exception handlers.\<close>

datatype jump_kind = EC_JUMP_BREAK | EC_JUMP_CONTINUE

datatype handler_kind = EJS_EX_CATCH | EJS_EX_FINALLY

record handler =
  tryStart :: nat
  tryEnd :: nat
  catchType :: string
  handlerStart :: nat
  handlerEnd :: nat
  numBlocks :: nat
  numStack :: int
  hflags :: handler_kind

record codegen =
  buf :: "u8 list"
  jumps :: "(jump_kind \<times> nat) list"
  exceptions :: "handler list"
  jumpKinds :: "jump_kind set"
  breakMark :: int
  blockMark :: int
  stackCount :: int
  blockCount :: int

text \<open>The compiler: the current buffer, the last opcode written, the error flag, the optimization level.\<close>

record compiler =
  code :: codegen
  lastOp :: int
  error :: bool
  optimizeLevel :: int

text \<open>
  What a routine inherits through \<open>EcState\<close>, and the facts on the function being compiled:
  whether it has a result type, whether that is Void, whether it is a constructor, and whether it has
  a return statement with a value.
\<close>

record function_info =
  resultType :: bool
  resultVoid :: bool
  isConstructor :: bool
  hasReturn :: bool

record state =
  needsValue :: bool
  onLeft :: bool
  captureFinally :: bool
  captureBreak :: bool
  currentFunction :: function_info

section \<open>Writing code\<close>

definition on_code :: "(codegen \<Rightarrow> codegen) \<Rightarrow> compiler \<Rightarrow> compiler" where
  "on_code f cp = cp\<lparr>code := f (code cp)\<rparr>"

definition emit :: "u8 list \<Rightarrow> compiler \<Rightarrow> compiler" where
  "emit bs = on_code (\<lambda>c. c\<lparr>buf := buf c @ bs\<rparr>)"

definition encodeByte :: "int \<Rightarrow> compiler \<Rightarrow> compiler" where
  "encodeByte value = emit [word_of_int value]"

definition encodeOpcode :: "int \<Rightarrow> compiler \<Rightarrow> compiler" where
  "encodeOpcode opcode cp = encodeByte opcode (cp\<lparr>lastOp := opcode\<rparr>)"

definition encodeNum :: "int \<Rightarrow> compiler \<Rightarrow> compiler" where
  "encodeNum number = emit (ejsEncodeNum (word_of_int number))"

definition encodeDouble :: "u64 \<Rightarrow> compiler \<Rightarrow> compiler" where
  "encodeDouble number = emit (ejsEncodeDouble number)"

text \<open>A number that does not fit writes nothing.\<close>

definition encodeInt32 :: "int \<Rightarrow> compiler \<Rightarrow> compiler" where
  "encodeInt32 number =
     (case ejsEncodeInt32 (word_of_int number) of None \<Rightarrow> id | Some bs \<Rightarrow> emit bs)"

definition getCodeLength :: "codegen \<Rightarrow> nat" where
  "getCodeLength c = length (buf c)"

definition getStackCount :: "compiler \<Rightarrow> int" where
  "getStackCount cp = stackCount (code cp)"

definition setStack :: "int \<Rightarrow> compiler \<Rightarrow> compiler" where
  "setStack count = on_code (\<lambda>c. c\<lparr>stackCount := count\<rparr>)"

definition pushStack :: "int \<Rightarrow> compiler \<Rightarrow> compiler" where
  "pushStack count = on_code (\<lambda>c. c\<lparr>stackCount := stackCount c + count\<rparr>)"

definition popStack :: "int \<Rightarrow> compiler \<Rightarrow> compiler" where
  "popStack count = on_code (\<lambda>c. c\<lparr>stackCount := stackCount c - count\<rparr>)"

definition genError :: "compiler \<Rightarrow> compiler" where
  "genError cp = cp\<lparr>error := True\<rparr>"

definition discardStackItems :: "int \<Rightarrow> compiler \<Rightarrow> compiler" where
  "discardStackItems preserve cp =
     (let count = stackCount (code cp) - preserve
      in if count \<le> 0 then cp
         else if count = 1 then popStack count (encodeOpcode (opnum OP_POP) cp)
         else popStack count (encodeByte count (encodeOpcode (opnum OP_POP_ITEMS) cp)))"

definition discardBlockItems :: "int \<Rightarrow> compiler \<Rightarrow> compiler" where
  "discardBlockItems preserve cp =
     (let count = blockCount (code cp) - preserve;
          cp = (encodeOpcode (opnum OP_CLOSE_BLOCK) ^^ nat count) cp
      in on_code (\<lambda>c. c\<lparr>blockCount := blockCount c - count\<rparr>) cp)"

text \<open>A new buffer inherits the marks and counters of the current one.\<close>

definition allocCodeBuffer :: "compiler \<Rightarrow> compiler" where
  "allocCodeBuffer = on_code (\<lambda>c. c\<lparr>buf := [], jumps := [], exceptions := []\<rparr>)"

definition setCodeBuffer :: "codegen \<Rightarrow> compiler \<Rightarrow> compiler" where
  "setCodeBuffer saveCode cp = cp\<lparr>code := saveCode\<rparr>"

definition shift_handler :: "nat \<Rightarrow> handler \<Rightarrow> handler" where
  "shift_handler base h =
     h\<lparr>tryStart := tryStart h + base, tryEnd := tryEnd h + base,
       handlerStart := handlerStart h + base, handlerEnd := handlerEnd h + base\<rparr>"

definition copyCodeBuffer :: "codegen \<Rightarrow> codegen \<Rightarrow> codegen" where
  "copyCodeBuffer dest src =
     (if getCodeLength src \<le> 0 then dest
      else let baseOffset = length (buf dest)
           in dest\<lparr>buf := buf dest @ buf src,
                   jumps := jumps dest @ map (\<lambda>(kind, offset). (kind, offset + baseOffset)) (jumps src),
                   exceptions := exceptions dest @ map (shift_handler baseOffset) (exceptions src)\<rparr>)"

definition copyCode :: "codegen \<Rightarrow> compiler \<Rightarrow> compiler" where
  "copyCode src = on_code (\<lambda>dest. copyCodeBuffer dest src)"

definition ecStartBreakableStatement :: "jump_kind set \<Rightarrow> compiler \<Rightarrow> compiler" where
  "ecStartBreakableStatement kinds =
     on_code (\<lambda>c. c\<lparr>jumpKinds := jumpKinds c \<union> kinds, breakMark := stackCount c,
                    blockMark := blockCount c\<rparr>)"

definition addJump :: "jump_kind \<Rightarrow> compiler \<Rightarrow> compiler" where
  "addJump kind = on_code (\<lambda>c. c\<lparr>jumps := jumps c @ [(kind, length (buf c))]\<rparr>)"

definition addException ::
  "nat \<Rightarrow> nat \<Rightarrow> string \<Rightarrow> nat \<Rightarrow> nat \<Rightarrow> nat \<Rightarrow> int \<Rightarrow> handler_kind \<Rightarrow> compiler \<Rightarrow> compiler" where
  "addException ts te ct hs he nb ns flags =
     on_code (\<lambda>c. c\<lparr>exceptions := exceptions c @
       [\<lparr>tryStart = ts, tryEnd = te, catchType = ct, handlerStart = hs, handlerEnd = he,
         numBlocks = nb, numStack = ns, hflags = flags\<rparr>]\<rparr>)"

text \<open>
  \<open>patchJumps\<close> rescans the list from its start after every patch and removes the jump it patched. The
  offset of a patch lies in the buffer; a distance that does not fit in the encoding writes nothing.
\<close>

definition patch :: "nat \<Rightarrow> int \<Rightarrow> u8 list \<Rightarrow> u8 list" where
  "patch offset value b =
     (case ejsEncodeInt32AtPos b offset (word_of_int value) of Ok b' \<Rightarrow> b' | _ \<Rightarrow> b)"

fun patch_scan :: "jump_kind \<Rightarrow> nat \<Rightarrow> (jump_kind \<times> nat) list \<Rightarrow> u8 list \<Rightarrow>
    u8 list \<times> (jump_kind \<times> nat) list" where
  "patch_scan kind target [] b = (b, [])"
| "patch_scan kind target ((k, offset) # js) b =
     (if k = kind then patch_scan kind target js (patch offset (int target - int offset - 4) b)
      else let (b', js') = patch_scan kind target js b in (b', (k, offset) # js'))"

definition patchJumps :: "jump_kind \<Rightarrow> nat \<Rightarrow> compiler \<Rightarrow> compiler" where
  "patchJumps kind target =
     on_code (\<lambda>c. let (b, js) = patch_scan kind target (jumps c) (buf c)
                  in c\<lparr>buf := b, jumps := js\<rparr>)"

text \<open>
  A jump over \<open>len\<close> bytes in its short form, with one byte, or in its long form: the code sequence
  that follows every computation of a jump length.
\<close>

definition encodeJump :: "bool \<Rightarrow> opcode \<Rightarrow> opcode \<Rightarrow> int \<Rightarrow> compiler \<Rightarrow> compiler" where
  "encodeJump short op8 op len cp =
     (if short then encodeByte len (encodeOpcode (opnum op8) cp)
      else encodeInt32 len (encodeOpcode (opnum op) cp))"

definition jump_size :: "bool \<Rightarrow> nat" where
  "jump_size short = (if short then 2 else 5)"

definition short_jump :: "compiler \<Rightarrow> nat \<Rightarrow> nat \<Rightarrow> bool" where
  "short_jump cp limit len \<longleftrightarrow> len < limit \<and> 0 < optimizeLevel cp"


section \<open>Expressions\<close>

definition MAXINT :: int where
  "MAXINT = 0x7fffffff"

text \<open>
  The integer that the pattern of a double stands for: \<open>None\<close> for fractions, infinities and NaN,
  which \<open>floor\<close> or the comparisons with \<open>MAXINT\<close> send to the same branch.
\<close>

definition double_int :: "u64 \<Rightarrow> int option" where
  "double_int d =
     (let e = unat (take_bit 11 (drop_bit 52 d));
          m = uint (take_bit 52 d);
          neg = bit d 63;
          sign = (\<lambda>k. if neg then - k else k)
      in if e = 0 then (if m = 0 then Some 0 else None)
         else if e = 2047 then None
         else if 1075 \<le> e then Some (sign ((2 ^ 52 + m) * 2 ^ (e - 1075)))
         else if (2 ^ 52 + m) mod 2 ^ (1075 - e) = 0 then Some (sign ((2 ^ 52 + m) div 2 ^ (1075 - e)))
         else None)"

definition genLiteral :: "literal \<Rightarrow> compiler \<Rightarrow> compiler" where
  "genLiteral lit cp =
     pushStack 1
       (case lit of
          LBool b \<Rightarrow> encodeOpcode (opnum (if b then OP_LOAD_TRUE else OP_LOAD_FALSE)) cp
        | LNull \<Rightarrow> encodeOpcode (opnum OP_LOAD_NULL) cp
        | LVoid \<Rightarrow> encodeOpcode (opnum OP_LOAD_UNDEFINED) cp
        | LNumber d \<Rightarrow>
            (case double_int d of
               Some n \<Rightarrow>
                 if n \<le> - MAXINT \<or> MAXINT \<le> n
                 then encodeDouble d (encodeOpcode (opnum OP_LOAD_DOUBLE) cp)
                 else if 0 \<le> n \<and> n \<le> 9 then encodeOpcode (opnum (OP_LOAD_N 0) + n) cp
                 else encodeNum n (encodeOpcode (opnum OP_LOAD_INT) cp)
             | None \<Rightarrow> encodeDouble d (encodeOpcode (opnum OP_LOAD_DOUBLE) cp)))"

definition genLocalName :: "nat \<Rightarrow> state \<Rightarrow> compiler \<Rightarrow> compiler" where
  "genLocalName slotNum st cp =
     pushStack (if onLeft st then -1 else 1)
       (if slotNum < 10
        then encodeOpcode
          (opnum (if onLeft st then OP_PUT_LOCAL_SLOT_N 0 else OP_GET_LOCAL_SLOT_N 0) + int slotNum) cp
        else encodeNum (int slotNum)
          (encodeOpcode (opnum (if onLeft st then OP_PUT_LOCAL_SLOT else OP_GET_LOCAL_SLOT)) cp))"

text \<open>
  The state flag \<open>conditional\<close>, which would select fused branch instructions, is never set.
  The result for a token that is no binary operator is -1.
\<close>

fun token_op :: "token \<Rightarrow> opcode option" where
  "token_op T_BIT_AND = Some (OP_BINARY BIT_AND)"
| "token_op T_BIT_OR = Some (OP_BINARY BIT_OR)"
| "token_op T_BIT_XOR = Some (OP_BINARY BIT_XOR)"
| "token_op T_DIV = Some (OP_BINARY DIV)"
| "token_op T_EQ = Some (OP_BINARY COMPARE_EQ)"
| "token_op T_NE = Some (OP_BINARY COMPARE_NE)"
| "token_op T_GT = Some (OP_BINARY COMPARE_GT)"
| "token_op T_GE = Some (OP_BINARY COMPARE_GE)"
| "token_op T_LT = Some (OP_BINARY COMPARE_LT)"
| "token_op T_LE = Some (OP_BINARY COMPARE_LE)"
| "token_op T_STRICT_EQ = Some (OP_BINARY COMPARE_STRICTLY_EQ)"
| "token_op T_STRICT_NE = Some (OP_BINARY COMPARE_STRICTLY_NE)"
| "token_op T_LSH = Some (OP_BINARY SHL)"
| "token_op T_LOGICAL_NOT = Some (OP_UNARY BIT_NOT)"
| "token_op T_MINUS = Some (OP_BINARY SUB)"
| "token_op T_MOD = Some (OP_BINARY REM)"
| "token_op T_MUL = Some (OP_BINARY MUL)"
| "token_op T_PLUS = Some (OP_BINARY ADD)"
| "token_op T_RSH = Some (OP_BINARY SHR)"
| "token_op T_RSH_ZERO = Some (OP_BINARY USHR)"
| "token_op T_IS = Some (OP_BINARY IS_A)"
| "token_op T_INSTANCEOF = Some (OP_BINARY INST_OF)"
| "token_op T_CAST = Some (OP_BINARY CAST)"
| "token_op T_IN = Some (OP_BINARY IN)"
| "token_op _ = None"

definition mapToken :: "token \<Rightarrow> int" where
  "mapToken tokenId = (case token_op tokenId of Some op \<Rightarrow> opnum op | None \<Rightarrow> -1)"

text \<open>
  The routines that combine the code of operands take the generation of each operand as an
  argument; \<open>gen\<close> below is \<open>processNode\<close> and supplies them.
\<close>

type_synonym generator = "state \<Rightarrow> compiler \<Rightarrow> compiler"

definition genLogicalOp :: "token \<Rightarrow> generator \<Rightarrow> generator \<Rightarrow> generator" where
  "genLogicalOp tokenId left right st cp =
     (let doneIfTrue = (tokenId \<noteq> T_LOGICAL_AND);
          cp = left st cp;
          cp = encodeOpcode (opnum OP_DUP) cp;
          cp = popStack 1 (pushStack 1 cp);
          saveCode = code cp;
          cp = allocCodeBuffer cp;
          cp = encodeOpcode (opnum OP_POP) cp;
          cp = popStack 1 cp;
          cp = right st cp;
          rightCode = code cp;
          rightLen = getCodeLength rightCode;
          cp = setCodeBuffer saveCode cp;
          short = (0 < rightLen \<and> short_jump cp 0x7f rightLen);
          cp = encodeJump short (if doneIfTrue then OP_BRANCH_TRUE_8 else OP_BRANCH_FALSE_8)
                 (if doneIfTrue then OP_BRANCH_TRUE else OP_BRANCH_FALSE) (int rightLen) cp
      in copyCode rightCode cp)"

definition genBinaryOp :: "token \<Rightarrow> generator \<Rightarrow> generator \<Rightarrow> generator" where
  "genBinaryOp tokenId left right st cp =
     (let st = st\<lparr>needsValue := True\<rparr>
      in if tokenId = T_LOGICAL_AND \<or> tokenId = T_LOGICAL_OR
         then genLogicalOp tokenId left right st cp
         else let cp = left st cp;
                  cp = right st cp;
                  cp = encodeOpcode (mapToken tokenId) cp
              in pushStack 1 (popStack 2 cp))"

text \<open>
  A conditional statement and the conditional operator. The need for a value is that of the node
  itself (\<open>state->next->needsValue\<close>).
\<close>

definition check_value :: "int \<Rightarrow> compiler \<Rightarrow> compiler" where
  "check_value mark cp = (if stackCount (code cp) < mark + 1 then genError cp else cp)"

definition genIf :: "generator \<Rightarrow> generator \<Rightarrow> generator option \<Rightarrow> generator" where
  "genIf cond thenBlock elseBlock st cp =
     (let nv = needsValue st;
          cp = cond (st\<lparr>needsValue := True\<rparr>) cp;
          cp = popStack 1 cp;
          saveCode = code cp;
          cp = allocCodeBuffer cp;
          mark = getStackCount cp;
          cp = thenBlock st cp;
          cp = (if nv
                then let cp = discardStackItems (mark + 1) (check_value mark cp)
                     in if Option.is_none elseBlock then cp else setStack mark cp
                else discardStackItems mark cp);
          thenCode = code cp;
          cp = (case elseBlock of None \<Rightarrow> cp
                | Some g \<Rightarrow>
                    let cp = g st (allocCodeBuffer cp)
                    in if nv then discardStackItems (mark + 1) (check_value mark cp)
                       else discardStackItems mark cp);
          elseCode = code cp;
          elseLen = (if Option.is_none elseBlock then 0 else getCodeLength elseCode);
          thenLen = getCodeLength thenCode + jump_size (short_jump cp 0x7f elseLen);
          cp = setCodeBuffer saveCode cp;
          cp = encodeJump (short_jump cp 0x7f thenLen) OP_BRANCH_FALSE_8 OP_BRANCH_FALSE (int thenLen) cp;
          cp = copyCode thenCode cp;
          cp = encodeJump (short_jump cp 0x7f elseLen) OP_GOTO_8 OP_GOTO (int elseLen) cp;
          cp = (if Option.is_none elseBlock then cp else copyCode elseCode cp)
      in if nv then pushStack 1 cp else cp)"


text \<open>The flag that an enclosing assignment sets on its right operand.\<close>

fun mark_dup :: "expr \<Rightarrow> expr" where
  "mark_dup (N_ASSIGN_OP d l r) = N_ASSIGN_OP True l r"
| "mark_dup e = e"

lemma size_mark_dup [simp]: "size (mark_dup e) = size e"
  by (cases e) auto

text \<open>The left operand of an assignment; other kinds of nodes are reported as an error.\<close>

definition genLeftHandSide :: "expr \<Rightarrow> generator \<Rightarrow> generator" where
  "genLeftHandSide np g st cp =
     (case np of
        N_QNAME s \<Rightarrow> g (st\<lparr>onLeft := True\<rparr>) cp
      | N_EXPRESSIONS es \<Rightarrow> g (st\<lparr>onLeft := True\<rparr>) cp
      | _ \<Rightarrow> genError cp)"

definition genAssignOp :: "bool \<Rightarrow> expr \<Rightarrow> generator \<Rightarrow> generator \<Rightarrow> generator" where
  "genAssignOp needDup leftNode left right st cp =
     (let nv = needsValue st;
          st = st\<lparr>onLeft := False\<rparr>;
          cp = right (st\<lparr>needsValue := True\<rparr>) cp;
          cp = (if needDup \<or> nv then pushStack 1 (encodeOpcode (opnum OP_DUP) cp) else cp)
      in genLeftHandSide leftNode left (st\<lparr>needsValue := False\<rparr>) cp)"

definition genPostfixOp :: "token \<Rightarrow> expr \<Rightarrow> generator \<Rightarrow> generator" where
  "genPostfixOp tokenId leftNode left st cp =
     (let cp = left st cp;
          cp = encodeOpcode (opnum OP_DUP) cp;
          cp = encodeOpcode (opnum OP_INC) cp;
          cp = encodeByte (if tokenId = T_PLUS_PLUS then 1 else -1) cp;
          cp = genLeftHandSide leftNode left st cp
      in pushStack 1 cp)"

text \<open>\<open>++\<close> and \<open>--\<close> before their operand.\<close>

definition genPrefixOp :: "int \<Rightarrow> expr \<Rightarrow> generator \<Rightarrow> generator" where
  "genPrefixOp by leftNode left st cp =
     (let cp = left st cp;
          cp = encodeByte by (encodeOpcode (opnum OP_INC) cp);
          cp = pushStack 1 (encodeOpcode (opnum OP_DUP) cp)
      in genLeftHandSide leftNode left st cp)"

text \<open>An operator that is not listed generates nothing. \<open>void\<close> does not generate its operand.\<close>

definition genUnaryOp :: "token \<Rightarrow> expr \<Rightarrow> generator \<Rightarrow> generator" where
  "genUnaryOp tokenId leftNode left st cp =
     (case tokenId of
        T_LOGICAL_NOT \<Rightarrow>
          encodeOpcode (opnum (OP_UNARY LOGICAL_NOT)) (left (st\<lparr>needsValue := True\<rparr>) cp)
      | T_PLUS \<Rightarrow> left st cp
      | T_PLUS_PLUS \<Rightarrow> genPrefixOp 1 leftNode left st cp
      | T_MINUS \<Rightarrow> encodeOpcode (opnum (OP_UNARY NEG)) (left st cp)
      | T_MINUS_MINUS \<Rightarrow> genPrefixOp (-1) leftNode left st cp
      | T_TILDE \<Rightarrow> encodeOpcode (opnum (OP_UNARY BIT_NOT)) (left (st\<lparr>needsValue := True\<rparr>) cp)
      | T_TYPEOF \<Rightarrow> encodeOpcode (opnum (OP_UNARY TYPE_OF)) (left (st\<lparr>needsValue := True\<rparr>) cp)
      | T_VOID \<Rightarrow> pushStack 1 (encodeOpcode (opnum OP_LOAD_UNDEFINED) cp)
      | _ \<Rightarrow> cp)"

fun genExpressions :: "generator list \<Rightarrow> generator" where
  "genExpressions [] st cp = cp"
| "genExpressions (g # gs) st cp = genExpressions gs st (g st cp)"

text \<open>\<open>processNode\<close> on expressions.\<close>

function gen :: "expr \<Rightarrow> generator" where
  "gen (N_LITERAL lit) = (\<lambda>st. genLiteral lit)"
| "gen (N_QNAME slot) = genLocalName slot"
| "gen (N_ASSIGN_OP needDup l r) = genAssignOp needDup l (gen l) (gen (mark_dup r))"
| "gen (N_BINARY_OP tok l r) = genBinaryOp tok (gen l) (gen r)"
| "gen (N_UNARY_OP tok e) = genUnaryOp tok e (gen e)"
| "gen (N_POSTFIX_OP tok e) = genPostfixOp tok e (gen e)"
| "gen (N_TENARY c a b) = genIf (gen c) (gen a) (Some (gen b))"
| "gen (N_EXPRESSIONS es) = genExpressions (map gen es)"
| "gen N_CATCH_ARG = (\<lambda>st cp. pushStack 1 (encodeOpcode (opnum OP_PUSH_CATCH_ARG) cp))"
  by pat_completeness auto
termination
  by (relation "measure size") (auto simp: less_Suc_eq_le size_list_estimation')


section \<open>Statements\<close>

definition genBreak :: generator where
  "genBreak st cp =
     (let cp = discardBlockItems (blockMark (code cp)) cp;
          cp = (if captureFinally st then encodeOpcode (opnum OP_CALL_FINALLY) cp
                else if captureBreak st then encodeOpcode (opnum OP_END_EXCEPTION) cp else cp)
      in if EC_JUMP_BREAK \<notin> jumpKinds (code cp) then genError cp
         else let cp = discardStackItems (breakMark (code cp)) cp;
                  cp = encodeOpcode (opnum OP_GOTO) cp
              in encodeInt32 0 (addJump EC_JUMP_BREAK cp))"

definition genContinue :: generator where
  "genContinue st cp =
     (let cp = discardBlockItems (blockMark (code cp)) cp;
          cp = (if captureFinally st then encodeOpcode (opnum OP_CALL_FINALLY) cp
                else if captureBreak st then encodeOpcode (opnum OP_END_EXCEPTION) cp else cp)
      in if EC_JUMP_CONTINUE \<notin> jumpKinds (code cp) then genError cp
         else let cp = encodeOpcode (opnum OP_GOTO) cp
              in encodeInt32 0 (addJump EC_JUMP_CONTINUE cp))"

text \<open>Every directive is followed by the removal of what it left on the stack.\<close>

fun gen_children :: "int \<Rightarrow> generator list \<Rightarrow> generator" where
  "gen_children mark [] st cp = cp"
| "gen_children mark (g # gs) st cp =
     (if error cp then cp else gen_children mark gs st (discardStackItems mark (g st cp)))"

definition genDirectives :: "generator list \<Rightarrow> generator" where
  "genDirectives gs st cp = gen_children (getStackCount cp) gs st cp"

definition run_opt :: "generator option \<Rightarrow> generator" where
  "run_opt g st cp = (case g of None \<Rightarrow> cp | Some g \<Rightarrow> g st cp)"

text \<open>
  A loop with its test at the top. The buffers of the test, the body and the step are generated one
  after the other, each inheriting the counters of the one before.
\<close>

definition gen_part :: "generator \<Rightarrow> generator" where
  "gen_part g st cp = (let mark = getStackCount cp in discardStackItems mark (g st cp))"

definition gen_into ::
  "(generator \<Rightarrow> compiler \<Rightarrow> compiler) \<Rightarrow> generator option \<Rightarrow> compiler \<Rightarrow> codegen option \<times> compiler" where
  "gen_into run g cp =
     (case g of None \<Rightarrow> (None, cp)
      | Some g \<Rightarrow> let cp = run g (allocCodeBuffer cp) in (Some (code cp), cp))"

definition bufferLength :: "codegen option \<Rightarrow> nat" where
  "bufferLength c = (case c of None \<Rightarrow> 0 | Some c \<Rightarrow> getCodeLength c)"

definition copyOptional :: "codegen option \<Rightarrow> compiler \<Rightarrow> compiler" where
  "copyOptional c cp = (case c of None \<Rightarrow> cp | Some c \<Rightarrow> copyCode c cp)"

text \<open>The second half of \<open>genFor\<close>: the lengths of the jumps, and the copy of the parts.\<close>

definition copyFor ::
  "int \<Rightarrow> codegen option \<Rightarrow> codegen option \<Rightarrow> codegen option \<Rightarrow> compiler \<Rightarrow> compiler" where
  "copyFor startMark condCode bodyCode perLoopCode cp =
     (let bodyLen = bufferLength bodyCode;
          perLoopLen = bufferLength perLoopCode;
          condShort = short_jump cp (0x7f - 5) (bodyLen + perLoopLen);
          condLen = (if 0 < bufferLength condCode
                     then bufferLength condCode + jump_size condShort else bufferLength condCode);
          perLoopShort = short_jump cp (0x7f - 5) (condLen + bodyLen + perLoopLen);
          perLoopLen = perLoopLen + jump_size perLoopShort;
          cp = (case condCode of None \<Rightarrow> cp
                | Some c \<Rightarrow> encodeJump condShort OP_BRANCH_FALSE_8 OP_BRANCH_FALSE (int (bodyLen + perLoopLen))
                              (copyCode c cp));
          cp = copyOptional bodyCode cp;
          continueLabel = length (buf (code cp));
          cp = copyOptional perLoopCode cp;
          cp = encodeJump perLoopShort OP_GOTO_8 OP_GOTO (- int (condLen + bodyLen + perLoopLen)) cp;
          breakLabel = length (buf (code cp));
          cp = discardStackItems startMark cp
      in patchJumps EC_JUMP_CONTINUE continueLabel (patchJumps EC_JUMP_BREAK breakLabel cp))"

definition genFor :: "generator option \<Rightarrow> generator option \<Rightarrow> generator option \<Rightarrow> generator option \<Rightarrow> generator" where
  "genFor initializer cond perLoop body st cp =
     (let outerBlock = code cp;
          cp = allocCodeBuffer cp;
          startMark = getStackCount cp;
          st = st\<lparr>captureFinally := False, captureBreak := False\<rparr>;
          cp = run_opt (map_option gen_part initializer) st cp;
          cp = ecStartBreakableStatement {EC_JUMP_BREAK, EC_JUMP_CONTINUE} cp;
          loopCode = code cp;
          (condCode, cp) = gen_into (\<lambda>g cp. popStack 1 (g (st\<lparr>needsValue := True\<rparr>) cp)) cond cp;
          st = (if Option.is_none cond then st else st\<lparr>needsValue := False\<rparr>);
          (bodyCode, cp) = gen_into (\<lambda>g. gen_part g st) body cp;
          (perLoopCode, cp) = gen_into (\<lambda>g. gen_part g st) perLoop cp;
          cp = copyFor startMark condCode bodyCode perLoopCode (setCodeBuffer loopCode cp)
      in setCodeBuffer (copyCodeBuffer outerBlock (code cp)) cp)"

text \<open>
  A loop with its test at the bottom. Note where the label of \<open>continue\<close> is taken.
\<close>

definition genDo :: "generator \<Rightarrow> generator \<Rightarrow> generator" where
  "genDo body cond st cp =
     (let st = st\<lparr>captureFinally := False, captureBreak := False\<rparr>;
          outerBlock = code cp;
          cp = allocCodeBuffer cp;
          cp = ecStartBreakableStatement {EC_JUMP_BREAK, EC_JUMP_CONTINUE} cp;
          loopCode = code cp;
          cp = gen_part body st (allocCodeBuffer cp);
          bodyCode = code cp;
          cp = cond (st\<lparr>needsValue := True\<rparr>) (allocCodeBuffer cp);
          condCode = code cp;
          bodyLen = getCodeLength bodyCode;
          condLen = getCodeLength condCode;
          short = (0 < bodyLen + condLen \<and> short_jump cp 0x7f (bodyLen + condLen));
          condLen = (if 0 < bodyLen + condLen then condLen + jump_size short else condLen);
          cp = pushStack 1 (setCodeBuffer loopCode cp);
          continueLabel = length (buf (code cp));
          cp = copyCode bodyCode cp;
          cp = copyCode condCode cp;
          cp = encodeJump short OP_BRANCH_TRUE_8 OP_BRANCH_TRUE (- int (bodyLen + condLen)) cp;
          cp = popStack 1 cp;
          breakLabel = length (buf (code cp));
          cp = patchJumps EC_JUMP_BREAK breakLabel cp;
          cp = patchJumps EC_JUMP_CONTINUE continueLabel cp
      in setCodeBuffer (copyCodeBuffer outerBlock (code cp)) cp)"


text \<open>
  The code of the cases of a switch: the test, if the label is not \<open>default\<close>, and the statements,
  each generated into a buffer of its own.
\<close>

fun gen_cases :: "(generator option \<times> generator list) list \<Rightarrow> state \<Rightarrow> compiler \<Rightarrow>
    (codegen option \<times> codegen) list \<times> compiler" where
  "gen_cases [] st cp = ([], cp)"
| "gen_cases ((test, body) # cs) st cp =
     (if error cp then ([], cp)
      else let mark = getStackCount cp;
               (testCode, cp) =
                 (case test of None \<Rightarrow> (None, cp)
                  | Some g \<Rightarrow>
                      let cp = encodeOpcode (opnum OP_DUP) (allocCodeBuffer cp);
                          cp = popStack 1 (g st cp)
                      in (Some (code cp), cp));
               cp = genDirectives body st (allocCodeBuffer cp);
               bodyCode = code cp;
               cp = setStack mark cp;
               (rest, cp) = gen_cases cs st cp
           in ((testCode, bodyCode) # rest, cp))"

text \<open>
  The lengths of the jumps, from the last case backwards: for every case the length of the jump from
  its statements over the test of the next case, and of the jump from its failed test over its
  statements. The second component is the length of the test of the first case.
\<close>

fun case_layout :: "compiler \<Rightarrow> (codegen option \<times> codegen) list \<Rightarrow> (nat \<times> nat) list \<times> nat" where
  "case_layout cp [] = ([], 0)"
| "case_layout cp ((test, body) # cs) =
     (let (rest, nextCodeLen) = case_layout cp cs;
          nextCaseCode = nextCodeLen;
          jumpLength = (if 0 < nextCodeLen then jump_size (short_jump cp 0x7f nextCaseCode) else 0)
                       + getCodeLength body;
          nextCodeLen =
            (case test of None \<Rightarrow> 0
             | Some c \<Rightarrow> 1 + jump_size (short_jump cp 0x7f jumpLength) + getCodeLength c)
      in ((nextCaseCode, jumpLength) # rest, nextCodeLen))"

fun copy_cases :: "(codegen option \<times> codegen) list \<Rightarrow> (nat \<times> nat) list \<Rightarrow> compiler \<Rightarrow> compiler" where
  "copy_cases ((test, body) # cs) ((nextCaseCode, jumpLength) # ls) cp =
     (if error cp then cp
      else let cp = (case test of None \<Rightarrow> cp
                     | Some c \<Rightarrow>
                         encodeJump (short_jump cp 0x7f jumpLength) OP_BRANCH_FALSE_8 OP_BRANCH_FALSE
                           (int jumpLength)
                           (encodeOpcode (opnum (OP_BINARY COMPARE_STRICTLY_EQ)) (copyCode c cp)));
               cp = copyCode body cp;
               cp = (if 0 < nextCaseCode
                     then encodeJump (short_jump cp 0x7f nextCaseCode) OP_GOTO_8 OP_GOTO (int nextCaseCode) cp
                     else cp)
           in copy_cases cs ls cp)"
| "copy_cases _ _ cp = cp"

definition genSwitch :: "generator \<Rightarrow> (generator option \<times> generator list) list \<Rightarrow> generator" where
  "genSwitch expression elements st cp =
     (let st = st\<lparr>captureFinally := False, captureBreak := False\<rparr>;
          outerBlock = code cp;
          cp = expression st (allocCodeBuffer cp);
          cp = ecStartBreakableStatement {EC_JUMP_BREAK} cp;
          switchCode = code cp;
          (cases, cp) = gen_cases elements st cp;
          (lens, _) = case_layout cp cases;
          cp = setCodeBuffer switchCode cp;
          cp = copy_cases cases lens cp;
          cp = popStack 1 cp;
          totalLen = length (buf (code cp));
          cp = patchJumps EC_JUMP_BREAK totalLen cp;
          cp = encodeOpcode (opnum OP_POP) cp
      in setCodeBuffer (copyCodeBuffer outerBlock (code cp)) cp)"

definition genReturn :: "generator option \<Rightarrow> bool \<Rightarrow> generator" where
  "genReturn left blockless st cp =
     (let cp = (if captureFinally st then encodeOpcode (opnum OP_CALL_FINALLY) cp else cp);
          f = currentFunction st
      in case left of
           Some g \<Rightarrow>
             if \<not> resultType f \<or> \<not> resultVoid f
             then popStack 1 (encodeOpcode (opnum OP_RETURN_VALUE) (g (st\<lparr>needsValue := True\<rparr>) cp))
             else if blockless then g st cp else cp
         | None \<Rightarrow>
             if isConstructor f
             then encodeOpcode (opnum OP_RETURN_VALUE) (encodeOpcode (opnum OP_LOAD_THIS) cp)
             else encodeOpcode (opnum OP_RETURN) cp)"

definition genThrow :: "generator \<Rightarrow> generator" where
  "genThrow left st cp =
     popStack 1 (encodeOpcode (opnum OP_THROW) (left (st\<lparr>needsValue := True\<rparr>) cp))"

fun gen_catches :: "bool \<Rightarrow> generator list \<Rightarrow> state \<Rightarrow> compiler \<Rightarrow> codegen list \<times> compiler" where
  "gen_catches hasFinally [] st cp = ([], cp)"
| "gen_catches hasFinally (g # gs) st cp =
     (if error cp then ([], cp)
      else let cp = g st (allocCodeBuffer cp);
               cp = (if hasFinally then cp else encodeOpcode (opnum OP_END_EXCEPTION) cp);
               c = code cp;
               (cs, cp) = gen_catches hasFinally gs st cp
           in (c # cs, cp))"

text \<open>The length of the jump at the end of every catch clause, and the length of all of them.\<close>

fun catch_layout :: "compiler \<Rightarrow> bool \<Rightarrow> codegen list \<Rightarrow> nat list \<times> nat" where
  "catch_layout cp hasFinally [] = ([], 0)"
| "catch_layout cp hasFinally (c # cs) =
     (let (ls, len) = catch_layout cp hasFinally cs;
          jumpLength = len;
          len = (if 0 < jumpLength \<and> hasFinally
                 then len + jump_size (short_jump cp 0x7f jumpLength) else len)
      in (jumpLength # ls, len + getCodeLength c))"

fun copy_catches ::
  "nat \<Rightarrow> nat \<Rightarrow> nat \<Rightarrow> int \<Rightarrow> bool \<Rightarrow> (string option \<times> codegen \<times> nat) list \<Rightarrow> compiler \<Rightarrow> compiler"
where
  "copy_catches ts te nb ns hasFinally [] cp = cp"
| "copy_catches ts te nb ns hasFinally ((type, c, jumpLength) # cs) cp =
     (if error cp then cp
      else let hs = length (buf (code cp));
               cp = copyCode c cp;
               cp = (if 0 < jumpLength \<and> hasFinally
                     then encodeJump (short_jump cp 0x7f jumpLength) OP_GOTO_8 OP_GOTO (int jumpLength) cp
                     else cp);
               he = length (buf (code cp));
               cp = addException ts te (case type of None \<Rightarrow> ''Void'' | Some t \<Rightarrow> t) hs he nb ns EJS_EX_CATCH cp
           in copy_catches ts te nb ns hasFinally cs cp)"

definition genTry ::
  "generator \<Rightarrow> (string option \<times> generator) list \<Rightarrow> generator option \<Rightarrow> nat \<Rightarrow> generator" where
  "genTry tryBlock catchClauses finallyBlock nblocks st cp =
     (let numStack = getStackCount cp;
          saveCode = code cp;
          hasFinally = \<not> Option.is_none finallyBlock;
          cp = tryBlock (st\<lparr>captureFinally := hasFinally\<rparr>) (allocCodeBuffer cp);
          tryCode = code cp;
          st = st\<lparr>captureFinally := False\<rparr>;
          (catchCodes, cp) =
            gen_catches hasFinally (map snd catchClauses)
              (st\<lparr>captureFinally := hasFinally, captureBreak := True\<rparr>) cp;
          cp = (case finallyBlock of None \<Rightarrow> cp
                | Some g \<Rightarrow>
                    let cp = pushStack 1 (allocCodeBuffer cp);
                        cp = g (st\<lparr>captureBreak := True\<rparr>) cp
                    in popStack 1 (encodeOpcode (opnum OP_END_EXCEPTION) cp));
          finallyCode = code cp;
          (lens, len) = catch_layout cp hasFinally catchCodes;
          cp = setCodeBuffer saveCode cp;
          ts = length (buf (code cp));
          cp = copyCode tryCode cp;
          cp = (if hasFinally then encodeOpcode (opnum OP_GOTO_FINALLY) cp
                else encodeJump (short_jump cp 0x7f len) OP_GOTO_8 OP_GOTO (int len) cp);
          te = length (buf (code cp));
          cp = copy_catches ts te nblocks numStack hasFinally
                 (zip (map fst catchClauses) (zip catchCodes lens)) cp
      in if hasFinally
         then let hs = length (buf (code cp));
                  cp = copyCode finallyCode cp;
                  he = length (buf (code cp))
              in addException ts te ''Void'' hs he nblocks numStack EJS_EX_FINALLY cp
         else cp)"

text \<open>\<open>processNode\<close> on statements.\<close>

function gen_stmt :: "stmt \<Rightarrow> generator" where
  "gen_stmt (N_EXPRESSION e) = gen e"
| "gen_stmt N_NOP = (\<lambda>st cp. cp)"
| "gen_stmt (N_VAR_DEFINITION vs) = genExpressions (map (run_opt \<circ> map_option gen) vs)"
| "gen_stmt (N_BLOCK ss) = genExpressions (map gen_stmt ss)"
| "gen_stmt (N_DIRECTIVES ss) = genDirectives (map gen_stmt ss)"
| "gen_stmt (N_IF c s e) = genIf (gen c) (gen_stmt s) (map_option gen_stmt e)"
| "gen_stmt (N_FOR i c p b) =
     genFor (map_option gen_stmt i) (map_option gen c) (map_option gen p) (map_option gen_stmt b)"
| "gen_stmt (N_DO b c) = genDo (gen_stmt b) (gen c)"
| "gen_stmt N_BREAK = genBreak"
| "gen_stmt N_CONTINUE = genContinue"
| "gen_stmt (N_SWITCH e cs) =
     genSwitch (gen e) (map (\<lambda>(test, body). (map_option gen test, map gen_stmt body)) cs)"
| "gen_stmt (N_RETURN e blockless) = genReturn (map_option gen e) blockless"
| "gen_stmt (N_THROW e) = genThrow (gen e)"
| "gen_stmt (N_TRY b cs f nblocks) =
     genTry (gen_stmt b) (map (\<lambda>(type, s). (type, gen_stmt s)) cs) (map_option gen_stmt f) nblocks"
  by pat_completeness auto
termination
proof (relation "measure size", goal_cases)
  case (9 e cs x a b xb)
  then have "size xb \<le> size_list size b" by (simp add: size_list_estimation')
  moreover from 9 have "size_prod (\<lambda>x. 0) (size_list size) (a, b)
      \<le> size_list (size_prod (\<lambda>x. 0) (size_list size)) cs" by (intro size_list_estimation') auto
  ultimately show ?case by simp
next
  case (11 b cs f nblocks x a s)
  then have "size_prod (\<lambda>x. 0) size (a, s) \<le> size_list (size_prod (\<lambda>x. 0) size) cs"
    by (intro size_list_estimation') auto
  then show ?case by simp
qed (auto simp: less_Suc_eq_le size_list_estimation')

section \<open>Functions\<close>

text \<open>
  \<open>genEndFunction\<close> makes sure that control does not run off the end: the node it generates is the last
  directive of every function body.
\<close>

definition genEndFunction :: generator where
  "genEndFunction st cp =
     (let fun_info = currentFunction st;
          cp = (if lastOp cp \<noteq> opnum OP_RETURN_VALUE \<and> lastOp cp \<noteq> opnum OP_RETURN
                then if isConstructor fun_info
                     then encodeOpcode (opnum OP_RETURN_VALUE) (encodeOpcode (opnum OP_LOAD_THIS) cp)
                     else if \<not> resultType fun_info
                     then if hasReturn fun_info
                          then encodeOpcode (opnum OP_RETURN_VALUE) (encodeOpcode (opnum OP_LOAD_NULL) cp)
                          else encodeOpcode (opnum OP_RETURN) cp
                     else if resultVoid fun_info then encodeOpcode (opnum OP_RETURN) cp
                     else encodeOpcode (opnum OP_RETURN_VALUE) (encodeOpcode (opnum OP_LOAD_NULL) cp)
                else cp)
      in cp\<lparr>lastOp := 0\<rparr>)"

text \<open>
  \<open>genFunction\<close> for a function without default parameters and without settings of a constructor: the
  body is generated into a new buffer, which becomes the code of the function if there was no error.
\<close>

definition genFunction :: "function_info \<Rightarrow> generator list \<Rightarrow> generator" where
  "genFunction f body st cp =
     (let cp = allocCodeBuffer (cp\<lparr>lastOp := 0\<rparr>)
      in genDirectives (body @ [genEndFunction]) (st\<lparr>currentFunction := f\<rparr>) cp)"

text \<open>\<open>setFunctionCode\<close>: the code and the handlers, unless there was an error.\<close>

definition setFunctionCode :: "compiler \<Rightarrow> (u8 list \<times> handler list) option" where
  "setFunctionCode cp = (if error cp then None else Some (buf (code cp), exceptions (code cp)))"

end
