(* ===== verification/Interp.thy ===== *)
theory Interp
  imports CodeGen
begin

text \<open>
  The interpreter (\<open>VM\<close> in \<open>src/src/vm/ejsInterp.c\<close>) on the instructions of \<open>ByteCode\<close>, for one
  activation that was entered from outside of the interpreter (\<open>FRAME->caller == 0\<close>), so that a return
  ends the run. What values are and what the operators do to them is a parameter of the machine: the
  record \<open>values\<close>, an operator yielding a value or raising one. \<open>v_isType\<close> says which values are types; to cast to
  another value raises. \<open>v_to_number\<close> is the conversion that unary plus stands for in a source; no instruction does it.

  Local variables are untyped slots of the activation. Reading below the stack of the activation or
  beyond its slots or its code is \<open>Faulted\<close>. Garbage collection has no effect here.
\<close>

section \<open>The machine\<close>

datatype ('a, 'v) outcome = Val 'a | Exn 'v

record 'v "values" =
  v_binary :: "binary_op \<Rightarrow> 'v \<Rightarrow> 'v \<Rightarrow> ('v, 'v) outcome"
  v_unary :: "unary_op \<Rightarrow> 'v \<Rightarrow> ('v, 'v) outcome"
  v_truth :: "'v \<Rightarrow> (bool, 'v) outcome"
  v_bool :: "bool \<Rightarrow> 'v"
  v_number :: "u64 \<Rightarrow> 'v"
  v_null :: 'v
  v_undefined :: 'v
  v_this :: 'v
  v_isA :: "'v \<Rightarrow> string \<Rightarrow> bool"
  v_isStop :: "'v \<Rightarrow> bool"
  v_isType :: "'v \<Rightarrow> bool"
  v_to_number :: "'v \<Rightarrow> ('v, 'v) outcome"

text \<open>
  A block on the chain of blocks of the state: the activation itself is the last one, and every
  catch or finally handler that is running has one.
\<close>

record 'v block =
  stackBase :: nat
  restartAddress :: "nat option"
  prevException :: "'v option"

text \<open>
  The state of the activation. The operand stack has its top first. \<open>trap\<close> says that the attention
  trap is set (\<open>attentionPc\<close>); \<open>pc\<close> is then the saved address.
\<close>

record 'v vm =
  pc :: nat
  stack :: "'v list"
  locals :: "'v list"
  vresult :: 'v
  exception :: "'v option"
  exceptionArg :: "'v option"
  blocks :: "'v block list"
  inCatch :: bool
  inException :: bool
  trap :: bool

record vmcode =
  byteCode :: "u8 list"
  handlers :: "handler list"

datatype 'v run =
    Running "'v vm"
  | Finished 'v "'v list"
  | Raised 'v "'v list"
  | Faulted

definition push :: "'v \<Rightarrow> 'v vm \<Rightarrow> 'v vm" where
  "push v vm = vm\<lparr>stack := v # stack vm\<rparr>"

definition with_pop :: "'v vm \<Rightarrow> ('v \<Rightarrow> 'v vm \<Rightarrow> 'v run) \<Rightarrow> 'v run" where
  "with_pop vm f = (case stack vm of [] \<Rightarrow> Faulted | v # s \<Rightarrow> f v (vm\<lparr>stack := s\<rparr>))"

definition set_pc :: "int \<Rightarrow> 'v vm \<Rightarrow> 'v run" where
  "set_pc p vm = (if p < 0 then Faulted else Running (vm\<lparr>pc := nat p, trap := False\<rparr>))"

definition ejsAttention :: "'v vm \<Rightarrow> 'v vm" where
  "ejsAttention vm = vm\<lparr>trap := True\<rparr>"

definition ejsClearAttention :: "'v vm \<Rightarrow> 'v vm" where
  "ejsClearAttention vm = (if exception vm = None then vm\<lparr>trap := False\<rparr> else vm)"

definition ejsThrowException :: "'v \<Rightarrow> 'v vm \<Rightarrow> 'v vm" where
  "ejsThrowException e vm = ejsAttention (vm\<lparr>exception := Some e\<rparr>)"

section \<open>Exception handlers\<close>

text \<open>The program counter has advanced past the instruction, hence the 1.\<close>

definition at_pc :: "'v vm \<Rightarrow> int" where
  "at_pc vm = int (pc vm) - 1"

definition catches :: "'v values \<Rightarrow> handler_kind \<Rightarrow> 'v vm \<Rightarrow> handler \<Rightarrow> bool" where
  "catches V kind vm ex \<longleftrightarrow>
     int (tryStart ex) \<le> at_pc vm \<and> at_pc vm < int (handlerEnd ex) \<and> hflags ex = kind
     \<and> (case exception vm of
          Some e \<Rightarrow> v_isStop V e \<or> kind = EJS_EX_FINALLY \<or> catchType ex = ''Void'' \<or> v_isA V e (catchType ex)
        | None \<Rightarrow> kind = EJS_EX_FINALLY \<or> catchType ex = ''Void'')"

definition findExceptionHandler :: "'v values \<Rightarrow> vmcode \<Rightarrow> handler_kind \<Rightarrow> 'v vm \<Rightarrow> handler option" where
  "findExceptionHandler V c kind vm = find (catches V kind vm) (handlers c)"

definition inHandler :: "vmcode \<Rightarrow> handler_kind \<Rightarrow> 'v vm \<Rightarrow> handler option" where
  "inHandler c kind vm =
     find (\<lambda>ex. int (handlerStart ex) \<le> at_pc vm \<and> at_pc vm < int (handlerEnd ex) \<and> hflags ex = kind)
       (handlers c)"

fun last_end :: "handler \<Rightarrow> nat \<Rightarrow> handler list \<Rightarrow> nat" where
  "last_end ex offset [] = offset"
| "last_end ex offset (h # hs) =
     last_end ex (if tryEnd ex = tryEnd h then handlerEnd h else offset) hs"

fun find_end :: "int \<Rightarrow> handler list \<Rightarrow> nat" where
  "find_end p [] = 0"
| "find_end p (ex # hs) =
     (if int (tryStart ex) \<le> p \<and> p < int (handlerEnd ex) then last_end ex (handlerEnd ex) hs
      else find_end p hs)"

definition findEndException :: "vmcode \<Rightarrow> 'v vm \<Rightarrow> nat" where
  "findEndException c vm = find_end (at_pc vm) (handlers c)"

text \<open>Leaving a handler restores the exception that the handler masked.\<close>

definition popExceptionBlock :: "'v vm \<Rightarrow> 'v vm option" where
  "popExceptionBlock vm =
     (case blocks vm of
        b # prev # rest \<Rightarrow>
          if exception vm = None
          then let vm' = vm\<lparr>exception := prevException prev,
                            blocks := prev\<lparr>prevException := None\<rparr> # rest\<rparr>
               in Some (if exception vm' = None then vm' else ejsAttention (vm'\<lparr>pc := pc vm' + 1\<rparr>))
          else Some (vm\<lparr>blocks := prev # rest\<rparr>)
      | _ \<Rightarrow> None)"

text \<open>\<open>ejsPopBlock\<close> on every block above the ones that were open when the try was entered.\<close>

fun popBlocks :: "nat \<Rightarrow> 'v vm \<Rightarrow> 'v vm option" where
  "popBlocks 0 vm = Some vm"
| "popBlocks (Suc n) vm =
     (case blocks vm of
        b # rest \<Rightarrow>
          if stackBase b \<le> length (stack vm)
          then popBlocks n (vm\<lparr>stack := drop (length (stack vm) - stackBase b) (stack vm), blocks := rest\<rparr>)
          else None
      | [] \<Rightarrow> None)"

definition discard_try :: "handler \<Rightarrow> 'v vm \<Rightarrow> 'v vm option" where
  "discard_try ex vm =
     (let count = int (length (blocks vm)) - 1 - int (numBlocks ex)
      in case popBlocks (nat count) vm of None \<Rightarrow> None
         | Some vm \<Rightarrow>
             if 0 \<le> numStack ex \<and> numStack ex \<le> int (length (stack vm))
             then Some (vm\<lparr>stack := drop (length (stack vm) - nat (numStack ex)) (stack vm)\<rparr>)
             else None)"

definition new_block :: "'v vm \<Rightarrow> 'v block" where
  "new_block vm = \<lparr>stackBase = length (stack vm), restartAddress = None, prevException = None\<rparr>"

definition createExceptionBlock :: "handler \<Rightarrow> handler_kind \<Rightarrow> 'v vm \<Rightarrow> 'v vm option" where
  "createExceptionBlock ex flags vm =
     (case (if flags = EJS_EX_CATCH then discard_try ex (ejsClearAttention vm)
            else Some (ejsClearAttention vm)) of
        None \<Rightarrow> None
      | Some vm \<Rightarrow>
          (case blocks vm of [] \<Rightarrow> None
           | prev # rest \<Rightarrow>
               let vm1 = vm\<lparr>pc := handlerStart ex, trap := False\<rparr>
               in Some
                 ((if flags = EJS_EX_CATCH
                   then vm1\<lparr>exceptionArg := exception vm, inCatch := True,
                            blocks := new_block vm # prev # rest\<rparr>
                   else (ejsAttention vm1)\<lparr>inCatch := False,
                            blocks := new_block vm # prev\<lparr>prevException := exception vm\<rparr> # rest\<rparr>)
                  \<lparr>exception := None, inException := True\<rparr>)))"

text \<open>
  \<open>checkExceptionHandlers\<close>. The rescan after leaving a finally handler is done at most once: the
  second time the activation is not in a handler any more. \<open>None\<close> is a broken invariant of the
  interpreter (an assertion).
\<close>

definition find_finally :: "'v values \<Rightarrow> vmcode \<Rightarrow> 'v vm \<Rightarrow> 'v vm option" where
  "find_finally V c vm =
     map_option ejsClearAttention
       (case findExceptionHandler V c EJS_EX_FINALLY vm of
          Some ex \<Rightarrow>
            (case (if inCatch vm then popExceptionBlock vm else Some vm) of None \<Rightarrow> None
             | Some vm \<Rightarrow> createExceptionBlock ex EJS_EX_FINALLY vm)
        | None \<Rightarrow> Some (vm\<lparr>inCatch := False, inException := False\<rparr>))"

definition find_catch :: "'v values \<Rightarrow> vmcode \<Rightarrow> 'v vm \<Rightarrow> 'v vm option" where
  "find_catch V c vm =
     (case findExceptionHandler V c EJS_EX_CATCH vm of
        Some ex \<Rightarrow> createExceptionBlock ex (hflags ex) vm
      | None \<Rightarrow> find_finally V c vm)"

definition checkExceptionHandlers :: "'v values \<Rightarrow> vmcode \<Rightarrow> 'v vm \<Rightarrow> 'v vm option" where
  "checkExceptionHandlers V c vm =
     (if handlers c = [] then Some vm
      else if \<not> inException vm \<or> (case exception vm of Some e \<Rightarrow> v_isStop V e | None \<Rightarrow> False)
      then find_catch V c vm
      else (case inHandler c EJS_EX_FINALLY vm of
              Some ex \<Rightarrow>
                find_catch V c (vm\<lparr>pc := handlerEnd ex + 1, trap := False, inCatch := False, inException := False\<rparr>)
            | None \<Rightarrow> find_finally V c vm))"

text \<open>
  With one activation an exception that no handler takes ends the run (\<open>processException\<close>).
\<close>

definition processException :: "'v values \<Rightarrow> vmcode \<Rightarrow> 'v vm \<Rightarrow> 'v run" where
  "processException V c vm =
     (case checkExceptionHandlers V c vm of None \<Rightarrow> Faulted
      | Some vm \<Rightarrow> (case exception vm of None \<Rightarrow> Running vm | Some e \<Rightarrow> Raised e (locals vm)))"

definition attention :: "'v values \<Rightarrow> vmcode \<Rightarrow> 'v vm \<Rightarrow> 'v run" where
  "attention V c vm =
     (let vm = vm\<lparr>trap := False\<rparr>
      in if exception vm = None then Running vm else processException V c vm)"


section \<open>Instructions\<close>

text \<open>
  The value or exception of an operator. The null pointer that an operator pushes along with an
  exception is represented by the undefined value, as which the operators read it.
\<close>

definition push_outcome :: "'v values \<Rightarrow> ('v, 'v) outcome \<Rightarrow> 'v vm \<Rightarrow> 'v run" where
  "push_outcome V r vm =
     (case r of Val v \<Rightarrow> Running (push v vm)
      | Exn e \<Rightarrow> Running (push (v_undefined V) (ejsThrowException e vm)))"

text \<open>The pattern of the double that an integer of the source is converted to, below 2 to the 53.\<close>

fun floor_log :: "nat \<Rightarrow> nat" where
  "floor_log n = (if n < 2 then 0 else Suc (floor_log (n div 2)))"

declare floor_log.simps [simp del]

definition double_of_int :: "int \<Rightarrow> u64" where
  "double_of_int n =
     (if n = 0 then 0
      else let m = nat \<bar>n\<bar>; k = floor_log m
           in (if n < 0 then push_bit 63 1 else 0)
              OR word_of_nat ((k + 1022) * 2 ^ 52 + m * 2 ^ (52 - k)))"

definition slot_value :: "int \<Rightarrow> 'v vm \<Rightarrow> 'v option" where
  "slot_value slot vm =
     (if 0 \<le> slot \<and> nat slot < length (locals vm) then Some (locals vm ! nat slot) else None)"

definition get_slot :: "int \<Rightarrow> 'v vm \<Rightarrow> 'v run" where
  "get_slot slot vm = (case slot_value slot vm of None \<Rightarrow> Faulted | Some v \<Rightarrow> Running (push v vm))"

definition put_slot :: "int \<Rightarrow> 'v vm \<Rightarrow> 'v run" where
  "put_slot slot vm =
     with_pop vm (\<lambda>v vm.
       if slot_value slot vm = None then Faulted
       else Running (vm\<lparr>locals := (locals vm)[nat slot := v], vresult := v\<rparr>))"

text \<open>The common code of the conditional branches.\<close>

definition branch :: "'v values \<Rightarrow> bool \<Rightarrow> int \<Rightarrow> 'v vm \<Rightarrow> 'v run" where
  "branch V on offset vm =
     with_pop vm (\<lambda>v vm.
       case v_truth V v of
         Exn e \<Rightarrow> Running (ejsThrowException e vm)
       | Val b \<Rightarrow> if b = on then set_pc (int (pc vm) + offset) vm else Running vm)"

definition opt_run :: "'v vm option \<Rightarrow> 'v run" where
  "opt_run r = (case r of None \<Rightarrow> Faulted | Some vm \<Rightarrow> Running vm)"

definition set_restart :: "nat \<Rightarrow> 'v vm \<Rightarrow> 'v vm" where
  "set_restart p vm =
     (case blocks vm of [] \<Rightarrow> vm | b # bs \<Rightarrow> vm\<lparr>blocks := b\<lparr>restartAddress := Some p\<rparr> # bs\<rparr>)"

definition call_finally :: "'v values \<Rightarrow> vmcode \<Rightarrow> bool \<Rightarrow> 'v vm \<Rightarrow> 'v run" where
  "call_finally V c restart vm =
     (case findExceptionHandler V c EJS_EX_FINALLY vm of
        None \<Rightarrow> Running vm
      | Some ex \<Rightarrow>
          (case (if inCatch vm then popExceptionBlock vm else Some vm) of
             None \<Rightarrow> Faulted
           | Some vm' \<Rightarrow>
               opt_run (map_option (if restart then set_restart (pc vm') else id)
                 (createExceptionBlock ex EJS_EX_FINALLY vm'))))"

definition end_exception :: "vmcode \<Rightarrow> 'v vm \<Rightarrow> 'v run" where
  "end_exception c vm =
     (if inException vm
      then let vm = vm\<lparr>inCatch := False, inException := False\<rparr>
           in case blocks vm of [] \<Rightarrow> Faulted
              | b # _ \<Rightarrow>
                  (case restartAddress b of
                     Some savePC \<Rightarrow>
                       (case popExceptionBlock vm of None \<Rightarrow> Faulted
                        | Some vm \<Rightarrow> Running (vm\<lparr>pc := savePC, trap := False\<rparr>))
                   | None \<Rightarrow>
                       opt_run (popExceptionBlock
                         (vm\<lparr>pc := findEndException c vm, trap := False\<rparr>)))
      else Running vm)"

definition sets_result :: "binary_op \<Rightarrow> bool" where
  "sets_result b \<longleftrightarrow> b \<notin> {INST_OF, IS_A, CAST, IN}"

text \<open>
  The effect of an instruction with operand \<open>n\<close>; the program counter is already past it. An operator that raises
  pushes the null pointer and makes it the result, as which \<open>END_CODE\<close> reads the undefined value; but \<open>IN\<close> and the
  logical negation push nothing when they cannot convert their operand, and a cast to a value that is not a type leaves
  the other operand where it is.
\<close>

fun exec_op :: "'v values \<Rightarrow> vmcode \<Rightarrow> opcode \<Rightarrow> int \<Rightarrow> 'v vm \<Rightarrow> 'v run" where
  "exec_op V c (OP_BINARY b) n vm =
     with_pop vm (\<lambda>v2 vm. with_pop vm (\<lambda>v1 vm.
       case v_binary V b v1 v2 of
         Val v \<Rightarrow> Running (push v (if sets_result b then vm\<lparr>vresult := v\<rparr> else vm))
       | Exn e \<Rightarrow>
           if b = IN then Running (ejsThrowException e vm)
           else if b = CAST \<and> \<not> v_isType V v2 then Running (ejsThrowException e (push v1 vm))
           else push_outcome V (Exn e) (if sets_result b then vm\<lparr>vresult := v_undefined V\<rparr> else vm)))"
| "exec_op V c (OP_UNARY u) n vm =
     with_pop vm (\<lambda>v vm.
       case v_unary V u v of
         Exn e \<Rightarrow> if u = LOGICAL_NOT then Running (ejsThrowException e vm)
                  else push_outcome V (Exn e) vm
       | r \<Rightarrow> push_outcome V r vm)"
| "exec_op V c OP_INC n vm =
     with_pop vm (\<lambda>v vm.
       push_outcome V (v_binary V ADD v (v_number V (double_of_int (schar (word_of_int n))))) vm)"
| "exec_op V c (OP_LOAD_N k) n vm = Running (push (v_number V (double_of_int (int k))) vm)"
| "exec_op V c OP_LOAD_INT n vm = Running (push (v_number V (double_of_int n)) vm)"
| "exec_op V c OP_LOAD_M1 n vm = Running (push (v_number V (double_of_int (-1))) vm)"
| "exec_op V c OP_LOAD_DOUBLE n vm = Running (push (v_number V (word_of_int n)) vm)"
| "exec_op V c OP_LOAD_TRUE n vm = Running (push (v_bool V True) vm)"
| "exec_op V c OP_LOAD_FALSE n vm = Running (push (v_bool V False) vm)"
| "exec_op V c OP_LOAD_NULL n vm = Running (push (v_null V) vm)"
| "exec_op V c OP_LOAD_UNDEFINED n vm = Running (push (v_undefined V) vm)"
| "exec_op V c OP_LOAD_THIS n vm = Running (push (v_this V) vm)"
| "exec_op V c (OP_GET_LOCAL_SLOT_N k) n vm = get_slot (int k) vm"
| "exec_op V c OP_GET_LOCAL_SLOT n vm = get_slot n vm"
| "exec_op V c (OP_PUT_LOCAL_SLOT_N k) n vm = put_slot (int k) vm"
| "exec_op V c OP_PUT_LOCAL_SLOT n vm = put_slot n vm"
| "exec_op V c OP_BRANCH_TRUE n vm = branch V True n vm"
| "exec_op V c OP_BRANCH_TRUE_8 n vm = branch V True n vm"
| "exec_op V c OP_BRANCH_FALSE n vm = branch V False n vm"
| "exec_op V c OP_BRANCH_FALSE_8 n vm = branch V False n vm"
| "exec_op V c OP_GOTO n vm = set_pc (int (pc vm) + n) vm"
| "exec_op V c OP_GOTO_8 n vm = set_pc (int (pc vm) + n) vm"
| "exec_op V c OP_POP n vm = with_pop vm (\<lambda>v vm. Running (vm\<lparr>vresult := v\<rparr>))"
| "exec_op V c OP_SAVE_RESULT n vm = with_pop vm (\<lambda>v vm. Running (vm\<lparr>vresult := v\<rparr>))"
| "exec_op V c OP_POP_ITEMS n vm =
     (if nat n \<le> length (stack vm) then Running (vm\<lparr>stack := drop (nat n) (stack vm)\<rparr>) else Faulted)"
| "exec_op V c OP_DUP n vm = with_pop vm (\<lambda>v vm. Running (push v (push v vm)))"
| "exec_op V c OP_SWAP n vm =
     with_pop vm (\<lambda>v1 vm. with_pop vm (\<lambda>v2 vm. Running (push v2 (push v1 vm))))"
| "exec_op V c OP_NOP n vm = Running vm"
| "exec_op V c OP_THROW n vm = with_pop vm (\<lambda>v vm. Running (ejsThrowException v vm))"
| "exec_op V c OP_CALL_FINALLY n vm = call_finally V c True vm"
| "exec_op V c OP_GOTO_FINALLY n vm = call_finally V c False vm"
| "exec_op V c OP_END_EXCEPTION n vm = end_exception c vm"
| "exec_op V c OP_PUSH_CATCH_ARG n vm =
     (case exceptionArg vm of None \<Rightarrow> Faulted | Some e \<Rightarrow> Running (push e (vm\<lparr>exceptionArg := None\<rparr>)))"
| "exec_op V c OP_CLOSE_BLOCK n vm =
     (case blocks vm of [] \<Rightarrow> Faulted | b # bs \<Rightarrow> Running (vm\<lparr>blocks := bs\<rparr>))"
| "exec_op V c OP_RETURN_VALUE n vm = with_pop vm (\<lambda>v vm. Finished v (locals vm))"
| "exec_op V c OP_RETURN n vm = Finished (v_undefined V) (locals vm)"
| "exec_op V c OP_END_CODE n vm = Finished (vresult vm) (locals vm)"

text \<open>One turn of the dispatch loop.\<close>

definition step :: "'v values \<Rightarrow> vmcode \<Rightarrow> 'v vm \<Rightarrow> 'v run" where
  "step V c vm =
     (if trap vm then attention V c vm
      else case fetch (byteCode c) (pc vm) of
             None \<Rightarrow> Faulted
           | Some (op, n, p) \<Rightarrow> exec_op V c op n (vm\<lparr>pc := p\<rparr>))"

fun run_vm :: "'v values \<Rightarrow> vmcode \<Rightarrow> nat \<Rightarrow> 'v vm \<Rightarrow> 'v run" where
  "run_vm V c 0 vm = Running vm"
| "run_vm V c (Suc n) vm =
     (case step V c vm of Running vm' \<Rightarrow> run_vm V c n vm' | r \<Rightarrow> r)"

definition enter :: "'v values \<Rightarrow> 'v list \<Rightarrow> 'v vm" where
  "enter V xs =
     \<lparr>pc = 0, stack = [], locals = xs, vresult = v_undefined V, exception = None, exceptionArg = None,
      blocks = [\<lparr>stackBase = 0, restartAddress = None, prevException = None\<rparr>],
      inCatch = False, inException = False, trap = False\<rparr>"


section \<open>Number literals\<close>


lemma floor_log_bounds: "0 < n \<Longrightarrow> 2 ^ floor_log n \<le> n \<and> n < 2 ^ Suc (floor_log n)"
proof (induction n rule: floor_log.induct)
  case (1 n)
  show ?case
  proof (cases "n < 2")
    case True
    with 1 show ?thesis by (simp add: floor_log.simps)
  next
    case False
    with 1 have "2 ^ floor_log (n div 2) \<le> n div 2 \<and> n div 2 < 2 ^ Suc (floor_log (n div 2))" by auto
    with False show ?thesis by (subst (1 2) floor_log.simps) auto
  qed
qed

lemma floor_log_unique: "2 ^ k \<le> n \<Longrightarrow> n < 2 ^ Suc k \<Longrightarrow> floor_log n = k"
proof -
  assume a: "2 ^ k \<le> n" "n < 2 ^ Suc k"
  then have "0 < n" by (metis gr0I not_less zero_less_numeral zero_less_power)
  from floor_log_bounds [OF this] a have "2 ^ k < (2 :: nat) ^ Suc (floor_log n)" "2 ^ floor_log n < (2 :: nat) ^ Suc k"
    by linarith+
  then have "k < Suc (floor_log n)" "floor_log n < Suc k" by (simp_all only: power_strict_increasing_iff one_less_numeral_iff semiring_norm)
  then show ?thesis by simp
qed

lemma fields_of_double:
  fixes d :: u64
  defines "e \<equiv> unat (take_bit 11 (drop_bit 52 d))" and "m \<equiv> unat (take_bit 52 d)"
  shows "(if bit d 63 then push_bit 63 1 else 0) OR word_of_nat (e * 2 ^ 52 + m) = d"
    and "e < 2048" and "m < 2 ^ 52"
proof -
  show "e < 2048" "m < 2 ^ 52"
    unfolding e_def m_def unsigned_take_bit_eq
    using take_bit_nat_less_exp [of 11 "unat (drop_bit 52 d)"] take_bit_nat_less_exp [of 52 "unat d"]
    by simp_all
  have "word_of_nat (e * 2 ^ 52 + m) = push_bit 52 (take_bit 11 (drop_bit 52 d)) + take_bit 52 d"
    by (simp add: e_def m_def push_bit_eq_mult)
  also have "\<dots> = push_bit 52 (take_bit 11 (drop_bit 52 d)) OR take_bit 52 d"
    by (rule disjunctive_add) (auto simp: bit_simps)
  also have "(if bit d 63 then push_bit 63 1 else 0) OR \<dots> = d"
  proof (rule bit_word_eqI)
    fix n assume n: "n < LENGTH(64)"
    have top: "bit (if bit d 63 then push_bit 63 1 else 0 :: u64) n \<longleftrightarrow> bit d 63 \<and> n = 63"
      using n by (simp only: bit_push_bit_iff bit_1_iff bit_0_eq bot_apply split: if_splits) auto
    have l: "n - 52 < 11" if "n < 63" using that by linarith
    have "n < 63 \<or> n = 63" using n by auto
    then show "bit ((if bit d 63 then push_bit 63 1 else 0) OR (push_bit 52 (take_bit 11 (drop_bit 52 d)) OR take_bit 52 d)) n
        = bit d n"
      unfolding bit_or_iff top using l
      by (cases "n < 52") (auto simp: bit_push_bit_iff bit_take_bit_iff bit_drop_bit_eq)
  qed
  finally show "(if bit d 63 then push_bit 63 1 else 0) OR word_of_nat (e * 2 ^ 52 + m) = d" .
qed

lemma double_of_int_exact:
  assumes i: "double_int d = Some n" and n: "\<bar>n\<bar> < 2 ^ 52" and z: "d \<noteq> push_bit 63 1"
  shows "double_of_int n = d"
proof -
  define e where "e = unat (take_bit 11 (drop_bit 52 d))"
  define m where "m = unat (take_bit 52 d)"
  note f = fields_of_double [of d, folded e_def m_def]
  have um: "uint (take_bit 52 d) = int m" by (simp add: m_def)
  show ?thesis
  proof (cases "e = 0")
    case True
    with i um have m0: "m = 0" "n = 0"
      by (auto simp: double_int_def Let_def e_def [symmetric] split: if_splits)
    with f(1) True z have "d = 0" by (auto split: if_splits)
    with m0 show ?thesis by (simp add: double_of_int_def)
  next
    case False
    have e2: "e < 1075" 
    proof (rule ccontr)
      assume "\<not> e < 1075"
      with False i um have "e \<noteq> 2047" "\<bar>n\<bar> = (2 ^ 52 + int m) * 2 ^ (e - 1075)"
        by (auto simp: double_int_def Let_def e_def [symmetric] abs_mult split: if_splits)
      moreover have "(2 ^ 52 + int m) * 1 \<le> (2 ^ 52 + int m) * 2 ^ (e - 1075)"
        by (rule mult_left_mono) simp_all
      ultimately have "2 ^ 52 + int m \<le> \<bar>n\<bar>" by (simp only: mult_1_right)
      with n show False by linarith
    qed
    define q where "q = nat \<bar>n\<bar>"
    have F: "(2 ^ 52 + int m) mod 2 ^ (1075 - e) = 0 \<and> \<bar>n\<bar> = (2 ^ 52 + int m) div 2 ^ (1075 - e)
        \<and> (bit d 63 \<longrightarrow> n \<le> 0) \<and> (\<not> bit d 63 \<longrightarrow> 0 \<le> n)"
      using i um e2 False by (auto simp: double_int_def Let_def e_def [symmetric] pos_imp_zdiv_nonneg_iff split: if_splits)
    have exact: "\<bar>n\<bar> * 2 ^ (1075 - e) = 2 ^ 52 + int m"
      using F by (metis dvd_div_mult_self mod_0_imp_dvd)
    have sgn: "bit d 63 \<longrightarrow> n \<le> 0" "\<not> bit d 63 \<longrightarrow> 0 \<le> n" using F by blast+
    have q: "q * 2 ^ (1075 - e) = 2 ^ 52 + m"
    proof -
      have "int (q * 2 ^ (1075 - e)) = int (2 ^ 52 + m)" using exact by (simp add: q_def)
      then show ?thesis by (simp only: of_nat_eq_iff)
    qed
    then have "0 < q" by (metis add_is_0 mult_is_0 neq0_conv power_not_zero zero_neq_numeral)
    have "1075 - e \<le> 52"
    proof (rule ccontr)
      assume "\<not> 1075 - e \<le> 52"
      then have "(2::nat) ^ 53 \<le> 2 ^ (1075 - e)" by (intro power_increasing) simp_all
      also have "\<dots> \<le> q * 2 ^ (1075 - e)" using \<open>0 < q\<close> by simp
      finally show False using q f(3) by simp
    qed
    then have e1: "1023 \<le> e" by simp
    define k where "k = e - 1023"
    have ke: "1075 - e = 52 - k" "k \<le> 52" "e = k + 1023" using e1 e2 by (simp_all add: k_def)
    have "2 ^ k * 2 ^ (52 - k) = (2 ^ 52 :: nat)" "2 ^ Suc k * 2 ^ (52 - k) = (2 ^ 53 :: nat)"
      using ke(2) by (simp_all flip: power_add)
    with q f(3) ke(1) have "2 ^ k * 2 ^ (52 - k) \<le> q * 2 ^ (52 - k)" "q * 2 ^ (52 - k) < 2 ^ Suc k * 2 ^ (52 - k)"
      by simp_all
    then have "2 ^ k \<le> q" "q < 2 ^ Suc k" by simp_all
    then have "floor_log q = k" by (rule floor_log_unique)
    then have "double_of_int n = (if n < 0 then push_bit 63 1 else 0)
        OR word_of_nat ((k + 1022) * 2 ^ 52 + q * 2 ^ (52 - k))"
      using \<open>0 < q\<close> by (auto simp: double_of_int_def q_def Let_def)
    also have "(k + 1022) * 2 ^ 52 + q * 2 ^ (52 - k) = e * 2 ^ 52 + m"
      using q ke by simp
    also have "(if n < 0 then push_bit 63 1 else 0) = (if bit d 63 then push_bit 63 1 else (0 :: u64))"
      using sgn \<open>0 < q\<close> by (auto simp: q_def)
    finally show ?thesis using f(1) by simp
  qed
qed

end
