(* ===== verification/Semantics.thy ===== *)
theory Semantics
  imports Interp
begin

text \<open>
  What the programs of the modelled language mean, independently of their code: expressions are
  evaluated from left to right over the slots of the activation, statements complete normally or
  with a break, a continue, a returned value or an exception. The operators are those of the record
  \<open>values\<close>, which the interpreter uses too.
\<close>

section \<open>Expressions\<close>

fun seq :: "('a, 'v) outcome \<times> 's \<Rightarrow> ('a \<Rightarrow> 's \<Rightarrow> ('b, 'v) outcome \<times> 's) \<Rightarrow> ('b, 'v) outcome \<times> 's" where
  "seq (Val a, s) f = f a s"
| "seq (Exn e, s) f = (Exn e, s)"

fun literal_value :: "'v values \<Rightarrow> literal \<Rightarrow> 'v" where
  "literal_value V (LBool b) = v_bool V b"
| "literal_value V (LNumber d) = v_number V d"
| "literal_value V LNull = v_null V"
| "literal_value V LVoid = v_undefined V"

fun assign :: "expr \<Rightarrow> 'v \<Rightarrow> 'v list \<Rightarrow> 'v list" where
  "assign (N_QNAME s) v xs = xs[s := v]"
| "assign _ v xs = xs"

fun binary_of :: "token \<Rightarrow> binary_op option" where
  "binary_of tok = (case token_op tok of Some (OP_BINARY b) \<Rightarrow> Some b | _ \<Rightarrow> None)"

definition increment :: "'v values \<Rightarrow> token \<Rightarrow> 'v \<Rightarrow> ('v, 'v) outcome" where
  "increment V tok v =
     v_binary V ADD v (v_number V (double_of_int (if tok = T_PLUS_PLUS then 1 else -1)))"

function eval :: "'v values \<Rightarrow> expr \<Rightarrow> 'v list \<Rightarrow> ('v, 'v) outcome \<times> 'v list" where
  "eval V (N_LITERAL lit) xs = (Val (literal_value V lit), xs)"
| "eval V (N_QNAME s) xs = (Val (xs ! s), xs)"
| "eval V (N_ASSIGN_OP d l r) xs = seq (eval V r xs) (\<lambda>v xs. (Val v, assign l v xs))"
| "eval V (N_BINARY_OP tok l r) xs =
     seq (eval V l xs) (\<lambda>v xs.
       if tok = T_LOGICAL_AND \<or> tok = T_LOGICAL_OR
       then seq (v_truth V v, xs) (\<lambda>b xs.
              if b = (tok = T_LOGICAL_OR) then (Val v, xs) else eval V r xs)
       else seq (eval V r xs) (\<lambda>w xs.
              (case binary_of tok of Some b \<Rightarrow> v_binary V b v w | None \<Rightarrow> Val w, xs)))"
| "eval V (N_UNARY_OP tok e) xs =
     (if tok = T_PLUS_PLUS \<or> tok = T_MINUS_MINUS
      then seq (eval V e xs) (\<lambda>v xs. seq (increment V tok v, xs) (\<lambda>w xs. (Val w, assign e w xs)))
      else seq (eval V e xs) (\<lambda>v xs.
             (case tok of
                T_LOGICAL_NOT \<Rightarrow> v_unary V LOGICAL_NOT v
              | T_MINUS \<Rightarrow> v_unary V NEG v
              | T_TILDE \<Rightarrow> v_unary V BIT_NOT v
              | T_TYPEOF \<Rightarrow> v_unary V TYPE_OF v
              | T_PLUS \<Rightarrow> v_to_number V v
              | T_VOID \<Rightarrow> Val (v_undefined V)
              | _ \<Rightarrow> Val v, xs)))"
| "eval V (N_POSTFIX_OP tok e) xs =
     seq (eval V e xs) (\<lambda>v xs. seq (increment V tok v, xs) (\<lambda>w xs. (Val v, assign e w xs)))"
| "eval V (N_TENARY c a b) xs =
     seq (eval V c xs) (\<lambda>v xs. seq (v_truth V v, xs) (\<lambda>t xs. eval V (if t then a else b) xs))"
| "eval V (N_EXPRESSIONS []) xs = (Val (v_undefined V), xs)"
| "eval V (N_EXPRESSIONS [e]) xs = eval V e xs"
| "eval V (N_EXPRESSIONS (e # e' # es)) xs =
     seq (eval V e xs) (\<lambda>v xs. eval V (N_EXPRESSIONS (e' # es)) xs)"
| "eval V N_CATCH_ARG xs = (Val (v_undefined V), xs)"
  by pat_completeness auto
termination
  by (relation "measure (\<lambda>(V, e, xs). size e)") auto

text \<open>Evaluating for effect only, and a test.\<close>

fun eval_all :: "'v values \<Rightarrow> expr list \<Rightarrow> 'v list \<Rightarrow> (unit, 'v) outcome \<times> 'v list" where
  "eval_all V [] xs = (Val (), xs)"
| "eval_all V (e # es) xs = seq (eval V e xs) (\<lambda>_ xs. eval_all V es xs)"

definition test :: "'v values \<Rightarrow> expr option \<Rightarrow> 'v list \<Rightarrow> (bool, 'v) outcome \<times> 'v list" where
  "test V c xs =
     (case c of None \<Rightarrow> (Val True, xs) | Some e \<Rightarrow> seq (eval V e xs) (\<lambda>v xs. (v_truth V v, xs)))"

definition inits :: "expr option list \<Rightarrow> expr list" where
  "inits vs = List.map_filter (\<lambda>x. x) vs"

section \<open>Statements\<close>

datatype 'v completion = Normal | Broke | Continued | Returned 'v | Threw 'v

text \<open>
  The statements that a switch runs: those from the first case that is strictly equal to the value
  on, or from \<open>default\<close> on if there is none.
\<close>

fun matching ::
  "'v values \<Rightarrow> 'v \<Rightarrow> (expr option \<times> stmt list) list \<Rightarrow> 'v list
     \<Rightarrow> (stmt list option, 'v) outcome \<times> 'v list" where
  "matching V v [] xs = (Val None, xs)"
| "matching V v ((None, body) # cs) xs = matching V v cs xs"
| "matching V v ((Some e, body) # cs) xs =
     seq (eval V e xs) (\<lambda>w xs. seq (v_binary V COMPARE_STRICTLY_EQ v w, xs) (\<lambda>r xs.
       seq (v_truth V r, xs) (\<lambda>t xs.
         if t then (Val (Some (concat (map snd ((Some e, body) # cs)))), xs)
         else matching V v cs xs)))"

fun from_default :: "(expr option \<times> stmt list) list \<Rightarrow> stmt list" where
  "from_default [] = []"
| "from_default ((None, body) # cs) = concat (map snd ((None, body) # cs))"
| "from_default ((Some e, body) # cs) = from_default cs"

definition selected ::
  "'v values \<Rightarrow> 'v \<Rightarrow> (expr option \<times> stmt list) list \<Rightarrow> 'v list
     \<Rightarrow> (stmt list, 'v) outcome \<times> 'v list" where
  "selected V v cs xs =
     seq (matching V v cs xs) (\<lambda>m xs. (Val (case m of Some ss \<Rightarrow> ss | None \<Rightarrow> from_default cs), xs))"

fun after_loop :: "'v completion \<Rightarrow> 'v completion" where
  "after_loop Broke = Normal"
| "after_loop out = out"

text \<open>
  Big steps: \<open>exec\<close> for a statement, \<open>execs\<close> for a list of statements, \<open>loop\<close> for the iterations of a
  loop with its test at the top, \<open>repeat\<close> for those of a loop with its test at the bottom.
\<close>

inductive exec :: "'v values \<Rightarrow> function_info \<Rightarrow> stmt \<Rightarrow> 'v list \<Rightarrow> 'v completion \<Rightarrow> 'v list \<Rightarrow> bool"
  and execs :: "'v values \<Rightarrow> function_info \<Rightarrow> stmt list \<Rightarrow> 'v list \<Rightarrow> 'v completion \<Rightarrow> 'v list \<Rightarrow> bool"
  and loop :: "'v values \<Rightarrow> function_info \<Rightarrow> expr option \<Rightarrow> expr option \<Rightarrow> stmt option
      \<Rightarrow> 'v list \<Rightarrow> 'v completion \<Rightarrow> 'v list \<Rightarrow> bool"
  and repeat :: "'v values \<Rightarrow> function_info \<Rightarrow> stmt \<Rightarrow> expr \<Rightarrow> 'v list \<Rightarrow> 'v completion \<Rightarrow> 'v list \<Rightarrow> bool"
  for V F
where
  exec_expr: "eval V e xs = (Val v, xs') \<Longrightarrow> exec V F (N_EXPRESSION e) xs Normal xs'"
| exec_expr_exn: "eval V e xs = (Exn x, xs') \<Longrightarrow> exec V F (N_EXPRESSION e) xs (Threw x) xs'"
| exec_nop: "exec V F N_NOP xs Normal xs"
| exec_var: "eval_all V (inits vs) xs = (Val u, xs') \<Longrightarrow> exec V F (N_VAR_DEFINITION vs) xs Normal xs'"
| exec_var_exn: "eval_all V (inits vs) xs = (Exn x, xs') \<Longrightarrow> exec V F (N_VAR_DEFINITION vs) xs (Threw x) xs'"
| exec_block: "execs V F ss xs out xs' \<Longrightarrow> exec V F (N_BLOCK ss) xs out xs'"
| exec_directives: "execs V F ss xs out xs' \<Longrightarrow> exec V F (N_DIRECTIVES ss) xs out xs'"
| exec_if_true: "test V (Some c) xs = (Val True, xs1) \<Longrightarrow> exec V F s xs1 out xs' \<Longrightarrow>
    exec V F (N_IF c s e) xs out xs'"
| exec_if_false: "test V (Some c) xs = (Val False, xs1) \<Longrightarrow> exec V F s' xs1 out xs' \<Longrightarrow>
    exec V F (N_IF c s (Some s')) xs out xs'"
| exec_if_none: "test V (Some c) xs = (Val False, xs') \<Longrightarrow> exec V F (N_IF c s None) xs Normal xs'"
| exec_if_exn: "test V (Some c) xs = (Exn x, xs') \<Longrightarrow> exec V F (N_IF c s e) xs (Threw x) xs'"
| exec_for: "exec V F i xs Normal xs1 \<Longrightarrow> loop V F c p b xs1 out xs' \<Longrightarrow>
    exec V F (N_FOR (Some i) c p b) xs (after_loop out) xs'"
| exec_for_abrupt: "exec V F i xs out xs' \<Longrightarrow> out \<noteq> Normal \<Longrightarrow> exec V F (N_FOR (Some i) c p b) xs out xs'"
| exec_while: "loop V F c p b xs out xs' \<Longrightarrow> exec V F (N_FOR None c p b) xs (after_loop out) xs'"
| exec_do: "repeat V F b c xs out xs' \<Longrightarrow> exec V F (N_DO b c) xs (after_loop out) xs'"
| exec_break: "exec V F N_BREAK xs Broke xs"
| exec_continue: "exec V F N_CONTINUE xs Continued xs"
| exec_switch: "eval V e xs = (Val v, xs1) \<Longrightarrow> selected V v cs xs1 = (Val ss, xs2) \<Longrightarrow>
    execs V F ss xs2 out xs' \<Longrightarrow> exec V F (N_SWITCH e cs) xs (after_loop out) xs'"
| exec_switch_exn: "eval V e xs = (Exn x, xs') \<Longrightarrow> exec V F (N_SWITCH e cs) xs (Threw x) xs'"
| exec_switch_case_exn: "eval V e xs = (Val v, xs1) \<Longrightarrow> selected V v cs xs1 = (Exn x, xs') \<Longrightarrow>
    exec V F (N_SWITCH e cs) xs (Threw x) xs'"
| exec_return: "eval V e xs = (Val v, xs') \<Longrightarrow> exec V F (N_RETURN (Some e) bl) xs (Returned v) xs'"
| exec_return_exn: "eval V e xs = (Exn x, xs') \<Longrightarrow> exec V F (N_RETURN (Some e) bl) xs (Threw x) xs'"
| exec_return_none: "exec V F (N_RETURN None bl) xs
    (Returned (if isConstructor F then v_this V else v_undefined V)) xs"
| exec_throw: "eval V e xs = (Val v, xs') \<Longrightarrow> exec V F (N_THROW e) xs (Threw v) xs'"
| exec_throw_exn: "eval V e xs = (Exn x, xs') \<Longrightarrow> exec V F (N_THROW e) xs (Threw x) xs'"
| execs_nil: "execs V F [] xs Normal xs"
| execs_next: "exec V F s xs Normal xs1 \<Longrightarrow> execs V F ss xs1 out xs' \<Longrightarrow> execs V F (s # ss) xs out xs'"
| execs_abrupt: "exec V F s xs out xs' \<Longrightarrow> out \<noteq> Normal \<Longrightarrow> execs V F (s # ss) xs out xs'"
| loop_done: "test V c xs = (Val False, xs') \<Longrightarrow> loop V F c p b xs Normal xs'"
| loop_exn: "test V c xs = (Exn x, xs') \<Longrightarrow> loop V F c p b xs (Threw x) xs'"
| loop_body: "test V c xs = (Val True, xs1) \<Longrightarrow> execs V F (case b of None \<Rightarrow> [] | Some s \<Rightarrow> [s]) xs1 out xs' \<Longrightarrow>
    out \<noteq> Normal \<Longrightarrow> out \<noteq> Continued \<Longrightarrow> loop V F c p b xs out xs'"
| loop_step_exn: "test V c xs = (Val True, xs1) \<Longrightarrow>
    execs V F (case b of None \<Rightarrow> [] | Some s \<Rightarrow> [s]) xs1 out xs2 \<Longrightarrow> out = Normal \<or> out = Continued \<Longrightarrow>
    eval_all V (case p of None \<Rightarrow> [] | Some e \<Rightarrow> [e]) xs2 = (Exn x, xs') \<Longrightarrow> loop V F c p b xs (Threw x) xs'"
| loop_next: "test V c xs = (Val True, xs1) \<Longrightarrow>
    execs V F (case b of None \<Rightarrow> [] | Some s \<Rightarrow> [s]) xs1 out xs2 \<Longrightarrow> out = Normal \<or> out = Continued \<Longrightarrow>
    eval_all V (case p of None \<Rightarrow> [] | Some e \<Rightarrow> [e]) xs2 = (Val u, xs3) \<Longrightarrow>
    loop V F c p b xs3 out' xs' \<Longrightarrow> loop V F c p b xs out' xs'"
| repeat_body: "exec V F b xs out xs' \<Longrightarrow> out \<noteq> Normal \<Longrightarrow> out \<noteq> Continued \<Longrightarrow> repeat V F b c xs out xs'"
| repeat_exn: "exec V F b xs out xs1 \<Longrightarrow> out = Normal \<or> out = Continued \<Longrightarrow>
    test V (Some c) xs1 = (Exn x, xs') \<Longrightarrow> repeat V F b c xs (Threw x) xs'"
| repeat_done: "exec V F b xs out xs1 \<Longrightarrow> out = Normal \<or> out = Continued \<Longrightarrow>
    test V (Some c) xs1 = (Val False, xs') \<Longrightarrow> repeat V F b c xs Normal xs'"
| repeat_next: "exec V F b xs out xs1 \<Longrightarrow> out = Normal \<or> out = Continued \<Longrightarrow>
    test V (Some c) xs1 = (Val True, xs2) \<Longrightarrow> repeat V F b c xs2 out' xs' \<Longrightarrow> repeat V F b c xs out' xs'"

end
