(* ===== verification/Assembly.thy ===== *)
theory Assembly
  imports Semantics
begin

text \<open>
  A structured description of the code of a function: the code of every construct as a function of
  the code of its parts, with the jumps of break and continue as holes. The code generator, which
  threads buffers, counters and lists of jumps to patch, is shown to write exactly this code for the
  programs that satisfy \<open>wf_stmt\<close>; what that excludes is the subject of the properties on faults.
\<close>

section \<open>Code with holes\<close>

datatype piece = Bytes "u8 list" | Hole jump_kind

text \<open>The four bytes of a long offset; zeros if the offset does not fit.\<close>

definition word_bytes :: "int \<Rightarrow> u8 list" where
  "word_bytes n =
     (case ejsEncodeInt32 (word_of_int n) of None \<Rightarrow> [0, 0, 0, 0]
      | Some bs \<Rightarrow> if length bs = 4 then bs else [0, 0, 0, 0])"

fun piece_bytes :: "piece \<Rightarrow> u8 list" where
  "piece_bytes (Bytes bs) = bs"
| "piece_bytes (Hole k) = [0, 0, 0, 0]"

definition pbytes :: "piece list \<Rightarrow> u8 list" where
  "pbytes ps = concat (map piece_bytes ps)"

definition plen :: "piece list \<Rightarrow> nat" where
  "plen ps = length (pbytes ps)"

fun holes :: "nat \<Rightarrow> piece list \<Rightarrow> (jump_kind \<times> nat) list" where
  "holes p [] = []"
| "holes p (Bytes bs # ps) = holes (p + length bs) ps"
| "holes p (Hole k # ps) = (k, p) # holes (p + 4) ps"

text \<open>Filling the holes of one kind, and all of them with given targets.\<close>

fun close :: "jump_kind \<Rightarrow> nat \<Rightarrow> nat \<Rightarrow> piece list \<Rightarrow> piece list" where
  "close k target p [] = []"
| "close k target p (Bytes bs # ps) = Bytes bs # close k target (p + length bs) ps"
| "close k target p (Hole k' # ps) =
     (if k' = k then Bytes (word_bytes (int target - int p - 4)) else Hole k') # close k target (p + 4) ps"

fun final :: "(jump_kind \<Rightarrow> int) \<Rightarrow> nat \<Rightarrow> piece list \<Rightarrow> u8 list" where
  "final T p [] = []"
| "final T p (Bytes bs # ps) = bs @ final T (p + length bs) ps"
| "final T p (Hole k # ps) = word_bytes (T k - int p - 4) @ final T (p + 4) ps"

lemma pbytes_simps [simp]:
  "pbytes [] = []" "pbytes (x # ps) = piece_bytes x @ pbytes ps" "pbytes (ps @ qs) = pbytes ps @ pbytes qs"
  by (simp_all add: pbytes_def)

lemma plen_simps [simp]:
  "plen [] = 0" "plen (Bytes bs # ps) = length bs + plen ps" "plen (Hole k # ps) = 4 + plen ps"
  "plen (ps @ qs) = plen ps + plen qs"
  by (simp_all add: plen_def)

lemma holes_append [simp]: "holes p (ps @ qs) = holes p ps @ holes (p + plen ps) qs"
  by (induction p ps rule: holes.induct) (simp_all add: add.assoc)

lemma close_append [simp]: "close k t p (ps @ qs) = close k t p ps @ close k t (p + plen ps) qs"
  by (induction k t p ps rule: close.induct) (simp_all add: add.assoc)

lemma final_append [simp]: "final T p (ps @ qs) = final T p ps @ final T (p + plen ps) qs"
  by (induction T p ps rule: final.induct) (simp_all add: add.assoc)

lemma holes_shift: "map (\<lambda>(k, o'). (k, o' + b)) (holes p ps) = holes (p + b) ps"
  by (induction p ps rule: holes.induct) (simp_all add: ac_simps)

lemma encode_fits: "\<bar>n\<bar> < 2 ^ 27 \<Longrightarrow> \<exists>bs. ejsEncodeInt32 (word_of_int n) = Some bs \<and> length bs = 4"
proof -
  assume "\<bar>n\<bar> < 2 ^ 27"
  then have "sint (word_of_int n :: u32) = n"
    by (simp add: sint_sbintrunc' signed_take_bit_int_eq_self abs_less_iff)
  with \<open>\<bar>n\<bar> < 2 ^ 27\<close> have "\<bar>sint (word_of_int n :: u32)\<bar> \<le> 0x07FFFFFF" by simp
  from encode_int32_Some [OF this] show ?thesis by blast
qed

lemma length_word_bytes [simp]: "length (word_bytes n) = 4"
  by (simp add: word_bytes_def split: option.split)

lemma plen_close [simp]: "plen (close k t p ps) = plen ps"
  by (induction k t p ps rule: close.induct) simp_all

text \<open>\<open>patchJumps\<close> closes the holes of its kind.\<close>

lemma patch_scan_close:
  assumes "length before + plen ps < 2 ^ 27" and "target < 2 ^ 27"
  shows "patch_scan k target (holes (length before) ps) (before @ pbytes ps @ rest)
     = (before @ pbytes (close k target (length before) ps) @ rest, holes (length before) (close k target (length before) ps))"
  using assms(1)
proof (induction ps arbitrary: before)
  case (Cons x ps)
  show ?case
  proof (cases x)
    case (Bytes bs)
    with Cons.IH [of "before @ bs"] Cons.prems show ?thesis by simp
  next
    case (Hole k')
    let ?n = "int target - int (length before) - 4"
    have n: "\<bar>?n\<bar> < 2 ^ 27" using Cons.prems assms(2) Hole by (simp add: abs_less_iff)
    obtain bs where bs: "ejsEncodeInt32 (word_of_int ?n) = Some bs" "length bs = 4"
      using encode_fits [OF n] by blast
    then have w: "word_bytes ?n = bs" by (simp add: word_bytes_def)
    have p: "patch (length before) ?n (before @ [0, 0, 0, 0] @ pbytes ps @ rest) = before @ bs @ pbytes ps @ rest"
      using bs by (simp add: patch_def ejsEncodeInt32AtPos_def write_block_def)
    have ih: "patch_scan k target (holes (length before + 4) ps) (before @ b @ pbytes ps @ rest)
        = (before @ b @ pbytes (close k target (length before + 4) ps) @ rest,
           holes (length before + 4) (close k target (length before + 4) ps))" if "length b = 4" for b
      using Cons.IH [of "before @ b"] Cons.prems Hole that by simp
    show ?thesis using Hole bs w p ih [of bs] ih [of "[0, 0, 0, 0]"] by simp
  qed
qed simp

lemma final_close:
  "final T (q + p) (close k t p ps) = final (T(k := int (q + t))) (q + p) ps"
proof (induction ps arbitrary: p)
  case (Cons x ps)
  show ?case
  proof (cases x)
    case (Bytes bs)
    with Cons.IH [of "p + length bs"] show ?thesis by (simp add: add.assoc)
  next
    case (Hole k')
    have "int (q + t) - int (q + p) - 4 = int t - int p - 4" by simp
    then show ?thesis using Cons.IH [of "p + 4"] Hole by (simp add: add.assoc)
  qed
qed simp

section \<open>The code of expressions\<close>

definition jump_bytes :: "bool \<Rightarrow> opcode \<Rightarrow> opcode \<Rightarrow> int \<Rightarrow> u8 list" where
  "jump_bytes short op8 op n =
     (if short then [word_of_int (opnum op8), word_of_int n]
      else word_of_int (opnum op) # (case ejsEncodeInt32 (word_of_int n) of None \<Rightarrow> [] | Some bs \<Rightarrow> bs))"

abbreviation op_bytes :: "opcode \<Rightarrow> u8 list" where
  "op_bytes op \<equiv> instruction op 0"

definition slot_code :: "(nat \<Rightarrow> opcode) \<Rightarrow> opcode \<Rightarrow> nat \<Rightarrow> u8 list" where
  "slot_code op_n op s = (if s < 10 then instruction (op_n s) 0 else instruction op (int s))"

definition get_code :: "nat \<Rightarrow> u8 list" where
  "get_code = slot_code OP_GET_LOCAL_SLOT_N OP_GET_LOCAL_SLOT"

definition put_code :: "nat \<Rightarrow> u8 list" where
  "put_code = slot_code OP_PUT_LOCAL_SLOT_N OP_PUT_LOCAL_SLOT"

fun literal_code :: "literal \<Rightarrow> u8 list" where
  "literal_code (LBool b) = op_bytes (if b then OP_LOAD_TRUE else OP_LOAD_FALSE)"
| "literal_code LNull = op_bytes OP_LOAD_NULL"
| "literal_code LVoid = op_bytes OP_LOAD_UNDEFINED"
| "literal_code (LNumber d) =
     (case double_int d of
        Some n \<Rightarrow>
          if n \<le> - MAXINT \<or> MAXINT \<le> n then instruction OP_LOAD_DOUBLE (uint d)
          else if 0 \<le> n \<and> n \<le> 9 then op_bytes (OP_LOAD_N (nat n))
          else instruction OP_LOAD_INT n
      | None \<Rightarrow> instruction OP_LOAD_DOUBLE (uint d))"

text \<open>Removing \<open>k\<close> values from the stack.\<close>

definition drop_code :: "nat \<Rightarrow> u8 list" where
  "drop_code k = (if k = 0 then [] else if k = 1 then op_bytes OP_POP else instruction OP_POP_ITEMS (int k))"

text \<open>The number of values an expression leaves when a value is wanted and when not.\<close>

fun pushes :: "bool \<Rightarrow> expr \<Rightarrow> nat" where
  "pushes nv (N_ASSIGN_OP d l r) = (if d \<or> nv then 1 else 0)"
| "pushes nv (N_UNARY_OP tok e) = (if tok = T_PLUS then pushes nv e else 1)"
| "pushes nv (N_TENARY c a b) = (if nv then 1 else 0)"
| "pushes nv (N_EXPRESSIONS es) = sum_list (map (pushes nv) es)"
| "pushes nv e = 1"

text \<open>Whether what it leaves is exactly its value.\<close>

fun exact :: "bool \<Rightarrow> expr \<Rightarrow> bool" where
  "exact nv (N_ASSIGN_OP d l r) \<longleftrightarrow> d \<or> nv"
| "exact nv (N_UNARY_OP tok e) \<longleftrightarrow> (if tok = T_PLUS then exact nv e else True)"
| "exact nv (N_TENARY c a b) \<longleftrightarrow> nv"
| "exact nv (N_EXPRESSIONS [e]) \<longleftrightarrow> exact nv e"
| "exact nv (N_EXPRESSIONS es) \<longleftrightarrow> False"
| "exact nv e \<longleftrightarrow> True"

definition small :: "bool \<Rightarrow> nat \<Rightarrow> nat \<Rightarrow> bool" where
  "small opt limit len \<longleftrightarrow> len < limit \<and> opt"

definition if_code :: "bool \<Rightarrow> u8 list \<Rightarrow> piece list \<Rightarrow> piece list \<Rightarrow> piece list" where
  "if_code opt c a b =
     (let elseLen = plen b; thenLen = plen a + jump_size (small opt 0x7f elseLen)
      in Bytes (c @ jump_bytes (small opt 0x7f thenLen) OP_BRANCH_FALSE_8 OP_BRANCH_FALSE (int thenLen))
         # a @ Bytes (jump_bytes (small opt 0x7f elseLen) OP_GOTO_8 OP_GOTO (int elseLen)) # b)"

definition logical_code :: "bool \<Rightarrow> token \<Rightarrow> u8 list \<Rightarrow> u8 list \<Rightarrow> u8 list" where
  "logical_code opt tok l r =
     (let right = op_bytes OP_POP @ r; n = length right
      in l @ op_bytes OP_DUP
         @ (if tok = T_LOGICAL_AND
            then jump_bytes (small opt 0x7f n) OP_BRANCH_FALSE_8 OP_BRANCH_FALSE (int n)
            else jump_bytes (small opt 0x7f n) OP_BRANCH_TRUE_8 OP_BRANCH_TRUE (int n))
         @ right)"

fun target_slot :: "expr \<Rightarrow> nat" where
  "target_slot (N_QNAME s) = s"
| "target_slot e = 0"

definition unary_code :: "token \<Rightarrow> nat \<Rightarrow> u8 list \<Rightarrow> u8 list" where
  "unary_code tok s e =
     (case tok of
        T_LOGICAL_NOT \<Rightarrow> e @ op_bytes (OP_UNARY LOGICAL_NOT)
      | T_PLUS_PLUS \<Rightarrow> e @ instruction OP_INC 1 @ op_bytes OP_DUP @ put_code s
      | T_MINUS \<Rightarrow> e @ op_bytes (OP_UNARY NEG)
      | T_MINUS_MINUS \<Rightarrow> e @ instruction OP_INC (-1) @ op_bytes OP_DUP @ put_code s
      | T_TILDE \<Rightarrow> e @ op_bytes (OP_UNARY BIT_NOT)
      | T_TYPEOF \<Rightarrow> e @ op_bytes (OP_UNARY TYPE_OF)
      | T_VOID \<Rightarrow> op_bytes OP_LOAD_UNDEFINED
      | _ \<Rightarrow> e)"

function ecode :: "bool \<Rightarrow> bool \<Rightarrow> expr \<Rightarrow> u8 list" where
  "ecode opt nv (N_LITERAL lit) = literal_code lit"
| "ecode opt nv (N_QNAME s) = get_code s"
| "ecode opt nv (N_ASSIGN_OP d l r) =
     ecode opt True (mark_dup r) @ (if d \<or> nv then op_bytes OP_DUP else []) @ put_code (target_slot l)"
| "ecode opt nv (N_BINARY_OP tok l r) =
     (if tok = T_LOGICAL_AND \<or> tok = T_LOGICAL_OR
      then logical_code opt tok (ecode opt True l) (ecode opt True r)
      else ecode opt True l @ ecode opt True r @ op_bytes (OP_BINARY (the (binary_of tok))))"
| "ecode opt nv (N_UNARY_OP tok e) =
     unary_code tok (target_slot e)
       (ecode opt (if tok \<in> {T_LOGICAL_NOT, T_TILDE, T_TYPEOF} then True else nv) e)"
| "ecode opt nv (N_POSTFIX_OP tok e) =
     ecode opt nv e @ op_bytes OP_DUP @ instruction OP_INC (if tok = T_PLUS_PLUS then 1 else -1)
       @ put_code (target_slot e)"
| "ecode opt nv (N_TENARY c a b) =
     pbytes (if_code opt (ecode opt True c)
       [Bytes (ecode opt nv a @ drop_code (if nv then 0 else pushes nv a))]
       [Bytes (ecode opt nv b @ drop_code (if nv then 0 else pushes nv b))])"
| "ecode opt nv (N_EXPRESSIONS es) = concat (map (ecode opt nv) es)"
| "ecode opt nv N_CATCH_ARG = op_bytes OP_PUSH_CATCH_ARG"
  by pat_completeness auto
termination
  by (relation "measure (\<lambda>(opt, nv, e). size e)") (auto simp: less_Suc_eq_le size_list_estimation')

text \<open>
  The expressions whose code is right, over \<open>n\<close> slots. Every operand that is used as a value has to
  leave exactly its value; \<open>nv\<close> says whether a value is wanted. The operand of \<open>void\<close> has no effect.
\<close>

fun wf_expr :: "nat \<Rightarrow> bool \<Rightarrow> expr \<Rightarrow> bool" where
  "wf_expr n nv (N_LITERAL lit) \<longleftrightarrow> lit \<noteq> LNumber (push_bit 63 1)"
| "wf_expr n nv (N_QNAME s) \<longleftrightarrow> s < n"
| "wf_expr n nv (N_ASSIGN_OP d l r) \<longleftrightarrow>
     (case l of N_QNAME s \<Rightarrow> s < n | _ \<Rightarrow> False) \<and> wf_expr n True r \<and> exact True r"
| "wf_expr n nv (N_BINARY_OP tok l r) \<longleftrightarrow>
     (tok = T_LOGICAL_AND \<or> tok = T_LOGICAL_OR \<or> binary_of tok \<noteq> None)
     \<and> wf_expr n True l \<and> exact True l \<and> wf_expr n True r \<and> exact True r"
| "wf_expr n nv (N_UNARY_OP tok e) \<longleftrightarrow>
     (case tok of
        T_LOGICAL_NOT \<Rightarrow> wf_expr n True e \<and> exact True e
      | T_TILDE \<Rightarrow> wf_expr n True e \<and> exact True e
      | T_TYPEOF \<Rightarrow> wf_expr n True e \<and> exact True e
      | T_PLUS \<Rightarrow> wf_expr n nv e
      | T_MINUS \<Rightarrow> wf_expr n nv e \<and> exact nv e
      | T_PLUS_PLUS \<Rightarrow> (case e of N_QNAME s \<Rightarrow> s < n | _ \<Rightarrow> False)
      | T_MINUS_MINUS \<Rightarrow> (case e of N_QNAME s \<Rightarrow> s < n | _ \<Rightarrow> False)
      | T_VOID \<Rightarrow> (case e of N_QNAME s \<Rightarrow> s < n | N_LITERAL _ \<Rightarrow> True | _ \<Rightarrow> False)
      | _ \<Rightarrow> False)"
| "wf_expr n nv (N_POSTFIX_OP tok e) \<longleftrightarrow>
     (tok = T_PLUS_PLUS \<or> tok = T_MINUS_MINUS) \<and> (case e of N_QNAME s \<Rightarrow> s < n | _ \<Rightarrow> False)"
| "wf_expr n nv (N_TENARY c a b) \<longleftrightarrow>
     wf_expr n True c \<and> exact True c \<and> wf_expr n nv a \<and> wf_expr n nv b
     \<and> (if nv then exact nv a \<and> exact nv b else pushes nv a < 256 \<and> pushes nv b < 256)"
| "wf_expr n nv (N_EXPRESSIONS es) \<longleftrightarrow> (\<forall>e \<in> set es. wf_expr n nv e)"
| "wf_expr n nv N_CATCH_ARG \<longleftrightarrow> False"

lemma exact_pushes: "exact nv e \<Longrightarrow> pushes nv e = 1"
  by (induction nv e rule: exact.induct) (auto split: if_splits)

lemma mark_dup_simps [simp]:
  "wf_expr n nv (mark_dup e) = wf_expr n nv e" "exact True (mark_dup e) = exact True e"
  "pushes True (mark_dup e) = pushes True e" "eval V (mark_dup e) xs = eval V e xs"
  by (cases e; simp)+


section \<open>The code of statements\<close>

definition for_code :: "bool \<Rightarrow> piece list \<Rightarrow> u8 list option \<Rightarrow> piece list \<Rightarrow> piece list \<Rightarrow> piece list" where
  "for_code opt init c body incr =
     (let cl = (case c of None \<Rightarrow> 0 | Some bs \<Rightarrow> length bs);
          condShort = small opt 122 (plen body + plen incr);
          condLen = (if 0 < cl then cl + jump_size condShort else cl);
          loopShort = small opt 122 (condLen + plen body + plen incr);
          stepLen = plen incr + jump_size loopShort;
          top = init
                @ (case c of None \<Rightarrow> []
                   | Some bs \<Rightarrow> [Bytes (bs @ jump_bytes condShort OP_BRANCH_FALSE_8 OP_BRANCH_FALSE
                                          (int (plen body + stepLen)))])
                @ body;
          whole = top @ incr
                  @ [Bytes (jump_bytes loopShort OP_GOTO_8 OP_GOTO (- int (condLen + plen body + stepLen)))]
      in close EC_JUMP_CONTINUE (plen top) 0 (close EC_JUMP_BREAK (plen whole) 0 whole))"

definition do_code :: "bool \<Rightarrow> piece list \<Rightarrow> u8 list \<Rightarrow> piece list" where
  "do_code opt body c =
     (let len = plen body + length c;
          short = (0 < len \<and> small opt 0x7f len);
          back = (if 0 < len then len + jump_size short else len);
          whole = body @ [Bytes (c @ jump_bytes short OP_BRANCH_TRUE_8 OP_BRANCH_TRUE (- int back))]
      in close EC_JUMP_CONTINUE 0 0 (close EC_JUMP_BREAK (plen whole) 0 whole))"

text \<open>The code of the cases of a switch, and the length of the test of the first of them.\<close>

fun cases_code :: "bool \<Rightarrow> (u8 list option \<times> piece list) list \<Rightarrow> piece list \<times> nat" where
  "cases_code opt [] = ([], 0)"
| "cases_code opt ((t, b) # cs) =
     (let (rest, next) = cases_code opt cs;
          goto = (if 0 < next then jump_bytes (small opt 0x7f next) OP_GOTO_8 OP_GOTO (int next) else []);
          skip = (if 0 < next then jump_size (small opt 0x7f next) else 0) + plen b
      in case t of
           None \<Rightarrow> (b @ Bytes goto # rest, 0)
         | Some bs \<Rightarrow>
             (Bytes (bs @ op_bytes (OP_BINARY COMPARE_STRICTLY_EQ)
                       @ jump_bytes (small opt 0x7f skip) OP_BRANCH_FALSE_8 OP_BRANCH_FALSE (int skip))
              # b @ Bytes goto # rest,
              1 + jump_size (small opt 0x7f skip) + length bs))"

definition switch_code :: "bool \<Rightarrow> u8 list \<Rightarrow> (u8 list option \<times> piece list) list \<Rightarrow> piece list" where
  "switch_code opt e cs =
     (let whole = Bytes e # fst (cases_code opt cs)
      in close EC_JUMP_BREAK (plen whole) 0 whole @ [Bytes (op_bytes OP_POP)])"

text \<open>The number of values a statement leaves for the enclosing statement to remove.\<close>

fun spushes :: "stmt \<Rightarrow> nat" where
  "spushes (N_EXPRESSION e) = pushes False e"
| "spushes (N_VAR_DEFINITION vs) = sum_list (map (pushes False) (inits vs))"
| "spushes s = 0"

definition cleaned :: "piece list \<Rightarrow> nat \<Rightarrow> piece list" where
  "cleaned ps k = ps @ [Bytes (drop_code k)]"

definition return_code :: "function_info \<Rightarrow> u8 list" where
  "return_code F =
     (if isConstructor F then op_bytes OP_LOAD_THIS @ op_bytes OP_RETURN_VALUE else op_bytes OP_RETURN)"

definition case_tests :: "bool \<Rightarrow> expr option \<Rightarrow> u8 list option" where
  "case_tests opt = map_option (\<lambda>e. op_bytes OP_DUP @ ecode opt False e)"

function scode :: "bool \<Rightarrow> function_info \<Rightarrow> stmt \<Rightarrow> piece list" where
  "scode opt F (N_EXPRESSION e) = [Bytes (ecode opt False e)]"
| "scode opt F N_NOP = []"
| "scode opt F (N_VAR_DEFINITION vs) = [Bytes (concat (map (ecode opt False) (inits vs)))]"
| "scode opt F (N_BLOCK ss) = concat (map (scode opt F) ss)"
| "scode opt F (N_DIRECTIVES ss) = concat (map (\<lambda>s. cleaned (scode opt F s) (spushes s)) ss)"
| "scode opt F (N_IF c s e) =
     if_code opt (ecode opt True c) (cleaned (scode opt F s) (spushes s))
       (case e of None \<Rightarrow> [] | Some s' \<Rightarrow> cleaned (scode opt F s') (spushes s'))"
| "scode opt F (N_FOR i c p b) =
     for_code opt (case i of None \<Rightarrow> [] | Some s \<Rightarrow> cleaned (scode opt F s) (spushes s))
       (map_option (ecode opt True) c)
       (case b of None \<Rightarrow> [] | Some s \<Rightarrow> cleaned (scode opt F s) (spushes s))
       (case p of None \<Rightarrow> [] | Some e \<Rightarrow> cleaned [Bytes (ecode opt False e)] (pushes False e))"
| "scode opt F (N_DO b c) = do_code opt (cleaned (scode opt F b) (spushes b)) (ecode opt True c)"
| "scode opt F N_BREAK = [Bytes [word_of_int (opnum OP_GOTO)], Hole EC_JUMP_BREAK]"
| "scode opt F N_CONTINUE = [Bytes [word_of_int (opnum OP_GOTO)], Hole EC_JUMP_CONTINUE]"
| "scode opt F (N_SWITCH e cs) =
     switch_code opt (ecode opt False e)
       (map (\<lambda>(t, body). (case_tests opt t, concat (map (\<lambda>s. cleaned (scode opt F s) (spushes s)) body))) cs)"
| "scode opt F (N_RETURN e bl) =
     [Bytes (case e of None \<Rightarrow> return_code F | Some e \<Rightarrow> ecode opt True e @ op_bytes OP_RETURN_VALUE)]"
| "scode opt F (N_THROW e) = [Bytes (ecode opt True e @ op_bytes OP_THROW)]"
| "scode opt F (N_TRY b cs f nb) = []"
  by pat_completeness auto
termination
proof (relation "measure (\<lambda>(opt, F, s). size s)", goal_cases)
  case (9 opt F e cs x t body s)
  then have "size s \<le> size_list size body" by (simp add: size_list_estimation')
  moreover from 9 have "size_prod (\<lambda>x. 0) (size_list size) (t, body)
      \<le> size_list (size_prod (\<lambda>x. 0) (size_list size)) cs" by (intro size_list_estimation') auto
  ultimately show ?case by simp
qed (auto simp: less_Suc_eq_le size_list_estimation')

text \<open>
  The statements whose code is right: \<open>brk\<close> and \<open>cont\<close> say whether a break or continue that leaves
  the statement is allowed. A continue may not leave the body of a \<open>do\<close> loop or of a \<open>switch\<close>, the
  default clause is the last one, and the removal of values from the stack counts up to 255.
\<close>

fun initializer_ok :: "stmt \<Rightarrow> bool" where
  "initializer_ok (N_EXPRESSION e) \<longleftrightarrow> True"
| "initializer_ok (N_VAR_DEFINITION vs) \<longleftrightarrow> True"
| "initializer_ok s \<longleftrightarrow> False"

function wf_stmt :: "nat \<Rightarrow> function_info \<Rightarrow> bool \<Rightarrow> bool \<Rightarrow> stmt \<Rightarrow> bool" where
  "wf_stmt n F brk cont (N_EXPRESSION e) \<longleftrightarrow> wf_expr n False e \<and> pushes False e < 256"
| "wf_stmt n F brk cont N_NOP \<longleftrightarrow> True"
| "wf_stmt n F brk cont (N_VAR_DEFINITION vs) \<longleftrightarrow>
     (\<forall>e \<in> set (inits vs). wf_expr n False e) \<and> sum_list (map (pushes False) (inits vs)) < 256"
| "wf_stmt n F brk cont (N_BLOCK ss) \<longleftrightarrow> (\<forall>s \<in> set ss. wf_stmt n F brk cont s \<and> spushes s = 0)"
| "wf_stmt n F brk cont (N_DIRECTIVES ss) \<longleftrightarrow> (\<forall>s \<in> set ss. wf_stmt n F brk cont s)"
| "wf_stmt n F brk cont (N_IF c s e) \<longleftrightarrow>
     wf_expr n True c \<and> exact True c \<and> wf_stmt n F brk cont s
     \<and> (case e of None \<Rightarrow> True | Some s' \<Rightarrow> wf_stmt n F brk cont s')"
| "wf_stmt n F brk cont (N_FOR i c p b) \<longleftrightarrow>
     (case i of None \<Rightarrow> True | Some s \<Rightarrow> initializer_ok s \<and> wf_stmt n F False False s)
     \<and> (case c of None \<Rightarrow> True | Some e \<Rightarrow> wf_expr n True e \<and> exact True e)
     \<and> (case p of None \<Rightarrow> True | Some e \<Rightarrow> wf_expr n False e \<and> pushes False e < 256)
     \<and> (case b of None \<Rightarrow> True | Some s \<Rightarrow> wf_stmt n F True True s)"
| "wf_stmt n F brk cont (N_DO b c) \<longleftrightarrow> wf_stmt n F True False b \<and> wf_expr n True c \<and> exact True c"
| "wf_stmt n F brk cont N_BREAK \<longleftrightarrow> brk"
| "wf_stmt n F brk cont N_CONTINUE \<longleftrightarrow> cont"
| "wf_stmt n F brk cont (N_SWITCH e cs) \<longleftrightarrow>
     wf_expr n False e \<and> exact False e \<and> (\<forall>c \<in> set (butlast cs). fst c \<noteq> None)
     \<and> (\<forall>(t, body) \<in> set cs.
          (case t of None \<Rightarrow> True | Some e \<Rightarrow> wf_expr n False e \<and> exact False e)
          \<and> (\<forall>s \<in> set body. wf_stmt n F True False s))"
| "wf_stmt n F brk cont (N_RETURN e bl) \<longleftrightarrow>
     (case e of None \<Rightarrow> True
      | Some e \<Rightarrow> wf_expr n True e \<and> exact True e \<and> (\<not> resultType F \<or> \<not> resultVoid F))"
| "wf_stmt n F brk cont (N_THROW e) \<longleftrightarrow> wf_expr n True e \<and> exact True e"
| "wf_stmt n F brk cont (N_TRY b cs f nb) \<longleftrightarrow> False"
  by pat_completeness auto
termination
proof (relation "measure (\<lambda>(n, F, brk, cont, s). size s)", goal_cases)
  case (9 n F brk cont e cs x t body s)
  then have "size s \<le> size_list size body" by (simp add: size_list_estimation')
  moreover from 9 have "size_prod (\<lambda>x. 0) (size_list size) (t, body)
      \<le> size_list (size_prod (\<lambda>x. 0) (size_list size)) cs" by (intro size_list_estimation') auto
  ultimately show ?case by simp
qed (auto simp: less_Suc_eq_le size_list_estimation')

end
