(* ===== verification/CompileCode.thy ===== *)
theory CompileCode
  imports Assembly
begin

text \<open>
  The code generator of \<open>CodeGen\<close> writes exactly the code that \<open>Assembly\<close> describes: one lemma per
  routine, over the state of the generator as a whole.
\<close>

section \<open>The code generator writes the structured code\<close>

definition add_code :: "piece list \<Rightarrow> int \<Rightarrow> int \<Rightarrow> compiler \<Rightarrow> compiler" where
  "add_code ps k l cp =
     cp\<lparr>code := (code cp)\<lparr>buf := buf (code cp) @ pbytes ps,
                         jumps := jumps (code cp) @ holes (length (buf (code cp))) ps,
                         stackCount := stackCount (code cp) + k\<rparr>, lastOp := l\<rparr>"

lemma add_code_nothing: "add_code [] 0 (lastOp cp) cp = cp"
  by (simp add: add_code_def)

lemma add_code_add_code [simp]: "add_code qs j m (add_code ps k l cp) = add_code (ps @ qs) (k + j) m cp"
  by (simp add: add_code_def plen_def)

lemma add_code_fields [simp]:
  "error (add_code ps k l cp) = error cp" "optimizeLevel (add_code ps k l cp) = optimizeLevel cp"
  "lastOp (add_code ps k l cp) = l"
  "buf (code (add_code ps k l cp)) = buf (code cp) @ pbytes ps"
  "jumps (code (add_code ps k l cp)) = jumps (code cp) @ holes (length (buf (code cp))) ps"
  "exceptions (code (add_code ps k l cp)) = exceptions (code cp)"
  "jumpKinds (code (add_code ps k l cp)) = jumpKinds (code cp)"
  "breakMark (code (add_code ps k l cp)) = breakMark (code cp)"
  "blockMark (code (add_code ps k l cp)) = blockMark (code cp)"
  "blockCount (code (add_code ps k l cp)) = blockCount (code cp)"
  "stackCount (code (add_code ps k l cp)) = stackCount (code cp) + k"
  by (simp_all add: add_code_def)

lemma add_code_cong:
  "pbytes ps = pbytes qs \<Longrightarrow> (\<And>p. holes p ps = holes p qs) \<Longrightarrow> add_code ps k l cp = add_code qs k l cp"
  by (simp add: add_code_def)

lemma encodeOpcode_add: "encodeOpcode n cp = add_code [Bytes [word_of_int n]] 0 n cp"
  by (simp add: encodeOpcode_def encodeByte_def emit_def on_code_def add_code_def)

lemma encodeByte_add: "encodeByte n cp = add_code [Bytes [word_of_int n]] 0 (lastOp cp) cp"
  by (simp add: encodeByte_def emit_def on_code_def add_code_def)

lemma encodeNum_add: "encodeNum n cp = add_code [Bytes (ejsEncodeNum (word_of_int n))] 0 (lastOp cp) cp"
  by (simp add: encodeNum_def emit_def on_code_def add_code_def)

lemma encodeDouble_add: "encodeDouble d cp = add_code [Bytes (ejsEncodeDouble d)] 0 (lastOp cp) cp"
  by (simp add: encodeDouble_def emit_def on_code_def add_code_def)

lemma pushStack_add: "pushStack k cp = add_code [] k (lastOp cp) cp"
  by (simp add: pushStack_def on_code_def add_code_def)

lemma popStack_add: "popStack k cp = add_code [] (- k) (lastOp cp) cp"
  by (simp add: popStack_def on_code_def add_code_def)

lemma encodeJump_add:
  "encodeJump short op8 op n cp = add_code [Bytes (jump_bytes short op8 op n)] 0 (opnum (if short then op8 else op)) cp"
  by (auto simp: encodeJump_def encodeOpcode_add encodeByte_add encodeInt32_def jump_bytes_def emit_def
      on_code_def add_code_def split: option.split)

lemmas emit_simps = encodeOpcode_add encodeByte_add encodeNum_add encodeDouble_add pushStack_add
  popStack_add encodeJump_add

definition drop_op :: "nat \<Rightarrow> int \<Rightarrow> int" where
  "drop_op k l = (if k = 0 then l else if k = 1 then opnum OP_POP else opnum OP_POP_ITEMS)"

lemma discard_add:
  assumes "stackCount (code cp) = m + int k"
  shows "discardStackItems m cp = add_code [Bytes (drop_code k)] (- int k) (drop_op k (lastOp cp)) cp"
  using assms
  by (auto simp: discardStackItems_def Let_def emit_simps drop_code_def drop_op_def instruction_def add_code_def)

text \<open>A part that is generated into a buffer of its own and copied.\<close>

lemma add_code_alloc [simp]:
  "buf (code (allocCodeBuffer cp)) = []" "jumps (code (allocCodeBuffer cp)) = []"
  "exceptions (code (allocCodeBuffer cp)) = []"
  "jumpKinds (code (allocCodeBuffer cp)) = jumpKinds (code cp)"
  "breakMark (code (allocCodeBuffer cp)) = breakMark (code cp)"
  "blockMark (code (allocCodeBuffer cp)) = blockMark (code cp)"
  "blockCount (code (allocCodeBuffer cp)) = blockCount (code cp)"
  "stackCount (code (allocCodeBuffer cp)) = stackCount (code cp)"
  "error (allocCodeBuffer cp) = error cp" "optimizeLevel (allocCodeBuffer cp) = optimizeLevel cp"
  "lastOp (allocCodeBuffer cp) = lastOp cp"
  by (simp_all add: allocCodeBuffer_def on_code_def)

lemma copy_part:
  assumes "buf c = pbytes ps" "jumps c = holes 0 ps" "exceptions c = []"
  shows "copyCode c cp = add_code ps 0 (lastOp cp) cp"
proof (cases "pbytes ps = []")
  case True
  then have "holes p ps = []" for p
    by (induction p ps rule: holes.induct) auto
  with True assms show ?thesis
    by (simp add: copyCode_def copyCodeBuffer_def getCodeLength_def on_code_def add_code_def)
next
  case False
  with assms show ?thesis
    by (simp add: copyCode_def copyCodeBuffer_def getCodeLength_def on_code_def add_code_def Let_def
        holes_shift)
qed

definition no_return :: "int \<Rightarrow> int \<Rightarrow> bool" where
  "no_return l0 l \<longleftrightarrow> l = l0 \<or> l \<noteq> opnum OP_RETURN \<and> l \<noteq> opnum OP_RETURN_VALUE"

text \<open>\<open>writes\<close>: a generator adds the given code and changes the stack counter by \<open>k\<close>.\<close>

definition writes :: "piece list \<Rightarrow> nat \<Rightarrow> compiler \<Rightarrow> compiler \<Rightarrow> bool" where
  "writes ps k cp cp' \<longleftrightarrow> (\<exists>l. no_return (lastOp cp) l \<and> cp' = add_code ps (int k) l cp)"

definition adds :: "piece list \<Rightarrow> nat \<Rightarrow> compiler \<Rightarrow> compiler \<Rightarrow> bool" where
  "adds ps k cp cp' \<longleftrightarrow> (\<exists>l. cp' = add_code ps (int k) l cp)"

lemma writes_adds: "writes ps k cp cp' \<Longrightarrow> adds ps k cp cp'"
  by (auto simp: writes_def adds_def)

lemma writes_trans:
  "writes ps k cp cp1 \<Longrightarrow> writes qs j cp1 cp2 \<Longrightarrow> writes (ps @ qs) (k + j) cp cp2"
  by (fastforce simp: writes_def no_return_def)

lemma writes_add:
  "pbytes ps' = pbytes ps \<Longrightarrow> (\<And>p. holes p ps' = holes p ps) \<Longrightarrow> k' = int k \<Longrightarrow> no_return (lastOp cp) l \<Longrightarrow>
     writes ps k cp (add_code ps' k' l cp)"
  unfolding writes_def using add_code_cong [of ps' ps k' l cp] by auto

lemma writes_bytes:
  "writes ps k cp cp' \<Longrightarrow> pbytes ps = bs \<Longrightarrow> (\<And>p. holes p ps = []) \<Longrightarrow> writes [Bytes bs] k cp cp'"
  unfolding writes_def using add_code_cong [of ps "[Bytes bs]"] by auto

lemma no_return_op: "no_return l0 (opnum op) \<longleftrightarrow> l0 = opnum op \<or> opnum op \<noteq> 193 \<and> opnum op \<noteq> 194"
  by (auto simp: no_return_def)

lemma word_opnum_shift: "(word_of_int (k + int n) :: u8) = word_of_int k + word_of_nat n"
  by simp

lemma gen_literal: "writes [Bytes (literal_code lit)] 1 cp (genLiteral lit cp)"
proof (cases lit)
  case (LNumber d)
  show ?thesis
  proof (cases "double_int d")
    case None
    with LNumber show ?thesis
      by (auto simp: genLiteral_def emit_simps no_return_def instruction_def intro!: writes_add)
  next
    case (Some n)
    with LNumber show ?thesis
      by (auto simp: genLiteral_def emit_simps no_return_def instruction_def MAXINT_def intro!: writes_add)
  qed
qed (auto simp: genLiteral_def emit_simps no_return_def instruction_def intro!: writes_add)

lemma gen_get: "\<not> onLeft st \<Longrightarrow> writes [Bytes (get_code s)] 1 cp (genLocalName s st cp)"
  by (auto simp: genLocalName_def emit_simps no_return_def instruction_def get_code_def slot_code_def
      intro!: writes_add)

lemma gen_put:
  "genLeftHandSide (N_QNAME s) (genLocalName s) st cp
     = add_code [Bytes (put_code s)] (-1) (opnum (if s < 10 then OP_PUT_LOCAL_SLOT_N s else OP_PUT_LOCAL_SLOT)) cp"
  by (auto simp: genLeftHandSide_def genLocalName_def emit_simps instruction_def put_code_def slot_code_def
      intro!: add_code_cong)


lemma alloc_simps [simp]:
  "allocCodeBuffer (add_code ps k l cp) = add_code [] k l (allocCodeBuffer cp)"
  "allocCodeBuffer (allocCodeBuffer cp) = allocCodeBuffer cp"
  by (simp_all add: allocCodeBuffer_def on_code_def add_code_def)

lemma setStack_add: "setStack m cp = add_code [] (m - stackCount (code cp)) (lastOp cp) cp"
  by (simp add: setStack_def on_code_def add_code_def)

lemma setCodeBuffer_part [simp]:
  "setCodeBuffer (code (add_code ps k m cp)) (add_code qs j l (allocCodeBuffer cp)) = add_code ps k l cp"
  "setCodeBuffer (code cp) (add_code qs j l (allocCodeBuffer cp)) = add_code [] 0 l cp"
  by (simp_all add: setCodeBuffer_def add_code_def allocCodeBuffer_def on_code_def)

lemma copyCode_part [simp]:
  "copyCode (code (add_code ps k l (allocCodeBuffer cp'))) cp = add_code ps 0 (lastOp cp) cp"
  by (rule copy_part) simp_all

lemma getCodeLength_part [simp]:
  "getCodeLength (code (add_code ps k l (allocCodeBuffer cp))) = plen ps"
  by (simp add: getCodeLength_def plen_def)

lemma short_jump_small [simp]: "short_jump cp limit len = small (0 < optimizeLevel cp) limit len"
  by (simp add: short_jump_def small_def)

text \<open>States of the generator that differ only in the code written and in the last opcode.\<close>

definition like :: "compiler \<Rightarrow> compiler \<Rightarrow> bool" where
  "like cp cp' \<longleftrightarrow>
     error cp' = error cp \<and> optimizeLevel cp' = optimizeLevel cp
     \<and> exceptions (code cp') = exceptions (code cp') \<and> jumpKinds (code cp') = jumpKinds (code cp)
     \<and> breakMark (code cp') = breakMark (code cp) \<and> blockMark (code cp') = blockMark (code cp)
     \<and> blockCount (code cp') = blockCount (code cp) \<and> stackCount (code cp') = stackCount (code cp)"

lemma like_simps [simp]:
  "like cp cp" "like cp (add_code ps 0 l cp)" "like cp (allocCodeBuffer cp)"
  "like cp (add_code ps 0 l (allocCodeBuffer cp))"
  by (simp_all add: like_def)

lemma genIf_writes:
  assumes c: "writes [Bytes c] 1 cp (gc (st\<lparr>needsValue := True\<rparr>) cp)"
    and a: "\<And>cp'. like cp cp' \<Longrightarrow> adds A ka cp' (ga st cp')"
    and b: "\<And>cp'. like cp cp' \<Longrightarrow> adds B kb cp' (gb st cp')"
    and nv: "needsValue st \<Longrightarrow> ka = 1 \<and> kb = 1"
  shows "writes (if_code (0 < optimizeLevel cp) c
      (A @ [Bytes (drop_code (if needsValue st then 0 else ka))])
      (B @ [Bytes (drop_code (if needsValue st then 0 else kb))])) (if needsValue st then 1 else 0)
      cp (genIf gc ga (Some gb) st cp)"
proof -
  obtain l1 where 1: "gc (st\<lparr>needsValue := True\<rparr>) cp = add_code [Bytes c] 1 l1 cp"
    using c by (auto simp: writes_def)
  obtain l2 where 2: "ga st (add_code [] 0 l1 (allocCodeBuffer cp)) = add_code A (int ka) l2 (allocCodeBuffer cp)"
    using a [of "add_code [] 0 l1 (allocCodeBuffer cp)"] by (auto simp: adds_def)
  define l2' where "l2' = (if needsValue st then l2 else drop_op ka l2)"
  obtain l3 where 3: "gb st (add_code [] 0 l2' (allocCodeBuffer cp)) = add_code B (int kb) l3 (allocCodeBuffer cp)"
    using b [of "add_code [] 0 l2' (allocCodeBuffer cp)"] by (auto simp: adds_def)
  show ?thesis
  proof (cases "needsValue st")
    case True
    with nv have k: "ka = 1" "kb = 1" by auto
    have "l2' = l2" using True by (simp add: l2'_def)
    with True k 1 2 3 show ?thesis
      by (auto simp: genIf_def Let_def emit_simps check_value_def getStackCount_def discardStackItems_def
          setStack_add if_code_def drop_code_def no_return_def add.assoc intro!: writes_add)
  next
    case False
    have "l2' = drop_op ka l2" using False by (simp add: l2'_def)
    with False 1 2 3 show ?thesis
      by (auto simp: genIf_def Let_def emit_simps getStackCount_def discard_add [where k = ka]
          discard_add [where k = kb] if_code_def no_return_def add.assoc intro!: writes_add)
  qed
qed


lemma genLogicalOp_writes:
  assumes l: "writes [Bytes l] 1 cp (gl st cp)"
    and r: "\<And>cp'. optimizeLevel cp' = optimizeLevel cp \<Longrightarrow> writes [Bytes r] 1 cp' (gr st cp')"
    and tok: "tok = T_LOGICAL_AND \<or> tok = T_LOGICAL_OR"
  shows "writes [Bytes (logical_code (0 < optimizeLevel cp) tok l r)] 1 cp (genLogicalOp tok gl gr st cp)"
proof -
  obtain l1 where 1: "gl st cp = add_code [Bytes l] 1 l1 cp"
    using l by (auto simp: writes_def)
  let ?cp = "add_code [Bytes [word_of_int (opnum OP_POP)]] 0 (opnum OP_POP) (allocCodeBuffer cp)"
  obtain l2 where 2: "gr st ?cp = add_code [Bytes [word_of_int (opnum OP_POP)], Bytes r] 1 l2 (allocCodeBuffer cp)"
    using r [of ?cp] by (auto simp: writes_def)
  have "0 < plen [Bytes [word_of_int (opnum OP_POP)], Bytes r]" by simp
  with 1 2 tok show ?thesis
    by (auto simp: genLogicalOp_def Let_def emit_simps logical_code_def no_return_def instruction_def
        split: if_splits intro!: writes_add)
qed

lemma gens_writes:
  assumes "\<And>e cp'. e \<in> set es \<Longrightarrow> optimizeLevel cp' = optimizeLevel cp \<Longrightarrow>
      writes [Bytes (f e)] (k e) cp' (g e st cp')"
  shows "writes [Bytes (concat (map f es))] (sum_list (map k es)) cp (genExpressions (map g es) st cp)"
  using assms
proof (induction es arbitrary: cp)
  case Nil
  then show ?case using writes_add [of "[]" "[Bytes []]" 0 0 cp "lastOp cp"]
    by (simp add: add_code_nothing no_return_def)
next
  case (Cons e es)
  have w: "writes [Bytes (f e)] (k e) cp (g e st cp)" by (rule Cons.prems) simp_all
  then have "optimizeLevel (g e st cp) = optimizeLevel cp" by (auto simp: writes_def)
  with writes_trans [OF w Cons.IH] Cons.prems
  have "writes [Bytes (f e), Bytes (concat (map f es))] (k e + sum_list (map k es)) cp
      (genExpressions (map g es) st (g e st cp))" by simp
  then have "writes [Bytes (f e @ concat (map f es))] (k e + sum_list (map k es)) cp
      (genExpressions (map g es) st (g e st cp))" by (rule writes_bytes) simp_all
  then show ?case by simp
qed

lemma gen_expr:
  "wf_expr n nv e \<Longrightarrow> \<not> onLeft st \<Longrightarrow> needsValue st = nv \<Longrightarrow>
     writes [Bytes (ecode (0 < optimizeLevel cp) nv e)] (pushes nv e) cp (gen e st cp)"
proof (induction e arbitrary: nv st cp rule: gen.induct)
  case (1 lit)
  then show ?case using gen_literal by simp
next
  case (2 slot)
  then show ?case using gen_get by simp
next
  case (3 d l r)
  then obtain s where l: "l = N_QNAME s" by (auto split: expr.splits)
  let ?st = "st\<lparr>onLeft := False, needsValue := True\<rparr>"
  from 3(3-) obtain m where "gen (mark_dup r) ?st cp
      = add_code [Bytes (ecode (0 < optimizeLevel cp) True (mark_dup r))] 1 m cp"
    using 3(2) [of True ?st cp] exact_pushes [of True r] by (auto simp: writes_def)
  with 3(3-) l show ?case
    by (auto simp: genAssignOp_def Let_def emit_simps gen_put no_return_def instruction_def intro!: writes_add)
next
  case (4 tok l r)
  let ?st = "st\<lparr>needsValue := True\<rparr>"
  have l: "writes [Bytes (ecode (0 < optimizeLevel cp) True l)] 1 cp (gen l ?st cp)" for cp
    using 4(1) [of True ?st cp] 4(3-) exact_pushes [of True l] by auto
  have r: "writes [Bytes (ecode (0 < optimizeLevel cp) True r)] 1 cp (gen r ?st cp)" for cp
    using 4(2) [of True ?st cp] 4(3-) exact_pushes [of True r] by auto
  show ?case
  proof (cases "tok = T_LOGICAL_AND \<or> tok = T_LOGICAL_OR")
    case True
    have "writes [Bytes (logical_code (0 < optimizeLevel cp) tok (ecode (0 < optimizeLevel cp) True l)
        (ecode (0 < optimizeLevel cp) True r))] 1 cp (genLogicalOp tok (gen l) (gen r) ?st cp)"
    proof (rule genLogicalOp_writes [where gl = "gen l" and gr = "gen r", OF l _ True])
      fix cp' :: compiler assume "optimizeLevel cp' = optimizeLevel cp"
      with r [of cp'] show "writes [Bytes (ecode (0 < optimizeLevel cp) True r)] 1 cp' (gen r ?st cp')" by simp
    qed
    with True show ?thesis by (simp add: genBinaryOp_def)
  next
    case False
    with 4(3) obtain b where b: "token_op tok = Some (OP_BINARY b)"
      by (auto split: option.splits opcode.splits)
    obtain m1 where 1: "gen l ?st cp = add_code [Bytes (ecode (0 < optimizeLevel cp) True l)] 1 m1 cp"
      using l [of cp] by (auto simp: writes_def)
    obtain m2 where 2: "gen r ?st (gen l ?st cp) = add_code [Bytes (ecode (0 < optimizeLevel cp) True l),
        Bytes (ecode (0 < optimizeLevel cp) True r)] 2 m2 cp"
      using r [of "gen l ?st cp"] 1 by (auto simp: writes_def)
    have "no_return (lastOp cp) (binary_num b)" by (cases b) (simp_all add: no_return_def)
    with False 2 b show ?thesis
      by (auto simp: genBinaryOp_def Let_def emit_simps mapToken_def instruction_def intro!: writes_add)
  qed
next
  case (5 tok e)
  define nv' where "nv' = (if tok \<in> {T_LOGICAL_NOT, T_TILDE, T_TYPEOF} then True else nv)"
  let ?st = "st\<lparr>needsValue := nv'\<rparr>"
  have st: "nv' = nv \<Longrightarrow> ?st = st" using 5(4) by simp
  show ?case
  proof (cases "tok = T_VOID")
    case True
    then show ?thesis
      by (auto simp: genUnaryOp_def emit_simps unary_code_def instruction_def no_return_def intro!: writes_add)
  next
    case False
    with 5(2) have "wf_expr n nv' e" by (auto simp: nv'_def split: token.splits expr.splits)
    with 5(1) [of nv' ?st cp] 5(3) have w: "writes [Bytes (ecode (0 < optimizeLevel cp) nv' e)] (pushes nv' e) cp (gen e ?st cp)"
      by simp
    show ?thesis
    proof (cases "tok = T_PLUS")
      case True
      with w st show ?thesis by (simp add: nv'_def genUnaryOp_def unary_code_def)
    next
      case False
      with \<open>tok \<noteq> T_VOID\<close> 5(2) have k: "pushes nv' e = 1"
        by (auto simp: nv'_def exact_pushes split: token.splits expr.splits)
      then obtain m where m: "gen e ?st cp = add_code [Bytes (ecode (0 < optimizeLevel cp) nv' e)] 1 m cp"
        using w by (auto simp: writes_def)
      from False \<open>tok \<noteq> T_VOID\<close> 5(2) consider
          "tok \<in> {T_LOGICAL_NOT, T_TILDE, T_TYPEOF, T_MINUS}"
        | s where "tok = T_PLUS_PLUS \<or> tok = T_MINUS_MINUS" "e = N_QNAME s"
        by (auto split: token.splits expr.splits)
      then show ?thesis
      proof cases
        case 1
        with m st show ?thesis
          by (auto simp: nv'_def genUnaryOp_def emit_simps unary_code_def instruction_def no_return_def
              intro!: writes_add)
      next
        case 2
        with m st show ?thesis
          by (auto simp: nv'_def genUnaryOp_def genPrefixOp_def Let_def emit_simps gen_put unary_code_def
              instruction_def no_return_def intro!: writes_add)
      qed
    qed
  qed
next
  case (6 tok e)
  from 6(2) obtain s where e: "e = N_QNAME s" by (auto split: expr.splits)
  obtain m where m: "genLocalName s st cp = add_code [Bytes (get_code s)] 1 m cp"
    using gen_get [of st s cp] 6(3) by (auto simp: writes_def)
  with 6(2-) e show ?case
    by (auto simp: genPostfixOp_def Let_def emit_simps gen_put instruction_def no_return_def intro!: writes_add)
next
  case (7 c a b)
  have c: "writes [Bytes (ecode (0 < optimizeLevel cp) True c)] 1 cp (gen c (st\<lparr>needsValue := True\<rparr>) cp)"
    using 7(1) [of True "st\<lparr>needsValue := True\<rparr>" cp] 7(4-) exact_pushes [of True c] by auto
  have a: "writes [Bytes (ecode (0 < optimizeLevel cp) nv a)] (pushes nv a) cp' (gen a st cp')"
    if "like cp cp'" for cp'
    using 7(2) [of nv st cp'] 7(4-) that by (auto simp: like_def)
  have b: "writes [Bytes (ecode (0 < optimizeLevel cp) nv b)] (pushes nv b) cp' (gen b st cp')"
    if "like cp cp'" for cp'
    using 7(3) [of nv st cp'] 7(4-) that by (auto simp: like_def)
  have k: "needsValue st \<Longrightarrow> pushes nv a = 1 \<and> pushes nv b = 1"
    using 7(4-) exact_pushes [of True a] exact_pushes [of True b] by auto
  from genIf_writes [where gc = "gen c" and ga = "gen a" and gb = "gen b", OF c writes_adds [OF a]
      writes_adds [OF b] k] 7(6) show ?case
    by (auto simp: if_code_def Let_def elim!: writes_bytes)
next
  case (8 es)
  have "writes [Bytes (concat (map (ecode (0 < optimizeLevel cp) nv) es))] (sum_list (map (pushes nv) es))
      cp (genExpressions (map gen es) st cp)"
  proof (rule gens_writes)
    fix e and cp' :: compiler
    assume "e \<in> set es" "optimizeLevel cp' = optimizeLevel cp"
    with 8(1) [of e nv st cp'] 8(2-)
    show "writes [Bytes (ecode (0 < optimizeLevel cp) nv e)] (pushes nv e) cp' (gen e st cp')" by simp
  qed
  then show ?case by simp
qed simp

section \<open>Statements\<close>

lemma breakable_add [simp]:
  "ecStartBreakableStatement K (add_code ps 0 l cp) = add_code ps 0 l (ecStartBreakableStatement K cp)"
  by (simp add: ecStartBreakableStatement_def on_code_def add_code_def)

text \<open>The buffer of a statement that break or continue can leave, inside the buffer of \<open>cp\<close>.\<close>

definition inner :: "jump_kind set \<Rightarrow> compiler \<Rightarrow> compiler" where
  "inner K cp = ecStartBreakableStatement K (allocCodeBuffer cp)"

lemma inner_simps [simp]:
  "buf (code (inner K cp)) = []" "jumps (code (inner K cp)) = []" "exceptions (code (inner K cp)) = []"
  "jumpKinds (code (inner K cp)) = jumpKinds (code cp) \<union> K"
  "breakMark (code (inner K cp)) = stackCount (code cp)" "blockMark (code (inner K cp)) = blockCount (code cp)"
  "blockCount (code (inner K cp)) = blockCount (code cp)" "stackCount (code (inner K cp)) = stackCount (code cp)"
  "error (inner K cp) = error cp" "optimizeLevel (inner K cp) = optimizeLevel cp" "lastOp (inner K cp) = lastOp cp"
  by (simp_all add: inner_def ecStartBreakableStatement_def on_code_def)

lemma patch_inner:
  assumes "plen ps < 2 ^ 27" and "t < 2 ^ 27"
  shows "patchJumps k t (add_code ps j l (inner K cp)) = add_code (close k t 0 ps) j l (inner K cp)"
proof -
  have "patch_scan k t (holes 0 ps) (pbytes ps) = (pbytes (close k t 0 ps), holes 0 (close k t 0 ps))"
    using patch_scan_close [of "[]" ps t k "[]"] assms by simp
  then show ?thesis by (simp add: patchJumps_def on_code_def add_code_def)
qed

lemma copy_inner [simp]:
  "setCodeBuffer (copyCodeBuffer (code cp) (code (add_code ps k l (inner K cp)))) (add_code ps k l (inner K cp))
     = add_code ps 0 l cp"
proof -
  have "setCodeBuffer (copyCodeBuffer (code cp) c) (add_code ps k l (inner K cp)) = (copyCode c cp)\<lparr>lastOp := l\<rparr>" for c
    by (simp add: setCodeBuffer_def copyCode_def on_code_def add_code_def inner_def allocCodeBuffer_def
        ecStartBreakableStatement_def)
  moreover have "copyCode (code (add_code ps k l (inner K cp))) cp = add_code ps 0 (lastOp cp) cp"
    by (rule copy_part) simp_all
  ultimately show ?thesis by (simp add: add_code_def)
qed

lemma part_inner [simp]:
  "getCodeLength (code (add_code ps k l (inner K cp))) = plen ps"
  by (simp add: getCodeLength_def plen_def)

lemma jump_kind_total: "k = EC_JUMP_BREAK \<or> k = EC_JUMP_CONTINUE"
  by (cases k) auto

text \<open>A part of a loop: generated at the counters of the inner buffer, with what it leaves removed.\<close>

lemma gen_part_adds:
  assumes "adds ps k cp (g st cp)"
  shows "\<exists>l. gen_part g st cp = add_code (cleaned ps k) 0 l cp"
proof -
  obtain l where l: "g st cp = add_code ps (int k) l cp" using assms by (auto simp: adds_def)
  then show ?thesis
    by (auto simp: gen_part_def Let_def getStackCount_def discard_add [where k = k] cleaned_def)
qed


lemma setCodeBuffer_same [simp]:
  "setCodeBuffer (code (add_code ps k m cp)) (add_code qs j l cp) = add_code ps k l cp"
  by (simp add: setCodeBuffer_def add_code_def)

text \<open>
  \<open>inside S X\<close>: parts of the statement with inner buffer \<open>S\<close> have been generated, \<open>X\<close> is the state
  after the last of them. \<open>holds_code\<close>: what is kept of a part.
\<close>

definition inside :: "compiler \<Rightarrow> compiler \<Rightarrow> bool" where
  "inside S X \<longleftrightarrow> (\<exists>ps l. X = add_code ps 0 l S \<or> X = add_code ps 0 l (allocCodeBuffer S))"

lemma inside_alloc: "inside S X \<Longrightarrow> \<exists>l. allocCodeBuffer X = add_code [] 0 l (allocCodeBuffer S)"
  by (auto simp: inside_def)

lemma inside_back: "inside S X \<Longrightarrow> \<exists>l. setCodeBuffer (code (add_code ps k m S)) X = add_code ps k l S"
  by (auto simp: inside_def)

fun holds_code :: "codegen option \<Rightarrow> piece list option \<Rightarrow> bool" where
  "holds_code None None \<longleftrightarrow> True"
| "holds_code (Some c) (Some ps) \<longleftrightarrow> buf c = pbytes ps \<and> jumps c = holes 0 ps \<and> exceptions c = []"
| "holds_code _ _ \<longleftrightarrow> False"

definition pieces_of :: "piece list option \<Rightarrow> piece list" where
  "pieces_of x = (case x of None \<Rightarrow> [] | Some ps \<Rightarrow> ps)"

lemma pieces_of_simps [simp]: "pieces_of None = []" "pieces_of (Some ps) = ps"
  by (simp_all add: pieces_of_def)

lemma holds_code_length: "holds_code c x \<Longrightarrow> bufferLength c = plen (pieces_of x)"
  by (cases c; cases x) (auto simp: bufferLength_def getCodeLength_def plen_def)

lemma copyOptional_add: "holds_code c x \<Longrightarrow> copyOptional c cp = add_code (pieces_of x) 0 (lastOp cp) cp"
  by (cases c; cases x) (auto simp: copyOptional_def add_code_nothing intro: copy_part)

lemma gen_into_inside:
  assumes X: "inside S X"
    and g: "\<And>g'. g = Some g' \<Longrightarrow> \<exists>ps. x = Some ps \<and>
      (\<forall>l. \<exists>m. run g' (add_code [] 0 l (allocCodeBuffer S)) = add_code ps 0 m (allocCodeBuffer S))"
    and n: "g = None \<Longrightarrow> x = None"
  obtains c X' where "gen_into run g X = (c, X')" "holds_code c x" "inside S X'"
proof (cases g)
  case None
  with n X that [of None X] show ?thesis by (simp add: gen_into_def)
next
  case (Some g')
  obtain l where "allocCodeBuffer X = add_code [] 0 l (allocCodeBuffer S)" using inside_alloc [OF X] by blast
  with g [OF Some] obtain ps m where ps: "x = Some ps" "run g' (allocCodeBuffer X) = add_code ps 0 m (allocCodeBuffer S)"
    by metis
  show ?thesis
  proof (rule that)
    show "gen_into run g X = (Some (code (add_code ps 0 m (allocCodeBuffer S))), add_code ps 0 m (allocCodeBuffer S))"
      using Some ps by (simp add: gen_into_def Let_def)
  qed (use ps in \<open>auto simp: inside_def\<close>)
qed

lemma copyFor_adds:
  assumes c: "holds_code cc (map_option (\<lambda>bs. [Bytes bs]) c)" and b: "holds_code bc B" and p: "holds_code sc P"
    and len: "plen (for_code (0 < optimizeLevel cp) I c (pieces_of B) (pieces_of P)) < 2 ^ 27"
  shows "\<exists>l. (\<forall>l'. no_return l' l) \<and>
    copyFor (stackCount (code cp)) cc bc sc (add_code I 0 l0 (inner {EC_JUMP_BREAK, EC_JUMP_CONTINUE} cp))
      = add_code (for_code (0 < optimizeLevel cp) I c (pieces_of B) (pieces_of P)) 0 l
          (inner {EC_JUMP_BREAK, EC_JUMP_CONTINUE} cp)"
proof -
  let ?S = "inner {EC_JUMP_BREAK, EC_JUMP_CONTINUE} cp"
  define opt where "opt = (0 < optimizeLevel cp)"
  define bl where "bl = plen (pieces_of B)"
  define sl where "sl = plen (pieces_of P)"
  define cl where "cl = (case c of None \<Rightarrow> 0 | Some bs \<Rightarrow> length bs)"
  define cs where "cs = small opt 122 (bl + sl)"
  define cl' where "cl' = (if 0 < cl then cl + jump_size cs else cl)"
  define ls where "ls = small opt 122 (cl' + bl + sl)"
  define sl' where "sl' = sl + jump_size ls"
  define test where "test = (case c of None \<Rightarrow> []
    | Some bs \<Rightarrow> [Bytes (bs @ jump_bytes cs OP_BRANCH_FALSE_8 OP_BRANCH_FALSE (int (bl + sl')))])"
  define goto where "goto = jump_bytes ls OP_GOTO_8 OP_GOTO (- int (cl' + bl + sl'))"
  define top where "top = I @ test @ pieces_of B"
  define whole where "whole = top @ pieces_of P @ [Bytes goto]"
  have code: "for_code opt I c (pieces_of B) (pieces_of P)
      = close EC_JUMP_CONTINUE (plen top) 0 (close EC_JUMP_BREAK (plen whole) 0 whole)"
    unfolding for_code_def Let_def whole_def top_def test_def goto_def sl'_def ls_def cl'_def cs_def
      cl_def bl_def sl_def by (rule refl)
  have lc: "bufferLength cc = cl"
    using holds_code_length [OF c] by (cases c) (simp_all add: cl_def)
  have tst: "\<exists>m. (case cc of None \<Rightarrow> cp'
      | Some d \<Rightarrow> encodeJump cs OP_BRANCH_FALSE_8 OP_BRANCH_FALSE (int (bl + sl')) (copyCode d cp'))
      = add_code test 0 m cp'" for cp'
  proof (cases c)
    case None
    with c have "cc = None" by (cases cc) auto
    with None show ?thesis by (auto simp: test_def intro: add_code_nothing [symmetric])
  next
    case (Some bs)
    with c obtain d where d: "cc = Some d" "buf d = pbytes [Bytes bs]" "jumps d = holes 0 [Bytes bs]" "exceptions d = []"
      by (cases cc) auto
    from copy_part [OF d(2-4)] d(1) Some show ?thesis
      by (auto simp: test_def encodeJump_add intro!: exI add_code_cong)
  qed
  obtain m where m: "(case cc of None \<Rightarrow> add_code I 0 l0 ?S
      | Some d \<Rightarrow> encodeJump cs OP_BRANCH_FALSE_8 OP_BRANCH_FALSE (int (bl + sl')) (copyCode d (add_code I 0 l0 ?S)))
      = add_code (I @ test) 0 m ?S"
    using tst [of "add_code I 0 l0 ?S"] by auto
  define l where "l = opnum (if ls then OP_GOTO_8 else OP_GOTO)"
  have pl: "length (pbytes ps) = plen ps" for ps by (simp add: plen_def)
  have n: "0x7f - 5 = (122 :: nat)" by simp
  have opt': "short_jump (add_code I 0 l0 ?S) limit len = small opt limit len" for limit len
    by (simp add: opt_def)
  have "copyFor (stackCount (code cp)) cc bc sc (add_code I 0 l0 ?S)
      = patchJumps EC_JUMP_CONTINUE (plen top) (patchJumps EC_JUMP_BREAK (plen whole) (add_code whole 0 l ?S))"
    unfolding copyFor_def Let_def lc holds_code_length [OF b] holds_code_length [OF p]
      bl_def [symmetric] sl_def [symmetric] opt' n cs_def [symmetric] cl'_def [symmetric]
      ls_def [symmetric] sl'_def [symmetric] m
    by (simp add: copyOptional_add [OF b] copyOptional_add [OF p] encodeJump_add discardStackItems_def pl
        top_def whole_def goto_def l_def)
  also have "\<dots> = add_code (for_code opt I c (pieces_of B) (pieces_of P)) 0 l ?S"
  proof -
    have "plen whole < 2 ^ 27" using len by (simp add: code opt_def [symmetric] del: plen_simps)
    moreover have "plen top \<le> plen whole" by (simp add: whole_def)
    ultimately show ?thesis by (simp add: patch_inner code)
  qed
  moreover have "\<forall>l'. no_return l' l" by (simp add: l_def no_return_def)
  ultimately show ?thesis by (auto simp: opt_def)
qed

lemma genFor_writes:
  fixes st :: state
  defines "st' \<equiv> st\<lparr>captureFinally := False, captureBreak := False\<rparr>"
    and "K \<equiv> {EC_JUMP_BREAK, EC_JUMP_CONTINUE}"
  assumes nv: "\<not> needsValue st"
    and i: "\<exists>l. run_opt (map_option gen_part gi) st' (allocCodeBuffer cp) = add_code I 0 l (allocCodeBuffer cp)"
    and c: "gc = None \<Longrightarrow> c = None"
      "\<And>g. gc = Some g \<Longrightarrow> \<exists>bs. c = Some bs \<and>
         (\<forall>cp'. optimizeLevel cp' = optimizeLevel cp \<longrightarrow> adds [Bytes bs] 1 cp' (g (st'\<lparr>needsValue := True\<rparr>) cp'))"
    and b: "gb = None \<Longrightarrow> B = None"
      "\<And>g. gb = Some g \<Longrightarrow> \<exists>ps. B = Some ps \<and>
         (\<forall>cp'. like (inner K cp) cp' \<longrightarrow> (\<exists>l. gen_part g st' cp' = add_code ps 0 l cp'))"
    and p: "gp = None \<Longrightarrow> P = None"
      "\<And>g. gp = Some g \<Longrightarrow> \<exists>ps. P = Some ps \<and>
         (\<forall>cp'. like (inner K cp) cp' \<longrightarrow> (\<exists>l. gen_part g st' cp' = add_code ps 0 l cp'))"
    and len: "plen (for_code (0 < optimizeLevel cp) I c (pieces_of B) (pieces_of P)) < 2 ^ 27"
  shows "writes (for_code (0 < optimizeLevel cp) I c (pieces_of B) (pieces_of P)) 0 cp (genFor gi gc gp gb st cp)"
proof -
  let ?S = "inner K cp"
  obtain l1 where 1: "run_opt (map_option gen_part gi) st' (allocCodeBuffer cp) = add_code I 0 l1 (allocCodeBuffer cp)"
    using i by blast
  have S: "ecStartBreakableStatement K (add_code I 0 l1 (allocCodeBuffer cp)) = add_code I 0 l1 ?S"
    by (simp add: inner_def)
  have X0: "inside ?S (add_code I 0 l1 ?S)" by (auto simp: inside_def)
  obtain cc X1 where 2: "gen_into (\<lambda>g cp. popStack 1 (g (st'\<lparr>needsValue := True\<rparr>) cp)) gc (add_code I 0 l1 ?S) = (cc, X1)"
      "holds_code cc (map_option (\<lambda>bs. [Bytes bs]) c)" "inside ?S X1"
  proof (rule gen_into_inside [OF X0])
    fix g assume "gc = Some g"
    from c(2) [OF this] obtain bs where bs: "c = Some bs" "\<And>cp'. optimizeLevel cp' = optimizeLevel cp \<Longrightarrow>
        adds [Bytes bs] 1 cp' (g (st'\<lparr>needsValue := True\<rparr>) cp')" by blast
    have "\<exists>m. popStack 1 (g (st'\<lparr>needsValue := True\<rparr>) (add_code [] 0 l (allocCodeBuffer ?S)))
        = add_code [Bytes bs] 0 m (allocCodeBuffer ?S)" for l
      using bs(2) [of "add_code [] 0 l (allocCodeBuffer ?S)"] by (auto simp: adds_def emit_simps)
    with bs(1) show "\<exists>ps. map_option (\<lambda>bs. [Bytes bs]) c = Some ps \<and> (\<forall>l. \<exists>m.
        popStack 1 (g (st'\<lparr>needsValue := True\<rparr>) (add_code [] 0 l (allocCodeBuffer ?S))) = add_code ps 0 m (allocCodeBuffer ?S))"
      by simp
  qed (use c in simp_all)
  have nv': "(if Option.is_none gc then st' else st'\<lparr>needsValue := False\<rparr>) = st'"
    using nv by (simp add: st'_def)
  have part: thesis if X: "inside ?S X" and n: "g = None \<Longrightarrow> x = None"
      and s: "\<And>g'. g = Some g' \<Longrightarrow> \<exists>ps. x = Some ps \<and>
        (\<forall>cp'. like ?S cp' \<longrightarrow> (\<exists>l. gen_part g' st' cp' = add_code ps 0 l cp'))"
      and t: "\<And>c X'. gen_into (\<lambda>g. gen_part g st') g X = (c, X') \<Longrightarrow> holds_code c x \<Longrightarrow> inside ?S X' \<Longrightarrow> thesis"
    for X g x thesis
  proof (rule gen_into_inside [OF X _ n t])
    fix g' assume "g = Some g'"
    from s [OF this] obtain ps where ps: "x = Some ps"
        "\<And>cp'. like ?S cp' \<Longrightarrow> \<exists>l. gen_part g' st' cp' = add_code ps 0 l cp'" by blast
    have "\<exists>m. gen_part g' st' (add_code [] 0 l (allocCodeBuffer ?S)) = add_code ps 0 m (allocCodeBuffer ?S)" for l
      using ps(2) [of "add_code [] 0 l (allocCodeBuffer ?S)"] by auto
    with ps(1) show "\<exists>ps. x = Some ps \<and> (\<forall>l. \<exists>m. gen_part g' st' (add_code [] 0 l (allocCodeBuffer ?S)) = add_code ps 0 m (allocCodeBuffer ?S))"
      by blast
  qed assumption+
  obtain bc X2 where 3: "gen_into (\<lambda>g. gen_part g st') gb X1 = (bc, X2)" "holds_code bc B" "inside ?S X2"
    by (rule part [OF 2(3) b])
  obtain sc X3 where 4: "gen_into (\<lambda>g. gen_part g st') gp X2 = (sc, X3)" "holds_code sc P" "inside ?S X3"
    by (rule part [OF 3(3) p])
  obtain l2 where 5: "setCodeBuffer (code (add_code I 0 l1 ?S)) X3 = add_code I 0 l2 ?S"
    using inside_back [OF 4(3)] by blast
  obtain l3 where 6: "no_return (lastOp cp) l3" "copyFor (stackCount (code cp)) cc bc sc (add_code I 0 l2 ?S)
      = add_code (for_code (0 < optimizeLevel cp) I c (pieces_of B) (pieces_of P)) 0 l3 ?S"
    using copyFor_adds [OF 2(2) 3(2) 4(2) len, of l2, folded K_def] by blast
  have "genFor gi gc gp gb st cp = add_code (for_code (0 < optimizeLevel cp) I c (pieces_of B) (pieces_of P)) 0 l3 cp"
    unfolding genFor_def Let_def st'_def [symmetric] K_def [symmetric] 1 S 2(1) prod.case nv' 3(1) 4(1) 5
    by (simp add: getStackCount_def 6(2))
  with 6(1) show ?thesis by (auto simp: writes_def)
qed


lemma genDo_writes:
  fixes st :: state
  defines "st' \<equiv> st\<lparr>captureFinally := False, captureBreak := False\<rparr>"
    and "K \<equiv> {EC_JUMP_BREAK, EC_JUMP_CONTINUE}"
  assumes b: "\<And>cp'. like (inner K cp) cp' \<Longrightarrow> \<exists>l. gen_part gb st' cp' = add_code B 0 l cp'"
    and c: "\<And>cp'. optimizeLevel cp' = optimizeLevel cp \<Longrightarrow> adds [Bytes c] 1 cp' (gc (st'\<lparr>needsValue := True\<rparr>) cp')"
    and len: "plen (do_code (0 < optimizeLevel cp) B c) < 2 ^ 27"
  shows "writes (do_code (0 < optimizeLevel cp) B c) 0 cp (genDo gb gc st cp)"
proof -
  let ?S = "inner K cp"
  have S: "ecStartBreakableStatement K (allocCodeBuffer cp) = ?S" by (simp add: inner_def)
  obtain l1 where 1: "gen_part gb st' (allocCodeBuffer ?S) = add_code B 0 l1 (allocCodeBuffer ?S)"
    using b [of "allocCodeBuffer ?S"] by auto
  obtain l2 where 2: "gc (st'\<lparr>needsValue := True\<rparr>) (add_code [] 0 l1 (allocCodeBuffer ?S))
      = add_code [Bytes c] 1 l2 (allocCodeBuffer ?S)"
    using c [of "add_code [] 0 l1 (allocCodeBuffer ?S)"] by (auto simp: adds_def)
  define len where "len = plen B + length c"
  define short where "short = (0 < len \<and> small (0 < optimizeLevel cp) 0x7f len)"
  define cl where "cl = (if 0 < len then length c + jump_size short else length c)"
  define whole where "whole = B @ [Bytes (c @ jump_bytes short OP_BRANCH_TRUE_8 OP_BRANCH_TRUE (- int (plen B + cl)))]"
  define l where "l = opnum (if short then OP_BRANCH_TRUE_8 else OP_BRANCH_TRUE)"
  have code: "do_code (0 < optimizeLevel cp) B c
      = close EC_JUMP_CONTINUE 0 0 (close EC_JUMP_BREAK (plen whole) 0 whole)"
    by (auto simp: do_code_def Let_def whole_def cl_def short_def len_def algebra_simps simp del: close_append)
  have w: "plen whole < 2 ^ 27" using len by (simp add: code)
  have sj: "(0 < len \<and> short_jump (add_code [Bytes c] 1 l2 (allocCodeBuffer ?S)) 0x7f len) = short"
    by (simp add: short_def)
  have pc: "plen [Bytes c] = length c" by simp
  have pl: "length (pbytes ps) = plen ps" for ps by (simp add: plen_def)
  have e': "add_code (B @ [Bytes x, Bytes y]) k m cp' = add_code (B @ [Bytes (x @ y)]) k m cp'" for x y k m and cp' :: compiler
    by (rule add_code_cong) simp_all
  have "genDo gb gc st cp = (let X = patchJumps EC_JUMP_CONTINUE 0 (patchJumps EC_JUMP_BREAK (plen whole) (add_code whole 0 l ?S))
      in setCodeBuffer (copyCodeBuffer (code cp) (code X)) X)"
    unfolding genDo_def Let_def st'_def [symmetric] K_def [symmetric] S 1 alloc_simps 2 getCodeLength_part pc len_def [symmetric] sj cl_def [symmetric]
    by (simp add: emit_simps e' whole_def l_def pl)
  also have "\<dots> = add_code (do_code (0 < optimizeLevel cp) B c) 0 l cp"
    using w by (simp add: Let_def patch_inner code)
  moreover have "no_return (lastOp cp) l" by (simp add: l_def no_return_def)
  ultimately show ?thesis by (auto simp: writes_def)
qed


lemma genIf_none_writes:
  assumes c: "writes [Bytes c] 1 cp (gc (st\<lparr>needsValue := True\<rparr>) cp)"
    and a: "\<And>cp'. like cp cp' \<Longrightarrow> adds A ka cp' (ga st cp')"
    and nv: "\<not> needsValue st"
  shows "writes (if_code (0 < optimizeLevel cp) c (cleaned A ka) []) 0 cp (genIf gc ga None st cp)"
proof -
  obtain l1 where 1: "gc (st\<lparr>needsValue := True\<rparr>) cp = add_code [Bytes c] 1 l1 cp"
    using c by (auto simp: writes_def)
  obtain l2 where 2: "ga st (add_code [] 0 l1 (allocCodeBuffer cp)) = add_code A (int ka) l2 (allocCodeBuffer cp)"
    using a [of "add_code [] 0 l1 (allocCodeBuffer cp)"] by (auto simp: adds_def)
  show ?thesis using nv 1 2
    by (auto simp: genIf_def Let_def emit_simps getStackCount_def discard_add [where k = ka]
        if_code_def cleaned_def no_return_def add.assoc intro!: writes_add)
qed

text \<open>The cases of a switch: \<open>case_holds\<close> relates the buffers of a case to its code.\<close>

fun case_holds :: "codegen option \<times> codegen \<Rightarrow> u8 list option \<times> piece list \<Rightarrow> bool" where
  "case_holds (tc, bc) (t, b) \<longleftrightarrow>
     holds_code tc (map_option (\<lambda>bs. [Bytes bs]) t) \<and> holds_code (Some bc) (Some b)"

fun case_gen :: "compiler \<Rightarrow> state \<Rightarrow> generator option \<times> generator list \<Rightarrow> u8 list option \<times> piece list \<Rightarrow> bool" where
  "case_gen S st (g, gs) (t, b) \<longleftrightarrow>
     (case g of None \<Rightarrow> t = None
      | Some g \<Rightarrow> \<exists>bs. t = Some (op_bytes OP_DUP @ bs) \<and> (\<forall>cp'. like S cp' \<longrightarrow> adds [Bytes bs] 1 cp' (g st cp')))
     \<and> (\<forall>cp'. like S cp' \<longrightarrow> (\<exists>l. genDirectives gs st cp' = add_code b 0 l cp'))"

lemma gen_cases_adds:
  assumes "list_all2 (case_gen S st) elements cs" "inside S X" "\<not> error S"
  shows "\<exists>codes X'. gen_cases elements st X = (codes, X') \<and> inside S X' \<and> list_all2 case_holds codes cs"
  using assms(1,2)
proof (induction elements cs arbitrary: X rule: list_all2_induct)
  case Nil
  then show ?case by simp
next
  case (Cons x xs y ys)
  obtain g gs where x: "x = (g, gs)" by (cases x)
  obtain t b where y: "y = (t, b)" by (cases y)
  from Cons.hyps(1) x y have b: "like S cp' \<Longrightarrow> \<exists>l. genDirectives gs st cp' = add_code b 0 l cp'" for cp'
    by simp
  have err: "\<not> error X" and mark: "getStackCount X = stackCount (code S)"
    using Cons.prems assms(3) by (auto simp: inside_def getStackCount_def)
  obtain l0 where X: "allocCodeBuffer X = add_code [] 0 l0 (allocCodeBuffer S)"
    using inside_alloc [OF Cons.prems] by blast
  have "\<exists>tc X1. (case g of None \<Rightarrow> (None, X)
        | Some g \<Rightarrow> let cp = encodeOpcode (opnum OP_DUP) (allocCodeBuffer X); cp = popStack 1 (g st cp)
                   in (Some (code cp), cp)) = (tc, X1)
      \<and> inside S X1 \<and> holds_code tc (map_option (\<lambda>bs. [Bytes bs]) t)"
  proof (cases g)
    case None
    with Cons.hyps(1) x y Cons.prems show ?thesis by simp
  next
    case (Some g')
    with Cons.hyps(1) x y obtain bs where t: "t = Some (op_bytes OP_DUP @ bs)"
      and bs: "\<And>cp'. like S cp' \<Longrightarrow> adds [Bytes bs] 1 cp' (g' st cp')" by auto
    let ?X = "add_code [Bytes (op_bytes OP_DUP)] 0 (opnum OP_DUP) (allocCodeBuffer S)"
    have d: "encodeOpcode (opnum OP_DUP) (allocCodeBuffer X) = ?X"
      by (simp add: X emit_simps instruction_def)
    obtain l where l: "g' st ?X = add_code [Bytes (op_bytes OP_DUP), Bytes bs] 1 l (allocCodeBuffer S)"
      using bs [of ?X] by (auto simp: adds_def)
    show ?thesis unfolding Some option.case Let_def d l
      using t by (auto simp: emit_simps inside_def)
  qed
  then obtain tc X1 where t1: "(case g of None \<Rightarrow> (None, X)
        | Some g \<Rightarrow> let cp = encodeOpcode (opnum OP_DUP) (allocCodeBuffer X); cp = popStack 1 (g st cp)
                   in (Some (code cp), cp)) = (tc, X1)"
    and t2: "inside S X1" "holds_code tc (map_option (\<lambda>bs. [Bytes bs]) t)" by blast
  obtain l1 where X1: "allocCodeBuffer X1 = add_code [] 0 l1 (allocCodeBuffer S)"
    using inside_alloc [OF t2(1)] by blast
  obtain l2 where l2: "genDirectives gs st (allocCodeBuffer X1) = add_code b 0 l2 (allocCodeBuffer S)"
    using b [of "allocCodeBuffer X1"] by (auto simp: X1)
  have s: "setStack (getStackCount X) (add_code b 0 l2 (allocCodeBuffer S)) = add_code b 0 l2 (allocCodeBuffer S)"
    by (simp add: mark setStack_add)
  have "inside S (add_code b 0 l2 (allocCodeBuffer S))" by (auto simp: inside_def)
  from Cons.IH [OF this] obtain codes X' where
    r: "gen_cases xs st (add_code b 0 l2 (allocCodeBuffer S)) = (codes, X')" "inside S X'" "list_all2 case_holds codes ys"
    by blast
  have "gen_cases (x # xs) st X = ((tc, code (add_code b 0 l2 (allocCodeBuffer S))) # codes, X')"
    unfolding x gen_cases.simps if_not_P [OF err] Let_def [of "getStackCount X"]
    unfolding t1 unfolding Let_def prod.case l2 s r(1) by (rule refl)
  with r t2 y show ?case by auto
qed

lemma case_layout_code:
  "list_all2 case_holds codes cs \<Longrightarrow> snd (case_layout cp codes) = snd (cases_code (0 < optimizeLevel cp) cs)"
proof (induction codes cs rule: list_all2_induct)
  case (Cons x xs y ys)
  obtain tc bc t b where xy: "x = (tc, bc)" "y = (t, b)" by (cases x; cases y)
  with Cons.hyps have l: "getCodeLength bc = plen b" by (simp add: getCodeLength_def plen_def)
  from xy Cons.hyps have t: "holds_code tc (map_option (\<lambda>bs. [Bytes bs]) t)" by simp
  from Cons.IH xy l t show ?case
    by (cases tc; cases t) (auto simp: Let_def getCodeLength_def split: prod.splits)
qed simp

lemma copy_cases_adds:
  "list_all2 case_holds codes cs \<Longrightarrow> \<not> error cp \<Longrightarrow> 0 < optimizeLevel cp0 \<longleftrightarrow> 0 < optimizeLevel cp \<Longrightarrow>
     \<exists>l. copy_cases codes (fst (case_layout cp0 codes)) cp = add_code (fst (cases_code (0 < optimizeLevel cp) cs)) 0 l cp"
proof (induction codes cs arbitrary: cp rule: list_all2_induct)
  case Nil
  then show ?case by (auto intro: add_code_nothing [symmetric])
next
  case (Cons x xs y ys)
  obtain tc bc where x: "x = (tc, bc)" by (cases x)
  obtain t b where y: "y = (t, b)" by (cases y)
  define opt where "opt = (0 < optimizeLevel cp)"
  obtain ls next' where lay: "case_layout cp0 xs = (ls, next')" by (cases "case_layout cp0 xs")
  obtain rest next'' where cc: "cases_code opt ys = (rest, next'')" by (cases "cases_code opt ys")
  have nn: "next'' = next'"
    using case_layout_code [OF Cons.hyps(2), of cp0] Cons.prems lay cc by (simp add: opt_def)
  have b: "buf bc = pbytes b" "jumps bc = holes 0 b" "exceptions bc = []" and t: "holds_code tc (map_option (\<lambda>bs. [Bytes bs]) t)"
    using Cons.hyps(1) x y by simp_all
  have l: "getCodeLength bc = plen b" using b by (simp add: getCodeLength_def plen_def)
  define skip where "skip = (if 0 < next' then jump_size (small opt 0x7f next') else 0) + plen b"
  define T where "T = (case t of None \<Rightarrow> [] | Some bs \<Rightarrow> [Bytes (bs @ op_bytes (OP_BINARY COMPARE_STRICTLY_EQ)
      @ jump_bytes (small opt 0x7f skip) OP_BRANCH_FALSE_8 OP_BRANCH_FALSE (int skip))])"
  define G where "G = (if 0 < next' then jump_bytes (small opt 0x7f next') OP_GOTO_8 OP_GOTO (int next') else [])"
  have lens: "fst (case_layout cp0 (x # xs)) = (next', skip) # ls"
    using Cons.prems by (simp add: x lay Let_def skip_def l opt_def)
  have code: "fst (cases_code opt (y # ys)) = T @ b @ Bytes G # rest"
    by (cases t) (simp_all add: y cc nn Let_def T_def G_def skip_def)
  have 1: "\<exists>l1. (case tc of None \<Rightarrow> cp | Some c \<Rightarrow> encodeJump (short_jump cp 0x7f skip) OP_BRANCH_FALSE_8 OP_BRANCH_FALSE
         (int skip) (encodeOpcode (opnum (OP_BINARY COMPARE_STRICTLY_EQ)) (copyCode c cp))) = add_code T 0 l1 cp"
  proof (cases t)
    case None
    with t show ?thesis by (cases tc) (auto simp: T_def intro: add_code_nothing [symmetric])
  next
    case (Some bs)
    with t obtain d where d: "tc = Some d" "buf d = pbytes [Bytes bs]" "jumps d = holes 0 [Bytes bs]" "exceptions d = []"
      by (cases tc) auto
    show ?thesis
      using copy_part [OF d(2-4), of cp] d(1) Some
      by (auto simp: T_def emit_simps instruction_def opt_def intro!: exI add_code_cong)
  qed
  then obtain l1 where 1: "(case tc of None \<Rightarrow> cp | Some c \<Rightarrow> encodeJump (short_jump cp 0x7f skip) OP_BRANCH_FALSE_8 OP_BRANCH_FALSE
         (int skip) (encodeOpcode (opnum (OP_BINARY COMPARE_STRICTLY_EQ)) (copyCode c cp))) = add_code T 0 l1 cp" ..
  have 2: "copyCode bc (add_code T 0 l1 cp) = add_code (T @ b) 0 l1 cp"
    using copy_part [OF b] by simp
  have 3: "\<exists>l2. (if 0 < next' then encodeJump (short_jump (add_code (T @ b) 0 l1 cp) 0x7f next') OP_GOTO_8 OP_GOTO (int next') (add_code (T @ b) 0 l1 cp)
      else add_code (T @ b) 0 l1 cp) = add_code (T @ b @ [Bytes G]) 0 l2 cp"
    by (auto simp: G_def emit_simps opt_def intro!: exI add_code_cong)
  then obtain l2 where 3: "(if 0 < next' then encodeJump (short_jump (add_code (T @ b) 0 l1 cp) 0x7f next') OP_GOTO_8 OP_GOTO (int next') (add_code (T @ b) 0 l1 cp)
      else add_code (T @ b) 0 l1 cp) = add_code (T @ b @ [Bytes G]) 0 l2 cp" ..
  have "\<exists>l. copy_cases xs (fst (case_layout cp0 xs)) (add_code (T @ b @ [Bytes G]) 0 l2 cp)
      = add_code (fst (cases_code (0 < optimizeLevel (add_code (T @ b @ [Bytes G]) 0 l2 cp)) ys)) 0 l (add_code (T @ b @ [Bytes G]) 0 l2 cp)"
    by (rule Cons.IH) (use Cons.prems in simp_all)
  then obtain l3 where 4: "copy_cases xs ls (add_code (T @ b @ [Bytes G]) 0 l2 cp) = add_code (T @ b @ Bytes G # rest) 0 l3 cp"
    using lay cc by (auto simp: opt_def)
  have "copy_cases (x # xs) ((next', skip) # ls) cp = add_code (T @ b @ Bytes G # rest) 0 l3 cp"
    using Cons.prems(1) 4 unfolding x copy_cases.simps Let_def 1 2 3 by simp
  then show ?case unfolding lens using code by (auto simp: opt_def)
qed


text \<open>The buffer of a switch, with the value that the cases are compared with on the stack.\<close>

definition switched :: "compiler \<Rightarrow> compiler" where
  "switched cp = ecStartBreakableStatement {EC_JUMP_BREAK} (add_code [] 1 (lastOp cp) (allocCodeBuffer cp))"

lemma switched_simps [simp]:
  "buf (code (switched cp)) = []" "jumps (code (switched cp)) = []" "exceptions (code (switched cp)) = []"
  "jumpKinds (code (switched cp)) = insert EC_JUMP_BREAK (jumpKinds (code cp))"
  "breakMark (code (switched cp)) = stackCount (code cp) + 1" "blockMark (code (switched cp)) = blockCount (code cp)"
  "blockCount (code (switched cp)) = blockCount (code cp)" "stackCount (code (switched cp)) = stackCount (code cp) + 1"
  "error (switched cp) = error cp" "optimizeLevel (switched cp) = optimizeLevel cp"
  by (simp_all add: switched_def ecStartBreakableStatement_def on_code_def)

lemma switched_add:
  "ecStartBreakableStatement {EC_JUMP_BREAK} (add_code ps 1 l (allocCodeBuffer cp)) = add_code ps 0 l (switched cp)"
  by (simp add: switched_def ecStartBreakableStatement_def on_code_def add_code_def)

lemma patch_switched:
  assumes "plen ps < 2 ^ 27" and "t < 2 ^ 27"
  shows "patchJumps k t (add_code ps j l (switched cp)) = add_code (close k t 0 ps) j l (switched cp)"
proof -
  have "patch_scan k t (holes 0 ps) (pbytes ps) = (pbytes (close k t 0 ps), holes 0 (close k t 0 ps))"
    using patch_scan_close [of "[]" ps t k "[]"] assms by simp
  then show ?thesis by (simp add: patchJumps_def on_code_def add_code_def)
qed

lemma copy_switched:
  "setCodeBuffer (copyCodeBuffer (code cp) (code (add_code ps k l (switched cp)))) (add_code ps k l (switched cp))
     = add_code ps 0 l cp"
proof -
  have "setCodeBuffer (copyCodeBuffer (code cp) c) (add_code ps k l (switched cp)) = (copyCode c cp)\<lparr>lastOp := l\<rparr>" for c
    by (simp add: setCodeBuffer_def copyCode_def on_code_def add_code_def switched_def allocCodeBuffer_def
        ecStartBreakableStatement_def)
  moreover have "copyCode (code (add_code ps k l (switched cp))) cp = add_code ps 0 (lastOp cp) cp"
    by (rule copy_part) simp_all
  ultimately show ?thesis by (simp add: add_code_def)
qed

lemma genSwitch_writes:
  fixes st :: state
  defines "st' \<equiv> st\<lparr>captureFinally := False, captureBreak := False\<rparr>"
  assumes e: "adds [Bytes e] 1 (allocCodeBuffer cp) (ge st' (allocCodeBuffer cp))"
    and cs: "list_all2 (case_gen (switched cp) st') elements cs" and err: "\<not> error cp"
    and len: "plen (switch_code (0 < optimizeLevel cp) e cs) < 2 ^ 27"
  shows "writes (switch_code (0 < optimizeLevel cp) e cs) 0 cp (genSwitch ge elements st cp)"
proof -
  define opt where "opt = (0 < optimizeLevel cp)"
  let ?S = "switched cp"
  obtain l1 where 1: "ge st' (allocCodeBuffer cp) = add_code [Bytes e] 1 l1 (allocCodeBuffer cp)"
    using e by (auto simp: adds_def)
  have "inside ?S (add_code [Bytes e] 0 l1 ?S)" by (auto simp: inside_def)
  from gen_cases_adds [OF cs this] err obtain codes X' where
    2: "gen_cases elements st' (add_code [Bytes e] 0 l1 ?S) = (codes, X')" "inside ?S X'" "list_all2 case_holds codes cs"
    by auto
  obtain l2 where 3: "setCodeBuffer (code (add_code [Bytes e] 0 l1 ?S)) X' = add_code [Bytes e] 0 l2 ?S"
    using inside_back [OF 2(2)] by blast
  obtain lens k where 4: "case_layout X' codes = (lens, k)" by (cases "case_layout X' codes")
  have o: "optimizeLevel X' = optimizeLevel cp" using 2(2) by (auto simp: inside_def)
  have "\<exists>l. copy_cases codes (fst (case_layout X' codes)) (add_code [Bytes e] 0 l2 ?S)
      = add_code (fst (cases_code (0 < optimizeLevel (add_code [Bytes e] 0 l2 ?S)) cs)) 0 l (add_code [Bytes e] 0 l2 ?S)"
    by (rule copy_cases_adds [OF 2(3)]) (use err o in simp_all)
  then obtain l3 where 5: "copy_cases codes lens (add_code [Bytes e] 0 l2 ?S)
      = add_code (Bytes e # fst (cases_code opt cs)) 0 l3 ?S"
    by (auto simp: 4 opt_def)
  define whole where "whole = Bytes e # fst (cases_code opt cs)"
  have code: "switch_code opt e cs = close EC_JUMP_BREAK (plen whole) 0 whole @ [Bytes (op_bytes OP_POP)]"
    by (simp add: switch_code_def whole_def Let_def)
  have w: "plen whole < 2 ^ 27" using len [folded opt_def] unfolding code by (simp del: close.simps)
  have pl: "length (pbytes whole) = plen whole" by (simp add: plen_def)
  have "genSwitch ge elements st cp = add_code (switch_code opt e cs) 0 (opnum OP_POP) cp"
    unfolding genSwitch_def Let_def st'_def [symmetric] 1 switched_add 2(1) prod.case 4 3 5 whole_def [symmetric]
    using w by (simp add: emit_simps pl patch_switched copy_switched code instruction_def)
  then show ?thesis by (auto simp: writes_def opt_def no_return_def intro!: exI [of _ "opnum OP_POP"])
qed

section \<open>The code generator writes the code of a statement\<close>

text \<open>Statements after which control does not reach the next one.\<close>

fun returns :: "stmt \<Rightarrow> bool" where
  "returns (N_RETURN e bl) \<longleftrightarrow> True"
| "returns (N_BLOCK ss) \<longleftrightarrow> (\<exists>s \<in> set ss. returns s)"
| "returns (N_DIRECTIVES ss) \<longleftrightarrow> (\<exists>s \<in> set ss. returns s)"
| "returns s \<longleftrightarrow> False"

text \<open>
  \<open>gens\<close>: like \<open>writes\<close>, and the last opcode is a return only if it was one before or if \<open>r\<close> holds.
\<close>

definition gens :: "piece list \<Rightarrow> nat \<Rightarrow> bool \<Rightarrow> compiler \<Rightarrow> compiler \<Rightarrow> bool" where
  "gens ps k r cp cp' \<longleftrightarrow> (\<exists>l. (no_return (lastOp cp) l \<or> r) \<and> cp' = add_code ps (int k) l cp)"

lemma writes_gens: "writes ps k cp cp' \<Longrightarrow> gens ps k r cp cp'"
  by (auto simp: writes_def gens_def)

lemma gens_adds: "gens ps k r cp cp' \<Longrightarrow> adds ps k cp cp'"
  by (auto simp: adds_def gens_def)

lemma gens_trans:
  "gens ps k r cp cp1 \<Longrightarrow> gens qs j r' cp1 cp2 \<Longrightarrow> gens (ps @ qs) (k + j) (r \<or> r') cp cp2"
  by (fastforce simp: gens_def no_return_def)

lemma gens_nothing: "gens [] 0 r cp cp"
  unfolding gens_def by (intro exI [of _ "lastOp cp"]) (simp add: add_code_nothing no_return_def)

lemma gens_add:
  "pbytes ps' = pbytes ps \<Longrightarrow> (\<And>p. holes p ps' = holes p ps) \<Longrightarrow> k' = int k \<Longrightarrow> no_return (lastOp cp) l \<or> r \<Longrightarrow>
     gens ps k r cp (add_code ps' k' l cp)"
  unfolding gens_def using add_code_cong [of ps' ps k' l cp] by (intro exI [of _ l]) simp

lemma gens_like: "gens ps 0 r cp cp' \<Longrightarrow> like cp cp'"
  unfolding gens_def by (elim exE conjE) simp

lemma like_trans: "like cp cp1 \<Longrightarrow> like cp1 cp2 \<Longrightarrow> like cp cp2"
  by (simp add: like_def)

lemma like_facts: "like cp cp' \<Longrightarrow> error cp' = error cp" "like cp cp' \<Longrightarrow> stackCount (code cp') = stackCount (code cp)"
  "like cp cp' \<Longrightarrow> optimizeLevel cp' = optimizeLevel cp"
  by (simp_all add: like_def)

lemma gens_weaken: "gens ps k r cp cp' \<Longrightarrow> (r \<Longrightarrow> r') \<Longrightarrow> gens ps k r' cp cp'"
  by (auto simp: gens_def)

lemma gens_clean:
  assumes "gens ps k r cp cp'" and m: "m = stackCount (code cp)"
  shows "gens (cleaned ps k) 0 r cp (discardStackItems m cp')"
proof -
  obtain l where l: "no_return (lastOp cp) l \<or> r" "cp' = add_code ps (int k) l cp"
    using assms by (auto simp: gens_def)
  have "no_return l (drop_op k l)" by (simp add: drop_op_def no_return_def)
  with l have "no_return (lastOp cp) (drop_op k l) \<or> r" by (auto simp: no_return_def)
  moreover have "discardStackItems m cp' = add_code (cleaned ps k) 0 (drop_op k l) cp"
    unfolding l(2) by (subst discard_add [where k = k]) (simp_all add: m cleaned_def)
  ultimately show ?thesis by (auto simp: gens_def)
qed

lemma gen_children_gens:
  assumes "\<And>s cp'. s \<in> set ss \<Longrightarrow> like cp cp' \<Longrightarrow> gens (f s) (k s) (R s) cp' (g s st cp')"
    and "\<not> error cp" and "m = stackCount (code cp)"
  shows "gens (concat (map (\<lambda>s. cleaned (f s) (k s)) ss)) 0 (\<exists>s \<in> set ss. R s) cp
    (gen_children m (map g ss) st cp)"
  using assms
proof (induction ss arbitrary: cp)
  case Nil
  show ?case using gens_nothing by simp
next
  case (Cons s ss)
  have 1: "gens (f s) (k s) (R s) cp (g s st cp)" by (rule Cons.prems) simp_all
  let ?cp = "discardStackItems m (g s st cp)"
  have 2: "gens (cleaned (f s) (k s)) 0 (R s) cp ?cp" by (rule gens_clean [OF 1 Cons.prems(3)])
  note like = gens_like [OF 2]
  have 3: "gens (concat (map (\<lambda>s. cleaned (f s) (k s)) ss)) 0 (\<exists>s \<in> set ss. R s) ?cp
      (gen_children m (map g ss) st ?cp)"
  proof (rule Cons.IH)
    fix s' and cp' :: compiler
    assume "s' \<in> set ss" "like ?cp cp'"
    with like_trans [OF like] show "gens (f s') (k s') (R s') cp' (g s' st cp')"
      by (intro Cons.prems(1)) simp_all
  qed (use Cons.prems(2,3) like_facts(1,2) [OF like] in simp_all)
  have "gens (cleaned (f s) (k s) @ concat (map (\<lambda>s. cleaned (f s) (k s)) ss)) 0 (R s \<or> (\<exists>s \<in> set ss. R s)) cp
      (gen_children m (map g ss) st ?cp)"
    using gens_trans [OF 2 3] by simp
  with Cons.prems(2) show ?case by simp
qed

lemma genBlock_gens:
  assumes "\<And>s cp'. s \<in> set ss \<Longrightarrow> like cp cp' \<Longrightarrow> gens (f s) 0 (R s) cp' (g s st cp')"
  shows "gens (concat (map f ss)) 0 (\<exists>s \<in> set ss. R s) cp (genExpressions (map g ss) st cp)"
  using assms
proof (induction ss arbitrary: cp)
  case Nil
  show ?case using gens_nothing by simp
next
  case (Cons s ss)
  have 1: "gens (f s) 0 (R s) cp (g s st cp)" by (rule Cons.prems) simp_all
  have 2: "gens (concat (map f ss)) 0 (\<exists>s \<in> set ss. R s) (g s st cp) (genExpressions (map g ss) st (g s st cp))"
  proof (rule Cons.IH)
    fix s' and cp' :: compiler
    assume "s' \<in> set ss" "like (g s st cp) cp'"
    with like_trans [OF gens_like [OF 1]] show "gens (f s') 0 (R s') cp' (g s' st cp')"
      by (intro Cons.prems) simp_all
  qed
  from gens_trans [OF 1 2] show ?case by simp
qed

text \<open>The states of the generator in which a statement is generated.\<close>

definition ready :: "bool \<Rightarrow> bool \<Rightarrow> compiler \<Rightarrow> bool" where
  "ready brk cont cp \<longleftrightarrow>
     \<not> error cp
     \<and> (brk \<longrightarrow> EC_JUMP_BREAK \<in> jumpKinds (code cp) \<and> breakMark (code cp) = stackCount (code cp))
     \<and> (cont \<longrightarrow> EC_JUMP_CONTINUE \<in> jumpKinds (code cp))
     \<and> (brk \<or> cont \<longrightarrow> blockMark (code cp) = blockCount (code cp))"

definition plain :: "function_info \<Rightarrow> state \<Rightarrow> bool" where
  "plain F st \<longleftrightarrow> \<not> needsValue st \<and> \<not> onLeft st \<and> \<not> captureFinally st \<and> \<not> captureBreak st \<and> currentFunction st = F"

lemma ready_like: "ready brk cont cp \<Longrightarrow> like cp cp' \<Longrightarrow> ready brk cont cp'"
  by (auto simp: ready_def like_def)

lemma ready_inner: "ready brk cont cp \<Longrightarrow> ready True True (inner {EC_JUMP_BREAK, EC_JUMP_CONTINUE} cp)"
  by (simp add: ready_def)

lemma ready_switched: "ready brk cont cp \<Longrightarrow> ready True False (switched cp)"
  by (simp add: ready_def)

lemma discard_nothing [simp]: "discardBlockItems (blockCount (code cp)) cp = cp"
  by (simp add: discardBlockItems_def on_code_def)

lemma encodeInt32_hole:
  "encodeInt32 0 (addJump k (add_code ps j l cp)) = add_code (ps @ [Hole k]) j l cp"
proof -
  have "ejsEncodeInt32 (0 :: u32) = Some [0, 0, 0, 0]" by code_simp
  then show ?thesis by (simp add: encodeInt32_def addJump_def emit_def on_code_def add_code_def plen_def)
qed

lemma gen_break: "ready True cont cp \<Longrightarrow> plain F st \<Longrightarrow> writes (scode opt F N_BREAK) 0 cp (genBreak st cp)"
  by (auto simp: genBreak_def ready_def plain_def Let_def discardStackItems_def encodeOpcode_add encodeInt32_hole no_return_def
      intro!: writes_add)

lemma gen_continue: "ready brk True cp \<Longrightarrow> plain F st \<Longrightarrow> writes (scode opt F N_CONTINUE) 0 cp (genContinue st cp)"
  by (auto simp: genContinue_def ready_def plain_def Let_def encodeOpcode_add encodeInt32_hole no_return_def
      intro!: writes_add)

lemma gen_return:
  assumes "wf_stmt n F brk cont (N_RETURN e bl)" "plain F st"
  shows "gens (scode (0 < optimizeLevel cp) F (N_RETURN e bl)) 0 True cp (genReturn (map_option gen e) bl st cp)"
proof (cases e)
  case None
  with assms show ?thesis
    by (auto simp: genReturn_def plain_def Let_def emit_simps return_code_def instruction_def intro!: gens_add)
next
  case (Some e')
  with assms have w: "wf_expr n True e'" "exact True e'" "\<not> resultType F \<or> \<not> resultVoid F" by auto
  have "writes [Bytes (ecode (0 < optimizeLevel cp) True e')] (pushes True e') cp (gen e' (st\<lparr>needsValue := True\<rparr>) cp)"
    by (rule gen_expr [OF w(1)]) (use assms in \<open>simp_all add: plain_def\<close>)
  then obtain l where l: "gen e' (st\<lparr>needsValue := True\<rparr>) cp = add_code [Bytes (ecode (0 < optimizeLevel cp) True e')] 1 l cp"
    using exact_pushes [OF w(2)] by (auto simp: writes_def)
  with Some w(3) l assms show ?thesis
    by (auto simp: genReturn_def plain_def Let_def emit_simps instruction_def intro!: gens_add)
qed

lemma gen_value:
  assumes "wf_expr n True e" "exact True e" "\<not> onLeft st" "0 < optimizeLevel cp \<longleftrightarrow> opt"
  shows "writes [Bytes (ecode opt True e)] 1 cp (gen e (st\<lparr>needsValue := True\<rparr>) cp)"
  using gen_expr [OF assms(1), of "st\<lparr>needsValue := True\<rparr>" cp] exact_pushes [OF assms(2)] assms(3,4) by simp

lemma gen_effect:
  assumes "wf_expr n False e" "plain F st" "0 < optimizeLevel cp \<longleftrightarrow> opt"
  shows "writes [Bytes (ecode opt False e)] (pushes False e) cp (gen e st cp)"
  using gen_expr [OF assms(1), of st cp] assms(2,3) by (simp add: plain_def)

lemma gen_throw:
  assumes "wf_expr n True e" "exact True e" "plain F st"
  shows "writes (scode (0 < optimizeLevel cp) F (N_THROW e)) 0 cp (genThrow (gen e) st cp)"
proof -
  obtain l where "gen e (st\<lparr>needsValue := True\<rparr>) cp = add_code [Bytes (ecode (0 < optimizeLevel cp) True e)] 1 l cp"
    using gen_value [OF assms(1,2), of st cp "0 < optimizeLevel cp"] assms(3) by (auto simp: plain_def writes_def)
  then show ?thesis
    by (auto simp: genThrow_def emit_simps instruction_def no_return_def intro!: writes_add)
qed

lemma gen_var:
  assumes "\<forall>e \<in> set (inits vs). wf_expr n False e" "plain F st"
  shows "writes (scode (0 < optimizeLevel cp) F (N_VAR_DEFINITION vs)) (sum_list (map (pushes False) (inits vs))) cp
    (genExpressions (map (run_opt \<circ> map_option gen) vs) st cp)"
proof -
  have skip: "genExpressions (map (run_opt \<circ> map_option gen) vs) st cp = genExpressions (map gen (inits vs)) st cp" for cp
  proof (induction vs arbitrary: cp)
    case (Cons v vs)
    then show ?case by (cases v) (simp_all add: run_opt_def inits_def List.map_filter_simps)
  qed (simp add: inits_def List.map_filter_simps)
  have "writes [Bytes (concat (map (ecode (0 < optimizeLevel cp) False) (inits vs)))]
      (sum_list (map (pushes False) (inits vs))) cp (genExpressions (map gen (inits vs)) st cp)"
  proof (rule gens_writes)
    fix e and cp' :: compiler
    assume "e \<in> set (inits vs)" "optimizeLevel cp' = optimizeLevel cp"
    with assms show "writes [Bytes (ecode (0 < optimizeLevel cp) False e)] (pushes False e) cp' (gen e st cp')"
      by (intro gen_effect [where n = n and F = F]) auto
  qed
  then show ?thesis by (simp add: skip)
qed

lemma plen_concat: "x \<in> set xs \<Longrightarrow> plen (f x) \<le> plen (concat (map f xs))"
  by (induction xs) auto

lemma plen_cleaned: "plen ps \<le> plen (cleaned ps k)"
  by (simp add: cleaned_def)

lemma plen_sub: "plen (cleaned ps k) \<le> plen qs \<Longrightarrow> plen qs < N \<Longrightarrow> plen ps < N"
  using plen_cleaned [of ps k] by simp

lemma plen_if: "plen a \<le> plen (if_code opt c a b)" "plen b \<le> plen (if_code opt c a b)"
  by (simp_all add: if_code_def Let_def)

lemma plen_for: "plen init \<le> plen (for_code opt init c body incr)" "plen body \<le> plen (for_code opt init c body incr)"
  by (simp_all add: for_code_def Let_def)

lemma plen_do: "plen body \<le> plen (do_code opt body c)"
  by (simp add: do_code_def Let_def)

lemma plen_cases: "(t, b) \<in> set cs \<Longrightarrow> plen b \<le> plen (fst (cases_code opt cs))"
  by (induction opt cs rule: cases_code.induct) (auto simp: Let_def split: prod.split option.split)

lemma plen_switch: "(t, b) \<in> set cs \<Longrightarrow> plen b \<le> plen (switch_code opt e cs)"
  using plen_cases [of t b cs opt] by (simp add: switch_code_def Let_def)

lemma list_all2_map2: "(\<And>x. x \<in> set xs \<Longrightarrow> R (f x) (g x)) \<Longrightarrow> list_all2 R (map f xs) (map g xs)"
  by (induction xs) auto

lemma plain_updates:
  "plain F st \<Longrightarrow> plain F (st\<lparr>captureFinally := False, captureBreak := False\<rparr>)"
  "plain F st \<Longrightarrow> \<not> onLeft (st\<lparr>captureFinally := False, captureBreak := False\<rparr>)"
  "plain F st \<Longrightarrow> \<not> onLeft st" "plain F st \<Longrightarrow> \<not> needsValue st"
  by (simp_all add: plain_def)

lemma gen_part_gens:
  assumes "gens ps k r cp (g st cp)"
  shows "\<exists>l. gen_part g st cp = add_code (cleaned ps k) 0 l cp"
  using gen_part_adds [where g = g and st = st] gens_adds [OF assms] by blast

lemma gen_stmt_code:
  "wf_stmt n F brk cont s \<Longrightarrow> ready brk cont cp \<Longrightarrow> plain F st \<Longrightarrow> (0 < optimizeLevel cp \<longleftrightarrow> opt) \<Longrightarrow>
     plen (scode opt F s) < 2 ^ 27 \<Longrightarrow> gens (scode opt F s) (spushes s) (returns s) cp (gen_stmt s st cp)"
proof (induction s arbitrary: brk cont st cp rule: gen_stmt.induct)
  case (1 e)
  then show ?case using gen_effect [of n e F st cp opt] by (simp add: writes_gens)
next
  case 2
  show ?case using gens_nothing by simp
next
  case (3 vs)
  then show ?case using gen_var [of vs n F st cp] by (simp add: writes_gens)
next
  case (4 ss)
  have "gens (concat (map (scode opt F) ss)) 0 (\<exists>s \<in> set ss. returns s) cp
      (genExpressions (map gen_stmt ss) st cp)"
  proof (rule genBlock_gens)
    fix s and cp' :: compiler
    assume s: "s \<in> set ss" and like: "like cp cp'"
    have "plen (scode opt F s) < 2 ^ 27"
      using plen_concat [OF s, of "scode opt F"] 4(6) by simp
    with 4(1) [OF s, of brk cont cp' st] 4(2-5) s ready_like [OF _ like] like_facts(3) [OF like]
    show "gens (scode opt F s) 0 (returns s) cp' (gen_stmt s st cp')" by auto
  qed
  then show ?case by simp
next
  case (5 ss)
  have "gens (concat (map (\<lambda>s. cleaned (scode opt F s) (spushes s)) ss)) 0 (\<exists>s \<in> set ss. returns s) cp
      (genDirectives (map gen_stmt ss) st cp)"
    unfolding genDirectives_def getStackCount_def
  proof (rule gen_children_gens)
    fix s and cp' :: compiler
    assume s: "s \<in> set ss" and like: "like cp cp'"
    have "plen (scode opt F s) < 2 ^ 27"
      using plen_concat [OF s, of "\<lambda>s. cleaned (scode opt F s) (spushes s)"] plen_cleaned [of "scode opt F s" "spushes s"] 5(6)
      by simp
    with 5(1) [OF s, of brk cont cp' st] 5(2-5) s ready_like [OF _ like] like_facts(3) [OF like]
    show "gens (scode opt F s) (spushes s) (returns s) cp' (gen_stmt s st cp')" by auto
  qed (use 5(3) in \<open>simp_all add: ready_def\<close>)
  then show ?case by simp
next
  case (6 c s e)
  have c: "writes [Bytes (ecode opt True c)] 1 cp (gen c (st\<lparr>needsValue := True\<rparr>) cp)"
    by (rule gen_value) (use 6(3-6) in \<open>auto simp: plain_def\<close>)
  have s: "adds (scode opt F s) (spushes s) cp' (gen_stmt s st cp')" if "like cp cp'" for cp'
  proof (rule gens_adds [OF 6(1)])
    show "plen (scode opt F s) < 2 ^ 27"
      by (rule plen_sub [OF plen_if(1) 6(7) [unfolded scode.simps]])
  qed (use 6(3-6) ready_like [OF _ that] like_facts(3) [OF that] in auto)
  have opt: "0 < optimizeLevel cp \<longleftrightarrow> opt" by (rule 6(6))
  show ?case
  proof (cases e)
    case None
    have "writes (if_code (0 < optimizeLevel cp) (ecode opt True c) (cleaned (scode opt F s) (spushes s)) []) 0 cp
        (genIf (gen c) (gen_stmt s) None st cp)"
      by (rule genIf_none_writes [where gc = "gen c" and ga = "gen_stmt s", OF c s]) (use 6(5) in \<open>auto simp: plain_def\<close>)
    with None show ?thesis by (simp add: writes_gens opt)
  next
    case (Some s')
    have s': "adds (scode opt F s') (spushes s') cp' (gen_stmt s' st cp')" if "like cp cp'" for cp'
    proof (rule gens_adds [OF 6(2)])
      show "e = Some s'" by (rule Some)
      show "plen (scode opt F s') < 2 ^ 27"
        by (rule plen_sub [OF plen_if(2) 6(7) [unfolded scode.simps Some option.case]])
    qed (use 6(3-6) Some ready_like [OF _ that] like_facts(3) [OF that] in auto)
    have nv: "\<not> needsValue st" using 6(5) by (simp add: plain_def)
    have "writes (if_code (0 < optimizeLevel cp) (ecode opt True c)
        (scode opt F s @ [Bytes (drop_code (if needsValue st then 0 else spushes s))])
        (scode opt F s' @ [Bytes (drop_code (if needsValue st then 0 else spushes s'))]))
        (if needsValue st then 1 else 0) cp (genIf (gen c) (gen_stmt s) (Some (gen_stmt s')) st cp)"
      by (rule genIf_writes [where gc = "gen c" and ga = "gen_stmt s" and gb = "gen_stmt s'", OF c s s']) (use nv in auto)
    with Some nv show ?thesis by (simp add: writes_gens opt cleaned_def)
  qed
next
  case (7 i c p b)
  let ?st = "st\<lparr>captureFinally := False, captureBreak := False\<rparr>"
  let ?K = "{EC_JUMP_BREAK, EC_JUMP_CONTINUE}"
  define I where "I = (case i of None \<Rightarrow> [] | Some s \<Rightarrow> cleaned (scode opt F s) (spushes s))"
  define C where "C = map_option (ecode opt True) c"
  define B where "B = map_option (\<lambda>s. cleaned (scode opt F s) (spushes s)) b"
  define P where "P = map_option (\<lambda>e. cleaned [Bytes (ecode opt False e)] (pushes False e)) p"
  have opt: "0 < optimizeLevel cp \<longleftrightarrow> opt" by (rule 7(6))
  have code: "scode opt F (N_FOR i c p b) = for_code (0 < optimizeLevel cp) I C (pieces_of B) (pieces_of P)"
    by (cases p; cases b) (simp_all add: I_def C_def B_def P_def opt)
  have len: "plen (for_code (0 < optimizeLevel cp) I C (pieces_of B) (pieces_of P)) < 2 ^ 27"
    using 7(7) unfolding code .
  have st: "plain F ?st" "\<not> onLeft ?st" using 7(5) by (simp_all add: plain_def)
  have i: "\<exists>l. run_opt (map_option gen_part (map_option gen_stmt i)) ?st (allocCodeBuffer cp) = add_code I 0 l (allocCodeBuffer cp)"
  proof (cases i)
    case None
    then show ?thesis by (auto simp: run_opt_def I_def intro: add_code_nothing [symmetric])
  next
    case (Some s)
    have "gens (scode opt F s) (spushes s) (returns s) (allocCodeBuffer cp) (gen_stmt s ?st (allocCodeBuffer cp))"
    proof (rule 7(1))
      show "ready False False (allocCodeBuffer cp)" using 7(4) by (simp add: ready_def)
      show "plen (scode opt F s) < 2 ^ 27"
        by (rule plen_sub [OF plen_for(1) len [unfolded I_def Some option.case]])
    qed (use Some 7(3) st opt in auto)
    from gen_part_gens [where g = "gen_stmt s", OF this] Some show ?thesis by (simp add: run_opt_def I_def)
  qed
  have "writes (for_code (0 < optimizeLevel cp) I C (pieces_of B) (pieces_of P)) 0 cp
      (genFor (map_option gen_stmt i) (map_option gen c) (map_option gen p) (map_option gen_stmt b) st cp)"
  proof (rule genFor_writes [OF _ i])
    fix g assume "map_option gen c = Some g"
    then obtain e where e: "c = Some e" "g = gen e" by auto
    have "adds [Bytes (ecode opt True e)] 1 cp' (gen e (?st\<lparr>needsValue := True\<rparr>) cp')"
      if "optimizeLevel cp' = optimizeLevel cp" for cp'
      by (rule writes_adds [OF gen_value]) (use e 7(3) st(2) opt that in auto)
    with e show "\<exists>bs. C = Some bs \<and> (\<forall>cp'. optimizeLevel cp' = optimizeLevel cp \<longrightarrow>
        adds [Bytes bs] 1 cp' (g (?st\<lparr>needsValue := True\<rparr>) cp'))" by (simp add: C_def)
  next
    fix g assume "map_option gen_stmt b = Some g"
    then obtain s where s: "b = Some s" "g = gen_stmt s" by auto
    have "\<exists>l. gen_part g ?st cp' = add_code (cleaned (scode opt F s) (spushes s)) 0 l cp'"
      if like: "like (inner ?K cp) cp'" for cp'
      unfolding s(2)
    proof (rule gen_part_gens [where g = "gen_stmt s", OF 7(2)])
      show "b = Some s" by (rule s(1))
      show "ready True True cp'" by (rule ready_like [OF ready_inner [OF 7(4)] like])
      show "plen (scode opt F s) < 2 ^ 27"
        by (rule plen_sub [OF plen_for(2) len [unfolded B_def s(1) option.map pieces_of_simps]])
    qed (use s 7(3) st opt like_facts(3) [OF like] in auto)
    with s show "\<exists>ps. B = Some ps \<and> (\<forall>cp'. like (inner ?K cp) cp' \<longrightarrow> (\<exists>l. gen_part g ?st cp' = add_code ps 0 l cp'))"
      by (simp add: B_def)
  next
    fix g assume "map_option gen p = Some g"
    then obtain e where e: "p = Some e" "g = gen e" by auto
    have "\<exists>l. gen_part g ?st cp' = add_code (cleaned [Bytes (ecode opt False e)] (pushes False e)) 0 l cp'"
      if like: "like (inner ?K cp) cp'" for cp'
      unfolding e(2) by (rule gen_part_adds [where g = "gen e", OF writes_adds [OF gen_effect]])
        (use e 7(3) st(1) opt like_facts(3) [OF like] in auto)
    with e show "\<exists>ps. P = Some ps \<and> (\<forall>cp'. like (inner ?K cp) cp' \<longrightarrow> (\<exists>l. gen_part g ?st cp' = add_code ps 0 l cp'))"
      by (simp add: P_def)
  qed (use 7(5) len in \<open>auto simp: plain_def C_def B_def P_def\<close>)
  with code show ?case by (simp add: writes_gens)
next
  case (8 b c)
  let ?st = "st\<lparr>captureFinally := False, captureBreak := False\<rparr>"
  let ?B = "cleaned (scode opt F b) (spushes b)"
  have opt: "0 < optimizeLevel cp \<longleftrightarrow> opt" by (rule 8(5))
  have st: "plain F ?st" "\<not> onLeft ?st" using 8(4) by (simp_all add: plain_def)
  have "writes (do_code (0 < optimizeLevel cp) ?B (ecode opt True c)) 0 cp (genDo (gen_stmt b) (gen c) st cp)"
  proof (rule genDo_writes)
    fix cp' :: compiler assume like: "like (inner {EC_JUMP_BREAK, EC_JUMP_CONTINUE} cp) cp'"
    have r: "ready True False (inner {EC_JUMP_BREAK, EC_JUMP_CONTINUE} cp)" using ready_inner [OF 8(3)] by (simp add: ready_def)
    show "\<exists>l. gen_part (gen_stmt b) ?st cp' = add_code ?B 0 l cp'"
    proof (rule gen_part_gens [where g = "gen_stmt b", OF 8(1)])
      show "ready True False cp'" by (rule ready_like [OF r like])
      show "plen (scode opt F b) < 2 ^ 27"
        by (rule plen_sub [OF plen_do 8(6) [unfolded scode.simps]])
    qed (use 8(2) st opt like_facts(3) [OF like] in auto)
  next
    fix cp' :: compiler assume "optimizeLevel cp' = optimizeLevel cp"
    then show "adds [Bytes (ecode opt True c)] 1 cp' (gen c (?st\<lparr>needsValue := True\<rparr>) cp')"
      by (intro writes_adds [OF gen_value]) (use 8(2) st(2) opt in auto)
  qed (use 8(6) opt in simp)
  with opt show ?case by (simp add: writes_gens)
next
  case 9
  then show ?case using gen_break [of cont cp F st opt] by (simp add: writes_gens)
next
  case 10
  then show ?case using gen_continue [of brk cp F st opt] by (simp add: writes_gens)
next
  case (11 e cs)
  let ?st = "st\<lparr>captureFinally := False, captureBreak := False\<rparr>"
  have opt: "0 < optimizeLevel cp \<longleftrightarrow> opt" by (rule 11(5))
  have st: "plain F ?st" using 11(4) by (simp add: plain_def)
  let ?cs = "map (\<lambda>(t, body). (case_tests opt t, concat (map (\<lambda>s. cleaned (scode opt F s) (spushes s)) body))) cs"
  have "writes (switch_code (0 < optimizeLevel cp) (ecode opt False e) ?cs) 0 cp
      (genSwitch (gen e) (map (\<lambda>(test, body). (map_option gen test, map gen_stmt body)) cs) st cp)"
  proof (rule genSwitch_writes)
    show "adds [Bytes (ecode opt False e)] 1 (allocCodeBuffer cp) (gen e ?st (allocCodeBuffer cp))"
      using gen_effect [of n e F ?st "allocCodeBuffer cp" opt] 11(2) st opt exact_pushes [of False e] by (auto intro: writes_adds)
    show "list_all2 (case_gen (switched cp) ?st) (map (\<lambda>(test, body). (map_option gen test, map gen_stmt body)) cs) ?cs"
    proof (rule list_all2_map2)
      fix x assume x: "x \<in> set cs"
      obtain t body where tb: "x = (t, body)" by (cases x)
      have wf: "case t of None \<Rightarrow> True | Some e \<Rightarrow> wf_expr n False e \<and> exact False e"
        "\<And>s. s \<in> set body \<Longrightarrow> wf_stmt n F True False s" using 11(2) x tb by auto
      have test: "case map_option gen t of None \<Rightarrow> case_tests opt t = None
         | Some g \<Rightarrow> \<exists>bs. case_tests opt t = Some (op_bytes OP_DUP @ bs)
             \<and> (\<forall>cp'. like (switched cp) cp' \<longrightarrow> adds [Bytes bs] 1 cp' (g ?st cp'))"
      proof (cases t)
        case (Some e')
        have "adds [Bytes (ecode opt False e')] 1 cp' (gen e' ?st cp')" if "like (switched cp) cp'" for cp'
          using gen_effect [of n e' F ?st cp' opt] wf(1) Some st opt exact_pushes [of False e'] like_facts(3) [OF that]
          by (auto intro: writes_adds)
        with Some show ?thesis by (auto simp: case_tests_def)
      qed (simp add: case_tests_def)
      have "\<exists>l. genDirectives (map gen_stmt body) ?st cp'
          = add_code (concat (map (\<lambda>s. cleaned (scode opt F s) (spushes s)) body)) 0 l cp'"
        if like: "like (switched cp) cp'" for cp'
      proof -
        have "gens (concat (map (\<lambda>s. cleaned (scode opt F s) (spushes s)) body)) 0 (\<exists>s \<in> set body. returns s) cp'
            (genDirectives (map gen_stmt body) ?st cp')"
          unfolding genDirectives_def getStackCount_def
        proof (rule gen_children_gens)
          fix s and cp2 :: compiler
          assume s: "s \<in> set body" and like2: "like cp' cp2"
          note like3 = like_trans [OF like like2]
          have "(case_tests opt t, concat (map (\<lambda>s. cleaned (scode opt F s) (spushes s)) body)) \<in> set ?cs"
            using x tb by force
          from plen_switch [OF this, of opt "ecode opt False e"]
            plen_concat [OF s, of "\<lambda>s. cleaned (scode opt F s) (spushes s)"] plen_cleaned [of "scode opt F s" "spushes s"] 11(6)
          have "plen (scode opt F s) < 2 ^ 27" by simp
          then show "gens (scode opt F s) (spushes s) (returns s) cp2 (gen_stmt s ?st cp2)"
            by (intro 11(1) [OF x tb [symmetric] s, of True False])
              (use wf(2) [OF s] ready_like [OF ready_switched [OF 11(3)] like3] st opt like_facts(3) [OF like3] in auto)
        qed (use like_facts(1) [OF like] 11(3) in \<open>simp_all add: ready_def\<close>)
        then show ?thesis by (auto simp: gens_def)
      qed
      with test tb show "case_gen (switched cp) ?st (case x of (t, body) \<Rightarrow> (map_option gen t, map gen_stmt body))
          (case x of (t, body) \<Rightarrow> (case_tests opt t, concat (map (\<lambda>s. cleaned (scode opt F s) (spushes s)) body)))"
        by simp
    qed
  qed (use 11(3,6) opt in \<open>auto simp: ready_def\<close>)
  with opt show ?case by (simp add: writes_gens)
next
  case (12 e bl)
  then show ?case using gen_return [of n F brk cont e bl st cp] by simp
next
  case (13 e)
  then show ?case using gen_throw [of n e F st cp] by (simp add: writes_gens)
next
  case (14 b cs f nb)
  then show ?case by simp
qed

end
