(* ===== verification/CompileRun.thy ===== *)
theory CompileRun
  imports CompileCode
begin

text \<open>
  The interpreter runs the code of \<open>Assembly\<close> as the semantics of \<open>Semantics\<close> says, wherever the code is
  placed: expressions, statements and loops, by induction on the derivation of the semantics. Together
  with \<open>CompileCode\<close> this is the correctness of the compiler on the programs of \<open>wf_stmt\<close>.
\<close>

section \<open>Runs of the machine\<close>

definition reaches :: "'v values \<Rightarrow> vmcode \<Rightarrow> 'v vm \<Rightarrow> 'v vm \<Rightarrow> bool" where
  "reaches V c = (\<lambda>vm vm'. step V c vm = Running vm')\<^sup>*\<^sup>*"

lemma reaches_refl [simp]: "reaches V c vm vm"
  by (simp add: reaches_def)

lemma reaches_trans: "reaches V c vm vm1 \<Longrightarrow> reaches V c vm1 vm2 \<Longrightarrow> reaches V c vm vm2"
  unfolding reaches_def by (rule rtranclp_trans)

lemma reaches_step: "step V c vm = Running vm1 \<Longrightarrow> reaches V c vm1 vm2 \<Longrightarrow> reaches V c vm vm2"
  unfolding reaches_def by (rule converse_rtranclp_into_rtranclp)

text \<open>An exception has been raised and the trap is set.\<close>

definition throws :: "'v values \<Rightarrow> vmcode \<Rightarrow> 'v vm \<Rightarrow> 'v \<Rightarrow> 'v list \<Rightarrow> bool" where
  "throws V c vm x xs \<longleftrightarrow>
     (\<exists>vm'. reaches V c vm vm' \<and> exception vm' = Some x \<and> trap vm' \<and> locals vm' = xs)"

lemma throws_trans: "reaches V c vm vm1 \<Longrightarrow> throws V c vm1 x xs \<Longrightarrow> throws V c vm x xs"
  unfolding throws_def using reaches_trans by blast

text \<open>\<open>delivers\<close>: the machine gets to a state in \<open>Q\<close>, or raises, as the outcome says.\<close>

definition delivers ::
  "'v values \<Rightarrow> vmcode \<Rightarrow> 'v vm \<Rightarrow> ('a, 'v) outcome \<times> 'v list \<Rightarrow> ('a \<Rightarrow> 'v list \<Rightarrow> 'v vm \<Rightarrow> bool) \<Rightarrow> bool" where
  "delivers V c vm r Q \<longleftrightarrow>
     (case r of (Val v, xs) \<Rightarrow> \<exists>vm'. reaches V c vm vm' \<and> Q v xs vm' | (Exn x, xs) \<Rightarrow> throws V c vm x xs)"

lemma delivers_simps [simp]:
  "delivers V c vm (Val v, xs) Q \<longleftrightarrow> (\<exists>vm'. reaches V c vm vm' \<and> Q v xs vm')"
  "delivers V c vm (Exn x, xs) Q \<longleftrightarrow> throws V c vm x xs"
  by (simp_all add: delivers_def)

lemma delivers_here: "Q v xs vm \<Longrightarrow> delivers V c vm (Val v, xs) Q"
  by (auto intro!: exI [of _ vm])

lemma delivers_reaches: "reaches V c vm vm' \<Longrightarrow> delivers V c vm' r Q \<Longrightarrow> delivers V c vm r Q"
  unfolding delivers_def using reaches_trans throws_trans by (fastforce split: prod.splits outcome.splits)

lemma delivers_step: "step V c vm = Running vm' \<Longrightarrow> delivers V c vm' r Q \<Longrightarrow> delivers V c vm r Q"
  by (rule delivers_reaches [OF reaches_step [OF _ reaches_refl]])

lemma delivers_seq:
  assumes "delivers V c vm r P" and "\<And>v xs vm'. P v xs vm' \<Longrightarrow> delivers V c vm' (f v xs) Q"
  shows "delivers V c vm (seq r f) Q"
proof (cases r)
  case (Pair a xs)
  then show ?thesis
  proof (cases a)
    case (Val v)
    with Pair assms(1) obtain vm' where "reaches V c vm vm'" "P v xs vm'" by auto
    from delivers_reaches [OF this(1) assms(2) [OF this(2)]] Pair Val show ?thesis by simp
  next
    case (Exn x)
    with Pair assms(1) show ?thesis by simp
  qed
qed

lemma delivers_weaken: "delivers V c vm r P \<Longrightarrow> (\<And>v xs vm'. P v xs vm' \<Longrightarrow> Q v xs vm') \<Longrightarrow> delivers V c vm r Q"
  unfolding delivers_def by (fastforce split: prod.splits outcome.splits)

text \<open>
  The states between two instructions of straight code: a machine \<open>m\<close> without a pending exception,
  of which only the address, the stack, the slots and the last result change.
\<close>

definition mk :: "'v vm \<Rightarrow> nat \<Rightarrow> 'v list \<Rightarrow> 'v list \<Rightarrow> 'v \<Rightarrow> 'v vm" where
  "mk m p s xs r = m\<lparr>pc := p, stack := s, locals := xs, vresult := r\<rparr>"

lemma mk_simps [simp]:
  "pc (mk m p s xs r) = p" "stack (mk m p s xs r) = s" "locals (mk m p s xs r) = xs" "vresult (mk m p s xs r) = r"
  "trap (mk m p s xs r) = trap m" "exception (mk m p s xs r) = exception m"
  "mk m p s xs r\<lparr>pc := q\<rparr> = mk m q s xs r" "mk m p s xs r\<lparr>stack := t\<rparr> = mk m p t xs r"
  "mk m p s xs r\<lparr>locals := ys\<rparr> = mk m p s ys r" "mk m p s xs r\<lparr>vresult := v\<rparr> = mk m p s xs v"
  "mk (mk m p s xs r) q t ys v = mk m q t ys v"
  by (simp_all add: mk_def)

definition clean :: "'v vm \<Rightarrow> bool" where
  "clean m \<longleftrightarrow> \<not> trap m \<and> exception m = None"

lemma mk_trap [simp]: "\<not> trap m \<Longrightarrow> mk m p s xs r\<lparr>trap := False\<rparr> = mk m p s xs r"
  by (cases m) (simp add: mk_def)

lemma push_mk [simp]: "push v (mk m p s xs r) = mk m p (v # s) xs r"
  by (simp add: push_def)

lemma with_pop_mk [simp]: "with_pop (mk m p (v # s) xs r) f = f v (mk m p s xs r)"
  by (simp add: with_pop_def)

lemma set_pc_mk [simp]: "clean m \<Longrightarrow> 0 \<le> q \<Longrightarrow> set_pc q (mk m p s xs r) = Running (mk m (nat q) s xs r)"
  by (simp add: set_pc_def clean_def)

section \<open>Code in place\<close>

definition holds :: "vmcode \<Rightarrow> nat \<Rightarrow> u8 list \<Rightarrow> bool" where
  "holds c p bs \<longleftrightarrow> (\<exists>before after. byteCode c = before @ bs @ after \<and> length before = p)"

lemma holds_append: "holds c p (a @ b) \<Longrightarrow> holds c p a \<and> holds c (p + length a) b"
proof -
  assume "holds c p (a @ b)"
  then obtain before after where 1: "byteCode c = before @ (a @ b) @ after" "length before = p"
    by (auto simp: holds_def)
  then have "byteCode c = before @ a @ (b @ after)" "byteCode c = (before @ a) @ b @ after" by simp_all
  with 1(2) show ?thesis unfolding holds_def by (metis length_append)
qed

lemma holds_appendD:
  assumes "holds c p (a @ b)"
  shows "holds c p a" "holds c (p + length a) b"
  using holds_append [OF assms] by simp_all

lemma holds_length: "holds c p bs \<Longrightarrow> p + length bs \<le> length (byteCode c)"
  by (auto simp: holds_def)

lemma fetch_holds:
  assumes "holds c p (instruction op n)" "op \<in> set opcodes" "operand_fits (operand_kind op) n"
  shows "fetch (byteCode c) p = Some (op, n, p + length (instruction op n))"
proof -
  obtain before after where c: "byteCode c = before @ instruction op n @ after" "p = length before"
    using assms(1) by (auto simp: holds_def)
  show ?thesis unfolding c by (rule fetch_emitted [OF assms(2,3)])
qed

lemma step_instruction:
  assumes "holds c p (instruction op n)" "clean m" "op \<in> set opcodes" "operand_fits (operand_kind op) n"
  shows "step V c (mk m p s xs r) = exec_op V c op n (mk m (p + length (instruction op n)) s xs r)"
  using fetch_holds [OF assms(1,3,4)] assms(2) by (simp add: step_def clean_def)

lemma opcodes_mem [simp]:
  "OP_BINARY b \<in> set opcodes" "OP_UNARY u \<in> set opcodes" "k < 10 \<Longrightarrow> OP_LOAD_N k \<in> set opcodes"
  "k < 10 \<Longrightarrow> OP_GET_LOCAL_SLOT_N k \<in> set opcodes" "k < 10 \<Longrightarrow> OP_PUT_LOCAL_SLOT_N k \<in> set opcodes"
  using binary_op.exhaust [of b] unary_op.exhaust [of u] by (auto simp: opcodes_def)

lemma opcodes_mem2 [simp]:
  "OP_LOAD_INT \<in> set opcodes" "OP_LOAD_DOUBLE \<in> set opcodes" "OP_LOAD_TRUE \<in> set opcodes"
  "OP_LOAD_FALSE \<in> set opcodes" "OP_LOAD_NULL \<in> set opcodes" "OP_LOAD_UNDEFINED \<in> set opcodes"
  "OP_LOAD_THIS \<in> set opcodes" "OP_GET_LOCAL_SLOT \<in> set opcodes" "OP_PUT_LOCAL_SLOT \<in> set opcodes"
  "OP_BRANCH_TRUE \<in> set opcodes" "OP_BRANCH_TRUE_8 \<in> set opcodes" "OP_BRANCH_FALSE \<in> set opcodes"
  "OP_BRANCH_FALSE_8 \<in> set opcodes" "OP_GOTO \<in> set opcodes" "OP_GOTO_8 \<in> set opcodes"
  "OP_POP \<in> set opcodes" "OP_POP_ITEMS \<in> set opcodes" "OP_DUP \<in> set opcodes" "OP_INC \<in> set opcodes"
  "OP_RETURN \<in> set opcodes" "OP_RETURN_VALUE \<in> set opcodes" "OP_THROW \<in> set opcodes"
  by (simp_all add: opcodes_def)


lemma jump_instruction:
  assumes "operand_kind op8 = EBC_JMP8" "operand_kind op = EBC_JMP" "\<bar>n\<bar> < 2 ^ 27"
  shows "jump_bytes short op8 op n = instruction (if short then op8 else op) n"
    and "length (jump_bytes short op8 op n) = jump_size short"
  using assms(1,2) encode_fits [OF assms(3)]
  by (auto simp: jump_bytes_def instruction_def jump_size_def)

definition short_fits :: "bool \<Rightarrow> int \<Rightarrow> bool" where
  "short_fits short n \<longleftrightarrow> \<bar>n\<bar> < 2 ^ 27 \<and> (short \<longrightarrow> - 128 \<le> n \<and> n < 128)"

lemma jump_goto:
  assumes "holds c p (jump_bytes short OP_GOTO_8 OP_GOTO n)" "clean m" "short_fits short n"
    and "int q = int p + int (jump_size short) + n"
  shows "reaches V c (mk m p s xs r) (mk m q s xs r)"
proof -
  have j: "jump_bytes short OP_GOTO_8 OP_GOTO n = instruction (if short then OP_GOTO_8 else OP_GOTO) n"
    "length (jump_bytes short OP_GOTO_8 OP_GOTO n) = jump_size short"
    by (rule jump_instruction; use assms(3) in \<open>simp add: short_fits_def\<close>)+
  have q: "int p + int (jump_size short) + n = int q" using assms(4) by simp
  have "step V c (mk m p s xs r)
      = exec_op V c (if short then OP_GOTO_8 else OP_GOTO) n (mk m (p + jump_size short) s xs r)"
    using step_instruction [of c p "if short then OP_GOTO_8 else OP_GOTO" n m V s xs r] assms(1-3) j
    by (auto simp: short_fits_def)
  also have "\<dots> = Running (mk m q s xs r)" using assms(2) q by (cases short) simp_all
  finally show ?thesis by (rule reaches_step) simp
qed

lemma jump_branch:
  assumes "holds c p (jump_bytes short op8 op n)" "clean m" "short_fits short n"
    and op: "(on, op8, op) \<in> {(True, OP_BRANCH_TRUE_8, OP_BRANCH_TRUE), (False, OP_BRANCH_FALSE_8, OP_BRANCH_FALSE)}"
    and "int q = int p + int (jump_size short) + n"
  shows "delivers V c (mk m p (v # s) xs r) (v_truth V v, xs)
    (\<lambda>b xs' vm'. xs' = xs \<and> vm' = mk m (if b = on then q else p + jump_size short) s xs r)"
proof -
  have j: "jump_bytes short op8 op n = instruction (if short then op8 else op) n"
    "length (jump_bytes short op8 op n) = jump_size short"
    by (rule jump_instruction; use assms(3) op in \<open>auto simp: short_fits_def\<close>)+
  have q: "int p + int (jump_size short) + n = int q" using assms(5) by simp
  have "step V c (mk m p (v # s) xs r)
      = exec_op V c (if short then op8 else op) n (mk m (p + jump_size short) (v # s) xs r)"
    using step_instruction [of c p "if short then op8 else op" n m V "v # s" xs r] assms(1-3) j op
    by (auto simp: short_fits_def)
  also have "\<dots> = branch V on n (mk m (p + jump_size short) (v # s) xs r)" using op by auto
  finally have step: "step V c (mk m p (v # s) xs r) = branch V on n (mk m (p + jump_size short) (v # s) xs r)" .
  show ?thesis
  proof (cases "v_truth V v")
    case (Val b)
    have "reaches V c (mk m p (v # s) xs r) (mk m (if b = on then q else p + jump_size short) s xs r)"
      by (rule reaches_step [OF _ reaches_refl]) (use step Val q assms(2) in \<open>simp add: branch_def\<close>)
    with Val show ?thesis by simp
  next
    case (Exn x)
    with step have "step V c (mk m p (v # s) xs r) = Running (ejsThrowException x (mk m (p + jump_size short) s xs r))"
      by (simp add: branch_def)
    from reaches_step [OF this reaches_refl] Exn show ?thesis
      by (auto simp: throws_def ejsThrowException_def ejsAttention_def)
  qed
qed

section \<open>Instructions\<close>

text \<open>The shape of the machine behind an instruction sequence.\<close>

lemma run_instruction:
  assumes "holds c p (instruction op n)" "clean m" "op \<in> set opcodes" "operand_fits (operand_kind op) n"
    and "exec_op V c op n (mk m (p + length (instruction op n)) s xs r) = Running vm"
  shows "reaches V c (mk m p s xs r) vm"
  using step_instruction [OF assms(1-4), of V s xs r] assms(5) reaches_step [OF _ reaches_refl] by metis

lemma run_outcome:
  assumes "step V c vm0 = push_outcome V r (mk m p s xs w)" and "clean m"
  shows "delivers V c vm0 (r, xs) (\<lambda>v xs' vm'. xs' = xs \<and> vm' = mk m p (v # s) xs w)"
proof (cases r)
  case (Val v)
  with assms(1) have "step V c vm0 = Running (mk m p (v # s) xs w)" by (simp add: push_outcome_def)
  from reaches_step [OF this reaches_refl] Val show ?thesis by simp
next
  case (Exn x)
  with assms(1) have "step V c vm0 = Running (push (v_undefined V) (ejsThrowException x (mk m p s xs w)))"
    by (simp add: push_outcome_def)
  from reaches_step [OF this reaches_refl] Exn show ?thesis
    by (auto simp: throws_def ejsThrowException_def ejsAttention_def push_def)
qed

lemma run_binary:
  assumes "holds c p (op_bytes (OP_BINARY b))" and m: "clean m"
  shows "delivers V c (mk m p (v2 # v1 # s) xs r) (v_binary V b v1 v2, xs)
    (\<lambda>v xs' vm'. xs' = xs \<and> (\<exists>r'. vm' = mk m (p + length (op_bytes (OP_BINARY b))) (v # s) xs r'))"
proof -
  let ?p = "p + length (op_bytes (OP_BINARY b))"
  have step: "step V c (mk m p (v2 # v1 # s) xs r) = exec_op V c (OP_BINARY b) 0 (mk m ?p (v2 # v1 # s) xs r)"
    by (rule step_instruction) (use assms in simp_all)
  show ?thesis
  proof (cases "v_binary V b v1 v2")
    case (Val v)
    define r' where "r' = (if sets_result b then v else r)"
    have "step V c (mk m p (v2 # v1 # s) xs r) = Running (mk m ?p (v # s) xs r')"
      using step Val by (auto simp: r'_def)
    from reaches_step [OF this reaches_refl] Val show ?thesis by auto
  next
    case (Exn x)
    with step have "step V c (mk m p (v2 # v1 # s) xs r) \<in> Running ` ejsThrowException x ` mk m ?p s xs ` UNIV
      \<or> step V c (mk m p (v2 # v1 # s) xs r) \<in> Running ` ejsThrowException x ` mk m ?p (v1 # s) xs ` UNIV
      \<or> step V c (mk m p (v2 # v1 # s) xs r) \<in> Running ` push (v_undefined V) ` ejsThrowException x ` mk m ?p s xs ` UNIV"
      by (auto simp: push_outcome_def)
    then obtain vm' where "step V c (mk m p (v2 # v1 # s) xs r) = Running vm'"
      "exception vm' = Some x \<and> trap vm' \<and> locals vm' = xs"
      by (auto simp: ejsThrowException_def ejsAttention_def push_def)
    with reaches_step [OF this(1) reaches_refl] Exn show ?thesis by (auto simp: throws_def)
  qed
qed

lemma run_unary:
  assumes "holds c p (op_bytes (OP_UNARY u))" and m: "clean m"
  shows "delivers V c (mk m p (v # s) xs r) (v_unary V u v, xs)
    (\<lambda>w xs' vm'. xs' = xs \<and> vm' = mk m (p + length (op_bytes (OP_UNARY u))) (w # s) xs r)"
proof -
  let ?p = "p + length (op_bytes (OP_UNARY u))"
  have step: "step V c (mk m p (v # s) xs r) = exec_op V c (OP_UNARY u) 0 (mk m ?p (v # s) xs r)"
    by (rule step_instruction) (use assms in simp_all)
  show ?thesis
  proof (cases "\<exists>x. v_unary V u v = Exn x \<and> u = LOGICAL_NOT")
    case True
    then obtain x where "v_unary V u v = Exn x" "u = LOGICAL_NOT" by blast
    with step have "step V c (mk m p (v # s) xs r) = Running (ejsThrowException x (mk m ?p s xs r))" by simp
    from reaches_step [OF this reaches_refl] \<open>v_unary V u v = Exn x\<close> show ?thesis
      by (auto simp: throws_def ejsThrowException_def ejsAttention_def)
  next
    case False
    then have "step V c (mk m p (v # s) xs r) = push_outcome V (v_unary V u v) (mk m ?p s xs r)"
      using step by (auto split: outcome.splits)
    from run_outcome [OF this m] show ?thesis .
  qed
qed


lemma run_get:
  assumes "holds c p (get_code i)" "clean m" "i < length xs" "length xs \<le> 2 ^ 31"
  shows "reaches V c (mk m p s xs r) (mk m (p + length (get_code i)) (xs ! i # s) xs r)"
proof (cases "i < 10")
  case True
  then show ?thesis using assms
    by (intro run_instruction [where op = "OP_GET_LOCAL_SLOT_N i" and n = 0])
      (simp_all add: get_code_def slot_code_def get_slot_def slot_value_def)
next
  case False
  then show ?thesis using assms
    by (intro run_instruction [where op = OP_GET_LOCAL_SLOT and n = "int i"])
      (simp_all add: get_code_def slot_code_def get_slot_def slot_value_def)
qed

lemma run_put:
  assumes "holds c p (put_code i)" "clean m" "i < length xs" "length xs \<le> 2 ^ 31"
  shows "reaches V c (mk m p (v # s) xs r) (mk m (p + length (put_code i)) s (xs[i := v]) v)"
proof (cases "i < 10")
  case True
  then show ?thesis using assms
    by (intro run_instruction [where op = "OP_PUT_LOCAL_SLOT_N i" and n = 0])
      (simp_all add: put_code_def slot_code_def put_slot_def slot_value_def)
next
  case False
  then show ?thesis using assms
    by (intro run_instruction [where op = OP_PUT_LOCAL_SLOT and n = "int i"])
      (simp_all add: put_code_def slot_code_def put_slot_def slot_value_def)
qed

lemma run_dup:
  assumes "holds c p (op_bytes OP_DUP)" "clean m"
  shows "reaches V c (mk m p (v # s) xs r) (mk m (p + length (op_bytes OP_DUP)) (v # v # s) xs r)"
  using assms by (intro run_instruction [where op = OP_DUP and n = 0]) simp_all

lemma run_pop:
  assumes "holds c p (op_bytes OP_POP)" "clean m"
  shows "reaches V c (mk m p (v # s) xs r) (mk m (p + length (op_bytes OP_POP)) s xs v)"
  using assms by (intro run_instruction [where op = OP_POP and n = 0]) simp_all

lemma run_drop:
  assumes "holds c p (drop_code k)" "clean m" "length vs = k" "k < 256"
  shows "\<exists>r'. reaches V c (mk m p (vs @ s) xs r) (mk m (p + length (drop_code k)) s xs r')"
proof -
  consider "k = 0" | "k = 1" | "1 < k" by linarith
  then show ?thesis
  proof cases
    case 1
    with assms(3) have "reaches V c (mk m p (vs @ s) xs r) (mk m (p + length (drop_code k)) s xs r)"
      by (simp add: drop_code_def)
    then show ?thesis ..
  next
    case 2
    with assms(3) obtain v where "vs = [v]" by (auto simp: length_Suc_conv)
    with 2 assms(1) run_pop [OF _ assms(2), of c p V v s xs r] show ?thesis by (auto simp: drop_code_def)
  next
    case 3
    then have "reaches V c (mk m p (vs @ s) xs r) (mk m (p + length (drop_code k)) s xs r)" using assms
      by (intro run_instruction [where op = OP_POP_ITEMS and n = "int k"]) (simp_all add: drop_code_def)
    then show ?thesis ..
  qed
qed

lemma run_inc:
  assumes h: "holds c p (instruction OP_INC (if tok = T_PLUS_PLUS then 1 else -1))" and m: "clean m"
  shows "delivers V c (mk m p (v # s) xs r) (increment V tok v, xs)
    (\<lambda>w xs' vm'. xs' = xs \<and> vm' = mk m (p + length (instruction OP_INC (if tok = T_PLUS_PLUS then 1 else -1))) (w # s) xs r)"
proof -
  define n :: int where "n = (if tok = T_PLUS_PLUS then 1 else 255)"
  have i: "instruction OP_INC (if tok = T_PLUS_PLUS then 1 else -1) = instruction OP_INC n"
    by (simp add: n_def instruction_def)
  have sc: "schar (word_of_int n) = (if tok = T_PLUS_PLUS then 1 else -1)"
    unfolding n_def by (cases "tok = T_PLUS_PLUS") (simp_all, (code_simp)+)
  have "step V c (mk m p (v # s) xs r) = exec_op V c OP_INC n (mk m (p + length (instruction OP_INC n)) (v # s) xs r)"
    by (rule step_instruction) (use h m i in \<open>simp_all add: n_def\<close>)
  then have "step V c (mk m p (v # s) xs r)
      = push_outcome V (increment V tok v) (mk m (p + length (instruction OP_INC n)) s xs r)"
    by (simp add: increment_def sc)
  from run_outcome [OF this m] show ?thesis unfolding i .
qed

lemma run_literal:
  assumes h: "holds c p (literal_code lit)" and m: "clean m" and lit: "lit \<noteq> LNumber (push_bit 63 1)"
  shows "reaches V c (mk m p s xs r) (mk m (p + length (literal_code lit)) (literal_value V lit # s) xs r)"
proof (cases lit)
  case (LBool b)
  with h m show ?thesis by (cases b) (auto intro!: run_instruction)
next
  case (LNumber d)
  have load: "operand_fits EBC_DOUBLE (uint d)" using uint_lt2p [of d] by simp
  show ?thesis
  proof (cases "double_int d")
    case None
    with h m LNumber load show ?thesis by (intro run_instruction [where op = OP_LOAD_DOUBLE and n = "uint d"]) simp_all
  next
    case (Some n)
    show ?thesis
    proof (cases "n \<le> - MAXINT \<or> MAXINT \<le> n")
      case True
      with Some h m LNumber load show ?thesis
        by (intro run_instruction [where op = OP_LOAD_DOUBLE and n = "uint d"]) simp_all
    next
      case False
      then have n: "\<bar>n\<bar> < 2 ^ 31" by (auto simp: MAXINT_def)
      then have d: "double_of_int n = d" using lit LNumber by (intro double_of_int_exact [OF Some]) auto
      show ?thesis
      proof (cases "0 \<le> n \<and> n \<le> 9")
        case True
        with Some h m LNumber d False show ?thesis
          by (intro run_instruction [where op = "OP_LOAD_N (nat n)" and n = 0]) auto
      next
        case small: False
        with Some h m LNumber d False n show ?thesis
          by (intro run_instruction [where op = OP_LOAD_INT and n = n]) auto
      qed
    qed
  qed
qed (use h m in \<open>auto intro!: run_instruction\<close>)

section \<open>Expressions\<close>

text \<open>
  The state behind the code of an expression: \<open>k\<close> values more, exactly the value if \<open>ex\<close> holds.
  \<open>computes\<close>: the code \<open>bs\<close>, wherever it is placed, does what \<open>ev\<close> says.
\<close>

definition leaves :: "'v vm \<Rightarrow> nat \<Rightarrow> nat \<Rightarrow> nat \<Rightarrow> bool \<Rightarrow> 'v list \<Rightarrow> 'v \<Rightarrow> 'v list \<Rightarrow> 'v vm \<Rightarrow> bool" where
  "leaves m n q k ex s v xs vm \<longleftrightarrow>
     length xs = n \<and> (\<exists>vs r. length vs = k \<and> (ex \<longrightarrow> vs = [v]) \<and> vm = mk m q (vs @ s) xs r)"

definition computes ::
  "'v values \<Rightarrow> vmcode \<Rightarrow> 'v vm \<Rightarrow> nat \<Rightarrow> u8 list \<Rightarrow> nat \<Rightarrow> bool \<Rightarrow> ('v list \<Rightarrow> ('v, 'v) outcome \<times> 'v list) \<Rightarrow> bool"
where
  "computes V c m n bs k ex ev \<longleftrightarrow>
     (\<forall>p s xs r. holds c p bs \<longrightarrow> length xs = n \<longrightarrow>
        delivers V c (mk m p s xs r) (ev xs) (leaves m n (p + length bs) k ex s))"

lemma leaves_value: "length xs = n \<Longrightarrow> leaves m n q (Suc 0) ex s v xs (mk m q (v # s) xs r)"
  unfolding leaves_def by (intro conjI exI [of _ "[v]"] exI [of _ r]) simp_all

lemma leaves_nothing: "length xs = n \<Longrightarrow> leaves m n q 0 False s v xs (mk m q s xs r)"
  unfolding leaves_def by (intro conjI exI [of _ "[]"] exI [of _ r]) simp_all

lemma leaves_exact:
  assumes "leaves m n q k True s v xs vm"
  obtains r where "vm = mk m q (v # s) xs r" "length xs = n"
  using assms by (auto simp: leaves_def)

lemma computesI:
  "(\<And>p s xs r. holds c p bs \<Longrightarrow> length xs = n \<Longrightarrow>
      delivers V c (mk m p s xs r) (ev xs) (leaves m n (p + length bs) k ex s)) \<Longrightarrow> computes V c m n bs k ex ev"
  by (simp add: computes_def)

text \<open>The use of the value of an operand.\<close>

lemma computes_then:
  assumes "computes V c m n bs k True ev" and "holds c p bs" and "length xs = n"
    and "\<And>v xs r. length xs = n \<Longrightarrow> delivers V c (mk m (p + length bs) (v # s) xs r) (f v xs) Q"
  shows "delivers V c (mk m p s xs r) (seq (ev xs) f) Q"
proof (rule delivers_seq)
  show "delivers V c (mk m p s xs r) (ev xs) (leaves m n (p + length bs) k True s)"
    using assms(1-3) by (simp add: computes_def)
  fix v xs' vm assume "leaves m n (p + length bs) k True s v xs' vm"
  then obtain r' where "vm = mk m (p + length bs) (v # s) xs' r'" "length xs' = n" by (rule leaves_exact)
  with assms(4) show "delivers V c vm (f v xs') Q" by simp
qed

lemma computes_values:
  assumes "\<And>e. e \<in> set es \<Longrightarrow> computes V c m n (f e) (k e) (ex e) (eval V e)"
  shows "computes V c m n (concat (map f es)) (sum_list (map k es)) (case es of [e] \<Rightarrow> ex e | _ \<Rightarrow> False)
    (eval V (N_EXPRESSIONS es))"
  using assms
proof (induction es rule: induct_list012)
  case 1
  show ?case by (rule computesI) (auto intro!: delivers_here leaves_nothing simp del: delivers_simps)
next
  case (2 e)
  then have "computes V c m n (f e) (k e) (ex e) (eval V e)" by simp
  then show ?case by (simp add: computes_def)
next
  case (3 e e' es)
  let ?rest = "concat (map f (e' # es))"
  show ?case
  proof (rule computesI)
    fix p s and xs :: "'a list" and r
    assume "holds c p (concat (map f (e # e' # es)))" and xs: "length xs = n"
    then have h: "holds c p (f e)" "holds c (p + length (f e)) ?rest"
      using holds_append [of c p "f e" ?rest] by simp_all
    have 1: "computes V c m n ?rest (sum_list (map k (e' # es))) (case e' # es of [e] \<Rightarrow> ex e | _ \<Rightarrow> False)
        (eval V (N_EXPRESSIONS (e' # es)))" by (rule 3(2)) (use 3(3) in simp)
    show "delivers V c (mk m p s xs r) (eval V (N_EXPRESSIONS (e # e' # es)) xs)
        (leaves m n (p + length (concat (map f (e # e' # es)))) (sum_list (map k (e # e' # es)))
          (case e # e' # es of [e] \<Rightarrow> ex e | _ \<Rightarrow> False) s)"
      unfolding eval.simps
    proof (rule delivers_seq)
      show "delivers V c (mk m p s xs r) (eval V e xs) (leaves m n (p + length (f e)) (k e) (ex e) s)"
        using 3(3) [of e] h(1) xs by (simp add: computes_def)
      fix v xs1 vm assume "leaves m n (p + length (f e)) (k e) (ex e) s v xs1 vm"
      then obtain vs r' where vm: "length xs1 = n" "length vs = k e" "vm = mk m (p + length (f e)) (vs @ s) xs1 r'"
        by (auto simp: leaves_def)
      have "delivers V c vm (eval V (N_EXPRESSIONS (e' # es)) xs1)
          (leaves m n (p + length (f e) + length ?rest) (sum_list (map k (e' # es)))
            (case e' # es of [e] \<Rightarrow> ex e | _ \<Rightarrow> False) (vs @ s))"
        using 1 h(2) vm by (simp add: computes_def)
      then show "delivers V c vm (eval V (N_EXPRESSIONS (e' # es)) xs1)
          (leaves m n (p + length (concat (map f (e # e' # es)))) (sum_list (map k (e # e' # es)))
            (case e # e' # es of [e] \<Rightarrow> ex e | _ \<Rightarrow> False) s)"
      proof (rule delivers_weaken)
        fix v xs2 vm'
        assume "leaves m n (p + length (f e) + length ?rest) (sum_list (map k (e' # es)))
            (case e' # es of [e] \<Rightarrow> ex e | _ \<Rightarrow> False) (vs @ s) v xs2 vm'"
        then obtain ws r2 where "length xs2 = n" "length ws = sum_list (map k (e' # es))"
            "vm' = mk m (p + length (concat (map f (e # e' # es)))) ((ws @ vs) @ s) xs2 r2"
          by (auto simp: leaves_def add.assoc)
        with vm(2) show "leaves m n (p + length (concat (map f (e # e' # es)))) (sum_list (map k (e # e' # es)))
            (case e # e' # es of [e] \<Rightarrow> ex e | _ \<Rightarrow> False) s v xs2 vm'"
          unfolding leaves_def by (intro conjI exI [of _ "ws @ vs"] exI [of _ r2]) simp_all
      qed
    qed
  qed
qed

lemma computes_literal:
  assumes "clean m" "lit \<noteq> LNumber (push_bit 63 1)"
  shows "computes V c m n (literal_code lit) (Suc 0) True (eval V (N_LITERAL lit))"
proof (rule computesI)
  fix p s and xs :: "'a list" and r
  assume "holds c p (literal_code lit)" "length xs = n"
  with run_literal [OF _ assms, of c p V s xs r] show "delivers V c (mk m p s xs r) (eval V (N_LITERAL lit) xs)
      (leaves m n (p + length (literal_code lit)) (Suc 0) True s)"
    by (auto intro: leaves_value)
qed

lemma computes_get:
  assumes "clean m" "i < n" "n \<le> 2 ^ 31"
  shows "computes V c m n (get_code i) (Suc 0) True (eval V (N_QNAME i))"
proof (rule computesI)
  fix p s and xs :: "'a list" and r
  assume "holds c p (get_code i)" "length xs = n"
  with run_get [OF _ assms(1), of c p i xs V s r] assms show "delivers V c (mk m p s xs r) (eval V (N_QNAME i) xs)
      (leaves m n (p + length (get_code i)) (Suc 0) True s)"
    by (auto intro: leaves_value)
qed

lemma computes_assign:
  assumes m: "clean m" and i: "i < n" "n \<le> 2 ^ 31" and e: "computes V c m n bs k True ev"
  shows "computes V c m n (bs @ (if d then op_bytes OP_DUP else []) @ put_code i) (if d then Suc 0 else 0) d
    (\<lambda>xs. seq (ev xs) (\<lambda>v xs. (Val v, xs[i := v])))"
proof (rule computesI)
  fix p s and xs :: "'a list" and r
  let ?dup = "if d then op_bytes OP_DUP else []"
  assume h: "holds c p (bs @ ?dup @ put_code i)" and xs: "length xs = n"
  note h1 = holds_appendD [OF h] and h2 = holds_appendD [OF holds_appendD(2) [OF h]]
  let ?q = "p + length (bs @ ?dup @ put_code i)"
  show "delivers V c (mk m p s xs r) (seq (ev xs) (\<lambda>v xs. (Val v, xs[i := v]))) (leaves m n ?q (if d then Suc 0 else 0) d s)"
  proof (rule computes_then [OF e h1(1) xs])
    fix v and xs :: "'a list" and r assume xs: "length xs = n"
    have put: "reaches V c (mk m (p + length bs + length ?dup) (v # t) xs r) (mk m ?q t (xs[i := v]) v)" for t
      using run_put [OF h2(2) m, of xs V v t r] xs i by (simp add: add.assoc)
    show "delivers V c (mk m (p + length bs) (v # s) xs r) (Val v, xs[i := v]) (leaves m n ?q (if d then Suc 0 else 0) d s)"
    proof (cases d)
      case True
      with h2(1) have "reaches V c (mk m (p + length bs) (v # s) xs r) (mk m (p + length bs + length ?dup) (v # v # s) xs r)"
        using run_dup [OF _ m, of c "p + length bs"] by simp
      from reaches_trans [OF this put] True leaves_value [of "xs[i := v]" n] xs show ?thesis by auto
    next
      case False
      with put [of s] leaves_nothing [of "xs[i := v]" n] xs show ?thesis by auto
    qed
  qed
qed

lemma computes_binary:
  assumes m: "clean m" and l: "computes V c m n a k True ea" and r: "computes V c m n b k' True eb"
  shows "computes V c m n (a @ b @ op_bytes (OP_BINARY op)) (Suc 0) True
    (\<lambda>xs. seq (ea xs) (\<lambda>v xs. seq (eb xs) (\<lambda>w xs. (v_binary V op v w, xs))))"
proof (rule computesI)
  fix p s and xs :: "'a list" and w
  assume h: "holds c p (a @ b @ op_bytes (OP_BINARY op))" and xs: "length xs = n"
  note h1 = holds_appendD [OF h] and h2 = holds_appendD [OF holds_appendD(2) [OF h]]
  let ?q = "p + length (a @ b @ op_bytes (OP_BINARY op))"
  show "delivers V c (mk m p s xs w) (seq (ea xs) (\<lambda>v xs. seq (eb xs) (\<lambda>w xs. (v_binary V op v w, xs))))
      (leaves m n ?q (Suc 0) True s)"
  proof (rule computes_then [OF l h1(1) xs], rule computes_then [OF r h2(1)])
    fix v1 v2 and xs :: "'a list" and r assume xs: "length xs = n"
    show "delivers V c (mk m (p + length a + length b) (v2 # v1 # s) xs r) (v_binary V op v1 v2, xs) (leaves m n ?q (Suc 0) True s)"
      by (rule delivers_weaken [OF run_binary [OF h2(2) m]]) (use xs in \<open>auto simp: add.assoc intro: leaves_value\<close>)
  qed
qed

lemma computes_unary:
  assumes m: "clean m" and e: "computes V c m n bs k True ev"
  shows "computes V c m n (bs @ op_bytes (OP_UNARY u)) (Suc 0) True
    (\<lambda>xs. seq (ev xs) (\<lambda>v xs. (v_unary V u v, xs)))"
proof (rule computesI)
  fix p s and xs :: "'a list" and w
  assume h: "holds c p (bs @ op_bytes (OP_UNARY u))" and xs: "length xs = n"
  note h1 = holds_appendD [OF h]
  let ?q = "p + length (bs @ op_bytes (OP_UNARY u))"
  show "delivers V c (mk m p s xs w) (seq (ev xs) (\<lambda>v xs. (v_unary V u v, xs))) (leaves m n ?q (Suc 0) True s)"
  proof (rule computes_then [OF e h1(1) xs])
    fix v and xs :: "'a list" and r assume xs: "length xs = n"
    show "delivers V c (mk m (p + length bs) (v # s) xs r) (v_unary V u v, xs) (leaves m n ?q (Suc 0) True s)"
      by (rule delivers_weaken [OF run_unary [OF h1(2) m]]) (use xs in \<open>auto simp: add.assoc intro: leaves_value\<close>)
  qed
qed


section \<open>Two-way choices\<close>

lemma length_final [simp]: "length (final T p ps) = plen ps"
  by (induction T p ps rule: final.induct) simp_all

lemma holds_final_append:
  assumes "holds c p (final T p (a @ b))"
  shows "holds c p (final T p a)" "holds c (p + plen a) (final T (p + plen a) b)"
  using holds_append [of c p "final T p a" "final T (p + plen a) b"] assms by simp_all

lemma jump_length:
  assumes "\<bar>n\<bar> < 2 ^ 27" "(op8, op) \<in> {(OP_GOTO_8, OP_GOTO), (OP_BRANCH_TRUE_8, OP_BRANCH_TRUE), (OP_BRANCH_FALSE_8, OP_BRANCH_FALSE)}"
  shows "length (jump_bytes short op8 op n) = jump_size short"
  by (rule jump_instruction(2)) (use assms in auto)

lemma if_layout:
  assumes h: "holds c p (final T p (if_code opt cb a b))" and m: "clean m" and len: "length (byteCode c) < 2 ^ 27"
  obtains pa pb where "holds c p cb" "holds c pa (final T pa a)" "holds c pb (final T pb b)"
    and "\<And>v s xs r. delivers V c (mk m (p + length cb) (v # s) xs r) (v_truth V v, xs)
           (\<lambda>t xs' vm'. xs' = xs \<and> vm' = mk m (if t then pa else pb) s xs r)"
    and "\<And>s xs r. reaches V c (mk m (pa + plen a) s xs r) (mk m (pb + plen b) s xs r)"
    and "pb + plen b = p + plen (if_code opt cb a b)"
proof -
  define es where "es = small opt 0x7f (plen b)"
  define tl where "tl = plen a + jump_size es"
  define ts where "ts = small opt 0x7f tl"
  define J where "J = jump_bytes ts OP_BRANCH_FALSE_8 OP_BRANCH_FALSE (int tl)"
  define G where "G = jump_bytes es OP_GOTO_8 OP_GOTO (int (plen b))"
  have code: "if_code opt cb a b = [Bytes (cb @ J)] @ a @ [Bytes G] @ b"
    by (simp add: if_code_def Let_def es_def tl_def ts_def J_def G_def)
  note h1 = holds_final_append [OF h [unfolded code]]
  note h2 = holds_final_append [OF h1(2)]
  note h3 = holds_final_append [OF h2(2)]
  have whole: "plen (if_code opt cb a b) < 2 ^ 27" using holds_length [OF h] len by simp
  then have b: "plen b < 2 ^ 27" using plen_if(2) [of b opt cb a] by simp
  then have fits2: "short_fits es (int (plen b))" by (auto simp: short_fits_def es_def small_def)
  have lj2: "length G = jump_size es"
    unfolding G_def by (rule jump_length) (use fits2 in \<open>simp_all add: short_fits_def\<close>)
  have "tl < 2 ^ 27" using whole lj2 by (simp add: code tl_def)
  then have fits1: "short_fits ts (int tl)" by (auto simp: short_fits_def ts_def small_def)
  have "length J = jump_size ts"
    unfolding J_def by (rule jump_length) (use fits1 in \<open>simp_all add: short_fits_def\<close>)
  note fits = fits1 fits2 and lj = this lj2
  have j: "holds c p cb" "holds c (p + length cb) J" using holds_appendD [of c p cb J] h1(1) by simp_all
  show thesis
  proof (rule that [of "p + length cb + jump_size ts" "p + length cb + jump_size ts + plen a + jump_size es"])
    show "holds c p cb" by (rule j)
    show "holds c (p + length cb + jump_size ts) (final T (p + length cb + jump_size ts) a)"
      using h2(1) lj by (simp add: add.assoc)
    show "holds c (p + length cb + jump_size ts + plen a + jump_size es) (final T (p + length cb + jump_size ts + plen a + jump_size es) b)"
      using h3(2) lj by (simp add: add.assoc)
    show "p + length cb + jump_size ts + plen a + jump_size es + plen b = p + plen (if_code opt cb a b)"
      using lj by (simp add: code)
    fix s xs r
    show "reaches V c (mk m (p + length cb + jump_size ts + plen a) s xs r)
        (mk m (p + length cb + jump_size ts + plen a + jump_size es + plen b) s xs r)"
      by (rule jump_goto [OF _ m fits(2)]) (use h3(1) lj in \<open>simp_all add: G_def [symmetric] add.assoc\<close>)
    fix v
    show "delivers V c (mk m (p + length cb) (v # s) xs r) (v_truth V v, xs)
        (\<lambda>t xs' vm'. xs' = xs \<and> vm' = mk m (if t then p + length cb + jump_size ts
           else p + length cb + jump_size ts + plen a + jump_size es) s xs r)"
      by (rule delivers_weaken [OF jump_branch [where on = False and q = "p + length cb + jump_size ts + plen a + jump_size es",
              OF j(2) [unfolded J_def] m fits(1)]])
        (auto simp: tl_def split: if_splits)
  qed
qed

lemma delivers_map:
  assumes "delivers V c vm r P" and "\<And>v xs vm'. P v xs vm' \<Longrightarrow> \<exists>vm2. reaches V c vm' vm2 \<and> Q v xs vm2"
  shows "delivers V c vm r Q"
proof (cases r)
  case (Pair a xs)
  show ?thesis
  proof (cases a)
    case (Val v)
    with Pair assms(1) obtain vm' where 1: "reaches V c vm vm'" "P v xs vm'" by auto
    from assms(2) [OF this(2)] obtain vm2 where 2: "reaches V c vm' vm2" "Q v xs vm2" by blast
    from reaches_trans [OF 1(1) 2(1)] 2(2) Pair Val show ?thesis by auto
  next
    case (Exn x)
    with Pair assms(1) show ?thesis by simp
  qed
qed

lemma leaves_goto:
  assumes "leaves m n q k ex s v xs vm" and "\<And>t xs r. reaches V c (mk m q t xs r) (mk m q' t xs r)"
  shows "\<exists>vm'. reaches V c vm vm' \<and> leaves m n q' k ex s v xs vm'"
proof -
  obtain vs r where "length xs = n" "length vs = k" "ex \<longrightarrow> vs = [v]" "vm = mk m q (vs @ s) xs r"
    using assms(1) by (auto simp: leaves_def)
  with assms(2) [of "vs @ s" xs r] show ?thesis by (auto simp: leaves_def)
qed

lemma leaves_drop:
  assumes "leaves m n q k ex s v xs vm" "holds c q (drop_code k)" "clean m" "k < 256"
  shows "\<exists>vm'. reaches V c vm vm' \<and> leaves m n (q + length (drop_code k)) 0 False s v xs vm'"
proof -
  obtain vs r where 1: "length xs = n" "length vs = k" "vm = mk m q (vs @ s) xs r"
    using assms(1) by (auto simp: leaves_def)
  from run_drop [OF assms(2,3) 1(2) assms(4)] obtain r' where
    "reaches V c vm (mk m (q + length (drop_code k)) s xs r')" unfolding 1(3) by blast
  with leaves_nothing [OF 1(1)] show ?thesis by blast
qed

lemma computes_tenary:
  assumes m: "clean m" and len: "length (byteCode c) < 2 ^ 27"
    and c: "computes V c m n cb k True ec"
    and a: "computes V c m n ab ka xa ea" and b: "computes V c m n bb kb xb eb"
    and nv: "if nv then ka = 1 \<and> kb = 1 \<and> xa \<and> xb else ka < 256 \<and> kb < 256"
  shows "computes V c m n
    (pbytes (if_code opt cb [Bytes (ab @ drop_code (if nv then 0 else ka))] [Bytes (bb @ drop_code (if nv then 0 else kb))]))
    (if nv then 1 else 0) nv
    (\<lambda>xs. seq (ec xs) (\<lambda>v xs. seq (v_truth V v, xs) (\<lambda>t xs. if t then ea xs else eb xs)))"
proof (rule computesI)
  fix p s and xs :: "'a list" and r
  let ?A = "[Bytes (ab @ drop_code (if nv then 0 else ka))]" and ?B = "[Bytes (bb @ drop_code (if nv then 0 else kb))]"
  have f: "final T p (if_code opt cb ?A ?B) = pbytes (if_code opt cb ?A ?B)" for T p
    by (simp add: if_code_def Let_def)
  assume "holds c p (pbytes (if_code opt cb ?A ?B))" and xs: "length xs = n"
  then have "holds c p (final (\<lambda>_. 0) p (if_code opt cb ?A ?B))" by (simp add: f)
  then obtain pa pb where h: "holds c p cb" "holds c pa (final (\<lambda>_. 0) pa ?A)" "holds c pb (final (\<lambda>_. 0) pb ?B)"
    and br: "\<And>v s xs r. delivers V c (mk m (p + length cb) (v # s) xs r) (v_truth V v, xs)
           (\<lambda>t xs' vm'. xs' = xs \<and> vm' = mk m (if t then pa else pb) s xs r)"
    and go: "\<And>s xs r. reaches V c (mk m (pa + plen ?A) s xs r) (mk m (pb + plen ?B) s xs r)"
    and e: "pb + plen ?B = p + plen (if_code opt cb ?A ?B)"
    by (rule if_layout [OF _ m len]) blast
  let ?q = "p + length (pbytes (if_code opt cb ?A ?B))"
  have q: "?q = pb + plen ?B" using e by (simp add: plen_def)
  have part: "delivers V c (mk m p1 s xs r) (ev xs) (leaves m n (p1 + length (bs @ drop_code (if nv then 0 else k)))
      (if nv then 1 else 0) nv s)"
    if "computes V c m n bs k x ev" "holds c p1 (bs @ drop_code (if nv then 0 else k))" "length xs = n"
      "if nv then k = 1 \<and> x else k < 256" for p1 s and xs :: "'a list" and r bs k x ev
  proof -
    note h' = holds_appendD [OF that(2)]
    have d: "delivers V c (mk m p1 s xs r) (ev xs) (leaves m n (p1 + length bs) k x s)"
      using that(1,3) h'(1) by (simp add: computes_def)
    show ?thesis
    proof (cases nv)
      case True
      with d that(4) show ?thesis by (simp add: drop_code_def)
    next
      case False
      with that(4) h'(2) have "\<exists>vm'. reaches V c vm vm'
          \<and> leaves m n (p1 + length bs + length (drop_code k)) 0 False s v ys vm'"
        if "leaves m n (p1 + length bs) k x s v ys vm" for v ys vm
        using leaves_drop [OF that _ m] by simp
      from delivers_map [OF d this] False show ?thesis by (simp add: add.assoc)
    qed
  qed
  show "delivers V c (mk m p s xs r) (seq (ec xs) (\<lambda>v xs. seq (v_truth V v, xs) (\<lambda>t xs. if t then ea xs else eb xs)))
      (leaves m n ?q (if nv then 1 else 0) nv s)"
  proof (rule computes_then [OF c h(1) xs], rule delivers_seq [OF br])
    fix v and xs :: "'a list" and r t xs' vm'
    assume xs: "length xs = n" and vm': "xs' = xs \<and> vm' = mk m (if t then pa else pb) s xs r"
    show "delivers V c vm' (if t then ea xs' else eb xs') (leaves m n ?q (if nv then 1 else 0) nv s)"
    proof (cases t)
      case True
      have "delivers V c (mk m pa s xs r) (ea xs) (leaves m n (pa + plen ?A) (if nv then 1 else 0) nv s)"
        using part [OF a _ xs, of pa s r] h(2) nv by (auto split: if_splits)
      from delivers_map [OF this leaves_goto [OF _ go]]
      have "delivers V c (mk m pa s xs r) (ea xs) (leaves m n ?q (if nv then 1 else 0) nv s)" unfolding q .
      with True vm' show ?thesis by simp
    next
      case False
      have "delivers V c (mk m pb s xs r) (eb xs) (leaves m n ?q (if nv then 1 else 0) nv s)"
        using part [OF b _ xs, of pb s r] h(3) nv q by (auto split: if_splits)
      with False vm' show ?thesis by simp
    qed
  qed
qed

lemma computes_eval:
  "computes V c m n bs k ex ev \<Longrightarrow> (\<And>xs. ev' xs = ev xs) \<Longrightarrow> computes V c m n bs k ex ev'"
  by (simp add: computes_def)

lemma computes_logical:
  assumes m: "clean m" and len: "length (byteCode c) < 2 ^ 27" and tok: "tok = T_LOGICAL_AND \<or> tok = T_LOGICAL_OR"
    and l: "computes V c m n lb k True el" and r: "computes V c m n rb (Suc 0) True er"
  shows "computes V c m n (logical_code opt tok lb rb) (Suc 0) True
    (\<lambda>xs. seq (el xs) (\<lambda>v xs. seq (v_truth V v, xs) (\<lambda>b xs. if b = (tok = T_LOGICAL_OR) then (Val v, xs) else er xs)))"
proof (rule computesI)
  fix p s and xs :: "'a list" and w
  define on where "on = (tok = T_LOGICAL_OR)"
  define op8 where "op8 = (if on then OP_BRANCH_TRUE_8 else OP_BRANCH_FALSE_8)"
  define op where "op = (if on then OP_BRANCH_TRUE else OP_BRANCH_FALSE)"
  define right where "right = op_bytes OP_POP @ rb"
  define sh where "sh = small opt 0x7f (length right)"
  define J where "J = jump_bytes sh op8 op (int (length right))"
  have code: "logical_code opt tok lb rb = lb @ op_bytes OP_DUP @ J @ right"
    using tok by (auto simp: logical_code_def Let_def right_def sh_def J_def op8_def op_def on_def)
  assume h0: "holds c p (logical_code opt tok lb rb)" and xs: "length xs = n"
  note h1 = holds_appendD [OF h0 [unfolded code]]
  note h2 = holds_appendD [OF h1(2)]
  note h3 = holds_appendD [OF h2(2)]
  have "length right < 2 ^ 27" using holds_length [OF h3(2)] len by simp
  then have fits: "short_fits sh (int (length right))" by (auto simp: short_fits_def sh_def small_def)
  have lj: "length J = jump_size sh"
    unfolding J_def by (rule jump_length) (use fits in \<open>auto simp: short_fits_def op8_def op_def\<close>)
  let ?p2 = "p + length lb + length (op_bytes OP_DUP)" and ?q = "p + length (logical_code opt tok lb rb)"
  let ?p3 = "?p2 + jump_size sh"
  have pop: "holds c ?p3 (op_bytes OP_POP)" "holds c (?p3 + length (op_bytes OP_POP)) rb"
    using holds_appendD [of c ?p3 "op_bytes OP_POP" rb] h3(2) by (simp_all add: lj right_def)
  have q: "?q = ?p3 + length right" by (simp add: code lj)
  show "delivers V c (mk m p s xs w) (seq (el xs) (\<lambda>v xs. seq (v_truth V v, xs) (\<lambda>b xs.
      if b = (tok = T_LOGICAL_OR) then (Val v, xs) else er xs))) (leaves m n ?q (Suc 0) True s)"
  proof (rule computes_then [OF l h1(1) xs])
    fix v and xs :: "'a list" and r' assume xs: "length xs = n"
    have br: "delivers V c (mk m ?p2 (v # v # s) xs r') (v_truth V v, xs)
        (\<lambda>b xs' vm'. xs' = xs \<and> vm' = mk m (if b = on then ?q else ?p3) (v # s) xs r')"
      by (rule jump_branch [OF h3(1) [unfolded J_def] m fits]) (auto simp: op8_def op_def q)
    have "delivers V c (mk m ?p2 (v # v # s) xs r') (seq (v_truth V v, xs) (\<lambda>b xs.
        if b = (tok = T_LOGICAL_OR) then (Val v, xs) else er xs)) (leaves m n ?q (Suc 0) True s)"
    proof (rule delivers_seq [OF br])
      fix b xs' vm' assume b: "xs' = xs \<and> vm' = mk m (if b = on then ?q else ?p3) (v # s) xs r'"
      show "delivers V c vm' (if b = (tok = T_LOGICAL_OR) then (Val v, xs') else er xs') (leaves m n ?q (Suc 0) True s)"
      proof (cases "b = on")
        case True
        with b leaves_value [OF xs] show ?thesis unfolding on_def by (simp add: delivers_here del: delivers_simps)
      next
        case False
        have q': "?q = ?p3 + length (op_bytes OP_POP) + length rb" using q by (simp add: right_def)
        have "delivers V c (mk m (?p3 + length (op_bytes OP_POP)) s xs v) (er xs) (leaves m n ?q (Suc 0) True s)"
          unfolding q' using r pop(2) xs unfolding computes_def by blast
        with delivers_reaches [OF run_pop [OF pop(1) m]] False b show ?thesis by (simp add: on_def)
      qed
    qed
    with delivers_reaches [OF run_dup [OF h2(1) m]]
    show "delivers V c (mk m (p + length lb) (v # s) xs r') (seq (v_truth V v, xs) (\<lambda>b xs.
        if b = (tok = T_LOGICAL_OR) then (Val v, xs) else er xs)) (leaves m n ?q (Suc 0) True s)" by blast
  qed
qed

lemma computes_prefix:
  assumes m: "clean m" and i: "i < n" "n \<le> 2 ^ 31" and tok: "tok = T_PLUS_PLUS \<or> tok = T_MINUS_MINUS"
  shows "computes V c m n (get_code i @ instruction OP_INC (if tok = T_PLUS_PLUS then 1 else -1) @ op_bytes OP_DUP @ put_code i)
    (Suc 0) True (eval V (N_UNARY_OP tok (N_QNAME i)))"
proof -
  define inc where "inc = instruction OP_INC (if tok = T_PLUS_PLUS then 1 else -1)"
  have "computes V c m n (get_code i @ inc) (Suc 0) True (\<lambda>xs. seq (Val (xs ! i), xs) (\<lambda>v xs. (increment V tok v, xs)))"
  proof (rule computesI)
    fix p s and xs :: "'a list" and r
    assume h: "holds c p (get_code i @ inc)" and xs: "length xs = n"
    note h1 = holds_appendD [OF h]
    have "delivers V c (mk m (p + length (get_code i)) (xs ! i # s) xs r) (increment V tok (xs ! i), xs)
        (leaves m n (p + length (get_code i @ inc)) (Suc 0) True s)"
      by (rule delivers_weaken [OF run_inc [OF h1(2) [unfolded inc_def] m]]) (use xs in \<open>auto simp: add.assoc inc_def [symmetric] intro: leaves_value\<close>)
    from delivers_reaches [OF run_get [OF h1(1) m] this] xs i
    show "delivers V c (mk m p s xs r) (seq (Val (xs ! i), xs) (\<lambda>v xs. (increment V tok v, xs)))
        (leaves m n (p + length (get_code i @ inc)) (Suc 0) True s)" by simp
  qed
  from computes_eval [OF computes_assign [OF m i this, of True]] tok show ?thesis by (simp add: inc_def)
qed

lemma computes_postfix:
  assumes m: "clean m" and i: "i < n" "n \<le> 2 ^ 31"
  shows "computes V c m n (get_code i @ op_bytes OP_DUP @ instruction OP_INC (if tok = T_PLUS_PLUS then 1 else -1) @ put_code i)
    (Suc 0) True (eval V (N_POSTFIX_OP tok (N_QNAME i)))"
proof (rule computesI)
  fix p s and xs :: "'a list" and r
  let ?inc = "instruction OP_INC (if tok = T_PLUS_PLUS then 1 else -1)"
  assume h: "holds c p (get_code i @ op_bytes OP_DUP @ ?inc @ put_code i)" and xs: "length xs = n"
  note h1 = holds_appendD [OF h]
  note h2 = holds_appendD [OF h1(2)]
  note h3 = holds_appendD [OF h2(2)]
  let ?q = "p + length (get_code i @ op_bytes OP_DUP @ ?inc @ put_code i)" and ?v = "xs ! i"
  let ?p2 = "p + length (get_code i) + length (op_bytes OP_DUP)"
  have "delivers V c (mk m ?p2 (?v # ?v # s) xs r) (seq (increment V tok ?v, xs) (\<lambda>w xs. (Val ?v, xs[i := w])))
      (leaves m n ?q (Suc 0) True s)"
  proof (rule delivers_seq [OF run_inc [OF h3(1) m]])
    fix w xs' vm assume vm: "xs' = xs \<and> vm = mk m (?p2 + length ?inc) (w # ?v # s) xs r"
    have "reaches V c vm (mk m ?q (?v # s) (xs[i := w]) w)"
      using run_put [OF h3(2) m, of xs V w "?v # s" r] vm xs i by (simp add: add.assoc)
    with vm xs leaves_value [of "xs[i := w]" n m ?q True s ?v w]
    show "delivers V c vm (Val ?v, xs'[i := w]) (leaves m n ?q (Suc 0) True s)" by auto
  qed
  from delivers_reaches [OF reaches_trans [OF run_get [OF h1(1) m] run_dup [OF h2(1) m]] this] xs i
  show "delivers V c (mk m p s xs r) (eval V (N_POSTFIX_OP tok (N_QNAME i)) xs) (leaves m n ?q (Suc 0) True s)"
    by simp
qed

lemma computes_undefined:
  assumes m: "clean m"
  shows "computes V c m n (op_bytes OP_LOAD_UNDEFINED) (Suc 0) True (\<lambda>xs. (Val (v_undefined V), xs))"
proof (rule computesI)
  fix p s and xs :: "'a list" and r
  assume "holds c p (op_bytes OP_LOAD_UNDEFINED)" and xs: "length xs = n"
  then have "reaches V c (mk m p s xs r) (mk m (p + length (op_bytes OP_LOAD_UNDEFINED)) (v_undefined V # s) xs r)"
    using m by (intro run_instruction [where op = OP_LOAD_UNDEFINED and n = 0]) simp_all
  with leaves_value [OF xs] show "delivers V c (mk m p s xs r) (Val (v_undefined V), xs)
      (leaves m n (p + length (op_bytes OP_LOAD_UNDEFINED)) (Suc 0) True s)" by auto
qed

lemma computes_unop:
  assumes m: "clean m" and n: "n \<le> 2 ^ 31"
    and IH: "wf_expr n (if tok \<in> {T_LOGICAL_NOT, T_TILDE, T_TYPEOF} then True else nv) e \<Longrightarrow>
      computes V c m n (ecode opt (if tok \<in> {T_LOGICAL_NOT, T_TILDE, T_TYPEOF} then True else nv) e)
        (pushes (if tok \<in> {T_LOGICAL_NOT, T_TILDE, T_TYPEOF} then True else nv) e)
        (exact (if tok \<in> {T_LOGICAL_NOT, T_TILDE, T_TYPEOF} then True else nv) e) (eval V e)"
    and plus: "\<forall>v. v_to_number V v = Val v" and wf: "wf_expr n nv (N_UNARY_OP tok e)"
  shows "computes V c m n (ecode opt nv (N_UNARY_OP tok e)) (pushes nv (N_UNARY_OP tok e))
    (exact nv (N_UNARY_OP tok e)) (eval V (N_UNARY_OP tok e))"
proof -
  define nv' where "nv' = (if tok \<in> {T_LOGICAL_NOT, T_TILDE, T_TYPEOF} then True else nv)"
  note IH' = IH [folded nv'_def]
  from wf consider
      (unary) u where "wf_expr n nv' e" "exact nv' e"
        "(tok, u) \<in> {(T_LOGICAL_NOT, LOGICAL_NOT), (T_TILDE, BIT_NOT), (T_TYPEOF, TYPE_OF), (T_MINUS, NEG)}"
    | (plus) "tok = T_PLUS" "wf_expr n nv e"
    | (prefix) i where "tok = T_PLUS_PLUS \<or> tok = T_MINUS_MINUS" "e = N_QNAME i" "i < n"
    | (void) "tok = T_VOID" "(\<exists>i. e = N_QNAME i) \<or> (\<exists>lit. e = N_LITERAL lit)"
    by (cases tok) (auto simp: nv'_def split: expr.splits)
  then show ?thesis
  proof cases
    case unary
    have "computes V c m n (ecode opt nv' e) (pushes nv' e) True (eval V e)" using IH' unary(1,2) by simp
    from computes_eval [OF computes_unary [OF m this, of u], of "eval V (N_UNARY_OP tok e)"] unary(3)
    show ?thesis by (auto simp: unary_code_def nv'_def)
  next
    case plus
    have "seq (eval V e xs) (\<lambda>v xs. (Val v, xs)) = eval V e xs" for xs
      by (cases "eval V e xs"; cases "fst (eval V e xs)") auto
    with computes_eval [OF IH', of "eval V (N_UNARY_OP tok e)"] plus assms(4) show ?thesis
      by (simp add: unary_code_def nv'_def)
  next
    case prefix
    with computes_prefix [OF m prefix(3) n prefix(1)] show ?thesis by (auto simp: unary_code_def)
  next
    case void
    with computes_eval [OF computes_undefined [OF m], of "eval V (N_UNARY_OP tok e)"] show ?thesis
      by (auto simp: unary_code_def)
  qed
qed

lemma computes_expr:
  assumes m: "clean m" and len: "length (byteCode c) < 2 ^ 27" and n: "n \<le> 2 ^ 31" and plus: "\<forall>v. v_to_number V v = Val v"
  shows "wf_expr n nv e \<Longrightarrow> computes V c m n (ecode opt nv e) (pushes nv e) (exact nv e) (eval V e)"
proof (induction opt nv e rule: ecode.induct)
  case (1 opt nv lit)
  then have "lit \<noteq> LNumber (push_bit 63 1)" by simp
  from computes_eval [OF computes_literal [OF m this] refl] show ?case by simp
next
  case (2 opt nv s)
  then have "s < n" by simp
  from computes_eval [OF computes_get [OF m this n] refl] show ?case by simp
next
  case (3 opt nv d l r)
  then obtain i where i: "l = N_QNAME i" "i < n" by (auto split: expr.splits)
  from 3(2) have w: "wf_expr n True (mark_dup r)" "exact True (mark_dup r)" by simp_all
  from computes_eval [OF 3(1) [OF w(1)], of "eval V r"] w(2)
  have "computes V c m n (ecode opt True (mark_dup r)) (pushes True (mark_dup r)) True (eval V r)" by simp
  from computes_eval [OF computes_assign [OF m i(2) n this, of "d \<or> nv"]] i show ?case
    by (auto simp: One_nat_def [symmetric] simp del: One_nat_def)
next
  case (4 opt nv tok l r)
  have l: "computes V c m n (ecode opt True l) (pushes True l) True (eval V l)"
    and r: "computes V c m n (ecode opt True r) (Suc 0) True (eval V r)"
    using 4 exact_pushes [of True r] by (auto split: if_splits)
  show ?case
  proof (cases "tok = T_LOGICAL_AND \<or> tok = T_LOGICAL_OR")
    case True
    from computes_eval [OF computes_logical [OF m len True l r, of opt]] True show ?thesis by simp
  next
    case False
    with 4(5) obtain b where "binary_of tok = Some b" by auto
    with computes_eval [OF computes_binary [OF m l r, of b]] False show ?thesis by simp
  qed
next
  case (5 opt nv tok e)
  then show ?case by (rule computes_unop [OF m n _ plus])
next
  case (6 opt nv tok e)
  then obtain i where i: "e = N_QNAME i" "i < n" by (auto split: expr.splits)
  have "computes V c m n (ecode opt nv (N_POSTFIX_OP tok e)) (Suc 0) True (eval V (N_POSTFIX_OP tok e))"
    using computes_postfix [OF m i(2) n, of V c tok] unfolding i(1) ecode.simps target_slot.simps .
  then show ?case by (simp only: pushes.simps exact.simps One_nat_def)
next
  case (7 opt nv c1 a b)
  have c1: "computes V c m n (ecode opt True c1) (pushes True c1) True (eval V c1)"
    using 7(1) 7(4) by simp
  have "computes V c m n (ecode opt nv (N_TENARY c1 a b)) (if nv then 1 else 0) nv
      (\<lambda>xs. seq (eval V c1 xs) (\<lambda>v xs. seq (v_truth V v, xs) (\<lambda>t xs. if t then eval V a xs else eval V b xs)))"
    unfolding ecode.simps
  proof (rule computes_tenary [OF m len c1])
    show "computes V c m n (ecode opt nv a) (pushes nv a) (exact nv a) (eval V a)"
      and "computes V c m n (ecode opt nv b) (pushes nv b) (exact nv b) (eval V b)"
      using 7(2-4) by simp_all
    show "if nv then pushes nv a = 1 \<and> pushes nv b = 1 \<and> exact nv a \<and> exact nv b else pushes nv a < 256 \<and> pushes nv b < 256"
      using 7(4) exact_pushes [of nv a] exact_pushes [of nv b] by (auto split: if_splits)
  qed
  moreover have "eval V (N_TENARY c1 a b) xs = seq (eval V c1 xs) (\<lambda>v xs. seq (v_truth V v, xs) (\<lambda>t xs.
      if t then eval V a xs else eval V b xs))" for xs
  proof -
    have "(\<lambda>t xs. eval V (if t then a else b) xs) = (\<lambda>t xs. if t then eval V a xs else eval V b xs)"
      by (intro ext) simp
    then show ?thesis by (simp only: eval.simps)
  qed
  ultimately have "computes V c m n (ecode opt nv (N_TENARY c1 a b)) (if nv then 1 else 0) nv (eval V (N_TENARY c1 a b))"
    by (rule computes_eval)
  then show ?case by (simp only: pushes.simps exact.simps)
next
  case (8 opt nv es)
  have "computes V c m n (concat (map (ecode opt nv) es)) (sum_list (map (pushes nv) es))
      (case es of [e] \<Rightarrow> exact nv e | _ \<Rightarrow> False) (eval V (N_EXPRESSIONS es))"
    by (rule computes_values) (use 8 in simp)
  moreover have "exact nv (N_EXPRESSIONS es) = (case es of [e] \<Rightarrow> exact nv e | _ \<Rightarrow> False)"
    by (cases "(nv, N_EXPRESSIONS es)" rule: exact.cases) auto
  ultimately show ?case by simp
qed simp

section \<open>Facts on the semantics\<close>

lemma seq_length:
  assumes "length (snd r) = n" and "\<And>v xs. length xs = n \<Longrightarrow> length (snd (f v xs)) = n"
  shows "length (snd (seq r f)) = n"
  using assms by (cases r; cases "fst r") auto

lemma assign_length [simp]: "length (assign e v xs) = length xs"
  by (cases e) auto

lemma eval_length: "length xs = n \<Longrightarrow> length (snd (eval V e xs)) = n"
proof (induction V e xs rule: eval.induct)
  case (3 V d l r xs)
  then show ?case by (auto intro!: seq_length)
next
  case (4 V tok l r xs)
  show ?case unfolding eval.simps
  proof (rule seq_length)
    show "length (snd (eval V l xs)) = n" using 4 by simp
    fix v and xs1 :: "'a list" assume "length xs1 = n"
    then show "length (snd (if tok = T_LOGICAL_AND \<or> tok = T_LOGICAL_OR
          then seq (v_truth V v, xs1) (\<lambda>b xs. if b = (tok = T_LOGICAL_OR) then (Val v, xs) else eval V r xs)
          else seq (eval V r xs1) (\<lambda>w xs. (case binary_of tok of Some b \<Rightarrow> v_binary V b v w | None \<Rightarrow> Val w, xs)))) = n"
      using 4(2,3) by (auto intro!: seq_length)
  qed
next
  case (5 V tok e xs)
  show ?case unfolding eval.simps using 5 by (auto intro!: seq_length)
next
  case (6 V tok e xs)
  then show ?case by (auto intro!: seq_length)
next
  case (7 V c a b xs)
  show ?case unfolding eval.simps by (intro seq_length) (use 7 in auto)
next
  case (10 V e e' es xs)
  then show ?case by (auto intro!: seq_length)
qed simp_all

lemma eval_all_length: "length xs = n \<Longrightarrow> length (snd (eval_all V es xs)) = n"
  by (induction V es xs rule: eval_all.induct) (auto intro!: seq_length simp: eval_length)

lemma eval_all_eval:
  "eval_all V es xs = (case eval V (N_EXPRESSIONS es) xs of (Val v, ys) \<Rightarrow> (Val (), ys) | (Exn x, ys) \<Rightarrow> (Exn x, ys))"
proof (induction es arbitrary: xs rule: induct_list012)
  case (2 e)
  then show ?case by (cases "eval V e xs"; cases "fst (eval V e xs)") auto
next
  case (3 e e' es)
  show ?case
  proof (cases "fst (eval V e xs)")
    case (Val v)
    then show ?thesis using 3(2) by (cases "eval V e xs") simp
  next
    case (Exn x)
    then show ?thesis by (cases "eval V e xs") simp
  qed
qed simp

lemma test_length: "length xs = n \<Longrightarrow> length (snd (test V c xs)) = n"
  by (auto simp: test_def eval_length intro!: seq_length split: option.split)

lemma matching_length: "length xs = n \<Longrightarrow> length (snd (matching V v cs xs)) = n"
  by (induction V v cs xs rule: matching.induct) (auto intro!: seq_length simp: eval_length)

lemma selected_length: "length xs = n \<Longrightarrow> length (snd (selected V v cs xs)) = n"
  unfolding selected_def by (intro seq_length matching_length) auto

lemma snd_length: "length (snd r) = n \<Longrightarrow> r = (a, xs) \<Longrightarrow> length xs = n"
  by simp

lemmas result_length = snd_length [OF eval_length] snd_length [OF eval_all_length] snd_length [OF test_length]
  snd_length [OF selected_length]

lemma exec_lengths:
  shows "exec V F s xs out xs' \<Longrightarrow> length xs' = length xs"
    and "execs V F ss xs out xs' \<Longrightarrow> length xs' = length xs"
    and "loop V F c p b xs out xs' \<Longrightarrow> length xs' = length xs"
    and "repeat V F s' c' xs out xs' \<Longrightarrow> length xs' = length xs"
proof (induction rule: exec_execs_loop_repeat.inducts)
qed (auto dest!: result_length [OF refl])

text \<open>The statements that a switch runs are statements of its cases.\<close>

lemma seq_cases:
  assumes "seq r f = (a, ys)"
  obtains v xs where "r = (Val v, xs)" "f v xs = (a, ys)" | x where "r = (Exn x, ys)" "a = Exn x"
  using assms by (cases r; cases "fst r") auto

lemma matching_subset:
  "matching V v cs xs = (Val (Some ss), xs') \<Longrightarrow> set ss \<subseteq> (\<Union>c \<in> set cs. set (snd c))"
proof (induction cs arbitrary: xs)
  case (Cons c cs)
  obtain t body where c: "c = (t, body)" by (cases c)
  have IH: "set ss \<subseteq> (\<Union>c \<in> set cs. set (snd c))" if "matching V v cs ys = (Val (Some ss), xs')" for ys
    using Cons.IH [OF that] .
  show ?case
  proof (cases t)
    case None
    with Cons.prems c IH show ?thesis by auto
  next
    case (Some e)
    have "seq (eval V e xs) (\<lambda>w xs. seq (v_binary V COMPARE_STRICTLY_EQ v w, xs) (\<lambda>r xs.
        seq (v_truth V r, xs) (\<lambda>t xs. if t then (Val (Some (concat (map snd (c # cs)))), xs)
          else matching V v cs xs))) = (Val (Some ss), xs')"
      using Cons.prems unfolding c Some matching.simps .
    then obtain t ys where "(if t then (Val (Some (concat (map snd (c # cs)))), ys) else matching V v cs ys) = (Val (Some ss), xs')"
      by (elim seq_cases) simp_all
    with IH [of ys] show ?thesis by (cases t) auto
  qed
qed simp

lemma from_default_subset: "set (from_default cs) \<subseteq> (\<Union>c \<in> set cs. set (snd c))"
  by (induction cs rule: from_default.induct) auto

lemma selected_subset:
  assumes "selected V v cs xs = (Val ss, xs')"
  shows "set ss \<subseteq> (\<Union>c \<in> set cs. set (snd c))"
proof -
  from assms obtain m ys where m: "matching V v cs xs = (Val m, ys)"
    "ss = (case m of Some ss \<Rightarrow> ss | None \<Rightarrow> from_default cs)"
    unfolding selected_def by (elim seq_cases) auto
  show ?thesis
  proof (cases m)
    case None
    with m(2) from_default_subset show ?thesis by simp
  next
    case (Some x)
    with m matching_subset [of V v cs xs x ys] show ?thesis by simp
  qed
qed

text \<open>A break or continue leaves a statement only if that is allowed.\<close>

lemma exec_wfs:
  shows "exec V F s xs out xs' \<Longrightarrow> wf_stmt n F brk cont s \<Longrightarrow> (out = Broke \<longrightarrow> brk) \<and> (out = Continued \<longrightarrow> cont)"
    and "execs V F ss xs out xs' \<Longrightarrow> \<forall>s \<in> set ss. wf_stmt n F brk cont s \<Longrightarrow> (out = Broke \<longrightarrow> brk) \<and> (out = Continued \<longrightarrow> cont)"
    and "loop V F c p b xs out xs' \<Longrightarrow> (case b of None \<Rightarrow> True | Some s \<Rightarrow> wf_stmt n F True True s) \<Longrightarrow> out \<noteq> Continued"
    and "repeat V F s' c' xs out xs' \<Longrightarrow> wf_stmt n F True False s' \<Longrightarrow> out \<noteq> Continued"
proof (induction arbitrary: brk cont and brk cont rule: exec_execs_loop_repeat.inducts)
  case (exec_for i xs xs1 c p b out xs')
  then show ?case by (cases out) auto
next
  case (exec_for_abrupt i xs out xs' c p b)
  then show ?case by auto
next
  case (exec_while c p b xs out xs')
  then show ?case by (cases out) auto
next
  case (exec_do b c xs out xs')
  then show ?case by (cases out) auto
next
  case (exec_switch e xs v xs1 cs ss xs2 out xs')
  have "\<forall>s \<in> set ss. wf_stmt n F True False s"
    using selected_subset [OF exec_switch(2)] exec_switch(5) by fastforce
  with exec_switch(4) [of True False] show ?case by (cases out) auto
qed auto

section \<open>The layout of statements\<close>

text \<open>Nothing but jumps between two addresses, and a list of statements between two addresses.\<close>

definition glides :: "'v values \<Rightarrow> vmcode \<Rightarrow> 'v vm \<Rightarrow> nat \<Rightarrow> nat \<Rightarrow> bool" where
  "glides V c m p q \<longleftrightarrow> (\<forall>s xs r. reaches V c (mk m p s xs r) (mk m q s xs r))"

definition fin :: "(jump_kind \<Rightarrow> nat) \<Rightarrow> nat \<Rightarrow> piece list \<Rightarrow> u8 list" where
  "fin T = final (\<lambda>k. int (T k))"

definition clean_code :: "bool \<Rightarrow> function_info \<Rightarrow> stmt \<Rightarrow> piece list" where
  "clean_code opt F s = cleaned (scode opt F s) (spushes s)"

fun lay :: "'v values \<Rightarrow> vmcode \<Rightarrow> 'v vm \<Rightarrow> bool \<Rightarrow> function_info \<Rightarrow> (jump_kind \<Rightarrow> nat) \<Rightarrow> stmt list
    \<Rightarrow> nat \<Rightarrow> nat \<Rightarrow> bool" where
  "lay V c m opt F T [] p q \<longleftrightarrow> glides V c m p q"
| "lay V c m opt F T (s # ss) p q \<longleftrightarrow>
     (\<exists>p1. glides V c m p p1 \<and> holds c p1 (fin T p1 (clean_code opt F s))
        \<and> lay V c m opt F T ss (p1 + plen (clean_code opt F s)) q)"

lemma glides_refl [simp]: "glides V c m p p"
  by (simp add: glides_def)

lemma glides_trans: "glides V c m p q \<Longrightarrow> glides V c m q q' \<Longrightarrow> glides V c m p q'"
  unfolding glides_def using reaches_trans by blast

lemma glides_reaches: "glides V c m p q \<Longrightarrow> reaches V c (mk m p s xs r) (mk m q s xs r)"
  by (simp add: glides_def)

lemma fin_append: "fin T p (a @ b) = fin T p a @ fin T (p + plen a) b"
  by (simp add: fin_def)

lemma fin_bytes [simp]: "fin T p [] = []" "fin T p (Bytes bs # ps) = bs @ fin T (p + length bs) ps"
  by (simp_all add: fin_def)

lemma length_fin [simp]: "length (fin T p ps) = plen ps"
  by (simp add: fin_def)

lemma fin_close: "fin T q (close k t 0 ps) = fin (T(k := q + t)) q ps"
proof -
  have "(\<lambda>j. int (T j))(k := int (q + t)) = (\<lambda>j. int ((T(k := q + t)) j))" by auto
  then show ?thesis using final_close [of "\<lambda>j. int (T j)" q 0 k t ps] by (simp add: fin_def)
qed

lemma holds_fin_append:
  assumes "holds c p (fin T p (a @ b))"
  shows "holds c p (fin T p a)" "holds c (p + plen a) (fin T (p + plen a) b)"
  using holds_append [of c p "fin T p a" "fin T (p + plen a) b"] assms by (simp_all add: fin_append)

lemma lay_glide: "glides V c m p p' \<Longrightarrow> lay V c m opt F T ss p' q \<Longrightarrow> lay V c m opt F T ss p q"
  using glides_trans by (cases ss) fastforce+

lemma lay_append: "lay V c m opt F T ss p q \<Longrightarrow> lay V c m opt F T ss' q q' \<Longrightarrow> lay V c m opt F T (ss @ ss') p q'"
proof (induction ss arbitrary: p)
  case Nil
  then show ?case using lay_glide by simp
next
  case (Cons s ss)
  then show ?case by auto
qed

lemma lay_glide_end: "lay V c m opt F T ss p q \<Longrightarrow> glides V c m q q' \<Longrightarrow> lay V c m opt F T ss p q'"
  using lay_append [of V c m opt F T ss p q "[]" q'] by simp

lemma lay_concat:
  "holds c p (fin T p (concat (map (clean_code opt F) ss))) \<Longrightarrow>
     lay V c m opt F T ss p (p + plen (concat (map (clean_code opt F) ss)))"
proof (induction ss arbitrary: p)
  case (Cons s ss)
  then have "holds c p (fin T p (clean_code opt F s @ concat (map (clean_code opt F) ss)))" by simp
  note h = holds_fin_append [OF this]
  from Cons.IH [OF h(2)] h(1) show ?case by (auto simp: add.assoc intro!: exI [of _ p])
qed simp

lemma clean_code_nothing:
  assumes "spushes s = 0"
  shows "fin T p (clean_code opt F s) = fin T p (scode opt F s)" "plen (clean_code opt F s) = plen (scode opt F s)"
  using assms by (simp_all add: clean_code_def cleaned_def drop_code_def fin_append)

lemma lay_block:
  "\<forall>s \<in> set ss. spushes s = 0 \<Longrightarrow> holds c p (fin T p (concat (map (scode opt F) ss))) \<Longrightarrow>
     lay V c m opt F T ss p (p + plen (concat (map (scode opt F) ss)))"
proof (induction ss arbitrary: p)
  case (Cons s ss)
  then have "holds c p (fin T p (scode opt F s @ concat (map (scode opt F) ss)))" by simp
  note h = holds_fin_append [OF this]
  have "spushes s = 0" using Cons.prems(1) by simp
  note z = clean_code_nothing [OF this]
  from Cons.IH [OF _ h(2)] Cons.prems(1) h(1) show ?case by (auto simp: add.assoc z intro!: exI [of _ p])
qed simp

section \<open>How statements end\<close>

definition ends ::
  "'v values \<Rightarrow> vmcode \<Rightarrow> 'v vm \<Rightarrow> (jump_kind \<Rightarrow> nat) \<Rightarrow> nat \<Rightarrow> nat \<Rightarrow> 'v list \<Rightarrow> 'v vm \<Rightarrow> 'v completion \<Rightarrow> 'v list \<Rightarrow> bool"
where
  "ends V c m T q k s vm out xs \<longleftrightarrow>
     (case out of
        Normal \<Rightarrow> \<exists>vs r. length vs = k \<and> reaches V c vm (mk m q (vs @ s) xs r)
      | Broke \<Rightarrow> \<exists>r. reaches V c vm (mk m (T EC_JUMP_BREAK) s xs r)
      | Continued \<Rightarrow> \<exists>r. reaches V c vm (mk m (T EC_JUMP_CONTINUE) s xs r)
      | Returned v \<Rightarrow> \<exists>vm'. reaches V c vm vm' \<and> step V c vm' = Finished v xs
      | Threw x \<Rightarrow> throws V c vm x xs)"

lemma ends_normalI: "length vs = k \<Longrightarrow> reaches V c vm (mk m q (vs @ s) xs r) \<Longrightarrow> ends V c m T q k s vm Normal xs"
  by (auto simp: ends_def)

lemma ends_normal0: "reaches V c vm (mk m q s xs r) \<Longrightarrow> ends V c m T q 0 s vm Normal xs"
  by (rule ends_normalI [of "[]"]) simp_all

lemma ends_reaches: "reaches V c vm vm' \<Longrightarrow> ends V c m T q k s vm' out xs \<Longrightarrow> ends V c m T q k s vm out xs"
  by (cases out) (auto simp: ends_def intro: reaches_trans throws_trans)

text \<open>The end of a part that is the end of the whole unless it is normal.\<close>

lemma ends_other: "ends V c m T q k s vm out xs \<Longrightarrow> out \<noteq> Normal \<Longrightarrow> ends V c m T q' k' s vm out xs"
  by (cases out) (auto simp: ends_def)

lemma ends_normal: "ends V c m T q 0 s vm Normal xs \<Longrightarrow> \<exists>r. reaches V c vm (mk m q s xs r)"
  by (auto simp: ends_def)

lemma ends_glide:
  assumes "ends V c m T q k s vm out xs" "glides V c m q q'"
  shows "ends V c m T q' k s vm out xs"
proof (cases "out = Normal")
  case True
  with assms(1) obtain vs r where "length vs = k" "reaches V c vm (mk m q (vs @ s) xs r)"
    by (auto simp: ends_def)
  with ends_normalI [OF _ reaches_trans [OF _ glides_reaches [OF assms(2)]]] True show ?thesis by blast
next
  case False
  from ends_other [OF assms(1) False] show ?thesis .
qed

lemma ends_clean:
  assumes e: "ends V c m T (p + plen (scode opt F s)) (spushes s) st vm out xs"
    and h: "holds c p (fin T p (clean_code opt F s))" and m: "clean m" and k: "spushes s < 256"
  shows "ends V c m T (p + plen (clean_code opt F s)) 0 st vm out xs"
proof (cases "out = Normal")
  case True
  from e True obtain vs r where 1: "length vs = spushes s" "reaches V c vm (mk m (p + plen (scode opt F s)) (vs @ st) xs r)"
    by (auto simp: ends_def)
  have d: "holds c (p + plen (scode opt F s)) (drop_code (spushes s))"
    using holds_fin_append(2) [of c p T "scode opt F s" "[Bytes (drop_code (spushes s))]"] h
    by (simp add: clean_code_def cleaned_def)
  from run_drop [OF d m 1(1) k, of V st xs r] obtain r' where
    "reaches V c (mk m (p + plen (scode opt F s)) (vs @ st) xs r) (mk m (p + plen (clean_code opt F s)) st xs r')"
    by (auto simp: clean_code_def cleaned_def add.assoc)
  from reaches_trans [OF 1(2) this] True show ?thesis by (auto simp: ends_def)
next
  case False
  from ends_other [OF e False] show ?thesis .
qed

lemma spushes_small: "wf_stmt n F brk cont s \<Longrightarrow> spushes s < 256"
  by (cases s) auto

text \<open>Delivery of an intermediate result of which the rest makes use.\<close>

lemma ends_val: "delivers V c vm (Val v, xs) Q \<Longrightarrow> (\<And>vm'. Q v xs vm' \<Longrightarrow> ends V c m T q k s vm' out ys) \<Longrightarrow> ends V c m T q k s vm out ys"
  by (auto intro: ends_reaches)

lemma ends_exn: "delivers V c vm (Exn x, xs) Q \<Longrightarrow> ends V c m T q k s vm (Threw x) xs"
  by (simp add: ends_def)

text \<open>Tests with a conditional jump behind them.\<close>

lemma run_test:
  assumes m: "clean m" and len: "length (byteCode c) < 2 ^ 27" and n: "n \<le> 2 ^ 31" and plus: "\<forall>v. v_to_number V v = Val v"
    and e: "wf_expr n True e" "exact True e" and h: "holds c p (ecode opt True e)" and xs: "length xs = n"
    and b: "\<And>v s xs r. delivers V c (mk m (p + length (ecode opt True e)) (v # s) xs r) (v_truth V v, xs)
              (\<lambda>t xs' vm'. xs' = xs \<and> vm' = mk m (if t then pa else pb) s xs r)"
  shows "delivers V c (mk m p s xs r) (test V (Some e) xs)
    (\<lambda>t xs' vm'. length xs' = n \<and> (\<exists>r'. vm' = mk m (if t then pa else pb) s xs' r'))"
proof -
  have "computes V c m n (ecode opt True e) (pushes True e) True (eval V e)"
    using computes_expr [OF m len n plus e(1), of opt] e(2) by simp
  then show ?thesis unfolding test_def option.case
    by (rule computes_then [OF _ h xs]) (auto intro!: delivers_weaken [OF b])
qed

section \<open>The layout of loops\<close>

text \<open>
  A loop between \<open>q0\<close> and \<open>qe\<close>: its test at \<open>q0\<close>, its body at \<open>qb\<close>, its step at \<open>qc\<close>.
\<close>

definition tests :: "'v values \<Rightarrow> vmcode \<Rightarrow> 'v vm \<Rightarrow> nat \<Rightarrow> u8 list \<Rightarrow> nat \<Rightarrow> nat \<Rightarrow> nat \<Rightarrow> bool" where
  "tests V c m n bs p pa pb \<longleftrightarrow>
     holds c p bs \<and> (\<forall>v s xs r. delivers V c (mk m (p + length bs) (v # s) xs r) (v_truth V v, xs)
       (\<lambda>t xs' vm'. xs' = xs \<and> vm' = mk m (if t then pa else pb) s xs r))"

definition loop_at ::
  "'v values \<Rightarrow> vmcode \<Rightarrow> 'v vm \<Rightarrow> bool \<Rightarrow> function_info \<Rightarrow> (jump_kind \<Rightarrow> nat) \<Rightarrow> nat
     \<Rightarrow> expr option \<Rightarrow> expr option \<Rightarrow> stmt option \<Rightarrow> nat \<Rightarrow> nat \<Rightarrow> bool" where
  "loop_at V c m opt F T n cnd incr b q0 qe \<longleftrightarrow>
     (\<exists>qb qc.
        (case cnd of None \<Rightarrow> glides V c m q0 qb | Some e \<Rightarrow> tests V c m n (ecode opt True e) q0 qb qe)
      \<and> lay V c m opt F (T(EC_JUMP_BREAK := qe, EC_JUMP_CONTINUE := qc))
          (case b of None \<Rightarrow> [] | Some s \<Rightarrow> [s]) qb qc
      \<and> (case incr of None \<Rightarrow> glides V c m qc q0
         | Some e \<Rightarrow> holds c qc (ecode opt False e @ drop_code (pushes False e))
             \<and> glides V c m (qc + length (ecode opt False e @ drop_code (pushes False e))) q0)
      \<and> qc \<le> length (byteCode c) \<and> qe \<le> length (byteCode c))"

definition repeat_at ::
  "'v values \<Rightarrow> vmcode \<Rightarrow> 'v vm \<Rightarrow> bool \<Rightarrow> function_info \<Rightarrow> (jump_kind \<Rightarrow> nat) \<Rightarrow> nat
     \<Rightarrow> stmt \<Rightarrow> expr \<Rightarrow> nat \<Rightarrow> nat \<Rightarrow> bool" where
  "repeat_at V c m opt F T n b e q0 qe \<longleftrightarrow>
     (\<exists>T' qc. T' EC_JUMP_BREAK = qe \<and> (\<forall>k. T' k \<le> length (byteCode c))
        \<and> lay V c m opt F T' [b] q0 qc \<and> tests V c m n (ecode opt True e) qc q0 qe)"

lemma run_test':
  assumes m: "clean m" and len: "length (byteCode c) < 2 ^ 27" and n: "n \<le> 2 ^ 31" and plus: "\<forall>v. v_to_number V v = Val v"
    and e: "wf_expr n True e" "exact True e" and t: "tests V c m n (ecode opt True e) p pa pb" and xs: "length xs = n"
  shows "delivers V c (mk m p s xs r) (test V (Some e) xs)
    (\<lambda>t xs' vm'. length xs' = n \<and> (\<exists>r'. vm' = mk m (if t then pa else pb) s xs' r'))"
  by (rule run_test [where opt = opt, OF m len n plus e _ xs]) (use t in \<open>simp_all add: tests_def\<close>)

lemma tests_at:
  assumes h: "holds c p (bs @ jump_bytes sh op8 op d)" and m: "clean m" and f: "short_fits sh d"
    and op: "(on, op8, op) \<in> {(True, OP_BRANCH_TRUE_8, OP_BRANCH_TRUE), (False, OP_BRANCH_FALSE_8, OP_BRANCH_FALSE)}"
    and q: "int q = int p + int (length bs) + int (jump_size sh) + d"
  shows "tests V c m n bs p (if on then q else p + length bs + jump_size sh) (if on then p + length bs + jump_size sh else q)"
proof -
  note h' = holds_appendD [OF h]
  have "int q = int (p + length bs) + int (jump_size sh) + d" using q by simp
  note b = jump_branch [OF h'(2) m f op this]
  show ?thesis unfolding tests_def
    by (intro conjI allI h'(1) delivers_weaken [OF b]) auto
qed

lemma ecode_nonempty: "wf_expr n nv e \<Longrightarrow> exact nv e \<Longrightarrow> ecode opt nv e \<noteq> []"
proof (induction opt nv e rule: ecode.induct)
  case (1 opt nv lit)
  then show ?case by (cases lit) (auto simp: instruction_def split: option.split)
next
  case (5 opt nv tok e)
  then show ?case by (cases tok) (auto split: expr.splits simp: unary_code_def instruction_def)
next
  case (8 opt nv es)
  then show ?case by (cases "(nv, N_EXPRESSIONS es)" rule: exact.cases) auto
qed (auto simp: instruction_def get_code_def put_code_def slot_code_def logical_code_def if_code_def Let_def jump_bytes_def)

lemma twist: "T(EC_JUMP_CONTINUE := a, EC_JUMP_BREAK := b) = T(EC_JUMP_BREAK := b, EC_JUMP_CONTINUE := a)"
  by (rule fun_upd_twist) simp

lemma for_layout:
  fixes I :: "piece list" and opt :: bool and F :: function_info
  defines "B \<equiv> \<lambda>b. case b of None \<Rightarrow> [] | Some s \<Rightarrow> clean_code opt F s"
    and "P \<equiv> \<lambda>incr. case incr of None \<Rightarrow> [] | Some e \<Rightarrow> cleaned [Bytes (ecode opt False e)] (pushes False e)"
  assumes h: "holds c p (fin T p (for_code opt I (map_option (ecode opt True) cnd) (B b) (P incr)))"
    and m: "clean m" and len: "length (byteCode c) < 2 ^ 26" and T: "\<And>k. T k \<le> length (byteCode c)"
    and wf: "\<And>e. cnd = Some e \<Longrightarrow> wf_expr n True e" and ex: "\<And>e. cnd = Some e \<Longrightarrow> exact True e"
  obtains T1 where "\<And>k. T1 k \<le> length (byteCode c)" "holds c p (fin T1 p I)"
    and "loop_at V c m opt F T n cnd incr b (p + plen I) (p + plen (for_code opt I (map_option (ecode opt True) cnd) (B b) (P incr)))"
proof -
  define C where "C = map_option (ecode opt True) cnd"
  define cl where "cl = (case C of None \<Rightarrow> 0 | Some bs \<Rightarrow> length bs)"
  define cs where "cs = small opt 122 (plen (B b) + plen (P incr))"
  define cl' where "cl' = (if 0 < cl then cl + jump_size cs else cl)"
  define ls where "ls = small opt 122 (cl' + plen (B b) + plen (P incr))"
  define sl where "sl = plen (P incr) + jump_size ls"
  define J where "J = jump_bytes cs OP_BRANCH_FALSE_8 OP_BRANCH_FALSE (int (plen (B b) + sl))"
  define test where "test = (case C of None \<Rightarrow> [] | Some bs \<Rightarrow> [Bytes (bs @ J)])"
  define d where "d = - int (cl' + plen (B b) + sl)"
  define G where "G = jump_bytes ls OP_GOTO_8 OP_GOTO d"
  define top where "top = I @ test @ B b"
  define whole where "whole = top @ P incr @ [Bytes G]"
  let ?code = "for_code opt I (map_option (ecode opt True) cnd) (B b) (P incr)"
  have code: "?code = close EC_JUMP_CONTINUE (plen top) 0 (close EC_JUMP_BREAK (plen whole) 0 whole)"
    unfolding for_code_def Let_def whole_def top_def test_def G_def d_def J_def sl_def ls_def cl'_def cs_def
      cl_def C_def by (rule refl)
  define qc where "qc = p + plen top"
  define qe where "qe = p + plen whole"
  define T1 where "T1 = T(EC_JUMP_BREAK := qe, EC_JUMP_CONTINUE := qc)"
  have w: "holds c p (fin T1 p whole)"
    using h unfolding code fin_close by (simp add: twist T1_def qc_def qe_def)
  have wl: "qe \<le> length (byteCode c)" using holds_length [OF w] by (simp add: qe_def)
  have ql: "qc \<le> qe" by (simp add: qc_def qe_def whole_def)
  note h1 = holds_fin_append [OF w [unfolded whole_def top_def append.assoc]]
  note h2 = holds_fin_append [OF h1(2)]
  note h3 = holds_fin_append [OF h2(2)]
  note h4 = holds_fin_append [OF h3(2)]
  have sizes: "plen (B b) + plen (P incr) + cl < 2 ^ 26"
    using wl len by (cases C) (simp_all add: qe_def whole_def top_def test_def cl_def)
  have js: "jump_size x \<le> 5" for x by (simp add: jump_size_def)
  have fJ: "short_fits cs (int (plen (B b) + sl))"
    using sizes js [of ls] by (auto simp: short_fits_def sl_def cs_def small_def)
  have fG: "short_fits ls d"
    using sizes js [of cs] js [of ls] by (auto simp: short_fits_def sl_def d_def ls_def small_def cl'_def jump_size_def)
  have lJ: "length J = jump_size cs"
    unfolding J_def by (rule jump_length) (use fJ in \<open>simp_all add: short_fits_def\<close>)
  have lG: "length G = jump_size ls"
    unfolding G_def by (rule jump_length) (use fG in \<open>simp_all add: short_fits_def\<close>)
  have lt: "plen test = cl'"
  proof (cases cnd)
    case (Some e)
    with ecode_nonempty [OF wf ex] show ?thesis by (simp add: test_def C_def cl'_def cl_def lJ)
  qed (simp add: test_def C_def cl'_def cl_def)
  define q0 where "q0 = p + plen I"
  define qb where "qb = q0 + cl'"
  have a: "qc = qb + plen (B b)" "qe = qc + sl"
    by (simp_all add: qc_def qe_def q0_def qb_def whole_def top_def lt sl_def lG add.assoc)
  have glide: "glides V c m (qc + plen (P incr)) q0"
    unfolding glides_def
  proof (intro allI jump_goto [OF _ m fG])
    show "holds c (qc + plen (P incr)) (jump_bytes ls OP_GOTO_8 OP_GOTO d)"
      using h4(2) by (simp add: a lt qb_def q0_def add.assoc G_def [symmetric])
    show "int q0 = int (qc + plen (P incr)) + int (jump_size ls) + d"
      by (simp add: d_def a qb_def sl_def)
  qed
  have "case cnd of None \<Rightarrow> glides V c m q0 qb | Some e \<Rightarrow> tests V c m n (ecode opt True e) q0 qb qe"
  proof (cases cnd)
    case None
    then show ?thesis by (simp add: qb_def cl'_def cl_def C_def)
  next
    case (Some e)
    then have "holds c q0 (ecode opt True e @ J)" using h2(1) by (simp add: test_def C_def q0_def)
    from tests_at [OF this [unfolded J_def] m fJ, of False qe V n] Some ecode_nonempty [OF wf [OF Some] ex [OF Some], of opt]
    show ?thesis by (simp add: a qb_def cl'_def cl_def C_def add.assoc)
  qed
  moreover have "lay V c m opt F T1 (case b of None \<Rightarrow> [] | Some s \<Rightarrow> [s]) qb qc"
  proof (cases b)
    case None
    then show ?thesis by (simp add: a B_def)
  next
    case (Some s)
    then show ?thesis using h3(1) by (auto simp: a B_def lt qb_def q0_def add.assoc intro!: exI [of _ qb])
  qed
  moreover have "case incr of None \<Rightarrow> glides V c m qc q0
     | Some e \<Rightarrow> holds c qc (ecode opt False e @ drop_code (pushes False e))
         \<and> glides V c m (qc + length (ecode opt False e @ drop_code (pushes False e))) q0"
  proof (cases incr)
    case None
    with glide show ?thesis by (simp add: P_def)
  next
    case (Some e)
    with glide h4(1) show ?thesis by (simp add: P_def cleaned_def a lt qb_def q0_def add.assoc)
  qed
  ultimately have "loop_at V c m opt F T n cnd incr b q0 qe"
    using wl ql unfolding loop_at_def T1_def by - (rule exI [of _ qb], rule exI [of _ qc], auto)
  moreover have "T1 k \<le> length (byteCode c)" for k using T [of k] wl ql by (simp add: T1_def)
  moreover have "qe = p + plen ?code" by (simp add: code qe_def)
  ultimately show thesis using that [of T1] h1(1) by (simp add: q0_def)
qed

lemma do_layout:
  assumes h: "holds c p (fin T p (do_code opt (clean_code opt F b) (ecode opt True e)))" (is "holds c p (fin T p ?code)")
    and m: "clean m" and len: "length (byteCode c) < 2 ^ 26" and T: "\<And>k. T k \<le> length (byteCode c)"
    and wf: "wf_expr n True e" "exact True e"
  shows "repeat_at V c m opt F T n b e p (p + plen ?code)"
proof -
  define B where "B = clean_code opt F b"
  define C where "C = ecode opt True e"
  define sh where "sh = small opt 0x7f (plen B + length C)"
  define d where "d = - int (plen B + length C + jump_size sh)"
  define J where "J = jump_bytes sh OP_BRANCH_TRUE_8 OP_BRANCH_TRUE d"
  define whole where "whole = B @ [Bytes (C @ J)]"
  have "0 < length C" using ecode_nonempty [OF wf] by (simp add: C_def)
  then have code: "?code = close EC_JUMP_CONTINUE 0 0 (close EC_JUMP_BREAK (plen whole) 0 whole)"
    by (auto simp: do_code_def Let_def whole_def J_def d_def sh_def B_def C_def simp del: close_append)
  define qe where "qe = p + plen whole"
  define T1 where "T1 = T(EC_JUMP_BREAK := qe, EC_JUMP_CONTINUE := p)"
  have w: "holds c p (fin T1 p whole)"
    using h unfolding code fin_close by (simp add: twist T1_def qe_def)
  have wl: "qe \<le> length (byteCode c)" using holds_length [OF w] by (simp add: qe_def)
  note h1 = holds_fin_append [OF w [unfolded whole_def]]
  have "plen B + length C < 2 ^ 26" using wl len by (simp add: qe_def whole_def)
  then have fJ: "short_fits sh d" by (auto simp: short_fits_def d_def sh_def small_def jump_size_def)
  have lJ: "length J = jump_size sh"
    unfolding J_def by (rule jump_length) (use fJ in \<open>simp_all add: short_fits_def\<close>)
  define qc where "qc = p + plen B"
  have hC: "holds c qc (C @ jump_bytes sh OP_BRANCH_TRUE_8 OP_BRANCH_TRUE d)"
    using h1(2) by (simp add: qc_def J_def)
  have "tests V c m n C qc p qe"
    using tests_at [OF hC m fJ, of True p V n] lJ
    by (simp add: qc_def qe_def whole_def d_def add.assoc)
  moreover have "lay V c m opt F T1 [b] p qc"
    using h1(1) by (auto simp: B_def qc_def intro!: exI [of _ p])
  moreover have "T1 EC_JUMP_BREAK = qe" "\<forall>k. T1 k \<le> length (byteCode c)"
    using T wl by (simp_all add: T1_def qe_def)
  moreover have "p + plen ?code = qe" by (simp add: code qe_def)
  ultimately show ?thesis unfolding repeat_at_def C_def by metis
qed

section \<open>The layout of a switch\<close>

definition case_code :: "bool \<Rightarrow> function_info \<Rightarrow> expr option \<times> stmt list \<Rightarrow> u8 list option \<times> piece list" where
  "case_code opt F c = (case_tests opt (fst c), concat (map (clean_code opt F) (snd c)))"

text \<open>
  The cases of a switch that ends at \<open>q\<close>: the test of the first at \<open>p\<close>, its statements at \<open>pb\<close>.
\<close>

fun cases_at ::
  "'v values \<Rightarrow> vmcode \<Rightarrow> 'v vm \<Rightarrow> bool \<Rightarrow> function_info \<Rightarrow> (jump_kind \<Rightarrow> nat) \<Rightarrow> nat
     \<Rightarrow> (expr option \<times> stmt list) list \<Rightarrow> nat \<Rightarrow> nat \<Rightarrow> nat \<Rightarrow> bool" where
  "cases_at V c m opt F T n [] p pb q \<longleftrightarrow> glides V c m p q \<and> glides V c m pb q"
| "cases_at V c m opt F T n ((t, body) # cs) p pb q \<longleftrightarrow>
     (\<exists>pe pn pbn.
        (case t of None \<Rightarrow> p = pb
         | Some e \<Rightarrow> tests V c m n (op_bytes OP_DUP @ ecode opt False e @ op_bytes (OP_BINARY COMPARE_STRICTLY_EQ)) p pb pn)
      \<and> lay V c m opt F T body pb pe \<and> glides V c m pe pbn \<and> cases_at V c m opt F T n cs pn pbn q)"

lemma cases_layout:
  assumes "holds c p (fin T p (fst (cases_code opt (map (case_code opt F) cs))))"
    and m: "clean m" and len: "length (byteCode c) < 2 ^ 26"
  shows "cases_at V c m opt F T n cs p (p + snd (cases_code opt (map (case_code opt F) cs)))
      (p + plen (fst (cases_code opt (map (case_code opt F) cs))))
    \<and> snd (cases_code opt (map (case_code opt F) cs)) \<le> plen (fst (cases_code opt (map (case_code opt F) cs)))"
  using assms(1)
proof (induction cs arbitrary: p)
  case (Cons x cs)
  obtain t body where x: "x = (t, body)" by (cases x)
  define B where "B = concat (map (clean_code opt F) body)"
  obtain rest nx where r: "cases_code opt (map (case_code opt F) cs) = (rest, nx)"
    by (cases "cases_code opt (map (case_code opt F) cs)")
  define G where "G = (if 0 < nx then jump_bytes (small opt 0x7f nx) OP_GOTO_8 OP_GOTO (int nx) else [])"
  define skip where "skip = (if 0 < nx then jump_size (small opt 0x7f nx) else 0) + plen B"
  define J where "J = jump_bytes (small opt 0x7f skip) OP_BRANCH_FALSE_8 OP_BRANCH_FALSE (int skip)"
  define E where "E = (case t of None \<Rightarrow> [] | Some e \<Rightarrow> op_bytes OP_DUP @ ecode opt False e @ op_bytes (OP_BINARY COMPARE_STRICTLY_EQ))"
  define test where "test = (case t of None \<Rightarrow> [] | Some e \<Rightarrow> [Bytes (E @ J)])"
  define tl where "tl = snd (cases_code opt (map (case_code opt F) (x # cs)))"
  let ?code = "fst (cases_code opt (map (case_code opt F) (x # cs)))"
  have code: "?code = test @ B @ [Bytes G] @ rest"
    by (cases t) (simp_all add: x case_code_def r Let_def test_def E_def case_tests_def B_def G_def J_def skip_def)
  note h1 = holds_fin_append [OF Cons.prems [unfolded code]]
  note h2 = holds_fin_append [OF h1(2)]
  note h3 = holds_fin_append [OF h2(2)]
  have whole: "plen (test @ B @ [Bytes G] @ rest) < 2 ^ 26"
    using holds_length [OF Cons.prems [unfolded code]] len by simp
  define pn where "pn = p + plen test + plen B + length G"
  have hr: "holds c pn (fin T pn rest)" using h3(2) by (simp add: pn_def add.assoc)
  from Cons.IH [of pn] hr r have ih: "cases_at V c m opt F T n cs pn (pn + nx) (pn + plen rest)" and nx: "nx \<le> plen rest"
    by simp_all
  have fJ: "short_fits (small opt 0x7f skip) (int skip)" and fG: "short_fits (small opt 0x7f nx) (int nx)"
    using whole nx by (auto simp: short_fits_def small_def skip_def jump_size_def)
  have lJ: "length J = jump_size (small opt 0x7f skip)"
    unfolding J_def by (rule jump_length) (use fJ in \<open>simp_all add: short_fits_def\<close>)
  have lG: "length G = (if 0 < nx then jump_size (small opt 0x7f nx) else 0)"
    unfolding G_def using jump_length [of "int nx" OP_GOTO_8 OP_GOTO "small opt 0x7f nx"] fG by (simp add: short_fits_def)
  have tl: "tl = plen test"
    by (cases t) (simp_all add: tl_def x case_code_def case_tests_def test_def E_def r Let_def B_def [symmetric] skip_def [symmetric] lJ instruction_def)
  define pe where "pe = p + tl + plen B"
  have "case t of None \<Rightarrow> p = p + tl
     | Some e \<Rightarrow> tests V c m n (op_bytes OP_DUP @ ecode opt False e @ op_bytes (OP_BINARY COMPARE_STRICTLY_EQ)) p (p + tl) pn"
  proof (cases t)
    case None
    then show ?thesis by (simp add: tl test_def)
  next
    case (Some e)
    then have "holds c p (E @ J)" using h1(1) by (simp add: test_def)
    from tests_at [OF this [unfolded J_def] m fJ, of False pn V n] Some show ?thesis
      by (simp add: tl test_def E_def lJ pn_def skip_def lG add.assoc)
  qed
  moreover have "lay V c m opt F T body (p + tl) pe"
    using lay_concat [OF h2(1) [unfolded B_def], of V m] by (simp add: tl pe_def B_def)
  moreover have "glides V c m pe (pn + nx)"
  proof (cases "0 < nx")
    case True
    then have "G = jump_bytes (small opt 0x7f nx) OP_GOTO_8 OP_GOTO (int nx)" by (simp add: G_def)
    then have "holds c pe (jump_bytes (small opt 0x7f nx) OP_GOTO_8 OP_GOTO (int nx))"
      using h3(1) by (simp add: pe_def tl)
    from jump_goto [OF this m fG] True lG show ?thesis
      by (simp add: glides_def pn_def pe_def tl)
  next
    case False
    then show ?thesis by (simp add: pn_def pe_def tl lG)
  qed
  ultimately have "cases_at V c m opt F T n (x # cs) p (p + tl) (pn + plen rest)"
    using ih unfolding x cases_at.simps by - (rule exI [of _ pe], rule exI [of _ pn], rule exI [of _ "pn + nx"], simp)
  moreover have "pn + plen rest = p + plen ?code" unfolding code by (simp add: pn_def)
  moreover have "tl \<le> plen ?code" unfolding code by (simp add: tl)
  ultimately show ?case unfolding tl_def [symmetric] by simp
qed simp

lemma cases_lay: "cases_at V c m opt F T n cs p pb q \<Longrightarrow> lay V c m opt F T (concat (map snd cs)) pb q"
proof (induction cs arbitrary: p pb)
  case (Cons x cs)
  then obtain t body pe pn pbn where x: "x = (t, body)" and 1: "lay V c m opt F T body pb pe" "glides V c m pe pbn"
    "cases_at V c m opt F T n cs pn pbn q" by (cases x) auto
  from lay_append [OF lay_glide_end [OF 1(1,2)] Cons.IH [OF 1(3)]] x show ?case by simp
qed simp

lemma seq_assoc: "seq (seq r f) g = seq r (\<lambda>v xs. seq (f v xs) g)"
  by (cases r; cases "fst r") auto

lemma seq_if: "seq (if b then r else r') f = (if b then seq r f else seq r' f)"
  by simp

lemma selected_case:
  "selected V v ((Some e, body) # cs) xs =
     seq (eval V e xs) (\<lambda>w xs. seq (v_binary V COMPARE_STRICTLY_EQ v w, xs) (\<lambda>r xs. seq (v_truth V r, xs) (\<lambda>t xs.
       if t then (Val (concat (map snd ((Some e, body) # cs))), xs) else selected V v cs xs)))"
  by (simp add: selected_def seq_assoc seq_if cong: if_cong option.case_cong)

text \<open>The tests of the cases find the statements that the semantics selects.\<close>

lemma run_matching:
  assumes m: "clean m" and len: "length (byteCode c) < 2 ^ 26" and n: "n \<le> 2 ^ 31" and plus: "\<forall>v. v_to_number V v = Val v"
    and "cases_at V c m opt F T n cs p pb q" and "\<forall>x \<in> set (butlast cs). fst x \<noteq> None"
    and "\<forall>x \<in> set cs. case fst x of None \<Rightarrow> True | Some e \<Rightarrow> wf_expr n False e \<and> exact False e" and "length xs = n"
  shows "delivers V c (mk m p (v # s) xs r) (selected V v cs xs)
    (\<lambda>ss xs' vm'. length xs' = n \<and> (\<exists>pb r. vm' = mk m pb (v # s) xs' r \<and> lay V c m opt F T ss pb q))"
  using assms(5-)
proof (induction cs arbitrary: p pb xs r)
  case Nil
  then show ?case by (auto simp: selected_def intro!: exI [of _ "mk m p (v # s) xs r"])
next
  case (Cons x cs)
  obtain t body where x: "x = (t, body)" by (cases x)
  show ?case
  proof (cases t)
    case None
    with Cons.prems(2) x have "cs = []" by (cases cs) auto
    with None x Cons.prems(1) have "p = pb" "lay V c m opt F T body pb q"
      using cases_lay [OF Cons.prems(1)] by auto
    with None x \<open>cs = []\<close> Cons.prems(4) show ?thesis
      by (auto simp: selected_def intro!: exI [of _ "mk m p (v # s) xs r"])
  next
    case (Some e)
    from Cons.prems(1) x Some obtain pe pn pbn where
      t: "tests V c m n (op_bytes OP_DUP @ ecode opt False e @ op_bytes (OP_BINARY COMPARE_STRICTLY_EQ)) p pb pn"
      and rest: "cases_at V c m opt F T n cs pn pbn q" by auto
    define E where "E = op_bytes OP_DUP @ ecode opt False e @ op_bytes (OP_BINARY COMPARE_STRICTLY_EQ)"
    have h: "holds c p E" using t by (simp add: tests_def E_def)
    note h1 = holds_appendD [OF h [unfolded E_def]]
    note h2 = holds_appendD [OF h1(2)]
    have wf: "wf_expr n False e" "exact False e" using Cons.prems(3) x Some by auto
    have len': "length (byteCode c) < 2 ^ 27" using len by simp
    have ce: "computes V c m n (ecode opt False e) (pushes False e) True (eval V e)"
      using computes_expr [OF m len' n plus wf(1), of opt] wf(2) by simp
    let ?f = "\<lambda>w xs. seq (v_binary V COMPARE_STRICTLY_EQ v w, xs) (\<lambda>r xs. seq (v_truth V r, xs) (\<lambda>t xs.
         if t then (Val (concat (map snd (x # cs))), xs) else selected V v cs xs))"
    have sel: "selected V v (x # cs) xs = seq (eval V e xs) ?f"
      unfolding x Some by (rule selected_case)
    let ?Q = "\<lambda>ss xs' vm'. length xs' = n \<and> (\<exists>pb r. vm' = mk m pb (v # s) xs' r \<and> lay V c m opt F T ss pb q)"
    have "delivers V c (mk m (p + length (op_bytes OP_DUP)) (v # v # s) xs r) (seq (eval V e xs) ?f) ?Q"
    proof (rule computes_then [OF ce h2(1) Cons.prems(4)])
      fix w and xs :: "'a list" and r assume xs: "length xs = n"
      show "delivers V c (mk m (p + length (op_bytes OP_DUP) + length (ecode opt False e)) (w # v # v # s) xs r) (?f w xs) ?Q"
      proof (rule delivers_seq [OF run_binary [OF h2(2) m]])
        fix b xs1 vm1 
        assume "xs1 = xs \<and> (\<exists>r'. vm1 = mk m (p + length (op_bytes OP_DUP) + length (ecode opt False e)
          + length (op_bytes (OP_BINARY COMPARE_STRICTLY_EQ))) (b # v # s) xs r')"
        then obtain r' where 1: "xs1 = xs" "vm1 = mk m (p + length E) (b # v # s) xs r'"
          by (auto simp: E_def add.assoc)
        have br: "delivers V c vm1 (v_truth V b, xs1) (\<lambda>t xs' vm'. xs' = xs \<and> vm' = mk m (if t then pb else pn) (v # s) xs r')"
          using t unfolding tests_def E_def [symmetric] 1 by blast
        show "delivers V c vm1 (seq (v_truth V b, xs1) (\<lambda>t xs. if t then (Val (concat (map snd (x # cs))), xs) else selected V v cs xs)) ?Q"
        proof (rule delivers_seq [OF br])
          fix t xs2 vm2 assume 2: "xs2 = xs \<and> vm2 = mk m (if t then pb else pn) (v # s) xs r'"
          show "delivers V c vm2 (if t then (Val (concat (map snd (x # cs))), xs2) else selected V v cs xs2) ?Q"
          proof (cases t)
            case True
            with 2 xs cases_lay [OF Cons.prems(1)] show ?thesis
              by (auto simp del: delivers_simps intro!: delivers_here)
          next
            case False
            have "delivers V c (mk m pn (v # s) xs r') (selected V v cs xs) ?Q"
              by (rule Cons.IH [OF rest]) (use Cons.prems(2,3) xs in \<open>auto split: if_splits dest: in_set_butlastD\<close>)
            with False 2 show ?thesis by simp
          qed
        qed
      qed
    qed
    from delivers_reaches [OF run_dup [OF h1(1) m] this] sel show ?thesis by simp
  qed
qed

section \<open>Statements\<close>

text \<open>
  The bounds under which code is placed, and for each of the four judgements of the semantics what it
  means that the machine follows it.
\<close>

definition placed :: "'v values \<Rightarrow> vmcode \<Rightarrow> 'v vm \<Rightarrow> nat \<Rightarrow> bool" where
  "placed V c m n \<longleftrightarrow>
     clean m \<and> length (byteCode c) < 2 ^ 26 \<and> n \<le> 2 ^ 31 \<and> (\<forall>v. v_to_number V v = Val v)"

definition targets :: "vmcode \<Rightarrow> (jump_kind \<Rightarrow> nat) \<Rightarrow> bool" where
  "targets c T \<longleftrightarrow> (\<forall>k. T k \<le> length (byteCode c))"

definition runs where
  "runs V c m opt F n s xs out xs' \<longleftrightarrow>
     (\<forall>brk cont p T st r. wf_stmt n F brk cont s \<longrightarrow> length xs = n \<longrightarrow>
        holds c p (fin T p (scode opt F s)) \<longrightarrow> targets c T \<longrightarrow>
        ends V c m T (p + plen (scode opt F s)) (spushes s) st (mk m p st xs r) out xs')"

definition runs_list where
  "runs_list V c m opt F n ss xs out xs' \<longleftrightarrow>
     (\<forall>T p q st r. (\<forall>s \<in> set ss. \<exists>brk cont. wf_stmt n F brk cont s) \<longrightarrow> length xs = n \<longrightarrow>
        lay V c m opt F T ss p q \<longrightarrow> targets c T \<longrightarrow> ends V c m T q 0 st (mk m p st xs r) out xs')"

definition wf_loop where
  "wf_loop n F cnd incr b \<longleftrightarrow>
     (case cnd of None \<Rightarrow> True | Some e \<Rightarrow> wf_expr n True e \<and> exact True e)
     \<and> (case incr of None \<Rightarrow> True | Some e \<Rightarrow> wf_expr n False e \<and> pushes False e < 256)
     \<and> (case b of None \<Rightarrow> True | Some s \<Rightarrow> wf_stmt n F True True s)"

definition runs_loop where
  "runs_loop V c m opt F n cnd incr b xs out xs' \<longleftrightarrow>
     (\<forall>T q0 qe st r. wf_loop n F cnd incr b \<longrightarrow> length xs = n \<longrightarrow>
        loop_at V c m opt F T n cnd incr b q0 qe \<longrightarrow> targets c T \<longrightarrow>
        ends V c m T qe 0 st (mk m q0 st xs r) (after_loop out) xs')"

definition runs_repeat where
  "runs_repeat V c m opt F n b e xs out xs' \<longleftrightarrow>
     (\<forall>T q0 qe st r. wf_stmt n F True False b \<longrightarrow> wf_expr n True e \<longrightarrow> exact True e \<longrightarrow> length xs = n \<longrightarrow>
        repeat_at V c m opt F T n b e q0 qe \<longrightarrow> targets c T \<longrightarrow>
        ends V c m T qe 0 st (mk m q0 st xs r) (after_loop out) xs')"

lemma placedD:
  assumes "placed V c m n"
  shows "clean m" "length (byteCode c) < 2 ^ 26" "length (byteCode c) < 2 ^ 27" "n \<le> 2 ^ 31"
    "\<forall>v. v_to_number V v = Val v"
  using assms by (simp_all add: placed_def)

lemma runsI:
  "(\<And>brk cont p T st r. wf_stmt n F brk cont s \<Longrightarrow> length xs = n \<Longrightarrow> holds c p (fin T p (scode opt F s)) \<Longrightarrow>
      targets c T \<Longrightarrow> ends V c m T (p + plen (scode opt F s)) (spushes s) st (mk m p st xs r) out xs') \<Longrightarrow>
     runs V c m opt F n s xs out xs'"
  by (simp add: runs_def)

text \<open>The end of an expression.\<close>

lemma ends_leaves: "leaves m n q k ex st v xs vm \<Longrightarrow> ends V c m T q k st vm Normal xs"
  unfolding leaves_def by (elim conjE exE) (simp only: ends_normalI [OF _ reaches_refl])

lemma expr_delivers:
  assumes P: "placed V c m n" and wf: "wf_expr n nv e" and h: "holds c p (ecode opt nv e)" and xs: "length xs = n"
  shows "delivers V c (mk m p st xs r) (eval V e xs) (leaves m n (p + length (ecode opt nv e)) (pushes nv e) (exact nv e) st)"
  using computes_expr [OF placedD(1,3-5) [OF P] wf, of opt] h xs by (simp add: computes_def)

lemma exprs_deliver:
  assumes P: "placed V c m n" and wf: "\<forall>e \<in> set es. wf_expr n nv e" and h: "holds c p (concat (map (ecode opt nv) es))"
    and xs: "length xs = n"
  shows "delivers V c (mk m p st xs r) (eval_all V es xs)
    (\<lambda>u ys vm. leaves m n (p + length (concat (map (ecode opt nv) es))) (sum_list (map (pushes nv) es)) False st (v_undefined V) ys vm)"
proof -
  have "wf_expr n nv (N_EXPRESSIONS es)" using wf by simp
  from expr_delivers [OF P this, of p opt xs st r] h xs
  have d: "delivers V c (mk m p st xs r) (eval V (N_EXPRESSIONS es) xs)
      (leaves m n (p + length (concat (map (ecode opt nv) es))) (sum_list (map (pushes nv) es)) (exact nv (N_EXPRESSIONS es)) st)"
    by simp
  show ?thesis
  proof (cases "eval V (N_EXPRESSIONS es) xs")
    case (Pair a ys)
    with d show ?thesis unfolding eval_all_eval [of V es xs] by (cases a) (auto simp: leaves_def)
  qed
qed

lemma runs_expr:
  assumes P: "placed V c m n" and e: "eval V e xs = (r1, xs')" and out: "out = (case r1 of Val v \<Rightarrow> Normal | Exn x \<Rightarrow> Threw x)"
  shows "runs V c m opt F n (N_EXPRESSION e) xs out xs'"
proof (rule runsI)
  fix brk cont p T st r
  assume 1: "wf_stmt n F brk cont (N_EXPRESSION e)" "length xs = n" "holds c p (fin T p (scode opt F (N_EXPRESSION e)))"
  from 1 expr_delivers [OF P, of False e p opt xs st r]
  have d: "delivers V c (mk m p st xs r) (r1, xs') (leaves m n (p + length (ecode opt False e)) (pushes False e) (exact False e) st)"
    by (simp add: e)
  show "ends V c m T (p + plen (scode opt F (N_EXPRESSION e))) (spushes (N_EXPRESSION e)) st (mk m p st xs r) out xs'"
  proof (cases r1)
    case (Val v)
    with d out show ?thesis by (auto intro!: ends_val [OF d [unfolded Val]] intro: ends_leaves)
  next
    case (Exn x)
    with d out show ?thesis by (simp add: ends_def)
  qed
qed

lemma runs_var:
  assumes P: "placed V c m n" and e: "eval_all V (inits vs) xs = (r1, xs')" and out: "out = (case r1 of Val v \<Rightarrow> Normal | Exn x \<Rightarrow> Threw x)"
  shows "runs V c m opt F n (N_VAR_DEFINITION vs) xs out xs'"
proof (rule runsI)
  fix brk cont p T st r
  assume 1: "wf_stmt n F brk cont (N_VAR_DEFINITION vs)" "length xs = n" "holds c p (fin T p (scode opt F (N_VAR_DEFINITION vs)))"
  from 1 exprs_deliver [OF P, of "inits vs" False p opt xs st r]
  have d: "delivers V c (mk m p st xs r) (r1, xs') (\<lambda>u. leaves m n (p + length (concat (map (ecode opt False) (inits vs))))
      (sum_list (map (pushes False) (inits vs))) False st (v_undefined V))"
    by (simp add: e)
  show "ends V c m T (p + plen (scode opt F (N_VAR_DEFINITION vs))) (spushes (N_VAR_DEFINITION vs)) st (mk m p st xs r) out xs'"
  proof (cases r1)
    case (Val v)
    with d out show ?thesis by (auto intro!: ends_val [OF d [unfolded Val]] intro: ends_leaves)
  next
    case (Exn x)
    with d out show ?thesis by (simp add: ends_def)
  qed
qed

lemma runs_nop: "runs V c m opt F n N_NOP xs Normal xs"
  by (rule runsI) (auto intro!: ends_normal0 reaches_refl)

lemma runs_block:
  assumes "runs_list V c m opt F n ss xs out xs'"
  shows "runs V c m opt F n (N_BLOCK ss) xs out xs'"
proof (rule runsI)
  fix brk cont p T st r
  assume 1: "wf_stmt n F brk cont (N_BLOCK ss)" "length xs = n" "holds c p (fin T p (scode opt F (N_BLOCK ss)))" "targets c T"
  then have "lay V c m opt F T ss p (p + plen (scode opt F (N_BLOCK ss)))" using lay_block [of ss c p T opt F V m] by simp
  with assms 1 show "ends V c m T (p + plen (scode opt F (N_BLOCK ss))) (spushes (N_BLOCK ss)) st (mk m p st xs r) out xs'"
    unfolding runs_list_def by auto
qed

lemma runs_directives:
  assumes "runs_list V c m opt F n ss xs out xs'"
  shows "runs V c m opt F n (N_DIRECTIVES ss) xs out xs'"
proof (rule runsI)
  fix brk cont p T st r
  assume 1: "wf_stmt n F brk cont (N_DIRECTIVES ss)" "length xs = n" "holds c p (fin T p (scode opt F (N_DIRECTIVES ss)))" "targets c T"
  have "lay V c m opt F T ss p (p + plen (scode opt F (N_DIRECTIVES ss)))"
    using lay_concat [of c p T opt F ss V m] 1(3) by (simp add: clean_code_def [abs_def])
  with assms 1 show "ends V c m T (p + plen (scode opt F (N_DIRECTIVES ss))) (spushes (N_DIRECTIVES ss)) st (mk m p st xs r) out xs'"
    unfolding runs_list_def by auto
qed

text \<open>A statement whose leftovers are removed.\<close>

lemma runs_clean:
  assumes s: "runs V c m opt F n s xs out xs'" and P: "placed V c m n" and wf: "wf_stmt n F brk cont s"
    and xs: "length xs = n" and h: "holds c p (fin T p (clean_code opt F s))" and T: "targets c T"
  shows "ends V c m T (p + plen (clean_code opt F s)) 0 st (mk m p st xs r) out xs'"
proof (rule ends_clean [OF _ h placedD(1) [OF P] spushes_small [OF wf]])
  have "holds c p (fin T p (scode opt F s))"
    using holds_fin_append(1) [of c p T "scode opt F s"] h by (simp add: clean_code_def cleaned_def)
  with s wf xs T show "ends V c m T (p + plen (scode opt F s)) (spushes s) st (mk m p st xs r) out xs'"
    unfolding runs_def by blast
qed

lemma runs_list_nil: "runs_list V c m opt F n [] xs Normal xs"
  unfolding runs_list_def by (auto intro: ends_normal0 glides_reaches)

lemma runs_list_cons:
  assumes P: "placed V c m n" and s: "runs V c m opt F n s xs out xs1"
    and l: "length xs1 = length xs"
    and ss: "out = Normal \<Longrightarrow> runs_list V c m opt F n ss xs1 out' xs'" and o: "out \<noteq> Normal \<Longrightarrow> out' = out \<and> xs' = xs1"
  shows "runs_list V c m opt F n (s # ss) xs out' xs'"
  unfolding runs_list_def
proof (intro allI impI)
  fix T p q st r
  assume wf: "\<forall>s \<in> set (s # ss). \<exists>brk cont. wf_stmt n F brk cont s" and xs: "length xs = n"
    and lay: "lay V c m opt F T (s # ss) p q" and T: "targets c T"
  from wf obtain brk cont where w: "wf_stmt n F brk cont s" by auto
  from lay obtain p1 where p1: "glides V c m p p1" "holds c p1 (fin T p1 (clean_code opt F s))"
    "lay V c m opt F T ss (p1 + plen (clean_code opt F s)) q" by auto
  from runs_clean [OF s P w xs p1(2) T]
  have e: "ends V c m T (p1 + plen (clean_code opt F s)) 0 st (mk m p st xs r) out xs1"
    by (rule ends_reaches [OF glides_reaches [OF p1(1)]])
  show "ends V c m T q 0 st (mk m p st xs r) out' xs'"
  proof (cases "out = Normal")
    case True
    with ends_normal e obtain r1 where r1: "reaches V c (mk m p st xs r) (mk m (p1 + plen (clean_code opt F s)) st xs1 r1)" by blast
    have "ends V c m T q 0 st (mk m (p1 + plen (clean_code opt F s)) st xs1 r1) out' xs'"
      using ss [OF True] wf xs l p1(3) T unfolding runs_list_def by auto
    from ends_reaches [OF r1 this] show ?thesis .
  next
    case False
    with o ends_other [OF e False] show ?thesis by simp
  qed
qed


text \<open>Choices.\<close>

lemma if_cases:
  assumes P: "placed V c m n" and t: "test V (Some e) xs = (tr, xs1)"
    and wf: "wf_stmt n F brk cont (N_IF e s s')" and xs: "length xs = n"
    and h: "holds c p (fin T p (scode opt F (N_IF e s s')))"
  obtains pa pb where "holds c pa (fin T pa (clean_code opt F s))"
    and "holds c pb (fin T pb (case s' of None \<Rightarrow> [] | Some s' \<Rightarrow> clean_code opt F s'))"
    and "delivers V c (mk m p st xs r) (tr, xs1) (\<lambda>t xs' vm'. \<exists>r'. vm' = mk m (if t then pa else pb) st xs' r')"
    and "glides V c m (pa + plen (clean_code opt F s)) (p + plen (scode opt F (N_IF e s s')))"
    and "p + plen (scode opt F (N_IF e s s')) = pb + plen (case s' of None \<Rightarrow> [] | Some s' \<Rightarrow> clean_code opt F s')"
proof -
  let ?B = "case s' of None \<Rightarrow> [] | Some s' \<Rightarrow> clean_code opt F s'"
  have code: "scode opt F (N_IF e s s') = if_code opt (ecode opt True e) (clean_code opt F s) ?B"
    by (simp add: clean_code_def cong: option.case_cong)
  note D = placedD [OF P]
  obtain pa pb where 1: "holds c p (ecode opt True e)" "holds c pa (fin T pa (clean_code opt F s))" "holds c pb (fin T pb ?B)"
    and br: "\<And>v s xs r. delivers V c (mk m (p + length (ecode opt True e)) (v # s) xs r) (v_truth V v, xs)
           (\<lambda>t xs' vm'. xs' = xs \<and> vm' = mk m (if t then pa else pb) s xs r)"
    and go: "\<And>st xs r. reaches V c (mk m (pa + plen (clean_code opt F s)) st xs r) (mk m (pb + plen ?B) st xs r)"
    and q: "pb + plen ?B = p + plen (if_code opt (ecode opt True e) (clean_code opt F s) ?B)"
    using if_layout [of c p "\<lambda>k. int (T k)" opt "ecode opt True e" "clean_code opt F s" ?B m V] h D(1,3)
    unfolding code fin_def by blast
  have "delivers V c (mk m p st xs r) (test V (Some e) xs)
      (\<lambda>t xs' vm'. length xs' = n \<and> (\<exists>r'. vm' = mk m (if t then pa else pb) st xs' r'))"
    by (rule run_test [OF D(1,3-5) _ _ 1(1) xs br]) (use wf in simp_all)
  then have d: "delivers V c (mk m p st xs r) (tr, xs1) (\<lambda>t xs' vm'. \<exists>r'. vm' = mk m (if t then pa else pb) st xs' r')"
    unfolding t by (rule delivers_weaken) blast
  have q': "p + plen (scode opt F (N_IF e s s')) = pb + plen ?B" unfolding code by (rule q [symmetric])
  have g: "glides V c m (pa + plen (clean_code opt F s)) (p + plen (scode opt F (N_IF e s s')))"
    unfolding glides_def q' using go by blast
  show thesis by (rule that [OF 1(2,3) d g q'])
qed

lemma runs_if_true:
  assumes P: "placed V c m n" and t: "test V (Some e) xs = (Val True, xs1)" and s: "runs V c m opt F n s xs1 out xs'"
  shows "runs V c m opt F n (N_IF e s s') xs out xs'"
proof (rule runsI)
  fix brk cont p T st r
  assume wf: "wf_stmt n F brk cont (N_IF e s s')" and xs: "length xs = n"
    and h: "holds c p (fin T p (scode opt F (N_IF e s s')))" and T: "targets c T"
  from if_cases [OF P t wf xs h, of st r] obtain pa pb where
    1: "holds c pa (fin T pa (clean_code opt F s))"
      "delivers V c (mk m p st xs r) (Val True, xs1) (\<lambda>t xs' vm'. \<exists>r'. vm' = mk m (if t then pa else pb) st xs' r')"
      "glides V c m (pa + plen (clean_code opt F s)) (p + plen (scode opt F (N_IF e s s')))" by blast
  have "length xs1 = n" using result_length(3) [OF xs t] .
  with wf runs_clean [OF s P _ _ 1(1) T, of brk cont st]
  have "ends V c m T (pa + plen (clean_code opt F s)) 0 st (mk m pa st xs1 r') out xs'" for r' by simp
  from ends_glide [OF this 1(3)]
  have e: "ends V c m T (p + plen (scode opt F (N_IF e s s'))) 0 st (mk m pa st xs1 r') out xs'" for r' .
  from ends_val [OF 1(2)] e
  show "ends V c m T (p + plen (scode opt F (N_IF e s s'))) (spushes (N_IF e s s')) st (mk m p st xs r) out xs'"
    by (fastforce simp del: scode.simps)
qed

lemma runs_if_false:
  assumes P: "placed V c m n" and t: "test V (Some e) xs = (Val False, xs1)" and s: "runs V c m opt F n s' xs1 out xs'"
  shows "runs V c m opt F n (N_IF e s (Some s')) xs out xs'"
proof (rule runsI)
  fix brk cont p T st r
  assume wf: "wf_stmt n F brk cont (N_IF e s (Some s'))" and xs: "length xs = n"
    and h: "holds c p (fin T p (scode opt F (N_IF e s (Some s'))))" and T: "targets c T"
  from if_cases [OF P t wf xs h, of st r] obtain pa pb where
    1: "holds c pb (fin T pb (clean_code opt F s'))"
      "delivers V c (mk m p st xs r) (Val False, xs1) (\<lambda>t xs' vm'. \<exists>r'. vm' = mk m (if t then pa else pb) st xs' r')"
      "p + plen (scode opt F (N_IF e s (Some s'))) = pb + plen (clean_code opt F s')"
    unfolding option.case by blast
  have "length xs1 = n" using result_length(3) [OF xs t] .
  with wf runs_clean [OF s P _ _ 1(1) T, of brk cont st]
  have e: "ends V c m T (pb + plen (clean_code opt F s')) 0 st (mk m pb st xs1 r') out xs'" for r' by simp
  from ends_val [OF 1(2)] e
  show "ends V c m T (p + plen (scode opt F (N_IF e s (Some s')))) (spushes (N_IF e s (Some s'))) st (mk m p st xs r) out xs'"
    unfolding 1(3) by fastforce
qed

lemma runs_if_none:
  assumes P: "placed V c m n" and t: "test V (Some e) xs = (Val False, xs')"
  shows "runs V c m opt F n (N_IF e s None) xs Normal xs'"
proof (rule runsI)
  fix brk cont p T st r
  assume wf: "wf_stmt n F brk cont (N_IF e s None)" and xs: "length xs = n"
    and h: "holds c p (fin T p (scode opt F (N_IF e s None)))" and T: "targets c T"
  from if_cases [OF P t wf xs h, of st r] obtain pa pb where
    1: "delivers V c (mk m p st xs r) (Val False, xs') (\<lambda>t xs' vm'. \<exists>r'. vm' = mk m (if t then pa else pb) st xs' r')"
      "p + plen (scode opt F (N_IF e s None)) = pb + plen []" unfolding option.case by blast
  from ends_val [OF 1(1)] ends_normal0 [OF reaches_refl]
  show "ends V c m T (p + plen (scode opt F (N_IF e s None))) (spushes (N_IF e s None)) st (mk m p st xs r) Normal xs'"
    unfolding 1(2) plen_simps by fastforce
qed

lemma runs_if_exn:
  assumes P: "placed V c m n" and t: "test V (Some e) xs = (Exn x, xs')"
  shows "runs V c m opt F n (N_IF e s s') xs (Threw x) xs'"
proof (rule runsI)
  fix brk cont p T st r
  assume wf: "wf_stmt n F brk cont (N_IF e s s')" and xs: "length xs = n"
    and h: "holds c p (fin T p (scode opt F (N_IF e s s')))" and T: "targets c T"
  show "ends V c m T (p + plen (scode opt F (N_IF e s s'))) (spushes (N_IF e s s')) st (mk m p st xs r) (Threw x) xs'"
  proof (rule if_cases [OF P t wf xs h, of st r])
    fix pa pb
    assume d: "delivers V c (mk m p st xs r) (Exn x, xs') (\<lambda>t xs' vm'. \<exists>r'. vm' = mk m (if t then pa else pb) st xs' r')"
    show ?thesis by (rule ends_exn [OF d])
  qed
qed

text \<open>Jumps out of a statement.\<close>

lemma run_hole:
  assumes h: "holds c p (fin T p [Bytes [word_of_int (opnum OP_GOTO)], Hole k])" and P: "placed V c m n" and T: "targets c T"
  shows "reaches V c (mk m p st xs r) (mk m (T k) st xs r)"
proof -
  define d where "d = int (T k) - int (p + 1) - 4"
  have "p + 5 \<le> length (byteCode c)" using holds_length [OF h] by (simp add: fin_def)
  moreover have "T k \<le> length (byteCode c)" using T by (simp add: targets_def)
  ultimately have "p + 5 < 2 ^ 26" "T k < 2 ^ 26" using placedD(2) [OF P] by simp_all
  then have "\<bar>d\<bar> < 2 ^ 27" unfolding d_def by simp
  then have f: "short_fits False d" by (simp add: short_fits_def)
  obtain bs where bs: "ejsEncodeInt32 (word_of_int d) = Some bs" "length bs = 4"
    using encode_fits f unfolding short_fits_def by blast
  have "jump_bytes False OP_GOTO_8 OP_GOTO d = word_of_int (opnum OP_GOTO) # bs" by (simp add: jump_bytes_def bs)
  moreover have "word_bytes d = bs" by (simp add: word_bytes_def bs)
  moreover have "fin T p [Bytes [word_of_int (opnum OP_GOTO)], Hole k] = word_of_int (opnum OP_GOTO) # word_bytes d"
    by (simp add: fin_def d_def)
  ultimately have h': "holds c p (jump_bytes False OP_GOTO_8 OP_GOTO d)" using h by simp
  have q: "int (T k) = int p + int (jump_size False) + d" by (simp add: d_def jump_size_def)
  show ?thesis by (rule jump_goto [OF h' placedD(1) [OF P] f q])
qed

lemma runs_break:
  assumes P: "placed V c m n"
  shows "runs V c m opt F n N_BREAK xs Broke xs"
proof (rule runsI)
  fix p T st r
  assume "holds c p (fin T p (scode opt F N_BREAK))" "targets c T"
  from run_hole [OF this(1) [unfolded scode.simps] P this(2), of st xs r]
  show "ends V c m T (p + plen (scode opt F N_BREAK)) (spushes N_BREAK) st (mk m p st xs r) Broke xs"
    by (auto simp: ends_def)
qed

lemma runs_continue:
  assumes P: "placed V c m n"
  shows "runs V c m opt F n N_CONTINUE xs Continued xs"
proof (rule runsI)
  fix p T st r
  assume "holds c p (fin T p (scode opt F N_CONTINUE))" "targets c T"
  from run_hole [OF this(1) [unfolded scode.simps] P this(2), of st xs r]
  show "ends V c m T (p + plen (scode opt F N_CONTINUE)) (spushes N_CONTINUE) st (mk m p st xs r) Continued xs"
    by (auto simp: ends_def)
qed

lemma step_return:
  assumes "holds c p (op_bytes OP_RETURN)" "clean m"
  shows "step V c (mk m p s xs r) = Finished (v_undefined V) xs"
  using step_instruction [OF assms(1,2), of V s xs r] by simp

lemma step_return_value:
  assumes "holds c p (op_bytes OP_RETURN_VALUE)" "clean m"
  shows "step V c (mk m p (v # s) xs r) = Finished v xs"
  using step_instruction [OF assms(1,2), of V "v # s" xs r] by simp

lemma run_return_code:
  assumes h: "holds c p (return_code F)" and m: "clean m"
  shows "\<exists>vm'. reaches V c (mk m p st xs r) vm'
    \<and> step V c vm' = Finished (if isConstructor F then v_this V else v_undefined V) xs"
proof (cases "isConstructor F")
  case True
  then have h: "holds c p (op_bytes OP_LOAD_THIS @ op_bytes OP_RETURN_VALUE)" using h by (simp add: return_code_def)
  note h1 = holds_appendD [OF h]
  have "reaches V c (mk m p st xs r) (mk m (p + length (op_bytes OP_LOAD_THIS)) (v_this V # st) xs r)"
    using h1(1) m by (intro run_instruction [where op = OP_LOAD_THIS and n = 0]) simp_all
  with step_return_value [OF h1(2) m] True show ?thesis by (metis (full_types))
next
  case False
  then have "holds c p (op_bytes OP_RETURN)" using h by (simp add: return_code_def)
  from step_return [OF this m] False show ?thesis using reaches_refl by metis
qed

lemma runs_return_none:
  assumes P: "placed V c m n"
  shows "runs V c m opt F n (N_RETURN None bl) xs (Returned (if isConstructor F then v_this V else v_undefined V)) xs"
proof (rule runsI)
  fix p T st r
  assume "holds c p (fin T p (scode opt F (N_RETURN None bl)))"
  then have "holds c p (return_code F)" by simp
  from run_return_code [OF this placedD(1) [OF P], of V st xs r]
  show "ends V c m T (p + plen (scode opt F (N_RETURN None bl))) (spushes (N_RETURN None bl)) st (mk m p st xs r)
      (Returned (if isConstructor F then v_this V else v_undefined V)) xs"
    by (simp only: ends_def completion.case)
qed

text \<open>The value of the operand of return and throw.\<close>

lemma value_delivers:
  assumes P: "placed V c m n" and wf: "wf_expr n True e" "exact True e" and h: "holds c p (ecode opt True e)"
    and xs: "length xs = n" and e: "eval V e xs = (r1, xs')"
  shows "delivers V c (mk m p st xs r) (r1, xs')
    (\<lambda>v ys vm. \<exists>r'. vm = mk m (p + length (ecode opt True e)) (v # st) ys r')"
  using expr_delivers [OF P wf(1) h xs, of st r] wf(2) unfolding e
  by (auto elim!: delivers_weaken simp: leaves_def)

lemma runs_return:
  assumes P: "placed V c m n" and e: "eval V e xs = (r1, xs')"
    and out: "out = (case r1 of Val v \<Rightarrow> Returned v | Exn x \<Rightarrow> Threw x)"
  shows "runs V c m opt F n (N_RETURN (Some e) bl) xs out xs'"
proof (rule runsI)
  fix brk cont p T st r
  assume wf: "wf_stmt n F brk cont (N_RETURN (Some e) bl)" and xs: "length xs = n"
    and "holds c p (fin T p (scode opt F (N_RETURN (Some e) bl)))"
  then have h: "holds c p (ecode opt True e @ op_bytes OP_RETURN_VALUE)" by simp
  note h1 = holds_appendD [OF h]
  from wf have w: "wf_expr n True e" "exact True e" by simp_all
  note d = value_delivers [OF P w h1(1) xs e, of st r]
  show "ends V c m T (p + plen (scode opt F (N_RETURN (Some e) bl))) (spushes (N_RETURN (Some e) bl)) st (mk m p st xs r) out xs'"
  proof (cases r1)
    case (Val v)
    from d [unfolded Val] obtain r' where "reaches V c (mk m p st xs r) (mk m (p + length (ecode opt True e)) (v # st) xs' r')"
      by auto
    with step_return_value [OF h1(2) placedD(1) [OF P], of V v st xs' r'] Val out show ?thesis
      by (auto simp: ends_def)
  next
    case (Exn x)
    from ends_exn [OF d [unfolded Exn]] Exn out show ?thesis by simp
  qed
qed

lemma runs_throw:
  assumes P: "placed V c m n" and e: "eval V e xs = (r1, xs')"
    and out: "out = (case r1 of Val v \<Rightarrow> Threw v | Exn x \<Rightarrow> Threw x)"
  shows "runs V c m opt F n (N_THROW e) xs out xs'"
proof (rule runsI)
  fix brk cont p T st r
  assume wf: "wf_stmt n F brk cont (N_THROW e)" and xs: "length xs = n"
    and "holds c p (fin T p (scode opt F (N_THROW e)))"
  then have h: "holds c p (ecode opt True e @ op_bytes OP_THROW)" by simp
  note h1 = holds_appendD [OF h]
  from wf have w: "wf_expr n True e" "exact True e" by simp_all
  note d = value_delivers [OF P w h1(1) xs e, of st r]
  show "ends V c m T (p + plen (scode opt F (N_THROW e))) (spushes (N_THROW e)) st (mk m p st xs r) out xs'"
  proof (cases r1)
    case (Val v)
    from d [unfolded Val] obtain r' where 1: "reaches V c (mk m p st xs r) (mk m (p + length (ecode opt True e)) (v # st) xs' r')"
      by auto
    have "step V c (mk m (p + length (ecode opt True e)) (v # st) xs' r')
        = Running (ejsThrowException v (mk m (p + length (ecode opt True e) + length (op_bytes OP_THROW)) st xs' r'))"
      using step_instruction [OF h1(2) placedD(1) [OF P], of V "v # st" xs' r'] by simp
    from reaches_trans [OF 1 reaches_step [OF this reaches_refl]] Val out show ?thesis
      by (auto simp: ends_def throws_def ejsThrowException_def ejsAttention_def)
  next
    case (Exn x)
    from ends_exn [OF d [unfolded Exn]] Exn out show ?thesis by simp
  qed
qed

text \<open>Loops.\<close>

lemma ends_loop:
  assumes "ends V c m T1 q 0 s vm out xs" "out \<noteq> Normal" "out \<noteq> Continued" "T1 EC_JUMP_BREAK = qe"
  shows "ends V c m T qe 0 s vm (after_loop out) xs"
  using assms by (cases out) (auto simp: ends_def intro: ends_normal0 [unfolded ends_def])

lemma ends_iteration:
  assumes e: "ends V c m T1 qc 0 s vm out xs" and o: "out = Normal \<or> out = Continued" and t: "T1 EC_JUMP_CONTINUE = qc"
  obtains r where "reaches V c vm (mk m qc s xs r)"
  using assms by (auto simp: ends_def)

text \<open>The test of a loop.\<close>

lemma loop_test:
  assumes P: "placed V c m n" and wf: "wf_loop n F cnd incr b" and xs: "length xs = n"
    and t: "case cnd of None \<Rightarrow> glides V c m q0 qb | Some e \<Rightarrow> tests V c m n (ecode opt True e) q0 qb qe"
    and e: "test V cnd xs = (tr, xs1)"
  shows "delivers V c (mk m q0 st xs r) (tr, xs1) (\<lambda>t ys vm. length ys = n \<and> (\<exists>r'. vm = mk m (if t then qb else qe) st ys r'))"
proof (cases cnd)
  case None
  with t e xs have "tr = Val True" "xs1 = xs" and "reaches V c (mk m q0 st xs r) (mk m qb st xs r)"
    by (auto simp: test_def glides_def)
  with xs show ?thesis by auto
next
  case (Some e1)
  with wf have "wf_expr n True e1" "exact True e1" by (simp_all add: wf_loop_def)
  from run_test' [OF placedD(1,3-5) [OF P] this _ xs, of opt q0 qb qe st r] Some t e show ?thesis by simp
qed

lemma loop_parts:
  assumes "loop_at V c m opt F T n cnd incr b q0 qe" and T: "targets c T"
  obtains qb qc T1 where
    "case cnd of None \<Rightarrow> glides V c m q0 qb | Some e \<Rightarrow> tests V c m n (ecode opt True e) q0 qb qe"
    "lay V c m opt F T1 (case b of None \<Rightarrow> [] | Some s \<Rightarrow> [s]) qb qc"
    "T1 EC_JUMP_BREAK = qe" "T1 EC_JUMP_CONTINUE = qc" "targets c T1"
    "case incr of None \<Rightarrow> glides V c m qc q0
     | Some e \<Rightarrow> holds c qc (ecode opt False e @ drop_code (pushes False e))
         \<and> glides V c m (qc + length (ecode opt False e @ drop_code (pushes False e))) q0"
proof -
  from assms(1) obtain qb qc where 1: "case cnd of None \<Rightarrow> glides V c m q0 qb | Some e \<Rightarrow> tests V c m n (ecode opt True e) q0 qb qe"
    "lay V c m opt F (T(EC_JUMP_BREAK := qe, EC_JUMP_CONTINUE := qc)) (case b of None \<Rightarrow> [] | Some s \<Rightarrow> [s]) qb qc"
    "case incr of None \<Rightarrow> glides V c m qc q0
     | Some e \<Rightarrow> holds c qc (ecode opt False e @ drop_code (pushes False e))
         \<and> glides V c m (qc + length (ecode opt False e @ drop_code (pushes False e))) q0"
    "qc \<le> length (byteCode c)" "qe \<le> length (byteCode c)"
    unfolding loop_at_def by blast
  let ?T1 = "T(EC_JUMP_BREAK := qe, EC_JUMP_CONTINUE := qc)"
  have "targets c ?T1" using T 1(4,5) by (simp add: targets_def)
  with that [OF 1(1,2) _ _ _ 1(3)] show thesis by simp
qed

lemma body_runs:
  assumes b: "runs_list V c m opt F n (case b of None \<Rightarrow> [] | Some s \<Rightarrow> [s]) xs out xs'"
    and wf: "wf_loop n F cnd incr b" and xs: "length xs = n" and T: "targets c T1"
    and lay: "lay V c m opt F T1 (case b of None \<Rightarrow> [] | Some s \<Rightarrow> [s]) qb qc"
  shows "ends V c m T1 qc 0 st (mk m qb st xs r) out xs'"
proof -
  have "\<forall>s \<in> set (case b of None \<Rightarrow> [] | Some s \<Rightarrow> [s]). \<exists>brk cont. wf_stmt n F brk cont s"
    using wf by (auto simp: wf_loop_def split: option.splits)
  with b xs lay T show ?thesis unfolding runs_list_def by blast
qed

text \<open>The step of a loop, and the way back to its test.\<close>

lemma step_runs:
  assumes P: "placed V c m n" and wf: "wf_loop n F cnd incr b" and xs: "length xs = n"
    and p: "case incr of None \<Rightarrow> glides V c m qc q0
     | Some e \<Rightarrow> holds c qc (ecode opt False e @ drop_code (pushes False e))
         \<and> glides V c m (qc + length (ecode opt False e @ drop_code (pushes False e))) q0"
    and e: "eval_all V (case incr of None \<Rightarrow> [] | Some e \<Rightarrow> [e]) xs = (tr, xs1)"
  shows "delivers V c (mk m qc st xs r) (tr, xs1) (\<lambda>u ys vm. length ys = n \<and> (\<exists>r'. vm = mk m q0 st ys r'))"
proof (cases incr)
  case None
  with p e xs have "tr = Val ()" "xs1 = xs" "reaches V c (mk m qc st xs r) (mk m q0 st xs r)"
    by (auto simp: glides_def)
  with xs show ?thesis by auto
next
  case (Some e1)
  with wf have w: "wf_expr n False e1" "pushes False e1 < 256" by (simp_all add: wf_loop_def)
  let ?k = "pushes False e1" and ?q = "qc + length (ecode opt False e1)"
  from p Some have h: "holds c qc (ecode opt False e1 @ drop_code ?k)" and g: "glides V c m (?q + length (drop_code ?k)) q0"
    by (simp_all add: add.assoc)
  note h1 = holds_appendD [OF h]
  have "delivers V c (mk m qc st xs r) (eval_all V [e1] xs) (\<lambda>u ys vm. leaves m n ?q ?k False st (v_undefined V) ys vm)"
    using exprs_deliver [OF P, of "[e1]" False qc opt xs st r] w(1) h1(1) xs by simp
  moreover have "\<exists>vm2. reaches V c vm' vm2 \<and> length ys = n \<and> (\<exists>r'. vm2 = mk m q0 st ys r')"
    if l: "leaves m n ?q ?k False st (v_undefined V) ys vm'" for ys vm'
  proof -
    from leaves_drop [OF l h1(2) placedD(1) [OF P] w(2)] obtain vm2 where
      2: "reaches V c vm' vm2" "leaves m n (?q + length (drop_code ?k)) 0 False st (v_undefined V) ys vm2" by blast
    then obtain r' where 3: "length ys = n" "vm2 = mk m (?q + length (drop_code ?k)) st ys r'" by (auto simp: leaves_def)
    from reaches_trans [OF 2(1) glides_reaches [OF g, of st ys r', folded 3(2)]] 3(1) show ?thesis by blast
  qed
  ultimately have "delivers V c (mk m qc st xs r) (eval_all V [e1] xs) (\<lambda>u ys vm. length ys = n \<and> (\<exists>r'. vm = mk m q0 st ys r'))"
    by (rule delivers_map)
  then show ?thesis using e Some by simp
qed

lemma runs_loop_stop:
  assumes P: "placed V c m n" and t: "test V cnd xs = (tr, xs')" and o: "tr = Val False \<and> out = Normal \<or> (\<exists>x. tr = Exn x \<and> out = Threw x)"
  shows "runs_loop V c m opt F n cnd incr b xs out xs'"
  unfolding runs_loop_def
proof (intro allI impI)
  fix T q0 qe st r
  assume wf: "wf_loop n F cnd incr b" and xs: "length xs = n" and l: "loop_at V c m opt F T n cnd incr b q0 qe" and T: "targets c T"
  obtain qb qc where "case cnd of None \<Rightarrow> glides V c m q0 qb | Some e \<Rightarrow> tests V c m n (ecode opt True e) q0 qb qe"
    using loop_parts [OF l T] by metis
  from loop_test [OF P wf xs this t, of st r] o show "ends V c m T qe 0 st (mk m q0 st xs r) (after_loop out) xs'"
    by (auto simp: ends_def intro: ends_normal0 [unfolded ends_def])
qed

lemma runs_loop_body:
  assumes P: "placed V c m n" and t: "test V cnd xs = (Val True, xs1)"
    and b: "runs_list V c m opt F n (case b of None \<Rightarrow> [] | Some s \<Rightarrow> [s]) xs1 out xs'"
    and o: "out \<noteq> Normal" "out \<noteq> Continued"
  shows "runs_loop V c m opt F n cnd incr b xs out xs'"
  unfolding runs_loop_def
proof (intro allI impI)
  fix T q0 qe st r
  assume wf: "wf_loop n F cnd incr b" and xs: "length xs = n" and l: "loop_at V c m opt F T n cnd incr b q0 qe" and T: "targets c T"
  show "ends V c m T qe 0 st (mk m q0 st xs r) (after_loop out) xs'"
  proof (rule loop_parts [OF l T])
    fix qb qc T1
    assume c: "case cnd of None \<Rightarrow> glides V c m q0 qb | Some e \<Rightarrow> tests V c m n (ecode opt True e) q0 qb qe"
      and lay: "lay V c m opt F T1 (case b of None \<Rightarrow> [] | Some s \<Rightarrow> [s]) qb qc"
      and T1: "T1 EC_JUMP_BREAK = qe" "targets c T1"
    from loop_test [OF P wf xs c t, of st r] obtain r1 where r1: "length xs1 = n" "reaches V c (mk m q0 st xs r) (mk m qb st xs1 r1)"
      by auto
    from ends_loop [OF body_runs [OF b wf r1(1) T1(2) lay] o T1(1)] 
    show ?thesis by (rule ends_reaches [OF r1(2)])
  qed
qed

lemma runs_loop_next:
  assumes P: "placed V c m n" and t: "test V cnd xs = (Val True, xs1)"
    and b: "runs_list V c m opt F n (case b of None \<Rightarrow> [] | Some s \<Rightarrow> [s]) xs1 out xs2" and l2: "length xs2 = length xs1"
    and o: "out = Normal \<or> out = Continued"
    and e: "eval_all V (case incr of None \<Rightarrow> [] | Some e \<Rightarrow> [e]) xs2 = (tr, xs3)"
    and n: "case tr of Val u \<Rightarrow> runs_loop V c m opt F n cnd incr b xs3 out' xs' | Exn x \<Rightarrow> out' = Threw x \<and> xs' = xs3"
  shows "runs_loop V c m opt F n cnd incr b xs out' xs'"
  unfolding runs_loop_def
proof (intro allI impI)
  fix T q0 qe st r
  assume wf: "wf_loop n F cnd incr b" and xs: "length xs = n" and l: "loop_at V c m opt F T n cnd incr b q0 qe" and T: "targets c T"
  show "ends V c m T qe 0 st (mk m q0 st xs r) (after_loop out') xs'"
  proof (rule loop_parts [OF l T])
    fix qb qc T1
    assume c: "case cnd of None \<Rightarrow> glides V c m q0 qb | Some e \<Rightarrow> tests V c m n (ecode opt True e) q0 qb qe"
      and lay: "lay V c m opt F T1 (case b of None \<Rightarrow> [] | Some s \<Rightarrow> [s]) qb qc"
      and T1: "T1 EC_JUMP_CONTINUE = qc" "targets c T1"
      and p: "case incr of None \<Rightarrow> glides V c m qc q0
         | Some e \<Rightarrow> holds c qc (ecode opt False e @ drop_code (pushes False e))
             \<and> glides V c m (qc + length (ecode opt False e @ drop_code (pushes False e))) q0"
    from loop_test [OF P wf xs c t, of st r] obtain r1 where r1: "length xs1 = n" "reaches V c (mk m q0 st xs r) (mk m qb st xs1 r1)"
      by auto
    obtain r2 where r2: "reaches V c (mk m qb st xs1 r1) (mk m qc st xs2 r2)"
      by (rule ends_iteration [OF body_runs [OF b wf r1(1) T1(2) lay] o T1(1)])
    have d: "delivers V c (mk m qc st xs2 r2) (tr, xs3) (\<lambda>u ys vm. length ys = n \<and> (\<exists>r'. vm = mk m q0 st ys r'))"
      by (rule step_runs [OF P wf _ p e]) (use l2 r1(1) in simp)
    have "ends V c m T qe 0 st (mk m qc st xs2 r2) (after_loop out') xs'"
    proof (cases tr)
      case (Val u)
      have i: "runs_loop V c m opt F n cnd incr b xs3 out' xs'" using n Val by simp
      show ?thesis
      proof (rule ends_val [OF d [unfolded Val]])
        fix vm assume "length xs3 = n \<and> (\<exists>r'. vm = mk m q0 st xs3 r')"
        with i wf l T show "ends V c m T qe 0 st vm (after_loop out') xs'" unfolding runs_loop_def by blast
      qed
    next
      case (Exn x)
      with ends_exn [OF d [unfolded Exn]] n show ?thesis by simp
    qed
    then show ?thesis by (rule ends_reaches [OF reaches_trans [OF r1(2) r2]])
  qed
qed


lemma for_code_eq:
  "scode opt F (N_FOR i cnd incr b) =
     for_code opt (case i of None \<Rightarrow> [] | Some s \<Rightarrow> clean_code opt F s) (map_option (ecode opt True) cnd)
       (case b of None \<Rightarrow> [] | Some s \<Rightarrow> clean_code opt F s)
       (case incr of None \<Rightarrow> [] | Some e \<Rightarrow> cleaned [Bytes (ecode opt False e)] (pushes False e))"
  by (simp add: clean_code_def cong: option.case_cong)

lemma for_parts:
  assumes P: "placed V c m n" and wf: "wf_stmt n F brk cont (N_FOR i cnd incr b)"
    and h: "holds c p (fin T p (scode opt F (N_FOR i cnd incr b)))" and T: "targets c T"
  obtains T1 where "targets c T1" "holds c p (fin T1 p (case i of None \<Rightarrow> [] | Some s \<Rightarrow> clean_code opt F s))"
    and "loop_at V c m opt F T n cnd incr b (p + plen (case i of None \<Rightarrow> [] | Some s \<Rightarrow> clean_code opt F s))
      (p + plen (scode opt F (N_FOR i cnd incr b)))"
    and "wf_loop n F cnd incr b"
proof (rule for_layout [where cnd = cnd and n = n and V = V, OF h [unfolded for_code_eq] placedD(1,2) [OF P]])
  show "T k \<le> length (byteCode c)" for k using T by (simp add: targets_def)
  show "cnd = Some e \<Longrightarrow> wf_expr n True e" and "cnd = Some e \<Longrightarrow> exact True e" for e using wf by auto
  fix T1 assume "\<And>k. T1 k \<le> length (byteCode c)"
    "holds c p (fin T1 p (case i of None \<Rightarrow> [] | Some s \<Rightarrow> clean_code opt F s))"
    "loop_at V c m opt F T n cnd incr b (p + plen (case i of None \<Rightarrow> [] | Some s \<Rightarrow> clean_code opt F s))
      (p + plen (for_code opt (case i of None \<Rightarrow> [] | Some s \<Rightarrow> clean_code opt F s) (map_option (ecode opt True) cnd)
       (case b of None \<Rightarrow> [] | Some s \<Rightarrow> clean_code opt F s)
       (case incr of None \<Rightarrow> [] | Some e \<Rightarrow> cleaned [Bytes (ecode opt False e)] (pushes False e))))"
  then show thesis using wf unfolding for_code_eq [symmetric]
    by (intro that [of T1]) (simp_all add: targets_def wf_loop_def split: option.splits)
qed

lemma runs_while:
  assumes P: "placed V c m n" and l: "runs_loop V c m opt F n cnd incr b xs out xs'"
  shows "runs V c m opt F n (N_FOR None cnd incr b) xs (after_loop out) xs'"
proof (rule runsI)
  fix brk cont p T st r
  assume wf: "wf_stmt n F brk cont (N_FOR None cnd incr b)" and xs: "length xs = n"
    and h: "holds c p (fin T p (scode opt F (N_FOR None cnd incr b)))" and T: "targets c T"
  have "wf_loop n F cnd incr b" "loop_at V c m opt F T n cnd incr b p (p + plen (scode opt F (N_FOR None cnd incr b)))"
    by (rule for_parts [OF P wf h T]; simp del: scode.simps)+
  with l xs T show "ends V c m T (p + plen (scode opt F (N_FOR None cnd incr b))) (spushes (N_FOR None cnd incr b)) st
      (mk m p st xs r) (after_loop out) xs'"
    unfolding runs_loop_def by (simp del: scode.simps)
qed

lemma runs_for:
  assumes P: "placed V c m n" and i: "runs V c m opt F n i xs out xs1" "exec V F i xs out xs1" "length xs1 = length xs"
    and l: "out = Normal \<Longrightarrow> runs_loop V c m opt F n cnd incr b xs1 out1 xs' \<and> out' = after_loop out1"
    and o: "out \<noteq> Normal \<Longrightarrow> out' = out \<and> xs' = xs1"
  shows "runs V c m opt F n (N_FOR (Some i) cnd incr b) xs out' xs'"
proof (rule runsI)
  fix brk cont p T st r
  let ?s = "N_FOR (Some i) cnd incr b"
  assume wf: "wf_stmt n F brk cont ?s" and xs: "length xs = n"
    and h: "holds c p (fin T p (scode opt F ?s))" and T: "targets c T"
  from wf have wi: "wf_stmt n F False False i" by simp
  show "ends V c m T (p + plen (scode opt F ?s)) (spushes ?s) st (mk m p st xs r) out' xs'"
  proof (rule for_parts [OF P wf h T])
    fix T1 assume 1: "targets c T1" "holds c p (fin T1 p (case Some i of None \<Rightarrow> [] | Some s \<Rightarrow> clean_code opt F s))"
      and loop: "loop_at V c m opt F T n cnd incr b (p + plen (case Some i of None \<Rightarrow> [] | Some s \<Rightarrow> clean_code opt F s)) (p + plen (scode opt F ?s))"
      and wl: "wf_loop n F cnd incr b"
    have e: "ends V c m T1 (p + plen (clean_code opt F i)) 0 st (mk m p st xs r) out xs1"
      by (rule runs_clean [OF i(1) P wi xs _ 1(1)]) (use 1(2) in simp)
    show ?thesis
    proof (cases "out = Normal")
      case True
      with ends_normal e obtain r1 where r1: "reaches V c (mk m p st xs r) (mk m (p + plen (clean_code opt F i)) st xs1 r1)" by blast
      from True l have "ends V c m T (p + plen (scode opt F ?s)) 0 st (mk m (p + plen (clean_code opt F i)) st xs1 r1) out' xs'"
        using loop wl xs i(3) T unfolding runs_loop_def by (simp del: scode.simps)
      from ends_reaches [OF r1 this] show ?thesis by simp
    next
      case False
      with exec_wfs(1) [OF i(2) wi] e o show ?thesis by (cases out) (simp_all add: ends_def)
    qed
  qed
qed

lemma runs_do:
  assumes P: "placed V c m n" and l: "runs_repeat V c m opt F n b e xs out xs'"
  shows "runs V c m opt F n (N_DO b e) xs (after_loop out) xs'"
proof (rule runsI)
  fix brk cont p T st r
  assume wf: "wf_stmt n F brk cont (N_DO b e)" and xs: "length xs = n"
    and h: "holds c p (fin T p (scode opt F (N_DO b e)))" and T: "targets c T"
  have code: "scode opt F (N_DO b e) = do_code opt (clean_code opt F b) (ecode opt True e)" by (simp add: clean_code_def)
  have "repeat_at V c m opt F T n b e p (p + plen (scode opt F (N_DO b e)))"
    unfolding code by (rule do_layout [OF h [unfolded code] placedD(1,2) [OF P]]) (use T wf in \<open>simp_all add: targets_def\<close>)
  with l wf xs T show "ends V c m T (p + plen (scode opt F (N_DO b e))) (spushes (N_DO b e)) st (mk m p st xs r) (after_loop out) xs'"
    unfolding runs_repeat_def by (simp del: scode.simps)
qed

lemma repeat_parts:
  assumes P: "placed V c m n" and r: "repeat_at V c m opt F T n b e q0 qe" and b: "runs V c m opt F n b xs out xs1"
    and wf: "wf_stmt n F True False b" and xs: "length xs = n"
  obtains T1 qc where "T1 EC_JUMP_BREAK = qe" "tests V c m n (ecode opt True e) qc q0 qe"
    and "ends V c m T1 qc 0 st (mk m q0 st xs r) out xs1"
proof -
  from r obtain T1 qc where 1: "T1 EC_JUMP_BREAK = qe" "targets c T1" "lay V c m opt F T1 [b] q0 qc"
    "tests V c m n (ecode opt True e) qc q0 qe" unfolding repeat_at_def targets_def by blast
  from 1(3) obtain p1 where p1: "glides V c m q0 p1" "holds c p1 (fin T1 p1 (clean_code opt F b))"
    "glides V c m (p1 + plen (clean_code opt F b)) qc" by auto
  from ends_reaches [OF glides_reaches [OF p1(1)] ends_glide [OF runs_clean [OF b P wf xs p1(2) 1(2)] p1(3)]]
  show thesis by (rule that [of T1 qc, OF 1(1,4)])
qed

lemma runs_repeat_leave:
  assumes P: "placed V c m n" and b: "runs V c m opt F n b xs out xs'" and o: "out \<noteq> Normal" "out \<noteq> Continued"
  shows "runs_repeat V c m opt F n b e xs out xs'"
  unfolding runs_repeat_def
proof (intro allI impI)
  fix T q0 qe st r
  assume wf: "wf_stmt n F True False b" and xs: "length xs = n" and l: "repeat_at V c m opt F T n b e q0 qe"
  show "ends V c m T qe 0 st (mk m q0 st xs r) (after_loop out) xs'"
    by (rule repeat_parts [OF P l b wf xs, of st r]) (rule ends_loop [OF _ o])
qed

lemma runs_repeat_test:
  assumes P: "placed V c m n" and b: "runs V c m opt F n b xs out xs1" "exec V F b xs out xs1" "length xs1 = length xs"
    and o: "out = Normal \<or> out = Continued" and t: "test V (Some e) xs1 = (tr, xs2)"
    and n: "case tr of Val tv \<Rightarrow> if tv then runs_repeat V c m opt F n b e xs2 out' xs' else out' = Normal \<and> xs' = xs2
            | Exn x \<Rightarrow> out' = Threw x \<and> xs' = xs2"
  shows "runs_repeat V c m opt F n b e xs out' xs'"
  unfolding runs_repeat_def
proof (intro allI impI)
  fix T q0 qe st r
  assume wf: "wf_stmt n F True False b" "wf_expr n True e" "exact True e" and xs: "length xs = n"
    and l: "repeat_at V c m opt F T n b e q0 qe" and T: "targets c T"
  show "ends V c m T qe 0 st (mk m q0 st xs r) (after_loop out') xs'"
  proof (rule repeat_parts [OF P l b(1) wf(1) xs, of st r])
    fix T1 qc
    assume c: "tests V c m n (ecode opt True e) qc q0 qe" and e: "ends V c m T1 qc 0 st (mk m q0 st xs r) out xs1"
    have "out = Normal" using exec_wfs(1) [OF b(2) wf(1)] o by simp
    with ends_normal e obtain r1 where r1: "reaches V c (mk m q0 st xs r) (mk m qc st xs1 r1)" by blast
    have "length xs1 = n" using b(3) xs by simp
    from run_test' [OF placedD(1,3-5) [OF P] wf(2,3) c this, of st r1]
    have d: "delivers V c (mk m qc st xs1 r1) (tr, xs2) (\<lambda>t ys vm. length ys = n \<and> (\<exists>r'. vm = mk m (if t then q0 else qe) st ys r'))"
      unfolding t .
    have "ends V c m T qe 0 st (mk m qc st xs1 r1) (after_loop out') xs'"
    proof (cases tr)
      case (Val tv)
      show ?thesis
      proof (rule ends_val [OF d [unfolded Val]])
        fix vm assume vm: "length xs2 = n \<and> (\<exists>r'. vm = mk m (if tv then q0 else qe) st xs2 r')"
        show "ends V c m T qe 0 st vm (after_loop out') xs'"
        proof (cases tv)
          case True
          with vm n Val wf l T show ?thesis unfolding runs_repeat_def by auto
        next
          case False
          with vm n Val show ?thesis by (auto intro: ends_normal0 [OF reaches_refl])
        qed
      qed
    next
      case (Exn x)
      with ends_exn [OF d [unfolded Exn]] n show ?thesis by simp
    qed
    then show ?thesis by (rule ends_reaches [OF r1])
  qed
qed

text \<open>Switch.\<close>

lemma switch_parts:
  assumes P: "placed V c m n" and h: "holds c p (fin T p (scode opt F (N_SWITCH e cs)))" and T: "targets c T"
  obtains T1 qe pb where "holds c p (ecode opt False e)" "T1 EC_JUMP_BREAK = qe" "targets c T1" "holds c qe (op_bytes OP_POP)"
    and "cases_at V c m opt F T1 n cs (p + length (ecode opt False e)) pb qe"
    and "p + plen (scode opt F (N_SWITCH e cs)) = qe + length (op_bytes OP_POP)"
proof -
  define B where "B = fst (cases_code opt (map (case_code opt F) cs))"
  define whole where "whole = Bytes (ecode opt False e) # B"
  define qe where "qe = p + plen whole"
  define T1 where "T1 = T(EC_JUMP_BREAK := qe)"
  have "(\<lambda>(t, body). (case_tests opt t, concat (map (\<lambda>s. cleaned (scode opt F s) (spushes s)) body))) = case_code opt F"
    by (auto simp: case_code_def clean_code_def [abs_def])
  then have code: "scode opt F (N_SWITCH e cs) = close EC_JUMP_BREAK (plen whole) 0 whole @ [Bytes (op_bytes OP_POP)]"
    by (simp add: switch_code_def Let_def whole_def B_def)
  note h1 = holds_fin_append [OF h [unfolded code]]
  have w: "holds c p (fin T1 p whole)" using h1(1) unfolding fin_close by (simp add: T1_def qe_def)
  then have "holds c p (fin T1 p ([Bytes (ecode opt False e)] @ B))" by (simp add: whole_def)
  note h2 = holds_fin_append [OF this]
  have B: "holds c (p + length (ecode opt False e)) (fin T1 (p + length (ecode opt False e)) B)" using h2(2) by simp
  have qe: "qe = p + length (ecode opt False e) + plen B" by (simp add: qe_def whole_def)
  have "cases_at V c m opt F T1 n cs (p + length (ecode opt False e))
      (p + length (ecode opt False e) + snd (cases_code opt (map (case_code opt F) cs))) qe"
    using cases_layout [OF B [unfolded B_def] placedD(1,2) [OF P], of V n] by (simp add: qe B_def)
  moreover have "targets c T1"
    using T holds_length [OF w] by (simp add: targets_def T1_def qe_def)
  moreover have "holds c qe (op_bytes OP_POP)" using h1(2) by (simp add: qe_def)
  moreover have "holds c p (ecode opt False e)" using h2(1) by simp
  moreover have "p + plen (scode opt F (N_SWITCH e cs)) = qe + length (op_bytes OP_POP)"
    unfolding code by (simp add: qe_def)
  moreover have "T1 EC_JUMP_BREAK = qe" by (simp add: T1_def)
  ultimately show thesis using that by blast
qed

lemma runs_switch:
  assumes P: "placed V c m n" and e: "eval V e xs = (r1, xs1)"
    and r: "case r1 of Exn x \<Rightarrow> out' = Threw x \<and> xs' = xs1
       | Val v \<Rightarrow> (case selected V v cs xs1 of
           (Exn x, xs2) \<Rightarrow> out' = Threw x \<and> xs' = xs2
         | (Val ss, xs2) \<Rightarrow> \<exists>out. runs_list V c m opt F n ss xs2 out xs' \<and> execs V F ss xs2 out xs' \<and> out' = after_loop out)"
  shows "runs V c m opt F n (N_SWITCH e cs) xs out' xs'"
proof (rule runsI)
  fix brk cont p T st r
  let ?s = "N_SWITCH e cs"
  assume wf: "wf_stmt n F brk cont ?s" and xs: "length xs = n"
    and h: "holds c p (fin T p (scode opt F ?s))" and T: "targets c T"
  from wf have we: "wf_expr n False e" "exact False e" by simp_all
  have wc: "\<forall>x \<in> set (butlast cs). fst x \<noteq> None"
    "\<forall>x \<in> set cs. case fst x of None \<Rightarrow> True | Some e \<Rightarrow> wf_expr n False e \<and> exact False e" using wf by auto
  show "ends V c m T (p + plen (scode opt F ?s)) (spushes ?s) st (mk m p st xs r) out' xs'"
  proof (rule switch_parts [OF P h T])
    fix T1 qe pb
    assume 1: "holds c p (ecode opt False e)" "T1 EC_JUMP_BREAK = qe" "targets c T1" "holds c qe (op_bytes OP_POP)"
      and cases: "cases_at V c m opt F T1 n cs (p + length (ecode opt False e)) pb qe"
      and q: "p + plen (scode opt F ?s) = qe + length (op_bytes OP_POP)"
    have d: "delivers V c (mk m p st xs r) (r1, xs1) (leaves m n (p + length (ecode opt False e)) (pushes False e) True st)"
      using expr_delivers [OF P we(1) 1(1) xs, of st r] we(2) e by simp
    have pop: "reaches V c (mk m qe (v # st) ys w) (mk m (p + plen (scode opt F ?s)) st ys v)" for v ys w
      unfolding q by (rule run_pop [OF 1(4) placedD(1) [OF P]])
    show ?thesis
    proof (cases r1)
      case (Exn x)
      with ends_exn [OF d [unfolded Exn]] r show ?thesis by simp
    next
      case (Val v)
      from d [unfolded Val] obtain w where w: "reaches V c (mk m p st xs r) (mk m (p + length (ecode opt False e)) (v # st) xs1 w)" "length xs1 = n"
        by (auto elim: leaves_exact)
      obtain r2 xs2 where sel: "selected V v cs xs1 = (r2, xs2)" by (cases "selected V v cs xs1")
      note d2 = run_matching [OF placedD(1,2,4,5) [OF P] cases wc w(2), of v st w, unfolded sel]
      have "ends V c m T (p + plen (scode opt F ?s)) 0 st (mk m (p + length (ecode opt False e)) (v # st) xs1 w) out' xs'"
      proof (cases r2)
        case (Exn x)
        with ends_exn [OF d2 [unfolded Exn]] r Val sel show ?thesis by simp
      next
        case ss: (Val ss)
        from r Val sel ss obtain out where out: "runs_list V c m opt F n ss xs2 out xs'" "execs V F ss xs2 out xs'" "out' = after_loop out"
          by auto
        have wss: "\<forall>s \<in> set ss. wf_stmt n F True False s"
          using selected_subset [OF sel [unfolded ss]] wf by fastforce
        show ?thesis
        proof (rule ends_val [OF d2 [unfolded ss]])
          fix vm assume "length xs2 = n \<and> (\<exists>pb r. vm = mk m pb (v # st) xs2 r \<and> lay V c m opt F T1 ss pb qe)"
          then obtain pb' r' where vm: "length xs2 = n" "vm = mk m pb' (v # st) xs2 r'" "lay V c m opt F T1 ss pb' qe" by blast
          have b: "ends V c m T1 qe 0 (v # st) vm out xs'"
            using out(1) wss vm 1(3) unfolding runs_list_def by blast
          from exec_wfs(2) [OF out(2) wss] have nc: "out \<noteq> Continued" by simp
          show "ends V c m T (p + plen (scode opt F ?s)) 0 st vm out' xs'"
          proof (cases "out = Normal \<or> out = Broke")
            case True
            with b 1(2) obtain w' where "reaches V c vm (mk m qe (v # st) xs' w')" by (auto simp: ends_def)
            from ends_normal0 [OF reaches_trans [OF this pop]] have "ends V c m T (p + plen (scode opt F ?s)) 0 st vm Normal xs'" .
            moreover have "out' = Normal" using True out(3) by auto
            ultimately show ?thesis by (simp only:)
          next
            case False
            with b nc out(3) show ?thesis by (cases out) (auto simp: ends_def)
          qed
        qed
      qed
      from ends_reaches [OF w(1) this] show ?thesis by simp
    qed
  qed
qed

text \<open>The whole.\<close>

lemma machine_follows:
  assumes P: "placed V c m n"
  shows "exec V F s xs out xs' \<Longrightarrow> runs V c m opt F n s xs out xs'"
    and "execs V F ss xs out xs' \<Longrightarrow> runs_list V c m opt F n ss xs out xs'"
    and "loop V F cnd incr b xs out xs' \<Longrightarrow> runs_loop V c m opt F n cnd incr b xs out xs'"
    and "repeat V F b' e' xs out xs' \<Longrightarrow> runs_repeat V c m opt F n b' e' xs out xs'"
proof (induction rule: exec_execs_loop_repeat.inducts)
  case (exec_expr e xs v xs')
  then show ?case by (auto intro: runs_expr [OF P])
next
  case (exec_expr_exn e xs x xs')
  then show ?case by (auto intro: runs_expr [OF P])
next
  case (exec_nop xs)
  show ?case by (rule runs_nop)
next
  case (exec_var vs xs u xs')
  then show ?case by (auto intro: runs_var [OF P])
next
  case (exec_var_exn vs xs x xs')
  then show ?case by (auto intro: runs_var [OF P])
next
  case (exec_block ss xs out xs')
  then show ?case by (blast intro: runs_block)
next
  case (exec_directives ss xs out xs')
  then show ?case by (blast intro: runs_directives)
next
  case (exec_if_true c xs xs1 s out xs' e)
  then show ?case by (blast intro: runs_if_true [OF P])
next
  case (exec_if_false c xs xs1 s' out xs' s)
  then show ?case by (blast intro: runs_if_false [OF P])
next
  case (exec_if_none c xs xs' s)
  then show ?case by (blast intro: runs_if_none [OF P])
next
  case (exec_if_exn c xs x xs' s e)
  then show ?case by (blast intro: runs_if_exn [OF P])
next
  case (exec_for i xs xs1 c p b out xs')
  show ?case by (rule runs_for [OF P exec_for(2,1) exec_lengths(1) [OF exec_for(1)]]) (use exec_for(4) in auto)
next
  case (exec_for_abrupt i xs out xs' c p b)
  show ?case by (rule runs_for [OF P exec_for_abrupt(2,1) exec_lengths(1) [OF exec_for_abrupt(1)]]) (use exec_for_abrupt in auto)
next
  case (exec_while c p b xs out xs')
  then show ?case by (blast intro: runs_while [OF P])
next
  case (exec_do b c xs out xs')
  then show ?case by (blast intro: runs_do [OF P])
next
  case (exec_break xs)
  show ?case by (rule runs_break [OF P])
next
  case (exec_continue xs)
  show ?case by (rule runs_continue [OF P])
next
  case (exec_switch e xs v xs1 cs ss xs2 out xs')
  then show ?case by (intro runs_switch [OF P exec_switch(1)]) auto
next
  case (exec_switch_exn e xs x xs' cs)
  then show ?case by (intro runs_switch [OF P exec_switch_exn]) auto
next
  case (exec_switch_case_exn e xs v xs1 cs x xs')
  then show ?case by (intro runs_switch [OF P exec_switch_case_exn(1)]) auto
next
  case (exec_return e xs v xs' bl)
  then show ?case by (auto intro: runs_return [OF P])
next
  case (exec_return_exn e xs x xs' bl)
  then show ?case by (auto intro: runs_return [OF P])
next
  case (exec_return_none bl xs)
  show ?case by (rule runs_return_none [OF P])
next
  case (exec_throw e xs v xs')
  then show ?case by (auto intro: runs_throw [OF P])
next
  case (exec_throw_exn e xs x xs')
  then show ?case by (auto intro: runs_throw [OF P])
next
  case (execs_nil xs)
  show ?case by (rule runs_list_nil)
next
  case (execs_next s xs xs1 ss out xs')
  show ?case by (rule runs_list_cons [OF P execs_next(2) exec_lengths(1) [OF execs_next(1)]]) (use execs_next(4) in auto)
next
  case (execs_abrupt s xs out xs' ss)
  show ?case by (rule runs_list_cons [OF P execs_abrupt(2) exec_lengths(1) [OF execs_abrupt(1)]]) (use execs_abrupt(3) in auto)
next
  case (loop_done c xs xs' p b)
  then show ?case by (intro runs_loop_stop [OF P loop_done]) auto
next
  case (loop_exn c xs x xs' p b)
  then show ?case by (intro runs_loop_stop [OF P loop_exn]) auto
next
  case (loop_body c xs xs1 b out xs' p)
  then show ?case by (blast intro: runs_loop_body [OF P])
next
  case (loop_step_exn c xs xs1 b out xs2 p x xs')
  show ?case by (rule runs_loop_next [OF P loop_step_exn(1,3) exec_lengths(2) [OF loop_step_exn(2)] loop_step_exn(5,4)]) simp
next
  case (loop_next c xs xs1 b out xs2 p u xs3 out' xs')
  show ?case by (rule runs_loop_next [OF P loop_next(1,3) exec_lengths(2) [OF loop_next(2)] loop_next(7,4)]) (use loop_next(6) in simp)
next
  case (repeat_body b xs out xs' c)
  then show ?case by (blast intro: runs_repeat_leave [OF P])
next
  case (repeat_exn b xs out xs1 c x xs')
  show ?case by (rule runs_repeat_test [OF P repeat_exn(2,1) exec_lengths(1) [OF repeat_exn(1)] repeat_exn(4,3)]) simp
next
  case (repeat_done b xs out xs1 c xs')
  show ?case by (rule runs_repeat_test [OF P repeat_done(2,1) exec_lengths(1) [OF repeat_done(1)] repeat_done(4,3)]) simp
next
  case (repeat_next b xs out xs1 c xs2 out' xs')
  show ?case by (rule runs_repeat_test [OF P repeat_next(2,1) exec_lengths(1) [OF repeat_next(1)] repeat_next(6,3)]) (use repeat_next(5) in simp)
qed

section \<open>Complete code has no holes\<close>

fun kinds :: "piece list \<Rightarrow> jump_kind set" where
  "kinds [] = {}"
| "kinds (Bytes bs # ps) = kinds ps"
| "kinds (Hole k # ps) = insert k (kinds ps)"

lemma kinds_append [simp]: "kinds (ps @ qs) = kinds ps \<union> kinds qs"
  by (induction ps rule: kinds.induct) auto

lemma kinds_close [simp]: "kinds (close k t p ps) = kinds ps - {k}"
  by (induction k t p ps rule: close.induct) auto

lemma kinds_concat [simp]: "kinds (concat pss) = (\<Union>ps \<in> set pss. kinds ps)"
  by (induction pss) auto

lemma kinds_cleaned [simp]: "kinds (cleaned ps k) = kinds ps"
  by (simp add: cleaned_def)

lemma kinds_none: "kinds ps = {} \<Longrightarrow> final T p ps = pbytes ps \<and> holes p ps = []"
  by (induction ps arbitrary: p rule: kinds.induct) auto

lemma kinds_if [simp]: "kinds (if_code opt c a b) = kinds a \<union> kinds b"
  by (simp add: if_code_def Let_def)

lemma kinds_for: "kinds (for_code opt init c body incr)
    = (kinds init \<union> kinds body \<union> kinds incr) - {EC_JUMP_BREAK, EC_JUMP_CONTINUE}"
  by (auto simp: for_code_def Let_def split: option.splits)

lemma all_kinds: "A - {EC_JUMP_BREAK, EC_JUMP_CONTINUE} = {}" for A
proof -
  have "x \<in> {EC_JUMP_BREAK, EC_JUMP_CONTINUE}" for x by (cases x) auto
  then show ?thesis by blast
qed

lemma kinds_loops [simp]:
  "kinds (for_code opt init c body incr) = {}" "kinds (do_code opt body e) = {}"
  using all_kinds by (auto simp: kinds_for do_code_def Let_def)

lemma kinds_cases: "kinds (fst (cases_code opt cs)) = (\<Union>c \<in> set cs. kinds (snd c))"
  by (induction opt cs rule: cases_code.induct) (auto simp: Let_def split: prod.split option.split)

lemma kinds_switch [simp]: "kinds (switch_code opt e cs) = (\<Union>c \<in> set cs. kinds (snd c)) - {EC_JUMP_BREAK}"
  by (simp add: switch_code_def Let_def kinds_cases)

lemma kinds_scode:
  "wf_stmt n F brk cont s \<Longrightarrow> k \<in> kinds (scode opt F s) \<Longrightarrow>
     (k = EC_JUMP_BREAK \<longrightarrow> brk) \<and> (k = EC_JUMP_CONTINUE \<longrightarrow> cont)"
proof (induction n F brk cont s arbitrary: k rule: wf_stmt.induct)
  case (4 n F brk cont ss)
  then show ?case by auto
next
  case (5 n F brk cont ss)
  then show ?case by auto
next
  case (6 n F brk cont c s e)
  then show ?case by (cases e) auto
next
  case (11 n F brk cont e cs)
  from 11(3) obtain t body s where s: "(t, body) \<in> set cs" "s \<in> set body" "k \<in> kinds (scode opt F s)" "k \<noteq> EC_JUMP_BREAK"
    by auto
  with 11(2) have "wf_stmt n F True False s" by auto
  from 11(1) [OF s(1) refl s(2) this s(3)] s(4) show ?case by simp
qed auto

section \<open>Bounded runs\<close>

lemma reaches_run:
  assumes "reaches V c vm vm'" and "step V c vm' = r" and "\<And>v. r \<noteq> Running v"
  shows "\<exists>N. run_vm V c N vm = r"
  using assms(1) unfolding reaches_def
proof (induction rule: converse_rtranclp_induct)
  case base
  have "run_vm V c 1 vm' = r" using assms(2,3) by (simp split: run.splits)
  then show ?case by blast
next
  case (step y z)
  then obtain N where "run_vm V c N z = r" by blast
  with step(1) have "run_vm V c (Suc N) y = r" by simp
  then show ?case by blast
qed

lemma throws_run:
  assumes "throws V c vm x xs" and "handlers c = []"
  shows "\<exists>N. run_vm V c N vm = Raised x xs"
proof -
  obtain vm' where vm': "reaches V c vm vm'" "exception vm' = Some x" "trap vm'" "locals vm' = xs"
    using assms(1) by (auto simp: throws_def)
  have "step V c vm' = Raised x xs"
    using vm' assms(2) by (simp add: step_def attention_def Let_def processException_def checkExceptionHandlers_def)
  from reaches_run [OF vm'(1) this] show ?thesis by simp
qed

lemma returns_exec:
  shows "exec V F s xs out xs' \<Longrightarrow> returns s \<Longrightarrow> out \<noteq> Normal"
    and "execs V F ss xs out xs' \<Longrightarrow> \<exists>s \<in> set ss. returns s \<Longrightarrow> out \<noteq> Normal"
    and "loop V F cnd incr b xs out xs' \<Longrightarrow> True"
    and "repeat V F b' e' xs out xs' \<Longrightarrow> True"
  by (induction rule: exec_execs_loop_repeat.inducts) auto

end
