(* ===== verification/PlusFree.thy ===== *)
theory PlusFree
  imports CompileRun
begin

text \<open>
  Unary plus. The code generator ignores it, so code is right for programs that have none, or for values
  on which the conversion to a number does nothing: what a program without unary plus means does not depend on this
  conversion, and neither does the interpreter.
\<close>

abbreviation unconverted :: "'v values \<Rightarrow> 'v values" where
  "unconverted V \<equiv> V\<lparr>v_to_number := Val\<rparr>"

section \<open>The interpreter\<close>

lemma catches_unconverted: "catches (unconverted V) = catches V"
  by (intro ext) (simp add: catches_def split: option.splits)

lemma find_unconverted: "findExceptionHandler (unconverted V) = findExceptionHandler V"
  by (intro ext) (simp add: findExceptionHandler_def catches_unconverted)

lemma handlers_unconverted:
  "find_finally (unconverted V) = find_finally V" "find_catch (unconverted V) = find_catch V"
  "checkExceptionHandlers (unconverted V) = checkExceptionHandlers V"
  by (intro ext; simp add: find_finally_def find_catch_def checkExceptionHandlers_def find_unconverted cong: option.case_cong)+

lemma parts_unconverted:
  "push_outcome (unconverted V) = push_outcome V" "branch (unconverted V) = branch V"
  "call_finally (unconverted V) = call_finally V"
  by (intro ext, simp add: push_outcome_def branch_def call_finally_def find_unconverted split: outcome.split)+

lemma exec_op_unconverted: "exec_op (unconverted V) c op n vm = exec_op V c op n vm"
proof (cases op)
  case (OP_BINARY b)
  then show ?thesis by (auto simp: with_pop_def parts_unconverted split: list.split outcome.split)
next
  case (OP_UNARY u)
  then show ?thesis by (simp add: with_pop_def parts_unconverted split: list.split outcome.split)
qed (simp_all add: parts_unconverted)

lemma run_unconverted: "run_vm (unconverted V) c n vm = run_vm V c n vm"
proof -
  have "step (unconverted V) c vm = step V c vm" for vm
    by (simp add: step_def attention_def processException_def handlers_unconverted exec_op_unconverted Let_def
        split: option.splits)
  then show ?thesis by (induction n arbitrary: vm) (simp_all split: run.splits)
qed

lemma enter_unconverted [simp]: "enter (unconverted V) = enter V"
  by (simp add: enter_def fun_eq_iff)

section \<open>The semantics\<close>

fun plus_free_expr :: "expr \<Rightarrow> bool" where
  "plus_free_expr (N_ASSIGN_OP d l r) \<longleftrightarrow> plus_free_expr r"
| "plus_free_expr (N_BINARY_OP tok l r) \<longleftrightarrow> plus_free_expr l \<and> plus_free_expr r"
| "plus_free_expr (N_UNARY_OP tok e) \<longleftrightarrow> tok \<noteq> T_PLUS \<and> plus_free_expr e"
| "plus_free_expr (N_POSTFIX_OP tok e) \<longleftrightarrow> plus_free_expr e"
| "plus_free_expr (N_TENARY c a b) \<longleftrightarrow> plus_free_expr c \<and> plus_free_expr a \<and> plus_free_expr b"
| "plus_free_expr (N_EXPRESSIONS es) \<longleftrightarrow> (\<forall>e \<in> set es. plus_free_expr e)"
| "plus_free_expr _ \<longleftrightarrow> True"

function plus_free :: "stmt \<Rightarrow> bool" where
  "plus_free (N_EXPRESSION e) \<longleftrightarrow> plus_free_expr e"
| "plus_free N_NOP \<longleftrightarrow> True"
| "plus_free (N_VAR_DEFINITION vs) \<longleftrightarrow> (\<forall>e \<in> set (inits vs). plus_free_expr e)"
| "plus_free (N_BLOCK ss) \<longleftrightarrow> (\<forall>s \<in> set ss. plus_free s)"
| "plus_free (N_DIRECTIVES ss) \<longleftrightarrow> (\<forall>s \<in> set ss. plus_free s)"
| "plus_free (N_IF c s e) \<longleftrightarrow>
     plus_free_expr c \<and> plus_free s \<and> (case e of None \<Rightarrow> True | Some s' \<Rightarrow> plus_free s')"
| "plus_free (N_FOR i c p b) \<longleftrightarrow>
     (case i of None \<Rightarrow> True | Some s \<Rightarrow> plus_free s) \<and> (case c of None \<Rightarrow> True | Some e \<Rightarrow> plus_free_expr e)
     \<and> (case p of None \<Rightarrow> True | Some e \<Rightarrow> plus_free_expr e) \<and> (case b of None \<Rightarrow> True | Some s \<Rightarrow> plus_free s)"
| "plus_free (N_DO b c) \<longleftrightarrow> plus_free b \<and> plus_free_expr c"
| "plus_free N_BREAK \<longleftrightarrow> True"
| "plus_free N_CONTINUE \<longleftrightarrow> True"
| "plus_free (N_SWITCH e cs) \<longleftrightarrow> plus_free_expr e
     \<and> (\<forall>(t, body) \<in> set cs. (case t of None \<Rightarrow> True | Some e \<Rightarrow> plus_free_expr e) \<and> (\<forall>s \<in> set body. plus_free s))"
| "plus_free (N_RETURN e bl) \<longleftrightarrow> (case e of None \<Rightarrow> True | Some e \<Rightarrow> plus_free_expr e)"
| "plus_free (N_THROW e) \<longleftrightarrow> plus_free_expr e"
| "plus_free (N_TRY b cs f nb) \<longleftrightarrow> False"
  by pat_completeness auto
termination
proof (relation "measure size", goal_cases)
  case (9 e cs x t body s)
  then have "size s \<le> size_list size body" by (simp add: size_list_estimation')
  moreover from 9 have "size_prod (\<lambda>x. 0) (size_list size) (t, body)
      \<le> size_list (size_prod (\<lambda>x. 0) (size_list size)) cs" by (intro size_list_estimation') auto
  ultimately show ?case by simp
qed (auto simp: less_Suc_eq_le size_list_estimation')

lemma seq_cong: "r = r' \<Longrightarrow> (\<And>v xs. f v xs = g v xs) \<Longrightarrow> seq r f = seq r' g"
  by (cases r'; cases "fst r'") auto

lemma literal_unconverted [simp]: "literal_value (unconverted V) lit = literal_value V lit"
  by (cases lit) simp_all

lemma eval_unconverted: "plus_free_expr e \<Longrightarrow> eval (unconverted V) e xs = eval V e xs"
proof (induction V e xs rule: eval.induct)
  case (5 V tok e xs)
  then show ?case by (cases tok) (auto intro!: seq_cong simp: increment_def)
qed (auto intro!: seq_cong simp: increment_def split: option.splits)

lemma eval_all_unconverted: "\<forall>e \<in> set es. plus_free_expr e \<Longrightarrow> eval_all (unconverted V) es xs = eval_all V es xs"
  by (induction es arbitrary: xs) (auto intro!: seq_cong simp: eval_unconverted)

lemma eval_opt_unconverted: "case p of None \<Rightarrow> True | Some e \<Rightarrow> plus_free_expr e \<Longrightarrow>
    eval_all (unconverted V) (case p of None \<Rightarrow> [] | Some e \<Rightarrow> [e]) xs = eval_all V (case p of None \<Rightarrow> [] | Some e \<Rightarrow> [e]) xs"
  by (rule eval_all_unconverted) (auto split: option.splits)

lemma test_unconverted: "case c of None \<Rightarrow> True | Some e \<Rightarrow> plus_free_expr e \<Longrightarrow> test (unconverted V) c xs = test V c xs"
  by (auto intro!: seq_cong simp: test_def eval_unconverted split: option.splits)

abbreviation plus_free_cases :: "(expr option \<times> stmt list) list \<Rightarrow> bool" where
  "plus_free_cases cs \<equiv>
     \<forall>(t, body) \<in> set cs. (case t of None \<Rightarrow> True | Some e \<Rightarrow> plus_free_expr e) \<and> (\<forall>s \<in> set body. plus_free s)"

lemma selected_unconverted: "plus_free_cases cs \<Longrightarrow> selected (unconverted V) v cs xs = selected V v cs xs"
proof -
  assume "plus_free_cases cs"
  then have "matching (unconverted V) v cs xs = matching V v cs xs"
    by (induction V v cs xs rule: matching.induct) (auto intro!: seq_cong simp: eval_unconverted)
  then show ?thesis by (simp add: selected_def)
qed

text \<open>The statements that a switch runs are among those of its clauses.\<close>

lemma seq_ValD: "seq r f = (Val v, s') \<Longrightarrow> \<exists>a s. r = (Val a, s) \<and> f a s = (Val v, s')"
  by (cases "(r, f)" rule: seq.cases) auto

lemma matching_suffix:
  "matching V v cs xs = (Val (Some ss), xs') \<Longrightarrow> \<forall>s \<in> set ss. \<exists>(t, body) \<in> set cs. s \<in> set body"
proof (induction cs arbitrary: xs)
  case (Cons c cs)
  obtain t body where c: "c = (t, body)" by (cases c)
  show ?case
  proof (cases t)
    case None
    with Cons c show ?thesis by auto
  next
    case (Some e)
    from Cons(2) [unfolded c Some matching.simps] obtain b xs1 where
      "(if b then (Val (Some (concat (map snd ((Some e, body) # cs)))), xs1) else matching V v cs xs1) = (Val (Some ss), xs')"
      by (auto dest!: seq_ValD)
    then show ?thesis
    proof (cases b)
      case False
      with \<open>(if b then _ else _) = _\<close> Cons(1) [of xs1] show ?thesis by auto
    qed (auto simp: c Some split_beta)
  qed
qed simp

lemma from_default_suffix: "\<forall>s \<in> set (from_default cs). \<exists>(t, body) \<in> set cs. s \<in> set body"
  by (induction cs rule: from_default.induct) (auto simp: split_beta)

lemma selected_suffix:
  assumes "selected V v cs xs = (Val ss, xs')"
  shows "\<forall>s \<in> set ss. \<exists>(t, body) \<in> set cs. s \<in> set body"
proof -
  from seq_ValD [OF assms [unfolded selected_def]] obtain m xs1 where
    m: "matching V v cs xs = (Val m, xs1)" "ss = (case m of Some ss \<Rightarrow> ss | None \<Rightarrow> from_default cs)" by auto
  show ?thesis
  proof (cases m)
    case None
    with m(2) from_default_suffix [of cs] show ?thesis by simp
  next
    case (Some ss')
    with m matching_suffix [of V v cs xs ss xs1] show ?thesis by simp
  qed
qed

lemma selected_free:
  "plus_free_cases cs \<Longrightarrow> selected V v cs xs = (Val ss, xs') \<Longrightarrow> \<forall>s \<in> set ss. plus_free s"
  using selected_suffix [of V v cs xs ss xs'] by fast

lemma semantics_unconverted:
  "exec V F s xs out xs' \<Longrightarrow> plus_free s \<Longrightarrow> exec (unconverted V) F s xs out xs'"
  "execs V F ss xs out xs' \<Longrightarrow> \<forall>s \<in> set ss. plus_free s \<Longrightarrow> execs (unconverted V) F ss xs out xs'"
  "loop V F c p b xs out xs' \<Longrightarrow> plus_free (N_FOR None c p b) \<Longrightarrow> loop (unconverted V) F c p b xs out xs'"
  "repeat V F b' e xs out xs' \<Longrightarrow> plus_free b' \<Longrightarrow> plus_free_expr e \<Longrightarrow> repeat (unconverted V) F b' e xs out xs'"
proof (induction rule: exec_execs_loop_repeat.inducts)
  case loop_done
  then show ?case by (auto intro: exec_execs_loop_repeat.loop_done simp: test_unconverted)
next
  case loop_exn
  then show ?case by (auto intro: exec_execs_loop_repeat.loop_exn simp: test_unconverted)
next
  case (loop_body c xs xs1 b out xs' p)
  show ?case by (rule exec_execs_loop_repeat.loop_body [of _ c xs xs1]) (use loop_body in \<open>auto simp: test_unconverted split: option.splits\<close>)
next
  case (loop_step_exn c xs xs1 b out xs2 p x xs')
  show ?case by (rule exec_execs_loop_repeat.loop_step_exn [of _ c xs xs1 _ b out xs2])
    (use loop_step_exn eval_opt_unconverted [of p V xs2] in \<open>auto simp: test_unconverted split: option.splits\<close>)
next
  case (loop_next c xs xs1 b out xs2 p u xs3 out' xs')
  show ?case by (rule exec_execs_loop_repeat.loop_next [of _ c xs xs1 _ b out xs2 p u xs3])
    (use loop_next eval_opt_unconverted [of p V xs2] in \<open>auto simp: test_unconverted split: option.splits\<close>)
next
  case (exec_switch e xs v xs1 cs ss xs2 out xs')
  then have "\<forall>s \<in> set ss. plus_free s" using selected_free by fastforce
  with exec_switch show ?case by (auto intro!: exec_execs_loop_repeat.exec_switch simp: eval_unconverted selected_unconverted)
next
  case (exec_switch_case_exn e xs v xs1 cs x xs')
  then show ?case by (auto intro!: exec_execs_loop_repeat.exec_switch_case_exn simp: eval_unconverted selected_unconverted)
next
  case (exec_return_none bl xs)
  show ?case using exec_execs_loop_repeat.exec_return_none [of "unconverted V" F bl xs]
    by (cases "isConstructor F") simp_all
qed (auto intro: exec_execs_loop_repeat.intros simp: eval_unconverted eval_all_unconverted test_unconverted)

end
