(* ===== verification/Compiled.thy ===== *)
theory Compiled
  imports PlusFree
begin

text \<open>
  Compiled functions: the code generator applied to a whole function body and the interpreter
  run on what it produced, joined into one statement, with what the generated code gets wrong.
\<close>

section \<open>Functions\<close>

text \<open>What a function returns when control reaches the end of its body, and the code for it.\<close>

definition function_end :: "'v values \<Rightarrow> function_info \<Rightarrow> 'v" where
  "function_end V F =
     (if isConstructor F then v_this V
      else if \<not> resultType F \<and> \<not> hasReturn F \<or> resultType F \<and> resultVoid F then v_undefined V
      else v_null V)"

definition end_code :: "function_info \<Rightarrow> u8 list" where
  "end_code F =
     (if isConstructor F then op_bytes OP_LOAD_THIS @ op_bytes OP_RETURN_VALUE
      else if \<not> resultType F \<and> \<not> hasReturn F \<or> resultType F \<and> resultVoid F then op_bytes OP_RETURN
      else op_bytes OP_LOAD_NULL @ op_bytes OP_RETURN_VALUE)"

definition body_code :: "bool \<Rightarrow> function_info \<Rightarrow> stmt list \<Rightarrow> piece list" where
  "body_code opt F body = concat (map (clean_code opt F) body)"

lemma gen_children_append:
  "gen_children m (gs @ hs) st cp = gen_children m hs st (gen_children m gs st cp)"
proof (induction gs arbitrary: cp)
  case (Cons g gs)
  have "gen_children m hs st cp = cp" if "error cp" using that by (cases hs) auto
  with Cons show ?case by simp
qed simp

lemma end_function:
  assumes "currentFunction st = F"
  shows "\<exists>tail. genEndFunction st cp = add_code [Bytes tail] 0 0 cp
    \<and> (tail = end_code F \<or> tail = [] \<and> (lastOp cp = opnum OP_RETURN \<or> lastOp cp = opnum OP_RETURN_VALUE))"
proof -
  have l: "add_code ps k l cp\<lparr>lastOp := l'\<rparr> = add_code ps k l' cp" for ps k l l' by (simp add: add_code_def)
  have j: "add_code [Bytes a, Bytes b] k l cp = add_code [Bytes (a @ b)] k l cp" for a b k l
    by (rule add_code_cong) simp_all
  have z: "cp\<lparr>lastOp := 0\<rparr> = add_code [Bytes []] 0 0 cp" by (simp add: add_code_def)
  show ?thesis
  proof (cases "lastOp cp = opnum OP_RETURN \<or> lastOp cp = opnum OP_RETURN_VALUE")
    case True
    then have "genEndFunction st cp = add_code [Bytes []] 0 0 cp" by (auto simp: genEndFunction_def Let_def z)
    with True show ?thesis by blast
  next
    case False
    then have "genEndFunction st cp = add_code [Bytes (end_code F)] 0 0 cp"
      using assms by (auto simp: genEndFunction_def Let_def emit_simps l j end_code_def instruction_def)
    then show ?thesis by blast
  qed
qed

lemma genFunction_code:
  assumes wf: "\<forall>s \<in> set body. wf_stmt n F False False s" and err: "\<not> error cp"
    and st: "plain F (st\<lparr>currentFunction := F\<rparr>)" and opt: "0 < optimizeLevel cp \<longleftrightarrow> opt"
    and len: "plen (body_code opt F body) < 2 ^ 27"
  shows "\<exists>tail. setFunctionCode (genFunction F (map gen_stmt body) st cp) = Some (pbytes (body_code opt F body) @ tail, [])
    \<and> (tail = end_code F \<or> tail = [] \<and> (\<exists>s \<in> set body. returns s))"
proof -
  let ?st = "st\<lparr>currentFunction := F\<rparr>"
  define cp0 where "cp0 = allocCodeBuffer (cp\<lparr>lastOp := 0\<rparr>)"
  have cp0: "\<not> error cp0" "optimizeLevel cp0 = optimizeLevel cp" "buf (code cp0) = []" "exceptions (code cp0) = []" "lastOp cp0 = 0"
    using err by (simp_all add: cp0_def)
  have ready: "ready False False cp0" using cp0 by (simp add: ready_def)
  have "gens (concat (map (\<lambda>s. cleaned (scode opt F s) (spushes s)) body)) 0 (\<exists>s \<in> set body. returns s) cp0
      (gen_children (stackCount (code cp0)) (map gen_stmt body) ?st cp0)"
  proof (rule gen_children_gens)
    fix s and cp' :: compiler
    assume s: "s \<in> set body" and like: "like cp0 cp'"
    have "plen (scode opt F s) < 2 ^ 27"
      using plen_concat [OF s, of "clean_code opt F"] plen_cleaned [of "scode opt F s" "spushes s"] len
      by (simp add: body_code_def clean_code_def)
    with wf s ready_like [OF ready like] st like_facts(3) [OF like] opt cp0(2)
    show "gens (scode opt F s) (spushes s) (returns s) cp' (gen_stmt s ?st cp')"
      by (intro gen_stmt_code [of n F False False s]) auto
  qed (use cp0 in simp_all)
  then obtain l where l: "no_return 0 l \<or> (\<exists>s \<in> set body. returns s)"
    "gen_children (stackCount (code cp0)) (map gen_stmt body) ?st cp0 = add_code (body_code opt F body) 0 l cp0"
    by (auto simp: gens_def cp0(5) body_code_def clean_code_def [abs_def])
  let ?cp1 = "add_code (body_code opt F body) 0 l cp0"
  obtain tail where tail: "genEndFunction ?st ?cp1 = add_code [Bytes tail] 0 0 ?cp1"
    "tail = end_code F \<or> tail = [] \<and> (lastOp ?cp1 = opnum OP_RETURN \<or> lastOp ?cp1 = opnum OP_RETURN_VALUE)"
    using end_function [of ?st F ?cp1] by auto
  have "genFunction F (map gen_stmt body) st cp
      = gen_children (stackCount (code cp0)) [genEndFunction] ?st ?cp1"
    by (simp add: genFunction_def Let_def genDirectives_def getStackCount_def gen_children_append cp0_def [symmetric] l(2)
        del: gen_children.simps)
  also have "\<dots> = add_code (body_code opt F body @ [Bytes tail]) 0 0 cp0"
    using cp0(1) tail(1) by (simp add: discardStackItems_def)
  finally have "setFunctionCode (genFunction F (map gen_stmt body) st cp) = Some (pbytes (body_code opt F body) @ tail, [])"
    using cp0 by (simp add: setFunctionCode_def)
  moreover have "tail = end_code F \<or> tail = [] \<and> (\<exists>s \<in> set body. returns s)"
    using tail(2) l(1) by (auto simp: no_return_def)
  ultimately show ?thesis by blast
qed

lemma run_end_code:
  assumes h: "holds c p (end_code F)" and m: "clean m"
  shows "\<exists>vm'. reaches V c (mk m p st xs r) vm' \<and> step V c vm' = Finished (function_end V F) xs"
proof -
  have load: "\<exists>vm'. reaches V c (mk m p st xs r) vm' \<and> step V c vm' = Finished v xs"
    if h: "holds c p (op_bytes op @ op_bytes OP_RETURN_VALUE)" and op: "op \<in> set opcodes" "operand_kind op = EBC_NONE"
      "\<And>vm. exec_op V c op 0 vm = Running (push v vm)" for op v
  proof -
    note h1 = holds_appendD [OF h]
    have "reaches V c (mk m p st xs r) (mk m (p + length (op_bytes op)) (v # st) xs r)"
      by (rule run_instruction [OF h1(1) m op(1)]) (simp_all add: op)
    with step_return_value [OF h1(2) m] show ?thesis by blast
  qed
  consider "isConstructor F" | "\<not> isConstructor F" "\<not> resultType F \<and> \<not> hasReturn F \<or> resultType F \<and> resultVoid F"
    | "\<not> isConstructor F" "\<not> (\<not> resultType F \<and> \<not> hasReturn F \<or> resultType F \<and> resultVoid F)" by blast
  then show ?thesis
  proof cases
    case 1
    with load [of OP_LOAD_THIS "v_this V"] h show ?thesis by (simp add: end_code_def function_end_def)
  next
    case 2
    with step_return [of c p m V st xs r] h m
    have "step V c (mk m p st xs r) = Finished (function_end V F) xs" by (simp add: end_code_def function_end_def)
    with reaches_refl [of V c "mk m p st xs r"] show ?thesis by blast
  next
    case 3
    then have e: "end_code F = op_bytes OP_LOAD_NULL @ op_bytes OP_RETURN_VALUE" "function_end V F = v_null V"
      unfolding end_code_def function_end_def by (simp_all only: if_False)
    show ?thesis unfolding e(2) by (rule load [of OP_LOAD_NULL "v_null V"]) (use h in \<open>simp_all add: e(1) opcodes_mem2\<close>)
  qed
qed

text \<open>What the interpreter reports for the completion of a body.\<close>

definition result_of :: "'v values \<Rightarrow> function_info \<Rightarrow> 'v completion \<Rightarrow> 'v list \<Rightarrow> 'v run" where
  "result_of V F out xs =
     (case out of Returned v \<Rightarrow> Finished v xs | Threw x \<Rightarrow> Raised x xs | _ \<Rightarrow> Finished (function_end V F) xs)"

lemma compiled_runs:
  assumes plus: "\<forall>v. v_to_number V v = Val v" and ex: "execs V F body xs out xs'" and wf: "\<forall>s \<in> set body. wf_stmt (length xs) F False False s"
    and n: "length xs \<le> 2 ^ 31" and len: "plen (body_code opt F body) < 2 ^ 26 - 2"
    and tail: "tail = end_code F \<or> tail = [] \<and> (\<exists>s \<in> set body. returns s)"
  shows "\<exists>N. run_vm V \<lparr>byteCode = pbytes (body_code opt F body) @ tail, handlers = []\<rparr> N (enter V xs) = result_of V F out xs'"
proof -
  let ?P = "body_code opt F body" and ?m = "enter V xs"
  define c where "c = \<lparr>byteCode = pbytes ?P @ tail, handlers = [] :: handler list\<rparr>"
  have "length tail \<le> 2" using tail by (auto simp: end_code_def instruction_def)
  then have P: "placed V c ?m (length xs)"
    using n len plus by (simp add: placed_def clean_def enter_def c_def plen_def)
  have "kinds ?P = {}"
  proof -
    have "kinds (clean_code opt F s) = {}" if "s \<in> set body" for s
      using kinds_scode [of "length xs" F False False s _ opt] wf that by (auto simp: clean_code_def) (metis jump_kind.exhaust)
    then show ?thesis by (simp add: body_code_def)
  qed
  then have "fin (\<lambda>_. 0) 0 ?P = pbytes ?P" by (simp add: fin_def kinds_none)
  then have "holds c 0 (fin (\<lambda>_. 0) 0 ?P)" by (auto simp: holds_def c_def)
  from lay_concat [OF this [unfolded body_code_def], of V ?m]
  have lay: "lay V c ?m opt F (\<lambda>_. 0) body 0 (plen ?P)" by (simp add: body_code_def)
  have start: "mk ?m 0 [] xs (v_undefined V) = ?m" by (simp add: mk_def enter_def)
  have "ends V c ?m (\<lambda>_. 0) (plen ?P) 0 [] (mk ?m 0 [] xs (v_undefined V)) out xs'"
    using machine_follows(2) [OF P ex, of opt] lay wf unfolding runs_list_def by (auto simp: targets_def)
  then have e: "ends V c ?m (\<lambda>_. 0) (plen ?P) 0 [] ?m out xs'" unfolding start .
  have nb: "out \<noteq> Broke \<and> out \<noteq> Continued" using exec_wfs(2) [OF ex wf] by blast
  have "\<exists>N. run_vm V c N ?m = result_of V F out xs'"
  proof (cases out)
    case Normal
    with tail returns_exec(2) [OF ex] have t: "tail = end_code F" by blast
    from e Normal ends_normal obtain r where r: "reaches V c ?m (mk ?m (plen ?P) [] xs' r)" by blast
    have "holds c (plen ?P) (end_code F)"
      unfolding holds_def c_def t by (rule exI [of _ "pbytes ?P"], rule exI [of _ "[]"]) (simp add: plen_def)
    from run_end_code [OF this placedD(1) [OF P], of V "[]" xs' r] obtain vm' where
      "reaches V c (mk ?m (plen ?P) [] xs' r) vm'" "step V c vm' = Finished (function_end V F) xs'" by blast
    from reaches_run [OF reaches_trans [OF r this(1)] this(2)] Normal show ?thesis by (simp add: result_of_def)
  next
    case (Returned v)
    with e obtain vm' where "reaches V c ?m vm'" "step V c vm' = Finished v xs'" by (auto simp: ends_def)
    from reaches_run [OF this] Returned show ?thesis by (simp add: result_of_def)
  next
    case (Threw x)
    with e have "throws V c ?m x xs'" by (simp add: ends_def)
    from throws_run [OF this] Threw show ?thesis by (simp add: result_of_def c_def)
  qed (use nb in auto)
  then show ?thesis by (simp add: c_def)
qed

section \<open>A sample instance\<close>

text \<open>
  The compiler as it is when it starts on a function, and integers as values, with which programs are
  compiled and run in the examples.
\<close>

definition start_compiler :: compiler where
  "start_compiler =
     \<lparr>code = \<lparr>buf = [], jumps = [], exceptions = [], jumpKinds = {}, breakMark = 0, blockMark = 0,
               stackCount = 0, blockCount = 0\<rparr>,
      lastOp = 0, error = False, optimizeLevel = 9\<rparr>"

definition script_function :: function_info where
  "script_function = \<lparr>resultType = False, resultVoid = False, isConstructor = False, hasReturn = True\<rparr>"

definition start_state :: state where
  "start_state =
     \<lparr>needsValue = False, onLeft = False, captureFinally = False, captureBreak = False,
      currentFunction = script_function\<rparr>"

definition compile :: "function_info \<Rightarrow> stmt list \<Rightarrow> (u8 list \<times> handler list) option" where
  "compile F body = setFunctionCode (genFunction F (map gen_stmt body) start_state start_compiler)"

definition int_values :: "int values" where
  "int_values =
     \<lparr>v_binary = \<lambda>b x y. (case b of
          ADD \<Rightarrow> Val (x + y) | SUB \<Rightarrow> Val (x - y) | MUL \<Rightarrow> Val (x * y)
        | COMPARE_STRICTLY_EQ \<Rightarrow> Val (of_bool (x = y)) | COMPARE_LT \<Rightarrow> Val (of_bool (x < y))
        | DIV \<Rightarrow> if y = 0 then Exn (-1) else Val (x div y)
        | _ \<Rightarrow> Val 0),
      v_unary = \<lambda>u x. Val (if u = NEG then - x else x), v_truth = \<lambda>x. Val (x \<noteq> 0), v_bool = of_bool,
      v_number = \<lambda>d. (case double_int d of Some n \<Rightarrow> n | None \<Rightarrow> 0), v_null = 0, v_undefined = 0,
      v_this = 0, v_isA = \<lambda>v t. True, v_isStop = \<lambda>v. False,
      v_isType = \<lambda>v. True, v_to_number = Val\<rparr>"

definition number :: "u64 \<Rightarrow> expr" where
  "number d = N_LITERAL (LNumber d)"

text \<open>\<open>while (x) x = x - 1; return 7 / x\<close>\<close>

definition countdown :: "stmt list" where
  "countdown =
     [N_FOR None (Some (N_QNAME 0)) None
        (Some (N_EXPRESSION (N_ASSIGN_OP False (N_QNAME 0) (N_BINARY_OP T_MINUS (N_QNAME 0) (number 0x3FF0000000000000))))),
      N_RETURN (Some (N_BINARY_OP T_DIV (number 0x401C000000000000) (N_QNAME 0))) False]"

lemma one: "double_int 0x3FF0000000000000 = Some 1" and seven: "double_int 0x401C000000000000 = Some 7"
  by code_simp+

lemma countdown_wf: "\<forall>s \<in> set countdown. wf_stmt (length [1 :: int]) script_function False False s"
  by (simp add: countdown_def number_def script_function_def)

lemma countdown_free: "\<forall>s \<in> set countdown. plus_free s"
  by (simp add: countdown_def number_def)

lemma countdown_short: "plen (body_code True script_function countdown) = 13"
  by code_simp

lemma countdown_runs: "execs int_values script_function countdown [1] (Threw (-1)) [0]"
proof -
  have dec: "exec int_values script_function (N_EXPRESSION (N_ASSIGN_OP False (N_QNAME 0)
      (N_BINARY_OP T_MINUS (N_QNAME 0) (number 0x3FF0000000000000)))) [1] Normal [0]"
    by (rule exec_expr) (simp add: number_def one int_values_def)
  have "loop int_values script_function (Some (N_QNAME 0)) None
      (Some (N_EXPRESSION (N_ASSIGN_OP False (N_QNAME 0) (N_BINARY_OP T_MINUS (N_QNAME 0) (number 0x3FF0000000000000))))) [1] Normal [0]"
    by (rule loop_next [where ?xs1.0 = "[1]" and ?xs2.0 = "[0]" and ?xs3.0 = "[0]" and out = Normal and u = "()"])
      (auto simp: test_def int_values_def intro: dec [unfolded int_values_def] execs_next execs_nil loop_done)
  from exec_while [OF this] have "exec int_values script_function (hd countdown) [1] Normal [0]"
    by (simp add: countdown_def)
  moreover have "exec int_values script_function (hd (tl countdown)) [0] (Threw (-1)) [0]"
    by (auto simp: countdown_def number_def seven int_values_def intro!: exec_return_exn)
  ultimately show ?thesis by (auto simp: countdown_def intro: execs_next execs_abrupt)
qed

section \<open>The theorems on compiled functions\<close>

text \<open>
  C2: the code generator writes the code of the structured definition. For every function body whose
  statements are well formed and every state of the compiler without an error, what \<open>setFunctionCode\<close>
  stores for \<open>genFunction\<close> is the concatenation of the structured codes of the statements, in which all
  jump offsets are computed from lengths and none is patched, followed by the code for the end of the
  function, unless the body returns; there are no exception handlers.
\<close>

theorem generated_code_is_structured:
  assumes "\<forall>s \<in> set body. wf_stmt n F False False s" and "\<not> error cp"
    and "plain F (st\<lparr>currentFunction := F\<rparr>)" and "0 < optimizeLevel cp \<longleftrightarrow> opt"
    and "plen (body_code opt F body) < 2 ^ 27"
  shows "\<exists>tail. setFunctionCode (genFunction F (map gen_stmt body) st cp) = Some (pbytes (body_code opt F body) @ tail, [])
    \<and> (tail = end_code F \<or> tail = [] \<and> (\<exists>s \<in> set body. returns s))"
  by (rule genFunction_code [OF assms])

lemma countdown_plain: "plain script_function (start_state\<lparr>currentFunction := script_function\<rparr>)"
  by (simp add: plain_def start_state_def)

lemma countdown_compiler: "\<not> error start_compiler" "0 < optimizeLevel start_compiler \<longleftrightarrow> True"
  by (simp_all add: start_compiler_def)

theorem generated_code_is_structured_witness:
  "\<exists>tail. compile script_function countdown = Some (pbytes (body_code True script_function countdown) @ tail, [])
    \<and> (tail = end_code script_function \<or> tail = [] \<and> (\<exists>s \<in> set countdown. returns s))"
  unfolding compile_def
  by (rule generated_code_is_structured [OF countdown_wf countdown_compiler(1) countdown_plain countdown_compiler(2)])
    (simp add: countdown_short)

lemma result_unconverted [simp]: "result_of (unconverted V) = result_of V"
proof -
  have "function_end (unconverted V) F = function_end V F" for F by (simp add: function_end_def)
  then show ?thesis by (simp add: result_of_def fun_eq_iff split: completion.split)
qed

lemma compiled_runs_of:
  assumes "execs (unconverted V) F body xs out xs'"
    and "\<forall>s \<in> set body. wf_stmt (length xs) F False False s" and "length xs \<le> 2 ^ 31"
    and "plain F (st\<lparr>currentFunction := F\<rparr>)" and "\<not> error cp" and "0 < optimizeLevel cp \<longleftrightarrow> opt"
    and "plen (body_code opt F body) < 2 ^ 26 - 2"
  shows "\<exists>bs N. setFunctionCode (genFunction F (map gen_stmt body) st cp) = Some (bs, [])
    \<and> run_vm V \<lparr>byteCode = bs, handlers = []\<rparr> N (enter V xs) = result_of V F out xs'"
proof -
  have "plen (body_code opt F body) < 2 ^ 27" using assms(7) by simp
  from genFunction_code [OF assms(2,5,4,6) this] obtain tail where
    tail: "setFunctionCode (genFunction F (map gen_stmt body) st cp) = Some (pbytes (body_code opt F body) @ tail, [])"
      "tail = end_code F \<or> tail = [] \<and> (\<exists>s \<in> set body. returns s)" by blast
  from compiled_runs [OF _ assms(1-3,7) tail(2)]
  have "\<exists>N. run_vm V \<lparr>byteCode = pbytes (body_code opt F body) @ tail, handlers = []\<rparr> N (enter V xs) = result_of V F out xs'"
    by (simp add: run_unconverted)
  with tail(1) show ?thesis by blast
qed

text \<open>
  C1: compiled functions do what their source says, for the bodies whose code is right: well formed ones without unary
  plus. Well formed (\<open>wf_stmt\<close>) means that all names are slots of the activation, that there is no \<open>try\<close>, that \<open>continue\<close>
  leaves neither the body of a \<open>do\<close> nor a \<open>switch\<close>, that a default clause is the last one, that there is no literal \<open>-0\<close>, that
  \<open>void\<close> is applied to names and literals only, that a function of type Void returns no value, that
  the initializer of a loop is an expression or a declaration, that at most 255 values are discarded at once, and that operands leave exactly one
  value. The code is shorter than \<open>2 ^ 26 - 2\<close> bytes, and there are at most \<open>2 ^ 31\<close> slots. If such a body, started on the slots
  \<open>xs\<close>, completes with the result \<open>out\<close> and the slots \<open>xs'\<close> in the big-step semantics, then the code generator
  produces code without exception handlers, and the interpreter started on this code and these slots
  stops after finitely many steps and reports exactly this result: the returned value or the value
  of the end of the function, or the exception thrown, with the same slots.
\<close>

theorem compiled_function_correct:
  assumes "execs V F body xs out xs'" and "\<forall>s \<in> set body. plus_free s"
    and "\<forall>s \<in> set body. wf_stmt (length xs) F False False s" and "length xs \<le> 2 ^ 31"
    and "plain F (st\<lparr>currentFunction := F\<rparr>)" and "\<not> error cp" and "0 < optimizeLevel cp \<longleftrightarrow> opt"
    and "plen (body_code opt F body) < 2 ^ 26 - 2"
  shows "\<exists>bs N. setFunctionCode (genFunction F (map gen_stmt body) st cp) = Some (bs, [])
    \<and> run_vm V \<lparr>byteCode = bs, handlers = []\<rparr> N (enter V xs) = result_of V F out xs'"
  by (rule compiled_runs_of [OF semantics_unconverted(2) [OF assms(1,2)] assms(3-)])

theorem compiled_function_correct_witness:
  "\<exists>bs N. compile script_function countdown = Some (bs, [])
    \<and> run_vm int_values \<lparr>byteCode = bs, handlers = []\<rparr> N (enter int_values [1]) = Raised (-1) [0]"
  unfolding compile_def
  using compiled_function_correct [OF countdown_runs countdown_free countdown_wf _ countdown_plain countdown_compiler]
  by (simp add: countdown_short result_of_def)

section \<open>Functions without loops\<close>

function loop_free :: "stmt \<Rightarrow> bool" where
  "loop_free (N_EXPRESSION e) \<longleftrightarrow> True"
| "loop_free N_NOP \<longleftrightarrow> True"
| "loop_free (N_VAR_DEFINITION vs) \<longleftrightarrow> True"
| "loop_free (N_BLOCK ss) \<longleftrightarrow> (\<forall>s \<in> set ss. loop_free s)"
| "loop_free (N_DIRECTIVES ss) \<longleftrightarrow> (\<forall>s \<in> set ss. loop_free s)"
| "loop_free (N_IF c s e) \<longleftrightarrow> loop_free s \<and> (case e of None \<Rightarrow> True | Some s' \<Rightarrow> loop_free s')"
| "loop_free (N_FOR i c p b) \<longleftrightarrow> False"
| "loop_free (N_DO b c) \<longleftrightarrow> False"
| "loop_free N_BREAK \<longleftrightarrow> True"
| "loop_free N_CONTINUE \<longleftrightarrow> True"
| "loop_free (N_SWITCH e cs) \<longleftrightarrow> (\<forall>(t, body) \<in> set cs. \<forall>s \<in> set body. loop_free s)"
| "loop_free (N_RETURN e bl) \<longleftrightarrow> True"
| "loop_free (N_THROW e) \<longleftrightarrow> True"
| "loop_free (N_TRY b cs f nb) \<longleftrightarrow> False"
  by pat_completeness auto
termination
proof (relation "measure size", goal_cases)
  case (6 e cs x t body s)
  then have "size s \<le> size_list size body" by (simp add: size_list_estimation')
  moreover from 6 have "size_prod (\<lambda>x. 0) (size_list size) (t, body)
      \<le> size_list (size_prod (\<lambda>x. 0) (size_list size)) cs" by (intro size_list_estimation') auto
  ultimately show ?case by simp
qed (auto simp: less_Suc_eq_le size_list_estimation')

lemma execs_total:
  "\<forall>s \<in> set ss. \<forall>xs. \<exists>out xs'. exec V F s xs out xs' \<Longrightarrow> \<exists>out xs'. execs V F ss xs out xs'"
proof (induction ss arbitrary: xs)
  case (Cons s ss)
  then obtain out xs1 where 1: "exec V F s xs out xs1" by (meson list.set_intros(1))
  show ?case
  proof (cases "out = Normal")
    case True
    with Cons 1 execs_next show ?thesis by (metis list.set_intros(2))
  next
    case False
    with 1 execs_abrupt show ?thesis by blast
  qed
qed (blast intro: execs_nil)

lemma loop_free_total: "loop_free s \<Longrightarrow> \<exists>out xs'. exec V F s xs out xs'"
proof (induction s arbitrary: xs rule: loop_free.induct)
  case (1 e)
  then show ?case by (cases "eval V e xs"; cases "fst (eval V e xs)") (auto intro: exec_expr exec_expr_exn)
next
  case (3 vs)
  then show ?case
    by (cases "eval_all V (inits vs) xs"; cases "fst (eval_all V (inits vs) xs)") (auto intro: exec_var exec_var_exn)
next
  case (4 ss)
  then have "\<exists>out xs'. execs V F ss xs out xs'" by (intro execs_total) auto
  then show ?case by (blast intro: exec_block)
next
  case (5 ss)
  then have "\<exists>out xs'. execs V F ss xs out xs'" by (intro execs_total) auto
  then show ?case by (blast intro: exec_directives)
next
  case (6 c s e)
  show ?case
  proof (cases "test V (Some c) xs")
    case (Pair r xs1)
    show ?thesis
    proof (cases r)
      case (Val b)
      show ?thesis
      proof (cases b)
        case True
        from 6(3) have "loop_free s" by simp
        from 6(1) [OF this, of xs1] exec_if_true [of V c xs xs1] Pair Val True show ?thesis by simp blast
      next
        case False
        show ?thesis
        proof (cases e)
          case None
          with Pair Val False show ?thesis by (auto intro: exec_if_none)
        next
          case (Some s')
          with 6(3) have "loop_free s'" by simp
          with 6(2) [OF Some, of xs1] obtain out xs' where "exec V F s' xs1 out xs'" by blast
          with exec_if_false [of V c xs xs1 F s'] Pair Val False Some show ?thesis by simp blast
        qed
      qed
    next
      case (Exn x)
      with Pair show ?thesis by (blast intro: exec_if_exn)
    qed
  qed
next
  case (11 e cs)
  show ?case
  proof (cases "eval V e xs")
    case (Pair r xs1)
    show ?thesis
    proof (cases r)
      case (Val v)
      show ?thesis
      proof (cases "selected V v cs xs1")
        case s: (Pair r2 xs2)
        show ?thesis
        proof (cases r2)
          case ss: (Val ss)
          have "\<forall>s \<in> set ss. \<forall>xs. \<exists>out xs'. exec V F s xs out xs'"
          proof
            fix s'
            assume "s' \<in> set ss"
            with selected_suffix [OF s [unfolded ss]] obtain t body where "(t, body) \<in> set cs" "s' \<in> set body" by auto
            with 11 show "\<forall>xs. \<exists>out xs'. exec V F s' xs out xs'" by auto
          qed
          from execs_total [OF this] exec_switch [OF Pair [unfolded Val] s [unfolded ss]] show ?thesis by blast
        next
          case (Exn x)
          from exec_switch_case_exn [OF Pair [unfolded Val] s [unfolded Exn]] show ?thesis by blast
        qed
      qed
    next
      case (Exn x)
      with Pair show ?thesis by (blast intro: exec_switch_exn)
    qed
  qed
next
  case (12 e bl)
  show ?case
  proof (cases e)
    case None
    then show ?thesis by (blast intro: exec_return_none)
  next
    case (Some e')
    then show ?thesis
      by (cases "eval V e' xs"; cases "fst (eval V e' xs)") (auto intro: exec_return exec_return_exn)
  qed
next
  case (13 e)
  then show ?case by (cases "eval V e xs"; cases "fst (eval V e xs)") (auto intro: exec_throw exec_throw_exn)
qed (auto intro: exec_nop exec_break exec_continue)

text \<open>
  C21: a function without loops always returns. A well formed body (as for the first property, but with unary plus) that contains no loop gives, from any slots
  and with any operators, code on which the interpreter stops after finitely many steps, with a value or
  with an exception that it raises; it neither runs on nor reads outside of its code, stack or slots.
\<close>

theorem loop_free_function_returns:
  assumes "\<forall>s \<in> set body. loop_free s"
    and "\<forall>s \<in> set body. wf_stmt (length xs) F False False s" and "length xs \<le> 2 ^ 31"
    and "plain F (st\<lparr>currentFunction := F\<rparr>)" and "\<not> error cp" and "0 < optimizeLevel cp \<longleftrightarrow> opt"
    and "plen (body_code opt F body) < 2 ^ 26 - 2"
  shows "\<exists>bs N v xs'. setFunctionCode (genFunction F (map gen_stmt body) st cp) = Some (bs, [])
    \<and> run_vm V \<lparr>byteCode = bs, handlers = []\<rparr> N (enter V xs) \<in> {Finished v xs', Raised v xs'}"
proof -
  have "\<forall>s \<in> set body. \<forall>xs. \<exists>out xs'. exec (unconverted V) F s xs out xs'" using assms(1) loop_free_total by blast
  from execs_total [OF this] obtain out xs' where "execs (unconverted V) F body xs out xs'" by blast
  from compiled_runs_of [OF this assms(2-)] show ?thesis by (cases out) (auto simp: result_of_def)
qed

text \<open>\<open>switch (x) { case 0: throw x; default: x = 7 }\<close>\<close>

definition classify :: "stmt list" where
  "classify =
     [N_SWITCH (N_QNAME 0)
        [(Some (number 0), [N_THROW (N_QNAME 0)]),
         (None, [N_EXPRESSION (N_ASSIGN_OP False (N_QNAME 0) (number 0x401C000000000000))])]]"

theorem loop_free_function_returns_witness:
  "\<exists>bs N v xs'. compile script_function classify = Some (bs, [])
    \<and> run_vm int_values \<lparr>byteCode = bs, handlers = []\<rparr> N (enter int_values [0]) \<in> {Finished v xs', Raised v xs'}"
  unfolding compile_def
proof (rule loop_free_function_returns [OF _ _ _ countdown_plain countdown_compiler])
  have "plen (body_code True script_function classify) = 11" by code_simp
  then show "plen (body_code True script_function classify) < 2 ^ 26 - 2" by simp
qed (simp_all add: classify_def number_def)

section \<open>Where the code is not what the source says\<close>

definition do_continue :: "stmt list" where
  "do_continue = [N_DO (N_BLOCK [N_CONTINUE]) (N_LITERAL (LBool False))]"

lemma runs_for_ever: "step V c vm = Running vm \<Longrightarrow> run_vm V c N vm = Running vm"
  by (induction N) simp_all

text \<open>
  C24: \<open>continue\<close> in a \<open>do\<close> loop jumps to the start of the body and not to the test:
  \<open>do { continue } while (false)\<close> ends in the semantics, and its code runs for ever.
\<close>

theorem continue_in_do_runs_for_ever:
  assumes "v_truth V (v_bool V False) = Val False"
  shows "execs V script_function do_continue xs Normal xs
    \<and> (\<exists>bs. compile script_function do_continue = Some (bs, [])
        \<and> (\<forall>N. run_vm V \<lparr>byteCode = bs, handlers = []\<rparr> N (enter V xs) = Running (enter V xs)))"
proof -
  let ?bs = "[61, 11, 0, 0, 0, 79, 20, 248, 84, 194] :: u8 list"
  have "compile script_function do_continue = Some (?bs, [])" by code_simp
  moreover have "fetch ?bs 0 = Some (OP_GOTO, -5, 5)" by code_simp
  then have "step V \<lparr>byteCode = ?bs, handlers = []\<rparr> (enter V xs) = Running (enter V xs)"
    by (simp add: step_def enter_def set_pc_def)
  moreover have "exec V script_function (N_BLOCK [N_CONTINUE]) xs Continued xs"
    by (auto intro: exec_block execs_abrupt exec_continue)
  from exec_do [OF repeat_done [OF this]] assms have "exec V script_function (hd do_continue) xs Normal xs"
    by (simp add: do_continue_def test_def)
  then have "execs V script_function do_continue xs Normal xs"
    by (auto simp: do_continue_def intro: execs_next execs_nil)
  ultimately show ?thesis using runs_for_ever by blast
qed

theorem continue_in_do_runs_for_ever_witness:
  "execs int_values script_function do_continue [3] Normal [3]
    \<and> (\<exists>bs. compile script_function do_continue = Some (bs, [])
        \<and> (\<forall>N. run_vm int_values \<lparr>byteCode = bs, handlers = []\<rparr> N (enter int_values [3]) = Running (enter int_values [3])))"
  by (rule continue_in_do_runs_for_ever) (simp add: int_values_def)

definition early_default :: "stmt list" where
  "early_default =
     [N_SWITCH (N_QNAME 0)
        [(None, [N_RETURN (Some (N_LITERAL LNull)) False]),
         (Some (N_QNAME 0), [N_RETURN (Some (N_QNAME 0)) False])]]"

definition plus_return :: "stmt list" where
  "plus_return = [N_RETURN (Some (N_UNARY_OP T_PLUS (N_QNAME 0))) False]"

text \<open>\<open>return +x\<close> returns \<open>x\<close> when compiled, whatever its number is.\<close>

lemma unary_plus_is_ignored:
  assumes "v_to_number V x = Val y"
  shows "execs V script_function plus_return [x] (Returned y) [x]
    \<and> (\<exists>bs N. compile script_function plus_return = Some (bs, [])
        \<and> run_vm V \<lparr>byteCode = bs, handlers = []\<rparr> N (enter V [x]) = Finished x [x])"
proof -
  let ?bs = "[93, 194] :: u8 list"
  have c: "compile script_function plus_return = Some (?bs, [])" by code_simp
  have f: "fetch ?bs 0 = Some (OP_GET_LOCAL_SLOT_N 0, 0, 1)" "fetch ?bs 1 = Some (OP_RETURN_VALUE, 0, 2)" by code_simp+
  have "run_vm V \<lparr>byteCode = ?bs, handlers = []\<rparr> (Suc (Suc 0)) (enter V [x]) = Finished x [x]"
    using f by (simp add: step_def enter_def get_slot_def slot_value_def push_def with_pop_def)
  moreover have "execs V script_function plus_return [x] (Returned y) [x]"
    using assms by (auto simp: plus_return_def intro!: execs_abrupt exec_return)
  ultimately show ?thesis using c by blast
qed

text \<open>
  A switch with its default clause before other clauses runs the default clause although a later
  clause matches: \<open>switch (x) { default: return null; case x: return x }\<close> returns \<open>x\<close> in the semantics and null
  when compiled, whatever the operators are for which \<open>x\<close> is strictly equal to itself.
\<close>

lemma default_before_case_wins:
  assumes "v_binary V COMPARE_STRICTLY_EQ x x = Val t" and "v_truth V t = Val True"
  shows "execs V script_function early_default [x] (Returned x) [x]
    \<and> (\<exists>bs N. compile script_function early_default = Some (bs, [])
        \<and> run_vm V \<lparr>byteCode = bs, handlers = []\<rparr> N (enter V [x]) = Finished (v_null V) [x])"
proof -
  let ?bs = "[93, 84, 194, 62, 5, 56, 93, 38, 19, 2, 93, 194, 147, 84, 194] :: u8 list"
  have c: "compile script_function early_default = Some (?bs, [])" by code_simp
  have f: "fetch ?bs 0 = Some (OP_GET_LOCAL_SLOT_N 0, 0, 1)" "fetch ?bs 1 = Some (OP_LOAD_NULL, 0, 2)"
    "fetch ?bs 2 = Some (OP_RETURN_VALUE, 0, 3)" by code_simp+
  have "run_vm V \<lparr>byteCode = ?bs, handlers = []\<rparr> (Suc (Suc (Suc 0))) (enter V [x]) = Finished (v_null V) [x]"
    using f by (simp add: step_def enter_def get_slot_def slot_value_def push_def with_pop_def numeral_2_eq_2)
  moreover have "exec V script_function (hd early_default) [x] (after_loop (Returned x)) [x]"
    unfolding early_default_def list.sel(1)
    by (rule exec_switch [where v = x and ?xs1.0 = "[x]" and ?xs2.0 = "[x]"
          and ss = "[N_RETURN (Some (N_QNAME 0)) False]"])
      (auto simp: selected_def assms intro!: execs_abrupt exec_return)
  then have "execs V script_function early_default [x] (Returned x) [x]"
    by (auto simp: early_default_def intro: execs_abrupt)
  ultimately show ?thesis using c by blast
qed

theorem default_before_case_wins_witness:
  "execs int_values script_function early_default [3] (Returned 3) [3]
    \<and> (\<exists>bs N. compile script_function early_default = Some (bs, [])
        \<and> run_vm int_values \<lparr>byteCode = bs, handlers = []\<rparr> N (enter int_values [3]) = Finished (v_null int_values) [3])"
  by (rule default_before_case_wins [of _ _ 1]) (simp_all add: int_values_def)

section \<open>Stack effects\<close>

definition effect :: "opcode \<Rightarrow> int \<Rightarrow> int" where
  "effect op n = (case ejsOptable op of Some k \<Rightarrow> k | None \<Rightarrow> - int (nat n))"

definition same_shape :: "'v vm \<Rightarrow> 'v vm \<Rightarrow> bool" where
  "same_shape vm vm' \<longleftrightarrow> length (stack vm') = length (stack vm) \<and> length (locals vm') = length (locals vm)"

lemma attention_shape [simp]:
  "stack (ejsAttention vm) = stack vm" "locals (ejsAttention vm) = locals vm"
  "stack (ejsClearAttention vm) = stack vm" "locals (ejsClearAttention vm) = locals vm"
  "stack (ejsThrowException e vm) = stack vm" "locals (ejsThrowException e vm) = locals vm"
  "exception (ejsThrowException e vm) = Some e"
  by (simp_all add: ejsAttention_def ejsClearAttention_def ejsThrowException_def)

text \<open>The instructions that raise an exception on their operands without pushing a value.\<close>

fun raises_bare :: "'v values \<Rightarrow> opcode \<Rightarrow> 'v list \<Rightarrow> bool" where
  "raises_bare V (OP_UNARY LOGICAL_NOT) (v # s) \<longleftrightarrow> (\<exists>e. v_unary V LOGICAL_NOT v = Exn e)"
| "raises_bare V (OP_BINARY IN) (v2 # v1 # s) \<longleftrightarrow> (\<exists>e. v_binary V IN v1 v2 = Exn e)"
| "raises_bare V op s \<longleftrightarrow> False"

lemma raises_bare_iff:
  "raises_bare V op s \<longleftrightarrow> (\<exists>v s' e. op = OP_UNARY LOGICAL_NOT \<and> s = v # s' \<and> v_unary V LOGICAL_NOT v = Exn e)
     \<or> (\<exists>v2 v1 s' e. op = OP_BINARY IN \<and> s = v2 # v1 # s' \<and> v_binary V IN v1 v2 = Exn e)"
  by (cases "(V, op, s)" rule: raises_bare.cases) auto

lemma popException_shape: "popExceptionBlock vm = Some vm' \<Longrightarrow> same_shape vm vm'"
  by (auto simp: popExceptionBlock_def same_shape_def Let_def split: list.splits if_splits)

lemma finally_shape: "createExceptionBlock ex EJS_EX_FINALLY vm = Some vm' \<Longrightarrow> same_shape vm vm'"
  by (auto simp: createExceptionBlock_def same_shape_def Let_def split: list.splits)

lemma restart_shape [simp]: "stack (set_restart p vm) = stack vm" "locals (set_restart p vm) = locals vm"
  by (simp_all add: set_restart_def split: list.splits)

lemma call_finally_shape: "call_finally V c b vm = Running vm' \<Longrightarrow> same_shape vm vm'"
  by (auto simp: call_finally_def opt_run_def same_shape_def
      dest!: popException_shape finally_shape split: option.splits if_splits)

lemma end_exception_shape: "end_exception c vm = Running vm' \<Longrightarrow> same_shape vm vm'"
  by (auto simp: end_exception_def opt_run_def same_shape_def Let_def
      dest!: popException_shape split: option.splits if_splits list.splits)

text \<open>
  C22: the table of the byte code gives the stack effects of the interpreter. An instruction after which
  the activation goes on changes the depth of its stack by what \<open>ejsOptable\<close> says (the operand, for
  \<open>POP_ITEMS\<close>), and never the number of its slots; \<open>TYPE_OF\<close> and \<open>THROW\<close> are off by one. This holds also for an
  instruction that raises an exception, but for \<open>IN\<close> and the logical negation, which then leave one value less than the table says.
\<close>

theorem instruction_stack_effect:
  assumes "exec_op V c op n vm = Running vm'"
  shows "int (length (stack vm')) = int (length (stack vm)) + effect op n
      + (if op = OP_UNARY TYPE_OF then 1 else if op = OP_THROW \<or> raises_bare V op (stack vm) then -1 else 0)
    \<and> length (locals vm') = length (locals vm)"
  using assms
proof (cases op)
  case OP_CALL_FINALLY
  with assms(1) call_finally_shape show ?thesis by (fastforce simp: effect_def same_shape_def)
next
  case OP_GOTO_FINALLY
  with assms(1) call_finally_shape show ?thesis by (fastforce simp: effect_def same_shape_def)
next
  case OP_END_EXCEPTION
  with assms(1) end_exception_shape show ?thesis by (fastforce simp: effect_def same_shape_def)
next
  case (OP_BINARY b)
  with assms show ?thesis
    by (cases "b = IN") (auto simp: raises_bare_iff effect_def with_pop_def push_def push_outcome_def split: list.splits outcome.splits if_splits)
next
  case (OP_UNARY u)
  with assms show ?thesis 
    by (auto simp: raises_bare_iff effect_def with_pop_def push_def push_outcome_def split: list.splits outcome.splits if_splits)
qed (auto simp: raises_bare_iff effect_def with_pop_def push_def push_outcome_def get_slot_def put_slot_def branch_def set_pc_def
    split: list.splits outcome.splits if_splits option.splits)

theorem instruction_stack_effect_witness:
  "\<exists>vm'. exec_op int_values \<lparr>byteCode = [], handlers = []\<rparr> (OP_BINARY DIV) 0 (push 0 (push 5 (enter int_values [8]))) = Running vm'
    \<and> length (stack vm') = 1 \<and> length (locals vm') = 1"
proof -
  let ?vm = "push 0 (push 5 (enter int_values [8]))"
  let ?vm' = "push 0 (ejsThrowException (-1) (enter int_values [8]))"
  have "exec_op int_values \<lparr>byteCode = [], handlers = []\<rparr> (OP_BINARY DIV) 0 ?vm = Running ?vm'"
    by (simp add: with_pop_def push_def enter_def int_values_def push_outcome_def)
  from instruction_stack_effect [OF this] this show ?thesis
    by (intro exI [of _ ?vm']) (simp add: effect_def push_def enter_def)
qed

end
