(* ===== verification/Arrays.thy ===== *)
theory Arrays
  imports Prelude
begin

text \<open>
  Arrays (\<open>src/src/core/src/ejsArray.c\<close>): a block of slots of which the first \<open>length\<close> are the elements. The
  block is reused when the array shrinks and grows again. Arguments are the integers that the
  arguments of the script are converted to; an array given as an argument is another object than the receiver, and the arguments
  of a method with a rest parameter arrive in an array of their own. Properties with names that are not
  numbers are those of the property object underneath and are not repeated here.

  What the allocator gives is a parameter: the number of slots of a block beyond those asked for, or
  nothing. The contents of these slots are unknown, which is \<open>None\<close> here, as the null pointer is.
\<close>

section \<open>Values\<close>

text \<open>
  A reference is a value with its address; strings are interned, so that equal strings are the same
  object. A number is the pattern of a double.
\<close>

datatype objref =
    OUndefined
  | ONull
  | ONumber nat u64
  | OString string
  | OPath nat string
  | OOther nat

type_synonym slot = "objref option"

definition is_nan :: "u64 \<Rightarrow> bool" where
  "is_nan x \<longleftrightarrow> take_bit 11 (drop_bit 52 x) = 2047 \<and> take_bit 52 x \<noteq> 0"

definition double_eq :: "u64 \<Rightarrow> u64 \<Rightarrow> bool" where
  "double_eq x y \<longleftrightarrow> \<not> is_nan x \<and> \<not> is_nan y \<and> (x = y \<or> take_bit 63 x = 0 \<and> take_bit 63 y = 0)"

fun same_value :: "objref \<Rightarrow> objref \<Rightarrow> bool" where
  "same_value (ONumber a x) (ONumber b y) \<longleftrightarrow> double_eq x y"
| "same_value (OPath a s) (OPath b t) \<longleftrightarrow> s = t"
| "same_value v w \<longleftrightarrow> False"

definition compareArrayElement :: "slot \<Rightarrow> slot \<Rightarrow> bool res" where
  "compareArrayElement v1 v2 =
     (if v1 = v2 then Ok True
      else case (v1, v2) of (Some a, Some b) \<Rightarrow> Ok (same_value a b) | _ \<Rightarrow> Fault)"

definition ejsIsDefined :: "slot \<Rightarrow> bool" where
  "ejsIsDefined v \<longleftrightarrow> v \<noteq> None \<and> v \<noteq> Some ONull \<and> v \<noteq> Some OUndefined"

section \<open>The block of slots\<close>

record jsarray =
  data :: "slot list"
  len :: int
  dynamic :: bool

type_synonym allocator = "int \<Rightarrow> nat option"

definition int32 :: "int \<Rightarrow> int" where
  "int32 n = (n + 2 ^ 31) mod 2 ^ 32 - 2 ^ 31"

definition load :: "slot list \<Rightarrow> int \<Rightarrow> slot res" where
  "load d i = (if 0 \<le> i \<and> i < int (length d) then Ok (d ! nat i) else Fault)"

definition store :: "slot list \<Rightarrow> int \<Rightarrow> slot \<Rightarrow> slot list res" where
  "store d i v = (if 0 \<le> i \<and> i < int (length d) then Ok (d[nat i := v]) else Fault)"

text \<open>
  The loops over the block: copying the elements of another array, moving slots to higher indices from the
  last one downwards, and moving slots to lower indices from the first one upwards.
\<close>

fun copy_in :: "slot list \<Rightarrow> int \<Rightarrow> slot list \<Rightarrow> slot list res" where
  "copy_in d p [] = Ok d"
| "copy_in d p (v # vs) = bind_res (store d p v) (\<lambda>d. copy_in d (p + 1) vs)"

function move_up :: "slot list \<Rightarrow> int \<Rightarrow> int \<Rightarrow> int \<Rightarrow> slot list res" where
  "move_up d i lim delta =
     (if i < lim then Ok d
      else bind_res (load d (i - delta)) (\<lambda>v. bind_res (store d i v) (\<lambda>d. move_up d (i - 1) lim delta)))"
  by pat_completeness auto
termination
  by (relation "measure (\<lambda>(d, i, lim, delta). nat (i + 1 - lim))") auto

function move_down :: "slot list \<Rightarrow> int \<Rightarrow> int \<Rightarrow> int \<Rightarrow> slot list res" where
  "move_down d i lim delta =
     (if lim \<le> i then Ok d
      else bind_res (load d (i + delta)) (\<lambda>v. bind_res (store d i v) (\<lambda>d. move_down d (i + 1) lim delta)))"
  by pat_completeness auto
termination
  by (relation "measure (\<lambda>(d, i, lim, delta). nat (lim - i))") auto

declare move_up.simps [simp del] move_down.simps [simp del]

text \<open>The slots that a loop over all elements reads.\<close>

definition contents :: "jsarray \<Rightarrow> slot list res" where
  "contents ap = (if len ap \<le> int (length (data ap)) then Ok (take (nat (len ap)) (data ap)) else Fault)"

definition of_res :: "'a res \<Rightarrow> (jsarray, 'a) op" where
  "of_res r ap = (r, ap)"

definition on_data :: "(slot list \<Rightarrow> slot list res) \<Rightarrow> (jsarray, unit) op" where
  "on_data f ap =
     (case f (data ap) of
        Ok d \<Rightarrow> (Ok (), ap\<lparr>data := d\<rparr>) | Throw e \<Rightarrow> (Throw e, ap) | Fault \<Rightarrow> (Fault, ap))"

definition set_len :: "int \<Rightarrow> (jsarray, unit) op" where
  "set_len n ap = (Ok (), ap\<lparr>len := n\<rparr>)"

definition get_len :: "(jsarray, int) op" where
  "get_len ap = (Ok (len ap), ap)"

definition EJS_LOTSA_PROP :: int where "EJS_LOTSA_PROP = 256"
definition EJS_ROUND_PROP :: int where "EJS_ROUND_PROP = 16"

definition EJS_PROP_ROUNDUP :: "int \<Rightarrow> int" where
  "EJS_PROP_ROUNDUP x = (x + EJS_ROUND_PROP - 1) div EJS_ROUND_PROP * EJS_ROUND_PROP"

text \<open>
  The result is whether memory was there. Slots from the old length on are set to undefined only when a new block is
  allocated, and only as far as was asked for.
\<close>

definition growArray :: "allocator \<Rightarrow> int \<Rightarrow> (jsarray, bool) op" where
  "growArray A n ap =
     (let size = int (length (data ap));
          count = (if EJS_LOTSA_PROP < size
                   then let factor = max (size div 4) EJS_ROUND_PROP in (n + factor) div factor * factor
                   else n);
          count = EJS_PROP_ROUNDUP count
      in if n \<le> 0 \<or> n \<le> len ap then (Ok True, ap)
         else if n \<le> size then (Ok True, ap\<lparr>len := n\<rparr>)
         else if len ap < 0 then (Fault, ap)
         else case A count of
                None \<Rightarrow> (Ok False, ap)
              | Some extra \<Rightarrow>
                  (Ok True, ap\<lparr>data := take (nat (len ap)) (data ap)
                                   @ replicate (nat (count - len ap)) (Some OUndefined) @ replicate extra None,
                               len := n\<rparr>))"

definition or_memory :: "(jsarray, bool) op \<Rightarrow> (jsarray, unit) op" where
  "or_memory m = andthen m (\<lambda>ok. if ok then ret () else throw MemoryError)"

definition empty_array :: jsarray where
  "empty_array = \<lparr>data = [], len = 0, dynamic = True\<rparr>"

definition createArray :: jsarray where
  "createArray = empty_array"

definition ejsCreateArray :: "allocator \<Rightarrow> int \<Rightarrow> jsarray res" where
  "ejsCreateArray A n =
     (if 0 < n
      then case or_memory (growArray A n) empty_array of
             (Ok u, ap) \<Rightarrow> Ok ap | (Throw e, ap) \<Rightarrow> Throw e | (Fault, ap) \<Rightarrow> Fault
      else Ok empty_array)"

section \<open>Elements\<close>

definition getArrayProperty :: "int \<Rightarrow> (jsarray, slot) op" where
  "getArrayProperty slotNum ap =
     (if slotNum < 0 \<or> len ap \<le> slotNum then (Ok (Some OUndefined), ap)
      else (load (data ap) slotNum, ap))"

definition checkSlot :: "allocator \<Rightarrow> int \<Rightarrow> (jsarray, int) op" where
  "checkSlot A slotNum ap =
     (if slotNum < 0
      then if \<not> dynamic ap then (Throw TypeError, ap)
           else let slotNum = len ap
                in andthen (or_memory (growArray A (int32 (len ap + 1)))) (\<lambda>_. ret slotNum) ap
      else if len ap \<le> slotNum
      then andthen (or_memory (growArray A (int32 (slotNum + 1)))) (\<lambda>_. ret slotNum) ap
      else (Ok slotNum, ap))"

definition setArrayProperty :: "allocator \<Rightarrow> int \<Rightarrow> slot \<Rightarrow> (jsarray, int) op" where
  "setArrayProperty A slotNum value =
     andthen (checkSlot A slotNum) (\<lambda>slotNum.
     andthen (on_data (\<lambda>d. store d slotNum value)) (\<lambda>_. ret slotNum))"

text \<open>\<open>None\<close> is the error code. Deleting beyond the end is a violated assertion.\<close>

definition deleteArrayProperty :: "allocator \<Rightarrow> int \<Rightarrow> (jsarray, int option) op" where
  "deleteArrayProperty A slot ap =
     (if len ap \<le> slot then (Ok None, ap)
      else andthen (setArrayProperty A slot (Some OUndefined)) (\<lambda>_.
           andthen get_len (\<lambda>n. andthen (if slot + 1 = n then set_len (n - 1) else ret ()) (\<lambda>_.
           ret (Some slot)))) ap)"

definition getArrayPropertyCount :: "jsarray \<Rightarrow> int" where
  "getArrayPropertyCount ap = len ap"

section \<open>Methods\<close>

text \<open>
  The constructor: one argument that is a number is a length, given as \<open>Inl\<close>; otherwise the arguments are the elements.
\<close>

definition arrayConstructor :: "allocator \<Rightarrow> int + jsarray \<Rightarrow> (jsarray, unit) op" where
  "arrayConstructor A arg =
     (case arg of
        Inl n \<Rightarrow>
          andthen (if 0 < n then or_memory (growArray A n) else ret ()) (\<lambda>_. set_len n)
      | Inr args \<Rightarrow>
          if len args = 0 then ret ()
          else andthen (if 0 < len args then or_memory (growArray A (len args)) else ret ()) (\<lambda>_.
               andthen (of_res (contents args)) (\<lambda>src.
               andthen (on_data (\<lambda>d. copy_in d 0 src)) (\<lambda>_. set_len (len args)))))"

definition appendArray :: "allocator \<Rightarrow> slot \<Rightarrow> (jsarray, unit) op" where
  "appendArray A v ap = andthen (setArrayProperty A (len ap) v) (\<lambda>_. ret ()) ap"

definition clearArray :: "(jsarray, unit) op" where
  "clearArray = set_len 0"

text \<open>
  A shallow clone: \<open>ejsClonePot\<close> makes an array without elements, with the flags of the original.
\<close>

definition ejsCloneArray :: "allocator \<Rightarrow> jsarray \<Rightarrow> jsarray res" where
  "ejsCloneArray A ap =
     (let newArray = empty_array\<lparr>dynamic := dynamic ap\<rparr>
      in if 0 < len ap
         then case andthen (or_memory (growArray A (len ap))) (\<lambda>_.
                   andthen (of_res (contents ap)) (\<lambda>src. on_data (\<lambda>d. copy_in d 0 src))) newArray of
                (Ok u, a) \<Rightarrow> Ok a | (Throw e, a) \<Rightarrow> Throw e | (Fault, a) \<Rightarrow> Fault
         else Ok newArray)"

function compact_loop :: "slot list \<Rightarrow> int \<Rightarrow> int \<Rightarrow> int \<Rightarrow> (slot list \<times> int) res" where
  "compact_loop d i dest n =
     (if n \<le> i then Ok (d, dest)
      else bind_res (load d i) (\<lambda>v.
        if \<not> ejsIsDefined v then compact_loop d (i + 1) dest n
        else bind_res (store d dest v) (\<lambda>d. compact_loop d (i + 1) (dest + 1) n)))"
  by pat_completeness auto
termination
  by (relation "measure (\<lambda>(d, i, dest, n). nat (n - i))") auto

declare compact_loop.simps [simp del]

definition compactArray :: "(jsarray, unit) op" where
  "compactArray ap =
     (case compact_loop (data ap) 0 0 (len ap) of
        Ok (d, n) \<Rightarrow>
          andthen (on_data (\<lambda>d. copy_in d n (replicate (nat (len ap - n)) (Some OUndefined)))) (\<lambda>_. ret ())
            (ap\<lparr>data := d, len := n\<rparr>)
      | Throw e \<Rightarrow> (Throw e, ap) | Fault \<Rightarrow> (Fault, ap))"

text \<open>An argument of \<open>concat\<close> is an array, whose elements are added, or a value.\<close>

fun concat_args :: "allocator \<Rightarrow> (jsarray + slot) list \<Rightarrow> int \<Rightarrow> (jsarray, unit) op" where
  "concat_args A [] nxt = ret ()"
| "concat_args A (Inl vpa # args) nxt =
     andthen (or_memory (growArray A (nxt + len vpa))) (\<lambda>_.
     andthen (of_res (contents vpa)) (\<lambda>src.
     andthen (on_data (\<lambda>d. copy_in d nxt src)) (\<lambda>_. concat_args A args (nxt + int (length src)))))"
| "concat_args A (Inr v # args) nxt =
     andthen (or_memory (growArray A (nxt + 1))) (\<lambda>_.
     andthen (on_data (\<lambda>d. store d nxt v)) (\<lambda>_. concat_args A args (nxt + 1)))"

definition concatArray :: "allocator \<Rightarrow> (jsarray + slot) list \<Rightarrow> jsarray \<Rightarrow> jsarray res" where
  "concatArray A args ap =
     bind_res (ejsCreateArray A (len ap)) (\<lambda>newArray.
       case andthen (of_res (contents ap)) (\<lambda>src.
            andthen (on_data (\<lambda>d. copy_in d 0 src)) (\<lambda>_.
            concat_args A args (int (length src)))) newArray of
         (Ok u, a) \<Rightarrow> Ok a | (Throw e, a) \<Rightarrow> Throw e | (Fault, a) \<Rightarrow> Fault)"

text \<open>The iterators give the index and the value of the next element that is not undefined.\<close>

function next_element :: "jsarray \<Rightarrow> int \<Rightarrow> int \<Rightarrow> (int \<times> slot) res" where
  "next_element ap index n =
     (if n \<le> index then Throw StopIteration
      else bind_res (load (data ap) index) (\<lambda>vp.
        if vp = None then Fault
        else if vp = Some OUndefined then next_element ap (index + 1) n else Ok (index, vp)))"
  by pat_completeness auto
termination
  by (relation "measure (\<lambda>(ap, index, n). nat (n - index))") auto

declare next_element.simps [simp del]

definition nextArrayKey :: "jsarray \<Rightarrow> int \<Rightarrow> int \<Rightarrow> (int \<times> int) res" where
  "nextArrayKey ap n index = map_res (\<lambda>(i, v). (i, i + 1)) (next_element ap index n)"

definition nextArrayValue :: "jsarray \<Rightarrow> int \<Rightarrow> int \<Rightarrow> (slot \<times> int) res" where
  "nextArrayValue ap n index = map_res (\<lambda>(i, v). (v, i + 1)) (next_element ap index n)"

function index_up :: "slot list \<Rightarrow> slot \<Rightarrow> int \<Rightarrow> int \<Rightarrow> int res" where
  "index_up d element i n =
     (if n \<le> i then Ok (-1)
      else bind_res (load d i) (\<lambda>v. bind_res (compareArrayElement v element) (\<lambda>eq.
        if eq then Ok i else index_up d element (i + 1) n)))"
  by pat_completeness auto
termination
  by (relation "measure (\<lambda>(d, element, i, n). nat (n - i))") auto

function index_down :: "slot list \<Rightarrow> slot \<Rightarrow> int \<Rightarrow> int res" where
  "index_down d element i =
     (if i < 0 then Ok (-1)
      else bind_res (load d i) (\<lambda>v. bind_res (compareArrayElement v element) (\<lambda>eq.
        if eq then Ok i else index_down d element (i - 1))))"
  by pat_completeness auto
termination
  by (relation "measure (\<lambda>(d, element, i). nat (i + 1))") auto

declare index_up.simps [simp del] index_down.simps [simp del]

definition indexOfArray :: "slot \<Rightarrow> int option \<Rightarrow> jsarray \<Rightarrow> int res" where
  "indexOfArray element arg ap =
     (let start = (case arg of None \<Rightarrow> 0 | Some s \<Rightarrow> s);
          start = (if start < 0 then start + len ap else start)
      in if len ap \<le> start then Ok (-1) else index_up (data ap) element (max 0 start) (len ap))"

definition lastArrayIndexOf :: "slot \<Rightarrow> int option \<Rightarrow> jsarray \<Rightarrow> int res" where
  "lastArrayIndexOf element arg ap =
     (let start = (case arg of None \<Rightarrow> len ap - 1 | Some s \<Rightarrow> s);
          start = (if start < 0 then start + len ap else start);
          start = (if len ap \<le> start then len ap - 1 else start)
      in if start < 0 then Ok (-1) else index_down (data ap) element start)"

text \<open>The methods that return the null pointer when there is no memory return \<open>None\<close>.\<close>

definition insert_at :: "allocator \<Rightarrow> int \<Rightarrow> jsarray \<Rightarrow> (jsarray, unit option) op" where
  "insert_at A pos args ap =
     andthen (growArray A (int32 (len ap + len args))) (\<lambda>ok.
       if \<not> ok then ret None
       else andthen get_len (\<lambda>n. andthen (of_res (contents args)) (\<lambda>src.
            andthen (on_data (\<lambda>d. move_up d (n - 1) (pos + len args) (len args))) (\<lambda>_.
            andthen (on_data (\<lambda>d. copy_in d pos src)) (\<lambda>_. ret (Some ())))))) ap"

definition insertArray :: "allocator \<Rightarrow> int \<Rightarrow> jsarray \<Rightarrow> (jsarray, unit option) op" where
  "insertArray A pos args ap =
     (let pos = (if pos < 0 then pos + len ap else pos);
          pos = (if pos < 0 then 0 else pos);
          pos = (if len ap \<le> pos then len ap else pos)
      in insert_at A pos args ap)"

fun join_loop :: "(slot \<Rightarrow> string) \<Rightarrow> string option \<Rightarrow> bool \<Rightarrow> slot list \<Rightarrow> string" where
  "join_loop S sep first [] = []"
| "join_loop S sep first (v # vs) =
     (if \<not> ejsIsDefined v then [] else (if first then [] else case sep of None \<Rightarrow> [] | Some s \<Rightarrow> s) @ S v)
     @ join_loop S sep False vs"

definition joinArray :: "(slot \<Rightarrow> string) \<Rightarrow> string option \<Rightarrow> jsarray \<Rightarrow> string res" where
  "joinArray S sep ap = map_res (join_loop S sep True) (contents ap)"

fun string_loop :: "(slot \<Rightarrow> string) \<Rightarrow> bool \<Rightarrow> slot list \<Rightarrow> string" where
  "string_loop S first [] = []"
| "string_loop S first (v # vs) =
     (if first then [] else '','') @ (if ejsIsDefined v then S v else []) @ string_loop S False vs"

definition arrayToString :: "(slot \<Rightarrow> string) \<Rightarrow> jsarray \<Rightarrow> string res" where
  "arrayToString S ap = map_res (string_loop S True) (contents ap)"

definition getArrayLength :: "jsarray \<Rightarrow> int" where
  "getArrayLength ap = len ap"

text \<open>
  The loop that would clear the new elements starts at the length of the array, which \<open>growArray\<close> has
  raised already, so it does nothing.
\<close>

definition setArrayLength :: "allocator \<Rightarrow> int \<Rightarrow> (jsarray, unit) op" where
  "setArrayLength A arg ap =
     (let n = (if arg < 0 then 0 else arg)
      in if len ap < n
         then andthen (growArray A n) (\<lambda>ok. if \<not> ok then ret ()
              else andthen get_len (\<lambda>from. andthen (on_data (\<lambda>d. copy_in d from (replicate (nat (n - from)) None)))
                     (\<lambda>_. set_len n))) ap
         else set_len n ap)"

definition popArray :: "(jsarray, slot) op" where
  "popArray ap =
     (if len ap = 0 then (Ok (Some OUndefined), ap)
      else (load (data ap) (len ap - 1), ap\<lparr>len := len ap - 1\<rparr>))"

definition pushArray :: "allocator \<Rightarrow> jsarray \<Rightarrow> (jsarray, int option) op" where
  "pushArray A args ap =
     (let oldLen = len ap
      in andthen (growArray A (int32 (len ap + len args))) (\<lambda>ok. if \<not> ok then ret None
         else andthen (of_res (contents args)) (\<lambda>src. andthen (on_data (\<lambda>d. copy_in d oldLen src)) (\<lambda>_.
              andthen get_len (\<lambda>n. ret (Some n))))) ap)"

function remove_scan :: "slot \<Rightarrow> slot list \<Rightarrow> int \<Rightarrow> int \<Rightarrow> (slot list \<times> int) res" where
  "remove_scan r d i n =
     (if n \<le> i then Ok (d, n)
      else bind_res (load d i) (\<lambda>v. bind_res (compareArrayElement v r) (\<lambda>eq.
        if eq then bind_res (move_down d i (n - 1) 1) (\<lambda>d. remove_scan r d (i + 1) (n - 1))
        else remove_scan r d (i + 1) n)))"
  by pat_completeness auto
termination
  by (relation "measure (\<lambda>(r, d, i, n). nat (n - i))") auto

declare remove_scan.simps [simp del]

fun remove_all :: "slot list \<Rightarrow> slot list \<Rightarrow> int \<Rightarrow> (slot list \<times> int) res" where
  "remove_all [] d n = Ok (d, n)"
| "remove_all (r # rs) d n = bind_res (remove_scan r d 0 n) (\<lambda>(d, n). remove_all rs d n)"

definition on_block :: "(slot list \<Rightarrow> int \<Rightarrow> (slot list \<times> int) res) \<Rightarrow> (jsarray, unit) op" where
  "on_block f ap =
     (case f (data ap) (len ap) of
        Ok (d, n) \<Rightarrow> (Ok (), ap\<lparr>data := d, len := n\<rparr>) | Throw e \<Rightarrow> (Throw e, ap) | Fault \<Rightarrow> (Fault, ap))"

definition removeArrayElements :: "jsarray \<Rightarrow> (jsarray, unit) op" where
  "removeArrayElements rhs =
     andthen (of_res (contents rhs)) (\<lambda>r. on_block (remove_all r))"

function reverse_loop :: "slot list \<Rightarrow> int \<Rightarrow> int \<Rightarrow> slot list res" where
  "reverse_loop d i j =
     (if i < 0 then Ok d
      else bind_res (load d i) (\<lambda>tmp. bind_res (load d j) (\<lambda>v.
           bind_res (store d i v) (\<lambda>d. bind_res (store d j tmp) (\<lambda>d. reverse_loop d (i - 1) (j + 1))))))"
  by pat_completeness auto
termination
  by (relation "measure (\<lambda>(d, i, j). nat (i + 1))") auto

declare reverse_loop.simps [simp del]

definition reverseArray :: "(jsarray, unit) op" where
  "reverseArray ap =
     (if len ap \<le> 1 then (Ok (), ap)
      else on_data (\<lambda>d. reverse_loop d ((len ap - 2) div 2) ((len ap + 1) div 2)) ap)"

definition shiftArray :: "(jsarray, slot) op" where
  "shiftArray ap =
     (if len ap = 0 then (Ok (Some OUndefined), ap)
      else andthen (of_res (load (data ap) 0)) (\<lambda>result.
           andthen (on_data (\<lambda>d. move_down d 0 (len ap - 1) 1)) (\<lambda>_.
           andthen (set_len (len ap - 1)) (\<lambda>_. ret result))) ap)"

text \<open>
  The loops of \<open>slice\<close>, with a positive and a negative step; the result is the number of slots copied. The
  index wraps at 32 bits, where it would be used outside of the block; index and step are C integers.
\<close>

definition is_int :: "int \<Rightarrow> bool" where
  "is_int n \<longleftrightarrow> - (2 ^ 31) \<le> n \<and> n < 2 ^ 31"

lemma int32_same [simp]: "is_int n \<Longrightarrow> int32 n = n"
  by (simp add: is_int_def int32_def)

lemma int32_next:
  assumes "is_int i" "0 \<le> i" "is_int k" "0 < k"
  shows "int32 (i + k) < 0 \<or> i < int32 (i + k)"
proof (cases "i + k < 2 ^ 31")
  case True
  with assms have "is_int (i + k)" by (simp add: is_int_def)
  with assms show ?thesis by simp
next
  case False
  have "(i + k + 2 ^ 31) mod 2 ^ 32 = (i + k + 2 ^ 31 - 2 ^ 32) mod 2 ^ 32" by (simp only: minus_mod_self2)
  also have "\<dots> = i + k + 2 ^ 31 - 2 ^ 32"
    using False assms by (intro mod_pos_pos_trivial) (simp_all add: is_int_def)
  finally show ?thesis using assms by (simp add: int32_def is_int_def)
qed

function slice_up :: "slot list \<Rightarrow> slot list \<Rightarrow> int \<Rightarrow> int \<Rightarrow> int \<Rightarrow> int \<Rightarrow> (slot list \<times> int) res" where
  "slice_up src d i j lim step =
     (if lim \<le> i then Ok (d, j)
      else if i < 0 \<or> step \<le> 0 \<or> \<not> is_int i \<or> \<not> is_int step then Fault
      else bind_res (load src i) (\<lambda>v. bind_res (store d j v) (\<lambda>d.
             slice_up src d (int32 (i + step)) (j + 1) lim step)))"
  by pat_completeness auto
termination
proof (relation "measure (\<lambda>(src, d, i, j, lim, step). if i < 0 then 0 else Suc (nat (lim - i)))", goal_cases)
  case (2 src d i j lim step v d')
  have "int32 (i + step) < 0 \<or> i < int32 (i + step)"
    using 2(2) by (intro int32_next) simp_all
  with 2(1,2) show ?case by auto
qed simp

function slice_down :: "slot list \<Rightarrow> slot list \<Rightarrow> int \<Rightarrow> int \<Rightarrow> int \<Rightarrow> int \<Rightarrow> (slot list \<times> int) res" where
  "slice_down src d i j lim step =
     (if i \<le> lim then Ok (d, j)
      else if i < 0 \<or> 0 \<le> step then Fault
      else bind_res (load src i) (\<lambda>v. bind_res (store d j v) (\<lambda>d. slice_down src d (i + step) (j + 1) lim step)))"
  by pat_completeness auto
termination
  by (relation "measure (\<lambda>(src, d, i, j, lim, step). nat (i - lim))") auto

declare slice_up.simps [simp del] slice_down.simps [simp del]

definition clamp :: "int \<Rightarrow> int \<Rightarrow> int" where
  "clamp n i =
     (let i = (if i < 0 then i + n else i)
      in if i < 0 then 0 else if n \<le> i then n else i)"

definition sliceArray :: "allocator \<Rightarrow> int \<Rightarrow> int option \<Rightarrow> int option \<Rightarrow> jsarray \<Rightarrow> jsarray res" where
  "sliceArray A start arg1 arg2 ap =
     (let lim = (case arg1 of Some e \<Rightarrow> e | None \<Rightarrow> len ap);
          step = (case arg2 of Some s \<Rightarrow> s | None \<Rightarrow> 1);
          step = (if step = 0 then 1 else step);
          start = clamp (len ap) start;
          lim = clamp (len ap) lim;
          n = (if start < lim then lim - start else start - lim)
      in bind_res (ejsCreateArray A n) (\<lambda>result.
         bind_res (if 0 < step then slice_up (data ap) (data result) start 0 lim step
                   else slice_down (data ap) (data result) start 0 lim step) (\<lambda>(d, n).
         Ok (result\<lparr>data := d, len := n\<rparr>))))"

text \<open>
  \<open>splice\<close>: the part after the removed elements are copied, the part from there on, and the whole.
\<close>

definition splice_rest :: "allocator \<Rightarrow> int \<Rightarrow> int \<Rightarrow> jsarray \<Rightarrow> int \<Rightarrow> jsarray \<Rightarrow> (jsarray, jsarray option) op" where
  "splice_rest A start delta values oldLen result =
     andthen (if 0 < delta then (\<lambda>ap. growArray A (int32 (len ap + delta)) ap)
              else (\<lambda>ap. andthen (set_len (len ap + delta)) (\<lambda>_. ret True) ap)) (\<lambda>ok.
     if \<not> ok then ret None
     else andthen get_len (\<lambda>n.
          andthen (if 0 < delta then on_data (\<lambda>d. move_up d (n - 1) (start + delta) delta) else ret ()) (\<lambda>_.
          andthen (of_res (contents values)) (\<lambda>items.
          andthen (on_data (\<lambda>d. copy_in d start items)) (\<lambda>_.
          andthen (if delta < 0 then on_data (\<lambda>d. move_down d (start + len values) oldLen (- delta)) else ret ()) (\<lambda>_.
          ret (Some result)))))))"

definition splice_at :: "allocator \<Rightarrow> int \<Rightarrow> int \<Rightarrow> jsarray \<Rightarrow> (jsarray, jsarray option) op" where
  "splice_at A start deleteCount values ap =
     andthen (of_res (ejsCreateArray A deleteCount)) (\<lambda>result.
     andthen (of_res (if start + deleteCount \<le> int (length (data ap))
                      then Ok (take (nat deleteCount) (drop (nat start) (data ap))) else Fault)) (\<lambda>removed.
     andthen (of_res (copy_in (data result) 0 removed)) (\<lambda>rd.
     splice_rest A start (len values - deleteCount) values (len ap) (result\<lparr>data := rd\<rparr>)))) ap"

definition spliceArray :: "allocator \<Rightarrow> int \<Rightarrow> int \<Rightarrow> jsarray \<Rightarrow> (jsarray, jsarray option) op" where
  "spliceArray A start deleteCount values ap =
     (if len ap = 0
      then if deleteCount \<le> 0 then (Ok (Some ap), ap) else (Throw ArgError, ap)
      else let start = (if start < 0 then start + len ap else start);
               start = (if start < 0 then 0 else start);
               start = (if len ap \<le> start then len ap - 1 else start);
               deleteCount = (if deleteCount < 0 then len ap - start + 1 else deleteCount);
               deleteCount = (if len ap < deleteCount then len ap else deleteCount)
           in splice_at A start deleteCount values ap)"

function unique_inner :: "slot list \<Rightarrow> int \<Rightarrow> int \<Rightarrow> int \<Rightarrow> (slot list \<times> int) res" where
  "unique_inner d i j n =
     (if n \<le> j then Ok (d, n)
      else bind_res (load d i) (\<lambda>v. bind_res (load d j) (\<lambda>w. bind_res (compareArrayElement v w) (\<lambda>eq.
        if eq then bind_res (move_down d j (n - 1) 1) (\<lambda>d. unique_inner d i j (n - 1))
        else unique_inner d i (j + 1) n))))"
  by pat_completeness auto
termination
  by (relation "measure (\<lambda>(d, i, j, n). nat (n - j))") auto

text \<open>The fuel is the length at the start: the outer index never passes it.\<close>

fun unique_outer :: "nat \<Rightarrow> slot list \<Rightarrow> int \<Rightarrow> int \<Rightarrow> (slot list \<times> int) res" where
  "unique_outer 0 d i n = Ok (d, n)"
| "unique_outer (Suc f) d i n =
     (if n \<le> i then Ok (d, n)
      else bind_res (unique_inner d i (i + 1) n) (\<lambda>(d, n). unique_outer f d (i + 1) n))"

declare unique_inner.simps [simp del]

definition uniqueArray :: "(jsarray, unit) op" where
  "uniqueArray = on_block (\<lambda>d n. unique_outer (nat n) d 0 n)"

definition unshiftArray :: "allocator \<Rightarrow> jsarray \<Rightarrow> (jsarray, unit option) op" where
  "unshiftArray A args ap = (if len args \<le> 0 then (Ok (Some ()), ap) else insert_at A 0 args ap)"

section \<open>Set operators\<close>

fun holds_element :: "slot \<Rightarrow> slot list \<Rightarrow> bool res" where
  "holds_element v [] = Ok False"
| "holds_element v (w # ws) =
     bind_res (compareArrayElement v w) (\<lambda>eq. if eq then Ok True else holds_element v ws)"

definition addUnique :: "allocator \<Rightarrow> slot \<Rightarrow> (jsarray, unit) op" where
  "addUnique A element ap =
     andthen (of_res (bind_res (contents ap) (\<lambda>vs. bind_res (index_up vs element 0 (int (length vs))) Ok))) (\<lambda>i.
       if i < 0 then andthen (setArrayProperty A (-1) element) (\<lambda>_. ret ()) else ret ()) ap"

fun add_all :: "allocator \<Rightarrow> slot list \<Rightarrow> (jsarray, unit) op" where
  "add_all A [] = ret ()"
| "add_all A (v # vs) = andthen (addUnique A v) (\<lambda>_. add_all A vs)"

definition makeUnion :: "allocator \<Rightarrow> jsarray \<Rightarrow> jsarray \<Rightarrow> (jsarray, unit) op" where
  "makeUnion A lhs rhs =
     andthen (of_res (contents lhs)) (\<lambda>l. andthen (add_all A l) (\<lambda>_.
     andthen (of_res (contents rhs)) (\<lambda>r. add_all A r)))"

text \<open>For every pair of equal elements the element is added unless the result has it already.\<close>

fun intersect_one :: "allocator \<Rightarrow> slot \<Rightarrow> slot list \<Rightarrow> (jsarray, unit) op" where
  "intersect_one A v [] = ret ()"
| "intersect_one A v (w # ws) =
     andthen (of_res (compareArrayElement v w)) (\<lambda>eq.
       andthen (if eq then (\<lambda>ap. andthen (of_res (bind_res (contents ap) (holds_element v))) (\<lambda>has.
                  if has then ret () else andthen (setArrayProperty A (-1) v) (\<lambda>_. ret ())) ap)
                else ret ())
         (\<lambda>_. intersect_one A v ws))"

fun intersect_all :: "allocator \<Rightarrow> slot list \<Rightarrow> slot list \<Rightarrow> (jsarray, unit) op" where
  "intersect_all A [] r = ret ()"
| "intersect_all A (v # vs) r = andthen (intersect_one A v r) (\<lambda>_. intersect_all A vs r)"

definition makeIntersection :: "allocator \<Rightarrow> jsarray \<Rightarrow> jsarray \<Rightarrow> (jsarray, unit) op" where
  "makeIntersection A lhs rhs =
     andthen (of_res (contents lhs)) (\<lambda>l. andthen (of_res (contents rhs)) (\<lambda>r. intersect_all A l r))"

section \<open>Sorting\<close>

text \<open>
  \<open>ejsCompareString\<close> (\<open>ejsString.c\<close>): strings are compared up to a NUL, with signed characters.
\<close>

fun ejsCompareString :: "string \<Rightarrow> string \<Rightarrow> int" where
  "ejsCompareString [] [] = 0"
| "ejsCompareString [] (b # bs) = (if char_val b = 0 then 0 else -1)"
| "ejsCompareString (a # as) [] = (if char_val a = 0 then 0 else 1)"
| "ejsCompareString (a # as) (b # bs) =
     (if char_val a = 0 then (if char_val b = 0 then 0 else -1)
      else if char_val b = 0 then 1
      else if a = b then ejsCompareString as bs
      else if char_val a < char_val b then -1 else 1)"

text \<open>
  What a comparison gives: an integer, no number (or no string), or an exception. A compare function of the script is
  called with the array and two indices. Without one the elements are compared as strings; the conversion of an element to a string is
  a parameter, and gives none when it raises an exception.
\<close>

datatype order = Order int | NoOrder | Raised_order

type_synonym comparator = "slot list \<Rightarrow> int \<Rightarrow> int \<Rightarrow> order"

definition string_order :: "(slot \<Rightarrow> string option) \<Rightarrow> comparator" where
  "string_order S d r i =
     (case (S (d ! nat r), S (d ! nat i)) of
        (Some sx, Some so) \<Rightarrow> Order (ejsCompareString sx so) | _ \<Rightarrow> Raised_order)"

text \<open>The result of \<open>partition\<close>: the block, the index, and whether an exception is pending.\<close>

function part_loop :: "comparator \<Rightarrow> int \<Rightarrow> slot list \<Rightarrow> int \<Rightarrow> int \<Rightarrow> int \<Rightarrow> (slot list \<times> int option \<times> bool) res" where
  "part_loop cmp direction d i j r =
     (if r \<le> i then Ok (d, Some j, False)
      else case cmp d r i of
             NoOrder \<Rightarrow> Ok (d, None, False)
           | Raised_order \<Rightarrow> Ok (d, None, True)
           | Order ord \<Rightarrow>
               if 0 < int32 (ord * direction)
               then bind_res (load d (j + 1)) (\<lambda>tmp. bind_res (load d i) (\<lambda>v.
                    bind_res (store d (j + 1) v) (\<lambda>d. bind_res (store d i tmp) (\<lambda>d.
                    part_loop cmp direction d (i + 1) (j + 1) r))))
               else part_loop cmp direction d (i + 1) j r)"
  by pat_completeness auto
termination
  by (relation "measure (\<lambda>(cmp, direction, d, i, j, r). nat (r - i))") auto

declare part_loop.simps [simp del]

definition partition_array :: "comparator \<Rightarrow> int \<Rightarrow> slot list \<Rightarrow> int \<Rightarrow> int \<Rightarrow> (slot list \<times> int \<times> bool) res" where
  "partition_array cmp direction d p r =
     bind_res (load d r) (\<lambda>x. bind_res (part_loop cmp direction d p (p - 1) r) (\<lambda>(d, j, exc).
       case j of
         None \<Rightarrow> Ok (d, 0, exc)
       | Some j \<Rightarrow>
           bind_res (load d (j + 1)) (\<lambda>v. bind_res (store d r v) (\<lambda>d. bind_res (store d (j + 1) x) (\<lambda>d.
             Ok (d, j + 1, exc))))))"

text \<open>The recursion has a fuel, as it need not end; \<open>None\<close> is out of fuel.\<close>

fun quickSort :: "nat \<Rightarrow> comparator \<Rightarrow> int \<Rightarrow> slot list \<times> bool \<Rightarrow> int \<Rightarrow> int \<Rightarrow> (slot list \<times> bool) res option" where
  "quickSort 0 cmp direction s p r = None"
| "quickSort (Suc f) cmp direction (d, exc) p r =
     (if p < r \<and> \<not> exc
      then case partition_array cmp direction d p r of
             Ok (d, q, exc) \<Rightarrow>
               (case quickSort f cmp direction (d, exc) p (q - 1) of
                  Some (Ok s) \<Rightarrow> quickSort f cmp direction s (q + 1) r
                | res \<Rightarrow> res)
           | Throw e \<Rightarrow> Some (Throw e) | Fault \<Rightarrow> Some Fault
      else Some (Ok (d, exc)))"

definition ejsSortArray :: "nat \<Rightarrow> (slot \<Rightarrow> string option) \<Rightarrow> comparator option \<Rightarrow> int option \<Rightarrow> jsarray \<Rightarrow> (jsarray \<times> bool) res option" where
  "ejsSortArray f S compare arg ap =
     (if len ap \<le> 1 then Some (Ok (ap, False))
      else map_option (map_res (\<lambda>(d, exc). (ap\<lparr>data := d\<rparr>, exc)))
             (quickSort f (case compare of None \<Rightarrow> string_order S | Some cmp \<Rightarrow> cmp)
               (case arg of None \<Rightarrow> 1 | Some n \<Rightarrow> n) (data ap, False) 0 (len ap - 1)))"

section \<open>The interface for C\<close>

definition ejsAddItem :: "allocator \<Rightarrow> slot \<Rightarrow> (jsarray, int) op" where
  "ejsAddItem A item ap = andthen (setArrayProperty A (len ap) item) (\<lambda>_. ret (len ap)) ap"

fun append_items :: "allocator \<Rightarrow> slot list \<Rightarrow> (jsarray, unit) op" where
  "append_items A [] = ret ()"
| "append_items A (v # vs) =
     andthen (\<lambda>ap. setArrayProperty A (len ap) v ap) (\<lambda>_. append_items A vs)"

definition ejsAppendArray :: "allocator \<Rightarrow> jsarray \<Rightarrow> (jsarray, unit) op" where
  "ejsAppendArray A src = andthen (of_res (contents src)) (append_items A)"

definition ejsClearArray :: "(jsarray, unit) op" where
  "ejsClearArray = set_len 0"

definition ejsGetItem :: "int \<Rightarrow> (jsarray, slot) op" where
  "ejsGetItem index = getArrayProperty index"

definition ejsGetFirstItem :: "jsarray \<Rightarrow> slot res" where
  "ejsGetFirstItem ap = (if len ap = 0 then Ok None else load (data ap) 0)"

definition ejsGetLastItem :: "jsarray \<Rightarrow> slot res" where
  "ejsGetLastItem ap = (if len ap = 0 then Ok None else load (data ap) (len ap - 1))"

text \<open>The item and the next position.\<close>

definition ejsGetNextItem :: "jsarray \<Rightarrow> int \<Rightarrow> (slot \<times> int) res" where
  "ejsGetNextItem ap nxt =
     (if nxt < len ap then map_res (\<lambda>v. (v, nxt + 1)) (load (data ap) nxt) else Ok (None, nxt))"

definition ejsGetPrevItem :: "jsarray \<Rightarrow> int \<Rightarrow> (slot \<times> int) res" where
  "ejsGetPrevItem ap nxt =
     (let nxt = (if nxt < 0 then len ap else nxt); index = nxt - 1
      in if index < len ap \<and> 0 \<le> index then map_res (\<lambda>v. (v, index)) (load (data ap) index)
         else Ok (None, nxt))"

fun position :: "slot \<Rightarrow> int \<Rightarrow> slot list \<Rightarrow> int option" where
  "position item i [] = None"
| "position item i (v # vs) = (if v = item then Some i else position item (i + 1) vs)"

definition MPR_ERR_CANT_FIND :: int where "MPR_ERR_CANT_FIND = -18"

definition ejsLookupItem :: "slot \<Rightarrow> jsarray \<Rightarrow> int res" where
  "ejsLookupItem item ap =
     map_res (\<lambda>vs. case position item 0 vs of None \<Rightarrow> MPR_ERR_CANT_FIND | Some i \<Rightarrow> i) (contents ap)"

definition ejsRemoveItem :: "allocator \<Rightarrow> slot \<Rightarrow> bool \<Rightarrow> (jsarray, int) op" where
  "ejsRemoveItem A item compact ap =
     andthen (of_res (contents ap)) (\<lambda>vs.
       case position item 0 vs of
         None \<Rightarrow> ret MPR_ERR_CANT_FIND
       | Some i \<Rightarrow>
           andthen (deleteArrayProperty A i) (\<lambda>_.
           andthen (if compact then compactArray else ret ()) (\<lambda>_. ret i))) ap"

definition ejsRemoveLastItem :: "allocator \<Rightarrow> (jsarray, int option) op" where
  "ejsRemoveLastItem A ap =
     (if len ap \<le> 0 then (Ok (Some MPR_ERR_CANT_FIND), ap) else deleteArrayProperty A (len ap - 1) ap)"

definition ejsRemoveItemAtPos :: "allocator \<Rightarrow> int \<Rightarrow> bool \<Rightarrow> (jsarray, int option) op" where
  "ejsRemoveItemAtPos A index compact ap =
     (if len ap \<le> 0 then (Ok (Some MPR_ERR_CANT_FIND), ap)
      else andthen (deleteArrayProperty A index) (\<lambda>rc.
           andthen (if compact then compactArray else ret ()) (\<lambda>_. ret rc)) ap)"

end
