(* ===== verification/ArrayList.thy ===== *)
theory ArrayList
  imports Arrays
begin

text \<open>
  Arrays as lists: the loops over the block move whole segments, and every method that is free of faults is an
  operation on the list of the elements. A run of methods from any array gives the results that the list
  operations give. Sorting gives a sorted permutation.
\<close>

section \<open>The loops over the block\<close>

lemma load_nat [simp]: "i < length d \<Longrightarrow> load d (int i) = Ok (d ! i)"
  by (simp add: load_def)

lemma store_nat [simp]: "i < length d \<Longrightarrow> store d (int i) v = Ok (d[i := v])"
  by (simp add: store_def)

lemma nth_write_block:
  "i + length xs \<le> length m \<Longrightarrow> n < length m \<Longrightarrow>
     write_block m i xs ! n = (if i \<le> n \<and> n < i + length xs then xs ! (n - i) else m ! n)"
  by (auto simp: write_block_def nth_append min_def)

lemma copy_in_block: "p + length vs \<le> length d \<Longrightarrow> copy_in d (int p) vs = Ok (write_block d p vs)"
proof (induction vs arbitrary: d p)
  case (Cons v vs)
  have "copy_in (d[p := v]) (int (Suc p)) vs = Ok (write_block (d[p := v]) (Suc p) vs)"
    by (rule Cons.IH) (use Cons.prems in simp)
  moreover have "write_block (d[p := v]) (Suc p) vs = write_block d p (v # vs)"
    using Cons.prems by (simp add: write_block_def upd_conv_take_nth_drop take_update_swap add.commute)
  ultimately show ?case using Cons.prems by (simp add: add.commute)
qed (simp add: write_block_def)

lemma move_down_block:
  assumes "i \<le> j" "j + k \<le> length d"
  shows "move_down d (int i) (int j) (int k) = Ok (write_block d i (take (j - i) (drop (i + k) d)))"
  using assms
proof (induction "j - i" arbitrary: d i)
  case 0
  then show ?case by (simp add: move_down.simps)
next
  case (Suc m)
  then have ij: "i < j" "i + k < length d" by simp_all
  have "move_down (d[i := d ! (i + k)]) (int (Suc i)) (int j) (int k)
      = Ok (write_block (d[i := d ! (i + k)]) (Suc i) (take (j - Suc i) (drop (Suc i + k) (d[i := d ! (i + k)]))))"
    using Suc by (intro Suc(1)) simp_all
  moreover have "drop (Suc i + k) (d[i := d ! (i + k)]) = drop (Suc i + k) d" by simp
  moreover have "take (j - i) (drop (i + k) d) = d ! (i + k) # take (j - Suc i) (drop (Suc i + k) d)"
    using ij by (simp add: Cons_nth_drop_Suc [symmetric] Suc_diff_le take_Cons')
  moreover have "write_block (d[i := v]) (Suc i) vs = write_block d i (v # vs)" for v vs
    using ij by (simp add: write_block_def upd_conv_take_nth_drop add.commute)
  moreover have "load d (int i + int k) = Ok (d ! (i + k))" using load_nat [of "i + k" d] ij by simp
  ultimately show ?case using ij by (subst move_down.simps) (simp add: add.commute)
qed

lemma move_up_block:
  assumes "k \<le> i" "j \<le> length d" "i \<le> j"
  shows "move_up d (int j - 1) (int i) (int k) = Ok (write_block d i (take (j - i) (drop (i - k) d)))"
  using assms
proof (induction "j - i" arbitrary: d j)
  case 0
  then show ?case by (simp add: move_up.simps)
next
  case (Suc m)
  then obtain j' where j: "j = Suc j'" by (cases j) auto
  with Suc have ij: "i \<le> j'" "j' < length d" by simp_all
  let ?d = "d[j' := d ! (j' - k)]"
  have "move_up ?d (int j' - 1) (int i) (int k) = Ok (write_block ?d i (take (j' - i) (drop (i - k) ?d)))"
    using Suc j by (intro Suc(1)) simp_all
  moreover have "write_block ?d i (take (j' - i) (drop (i - k) ?d)) = write_block d i (take (j - i) (drop (i - k) d))"
  proof (rule nth_equalityI)
    show "length (write_block ?d i (take (j' - i) (drop (i - k) ?d))) = length (write_block d i (take (j - i) (drop (i - k) d)))"
      using ij j Suc.prems by simp
  next
    fix n
    assume "n < length (write_block ?d i (take (j' - i) (drop (i - k) ?d)))"
    then have n: "n < length d" using ij j Suc.prems by simp
    show "write_block ?d i (take (j' - i) (drop (i - k) ?d)) ! n = write_block d i (take (j - i) (drop (i - k) d)) ! n"
    proof (cases "n = j'")
      case True
      then show ?thesis using n ij j Suc.prems by (simp add: nth_write_block)
    next
      case False
      then show ?thesis using n ij j Suc.prems by (auto simp: nth_write_block)
    qed
  qed
  moreover have "load d (int j - 1 - int k) = Ok (d ! (j' - k))"
    using load_nat [of "j' - k" d] ij j Suc.prems by (simp add: of_nat_diff)
  moreover have "store d (int j - 1) v = Ok (d[j' := v])" for v
    using store_nat [of j' d v] ij j by simp
  ultimately show ?case using ij j by (subst move_up.simps) simp
qed

section \<open>Arrays as lists\<close>

definition arr :: "jsarray \<Rightarrow> slot list \<Rightarrow> bool" where
  "arr ap xs \<longleftrightarrow> len ap = int (length xs) \<and> (\<exists>rest. data ap = xs @ rest)"

text \<open>An operation succeeds with a result and leaves the array with the given elements.\<close>

definition gives :: "(jsarray, 'a) op \<Rightarrow> jsarray \<Rightarrow> 'a \<Rightarrow> slot list \<Rightarrow> bool" where
  "gives m ap r xs \<longleftrightarrow> (\<exists>ap'. m ap = (Ok r, ap') \<and> arr ap' xs \<and> dynamic ap' = dynamic ap)"

definition plenty :: "allocator \<Rightarrow> bool" where
  "plenty A \<longleftrightarrow> (\<forall>n. A n \<noteq> None)"

lemma givesI: "m ap = (Ok r, ap') \<Longrightarrow> arr ap' xs \<Longrightarrow> dynamic ap' = dynamic ap \<Longrightarrow> gives m ap r xs"
  by (auto simp: gives_def)

lemma gives_bind:
  assumes "gives m ap r xs" "\<And>ap'. arr ap' xs \<Longrightarrow> dynamic ap' = dynamic ap \<Longrightarrow> gives (f r) ap' q ys"
  shows "gives (andthen m f) ap q ys"
proof -
  from assms(1) obtain ap1 where 1: "m ap = (Ok r, ap1)" "arr ap1 xs" "dynamic ap1 = dynamic ap" by (auto simp: gives_def)
  from assms(2) [OF 1(2,3)] show ?thesis using 1(1,3) by (auto simp: gives_def)
qed

lemma gives_ret [simp]: "gives (ret r) ap q xs \<longleftrightarrow> r = q \<and> arr ap xs"
  by (auto simp: gives_def)

lemma gives_pure [simp]:
  "gives (andthen get_len g) ap q xs \<longleftrightarrow> gives (g (len ap)) ap q xs"
  "gives (andthen (of_res (Ok v)) f) ap q xs \<longleftrightarrow> gives (f v) ap q xs"
  "gives (andthen (ret w) h) ap q xs \<longleftrightarrow> gives (h w) ap q xs"
  by (simp_all add: gives_def get_len_def of_res_def)

lemma contents_arr [simp]: "arr ap xs \<Longrightarrow> contents ap = Ok xs"
  by (auto simp: arr_def contents_def)

lemma arr_lenD: "arr ap xs \<Longrightarrow> len ap = int (length xs)"
  by (simp add: arr_def)

text \<open>A change of the block that changes the elements only.\<close>

lemma gives_on_data:
  assumes "arr ap xs" and "\<And>rest. data ap = xs @ rest \<Longrightarrow> f (xs @ rest) = Ok (ys @ rest)" and "length ys = length xs"
  shows "gives (on_data f) ap () ys"
proof -
  from assms(1) obtain rest where "data ap = xs @ rest" "len ap = int (length xs)" by (auto simp: arr_def)
  with assms(2) [of rest] assms(3) show ?thesis by (auto simp: gives_def on_data_def arr_def)
qed

lemma write_block_append: "i + length vs \<le> length xs \<Longrightarrow> write_block (xs @ zs) i vs = write_block xs i vs @ zs"
  by (simp add: write_block_def)

lemma gives_copy:
  assumes "arr ap xs" "i + length vs \<le> length xs"
  shows "gives (on_data (\<lambda>d. copy_in d (int i) vs)) ap () (write_block xs i vs)"
  using assms by (intro gives_on_data) (simp_all add: copy_in_block write_block_append)

lemma gives_store:
  assumes "arr ap xs" "i < length xs"
  shows "gives (on_data (\<lambda>d. store d (int i) v)) ap () (xs[i := v])"
  using assms by (intro gives_on_data) (simp_all add: list_update_append)

lemma gives_up:
  assumes "arr ap xs" "k \<le> i" "i \<le> length xs"
  shows "gives (on_data (\<lambda>d. move_up d (int (length xs) - 1) (int i) (int k))) ap ()
           (take i xs @ take (length xs - i) (drop (i - k) xs))"
proof (rule gives_on_data [OF assms(1)])
  fix rest
  have "move_up (xs @ rest) (int (length xs) - 1) (int i) (int k)
      = Ok (write_block (xs @ rest) i (take (length xs - i) (drop (i - k) (xs @ rest))))"
    using assms by (intro move_up_block) simp_all
  also have "take (length xs - i) (drop (i - k) (xs @ rest)) = take (length xs - i) (drop (i - k) xs)"
    using assms by simp
  also have "write_block (xs @ rest) i (take (length xs - i) (drop (i - k) xs))
      = (take i xs @ take (length xs - i) (drop (i - k) xs)) @ rest"
    using assms by (simp add: write_block_def)
  finally show "move_up (xs @ rest) (int (length xs) - 1) (int i) (int k)
      = Ok ((take i xs @ take (length xs - i) (drop (i - k) xs)) @ rest)" .
qed (use assms in auto)

lemma arr_longer:
  assumes "len ap = int n" "data ap = xs @ fill" "length xs \<le> n" "n \<le> length xs + length fill"
  shows "arr ap (xs @ take (n - length xs) fill)"
  unfolding arr_def using assms by (intro conjI exI [of _ "drop (n - length xs) fill"]) simp_all

lemma gives_grow:
  assumes "plenty A" "arr ap xs" "length xs \<le> n" 
  shows "\<exists>ys. length ys = n - length xs \<and> gives (growArray A (int n)) ap True (xs @ ys)"
proof -
  obtain rest where d: "data ap = xs @ rest" and l: "len ap = int (length xs)" using assms(2) by (auto simp: arr_def)
  consider "n \<le> length xs" | "length xs < n" "n \<le> length (data ap)" | "length xs < n" "length (data ap) < n" by linarith
  then show ?thesis
  proof cases
    case 1
    with l assms(2,3) show ?thesis by (intro exI [of _ "[]"]) (auto simp: gives_def growArray_def Let_def)
  next
    case 2
    let ?ys = "take (n - length xs) rest"
    have "growArray A (int n) ap = (Ok True, ap\<lparr>len := int n\<rparr>)" using 2 l by (simp add: growArray_def Let_def)
    moreover have "arr (ap\<lparr>len := int n\<rparr>) (xs @ ?ys)"
      using 2 d by (intro arr_longer) simp_all
    ultimately show ?thesis using 2 d by (intro exI [of _ ?ys]) (auto simp: gives_def)
  next
    case 3
    let ?size = "int (length (data ap))"
    define count where "count = EJS_PROP_ROUNDUP (if EJS_LOTSA_PROP < ?size
        then let factor = max (?size div 4) EJS_ROUND_PROP in (int n + factor) div factor * factor else int n)"
    have r: "x \<le> EJS_PROP_ROUNDUP x" for x :: int
      using div_mult_mod_eq [of "x + 15" 16] pos_mod_bound [of 16 "x + 15"] by (simp add: EJS_PROP_ROUNDUP_def EJS_ROUND_PROP_def)
    have f: "int n \<le> (int n + f) div f * f" if "0 < f" for f :: int
      using div_mult_mod_eq [of "int n + f" f] pos_mod_bound [of f "int n + f"] that by linarith
    have "int n \<le> count"
    proof (cases "EJS_LOTSA_PROP < ?size")
      case True
      have "0 < max (?size div 4) EJS_ROUND_PROP" by (simp add: EJS_ROUND_PROP_def)
      from f [OF this] r show ?thesis using True by (simp add: count_def Let_def) (meson order_trans)
    next
      case False
      with r show ?thesis by (simp add: count_def)
    qed
    obtain extra where "A count = Some extra" using assms(1) by (auto simp: plenty_def)
    let ?fill = "replicate (nat (count - len ap)) (Some OUndefined) @ replicate extra None"
    have g: "growArray A (int n) ap = (Ok True, ap\<lparr>data := xs @ ?fill, len := int n\<rparr>)"
      using 3 l d \<open>A count = Some extra\<close> unfolding growArray_def Let_def count_def [unfolded Let_def, symmetric] by simp
    have a: "arr (ap\<lparr>data := xs @ ?fill, len := int n\<rparr>) (xs @ take (n - length xs) ?fill)"
      using 3 l \<open>int n \<le> count\<close> by (intro arr_longer) simp_all
    have ln: "length (take (n - length xs) ?fill) = n - length xs" using 3 l \<open>int n \<le> count\<close> by simp
    show ?thesis by (rule exI [of _ "take (n - length xs) ?fill"], rule conjI [OF ln givesI [of "growArray A (int n)", OF g a]]) simp
  qed
qed

section \<open>The methods\<close>

definition arg :: "slot list \<Rightarrow> jsarray" where
  "arg vs = \<lparr>data = vs, len = int (length vs), dynamic = True\<rparr>"

lemma arg_simps [simp]: "len (arg vs) = int (length vs)" "contents (arg vs) = Ok vs"
  by (simp_all add: arg_def contents_def)

definition fits :: "nat \<Rightarrow> bool" where
  "fits n \<longleftrightarrow> n < 2 ^ 31"

lemma fits_int32: "fits n \<Longrightarrow> int32 (int n) = int n"
  by (intro int32_same) (simp add: fits_def is_int_def)

lemma gives_grow_by:
  assumes "plenty A" "arr ap xs" "fits (length xs + k)" "n = int (length xs) + int k"
    and "\<And>ap' ys. arr ap' (xs @ ys) \<Longrightarrow> length ys = k \<Longrightarrow> dynamic ap' = dynamic ap \<Longrightarrow> gives (f True) ap' q zs"
  shows "gives (andthen (growArray A (int32 n)) f) ap q zs"
proof -
  have n: "int32 n = int (length xs + k)" using fits_int32 [OF assms(3)] assms(4) by simp
  obtain ys where ys: "length ys = k" "gives (growArray A (int (length xs + k))) ap True (xs @ ys)"
    using gives_grow [OF assms(1,2), of "length xs + k"] by auto
  show ?thesis unfolding n by (rule gives_bind [OF ys(2)]) (rule assms(5) [OF _ ys(1)])
qed

lemma push_elements:
  assumes "plenty A" "arr ap xs" "fits (length xs + length vs)"
  shows "gives (pushArray A (arg vs)) ap (Some (int (length xs + length vs))) (xs @ vs)"
proof -
  have l: "len ap = int (length xs)" using arr_lenD [OF assms(2)] .
  have "gives (andthen (growArray A (int32 (len ap + len (arg vs))))
      (\<lambda>ok. if \<not> ok then ret None
         else andthen (of_res (contents (arg vs))) (\<lambda>src. andthen (on_data (\<lambda>d. copy_in d (len ap) src)) (\<lambda>_.
              andthen get_len (\<lambda>n. ret (Some n)))))) ap (Some (int (length xs + length vs))) (xs @ vs)"
  proof (rule gives_grow_by [OF assms])
    fix ap' ys
    assume a: "arr ap' (xs @ ys)" "length ys = length vs"
    have c: "gives (on_data (\<lambda>d. copy_in d (int (length xs)) vs)) ap' () (xs @ vs)"
      using gives_copy [OF a(1), of "length xs" vs] a(2) by (simp add: write_block_def)
    from gives_bind [OF c, of "\<lambda>_. andthen get_len (\<lambda>n. ret (Some n))"] a(2)
    show "gives (if \<not> True then ret None
        else andthen (of_res (contents (arg vs))) (\<lambda>src. andthen (on_data (\<lambda>d. copy_in d (len ap) src)) (\<lambda>_.
              andthen get_len (\<lambda>n. ret (Some n))))) ap' (Some (int (length xs + length vs))) (xs @ vs)"
      by (simp add: l arr_lenD)
  qed (simp_all add: l)
  then show ?thesis unfolding gives_def pushArray_def Let_def .
qed

lemma gives_cong: "m ap = m' ap \<Longrightarrow> gives m ap r xs \<longleftrightarrow> gives m' ap r xs"
  by (simp add: gives_def)

lemma gives_len [simp]:
  "gives (andthen (set_len n) g) ap q xs \<longleftrightarrow> gives (g ()) (ap\<lparr>len := n\<rparr>) q xs"
  by (simp add: gives_def set_len_def)

lemma arr_take:
  assumes "arr ap xs" "n \<le> length xs"
  shows "arr (ap\<lparr>len := int n\<rparr>) (take n xs)"
proof -
  from assms(1) obtain rest where "data ap = xs @ rest" by (auto simp: arr_def)
  then have "data ap = take n xs @ (drop n xs @ rest)" by simp
  with assms(2) show ?thesis unfolding arr_def by auto
qed

lemma pop_element:
  assumes "arr ap xs"
  shows "gives popArray ap (if xs = [] then Some OUndefined else last xs) (butlast xs)"
proof (cases xs rule: rev_cases)
  case Nil
  with assms show ?thesis by (auto simp: gives_def popArray_def arr_def)
next
  case (snoc ys y)
  with assms obtain rest where "data ap = ys @ y # rest" "len ap = int (Suc (length ys))" by (auto simp: arr_def)
  with snoc show ?thesis by (auto simp: gives_def popArray_def arr_def load_def nth_append)
qed

lemma shift_element:
  assumes "arr ap xs"
  shows "gives shiftArray ap (case xs of [] \<Rightarrow> Some OUndefined | x # _ \<Rightarrow> x) (tl xs)"
proof (cases xs)
  case Nil
  with assms show ?thesis by (auto simp: gives_def shiftArray_def arr_def)
next
  case (Cons x ys)
  with assms obtain rest where d: "data ap = x # ys @ rest" "len ap = int (Suc (length ys))" by (auto simp: arr_def)
  have "move_down (data ap) 0 (len ap - 1) 1 = Ok (ys @ drop (length ys) (data ap))"
    using move_down_block [of 0 "length ys" 1 "data ap"] d by (simp add: write_block_def)
  with d Cons show ?thesis
    by (auto simp: gives_def shiftArray_def arr_def of_res_def load_def on_data_def set_len_def andthen_def)
qed

lemma insert_elements_at:
  assumes "plenty A" "arr ap xs" "fits (length xs + length vs)" "p \<le> length xs"
  shows "gives (insert_at A (int p) (arg vs)) ap (Some ()) (take p xs @ vs @ drop p xs)"
proof -
  have l: "len ap + len (arg vs) = int (length xs) + int (length vs)" by (simp add: arr_lenD [OF assms(2)])
  have "gives (andthen (growArray A (int32 (len ap + len (arg vs)))) (\<lambda>ok. if \<not> ok then ret None
         else andthen get_len (\<lambda>n. andthen (of_res (contents (arg vs))) (\<lambda>src.
              andthen (on_data (\<lambda>d. move_up d (n - 1) (int p + len (arg vs)) (len (arg vs)))) (\<lambda>_.
              andthen (on_data (\<lambda>d. copy_in d (int p) src)) (\<lambda>_. ret (Some ()))))))) ap (Some ()) (take p xs @ vs @ drop p xs)"
  proof (rule gives_grow_by [OF assms(1-3) l])
    fix ap' ys
    assume a: "arr ap' (xs @ ys)" "length ys = length vs"
    let ?zs = "take (p + length vs) (xs @ ys) @ take (length xs - p) (drop p xs)"
    have u: "gives (on_data (\<lambda>d. move_up d (int (length xs) + int (length vs) - 1) (int p + int (length vs)) (int (length vs)))) ap' () ?zs"
      using gives_up [OF a(1), of "length vs" "p + length vs"] a(2) assms(4) by simp
    have z: "length ?zs = length xs + length vs" "p + length vs \<le> length ?zs"
      "write_block ?zs p vs = take p xs @ vs @ drop p xs"
      using assms(4) a(2) by (simp_all add: write_block_def)
    have c: "gives (on_data (\<lambda>d. copy_in d (int p) vs)) ap'' () (take p xs @ vs @ drop p xs)" if "arr ap'' ?zs" for ap''
      using gives_copy [OF that z(2)] unfolding z(3) .
    show "gives (if \<not> True then ret None
           else andthen get_len (\<lambda>n. andthen (of_res (contents (arg vs))) (\<lambda>src.
                andthen (on_data (\<lambda>d. move_up d (n - 1) (int p + len (arg vs)) (len (arg vs)))) (\<lambda>_.
                andthen (on_data (\<lambda>d. copy_in d (int p) src)) (\<lambda>_. ret (Some ()))))))
       ap' (Some ()) (take p xs @ vs @ drop p xs)"
      using a(2) by (auto simp: arr_lenD [OF a(1)] intro!: gives_bind [OF u] gives_bind [OF c])
  qed
  then show ?thesis by (simp only: gives_def insert_at_def)
qed

definition insert_point :: "int \<Rightarrow> nat \<Rightarrow> nat" where
  "insert_point pos n = nat (clamp (int n) pos)"

lemma insert_elements:
  assumes "plenty A" "arr ap xs" "fits (length xs + length vs)"
  shows "gives (insertArray A pos (arg vs)) ap (Some ())
    (take (insert_point pos (length xs)) xs @ vs @ drop (insert_point pos (length xs)) xs)"
proof -
  let ?p = "insert_point pos (length xs)"
  have p: "?p \<le> length xs" by (auto simp: insert_point_def clamp_def Let_def nat_le_iff)
  have "insertArray A pos (arg vs) ap = insert_at A (int ?p) (arg vs) ap"
    by (simp add: insertArray_def insert_point_def clamp_def Let_def arr_lenD [OF assms(2)])
  with insert_elements_at [OF assms p] show ?thesis by (simp add: gives_def)
qed

lemma unshift_elements:
  assumes "plenty A" "arr ap xs" "fits (length xs + length vs)"
  shows "gives (unshiftArray A (arg vs)) ap (Some ()) (vs @ xs)"
  using insert_elements_at [OF assms, of 0] assms(2) by (auto simp: gives_def unshiftArray_def)

lemma andthen_assoc: "andthen (andthen m f) g = andthen m (\<lambda>x. andthen (f x) g)"
  by (rule ext) (simp add: andthen_def split: prod.splits res.splits)

lemma andthen_cong1: "m s = m' s \<Longrightarrow> andthen m f s = andthen m' f s"
  by (simp add: andthen_def)

lemma set_element:
  assumes "arr ap xs" "i < length xs"
  shows "gives (setArrayProperty A (int i) v) ap (int i) (xs[i := v])"
proof -
  have "setArrayProperty A (int i) v ap = andthen (on_data (\<lambda>d. store d (int i) v)) (\<lambda>_. ret (int i)) ap"
    using assms by (simp add: setArrayProperty_def checkSlot_def andthen_def arr_lenD)
  with gives_bind [OF gives_store [OF assms], where f = "\<lambda>_. ret (int i)"] show ?thesis by (simp add: gives_def)
qed

lemma add_element:
  assumes "plenty A" "arr ap xs" "fits (length xs + 1)" "i = len ap \<or> i < 0 \<and> dynamic ap"
  shows "gives (setArrayProperty A i v) ap (int (length xs)) (xs @ [v])"
proof -
  have l: "len ap = int (length xs)" by (rule arr_lenD [OF assms(2)])
  have "gives (andthen (growArray A (int32 (len ap + 1))) (\<lambda>ok. andthen (if ok then ret () else throw MemoryError) (\<lambda>_.
      andthen (ret (int (length xs))) (\<lambda>i. andthen (on_data (\<lambda>d. store d i v)) (\<lambda>_. ret i))))) ap (int (length xs)) (xs @ [v])"
  proof (rule gives_grow_by [OF assms(1-3)])
    fix ap' ys
    assume a: "arr ap' (xs @ ys)" "length ys = 1"
    then obtain y where y: "ys = [y]" by (cases ys) auto
    from gives_bind [OF gives_store [OF a(1), of "length xs" v], where f = "\<lambda>_. ret (int (length xs))"] y
    show "gives (andthen (if True then ret () else throw MemoryError) (\<lambda>_.
      andthen (ret (int (length xs))) (\<lambda>i. andthen (on_data (\<lambda>d. store d i v)) (\<lambda>_. ret i)))) ap' (int (length xs)) (xs @ [v])"
      by simp
  qed (simp add: l)
  moreover have "checkSlot A i ap = andthen (growArray A (int32 (len ap + 1)))
      (\<lambda>ok. andthen (if ok then ret () else throw MemoryError) (\<lambda>_. ret (int (length xs)))) ap"
    using assms(4) l by (auto simp: checkSlot_def or_memory_def andthen_assoc)
  then have "andthen (checkSlot A i) g ap = andthen (andthen (growArray A (int32 (len ap + 1)))
      (\<lambda>ok. andthen (if ok then ret () else throw MemoryError) (\<lambda>_. ret (int (length xs))))) g ap" for g :: "int \<Rightarrow> (jsarray, int) op"
    by (rule andthen_cong1)
  then have "setArrayProperty A i v ap = andthen (growArray A (int32 (len ap + 1)))
      (\<lambda>ok. andthen (if ok then ret () else throw MemoryError) (\<lambda>_.
      andthen (ret (int (length xs))) (\<lambda>i. andthen (on_data (\<lambda>d. store d i v)) (\<lambda>_. ret i)))) ap"
    by (simp add: setArrayProperty_def andthen_assoc)
  ultimately show ?thesis by (simp add: gives_def)
qed

lemma append_element:
  assumes "plenty A" "arr ap xs" "fits (length xs + 1)"
  shows "gives (appendArray A v) ap () (xs @ [v])"
proof -
  have "gives (andthen (setArrayProperty A (len ap) v) (\<lambda>_. ret ())) ap () (xs @ [v])"
    by (rule gives_bind [OF add_element [OF assms]]) simp_all
  then show ?thesis by (simp add: gives_def appendArray_def)
qed

lemma clear_elements: "arr ap xs \<Longrightarrow> gives clearArray ap () []"
  using arr_take [of ap xs 0] by (simp add: gives_def clearArray_def set_len_def)

lemma truncate_elements:
  assumes "arr ap xs" "n \<le> int (length xs)"
  shows "gives (setArrayLength A n) ap () (take (nat n) xs)"
  using arr_take [OF assms(1), of "nat (max 0 n)"] assms(2)
  by (auto simp: gives_def setArrayLength_def Let_def set_len_def arr_lenD [OF assms(1)] max_def split: if_splits)

lemma compact_block:
  "\<exists>junk. compact_loop (don @ gap @ todo @ rest) (int (length (don @ gap))) (int (length don)) (int (length (don @ gap @ todo)))
       = Ok (don @ filter ejsIsDefined todo @ junk @ rest, int (length (don @ filter ejsIsDefined todo)))
     \<and> length junk = length gap + length todo - length (filter ejsIsDefined todo)"
proof (induction todo arbitrary: don gap)
  case Nil
  show ?case by (rule exI [of _ gap]) (simp add: compact_loop.simps)
next
  case (Cons v todo)
  have ld: "load (don @ gap @ (v # todo) @ rest) (int (length (don @ gap))) = Ok v"
    using load_nat [of "length (don @ gap)" "don @ gap @ (v # todo) @ rest"] by (simp add: nth_append)
  show ?case
  proof (cases "ejsIsDefined v")
    case False
    from Cons.IH [of don "gap @ [v]"] False ld show ?thesis
      by (subst compact_loop.simps) (auto simp: algebra_simps)
  next
    case True
    obtain g gap' where g: "gap @ [v] = g # gap'" by (cases gap) auto
    have st: "store (don @ gap @ (v # todo) @ rest) (int (length don)) v = Ok ((don @ [v]) @ gap' @ todo @ rest)"
    proof -
      have e: "don @ gap @ (v # todo) @ rest = don @ (g # gap') @ todo @ rest" using g by (metis append.assoc append_Cons append_Nil)
      show ?thesis unfolding e using store_nat [of "length don" "don @ (g # gap') @ todo @ rest" v] by simp
    qed
    have lg: "length gap = length gap'" using arg_cong [OF g, of length] by simp
    have le: "length (filter ejsIsDefined todo) \<le> length todo" by simp
    from Cons.IH [of "don @ [v]" gap'] True ld st lg le show ?thesis
      by (subst compact_loop.simps) (auto simp: algebra_simps)
  qed
qed

lemma compact_elements:
  assumes "arr ap xs"
  shows "gives compactArray ap () (filter ejsIsDefined xs)"
proof -
  let ?ys = "filter ejsIsDefined xs"
  obtain rest where d: "data ap = xs @ rest" and l: "len ap = int (length xs)" using assms by (auto simp: arr_def)
  from compact_block [of "[]" "[]" xs rest] obtain junk where
    c: "compact_loop (data ap) 0 0 (len ap) = Ok (?ys @ junk @ rest, int (length ?ys))" "length junk = length xs - length ?ys"
    by (auto simp: d l)
  let ?u = "replicate (length junk) (Some OUndefined)"
  have "copy_in (?ys @ junk @ rest) (int (length ?ys)) ?u = Ok (?ys @ ?u @ rest)"
    by (subst copy_in_block) (simp_all add: write_block_def)
  moreover have "nat (len ap - int (length ?ys)) = length junk" using c(2) l by simp
  ultimately have "compactArray ap = (Ok (), ap\<lparr>data := ?ys @ ?u @ rest, len := int (length ?ys)\<rparr>)"
    by (simp add: compactArray_def c(1) on_data_def andthen_def)
  then show ?thesis by (auto simp: gives_def arr_def)
qed

lemma reverse_block:
  assumes "2 * k \<le> n" "n \<le> length d"
  shows "reverse_loop d (int k - 1) (int (n - k))
    = Ok (map (\<lambda>m. if m < k \<or> n - k \<le> m \<and> m < n then d ! (n - 1 - m) else d ! m) [0..<length d])"
  using assms
proof (induction k arbitrary: d)
  case 0
  have "map (\<lambda>m. if m < 0 \<or> n - 0 \<le> m \<and> m < n then d ! (n - 1 - m) else d ! m) [0..<length d] = d"
    by (rule nth_equalityI) auto
  then show ?case by (simp add: reverse_loop.simps)
next
  case (Suc k)
  define j where "j = n - Suc k"
  have j: "j < length d" "k < j" "int (n - Suc k) = int j" "n - k = Suc j" using Suc.prems by (auto simp: j_def)
  let ?d = "d[k := d ! j, j := d ! k]"
  have "reverse_loop d (int (Suc k) - 1) (int j) = reverse_loop ?d (int k - 1) (int (Suc j))"
    using j by (subst reverse_loop.simps) (simp add: add.commute)
  also have "\<dots> = Ok (map (\<lambda>m. if m < k \<or> n - k \<le> m \<and> m < n then ?d ! (n - 1 - m) else ?d ! m) [0..<length ?d])"
    using Suc.IH [of ?d] Suc.prems j by simp
  also have "map (\<lambda>m. if m < k \<or> n - k \<le> m \<and> m < n then ?d ! (n - 1 - m) else ?d ! m) [0..<length ?d]
      = map (\<lambda>m. if m < Suc k \<or> n - Suc k \<le> m \<and> m < n then d ! (n - 1 - m) else d ! m) [0..<length d]"
  proof (rule nth_equalityI)
    fix m
    assume "m < length (map (\<lambda>m. if m < k \<or> n - k \<le> m \<and> m < n then ?d ! (n - 1 - m) else ?d ! m) [0..<length ?d])"
    then show "map (\<lambda>m. if m < k \<or> n - k \<le> m \<and> m < n then ?d ! (n - 1 - m) else ?d ! m) [0..<length ?d] ! m
      = map (\<lambda>m. if m < Suc k \<or> n - Suc k \<le> m \<and> m < n then d ! (n - 1 - m) else d ! m) [0..<length d] ! m"
      using j Suc.prems by (auto simp: nth_list_update j_def)
  qed simp
  finally show ?case by (simp add: j(3))
qed

lemma reverse_elements:
  assumes "arr ap xs"
  shows "gives reverseArray ap () (rev xs)"
proof (cases "length xs \<le> 1")
  case True
  then have "rev xs = xs" by (cases xs) auto
  with True assms show ?thesis by (auto simp: gives_def reverseArray_def arr_lenD [OF assms])
next
  case False
  let ?k = "length xs div 2"
  have l: "len ap = int (length xs)" by (rule arr_lenD [OF assms])
  have k: "(len ap - 2) div 2 = int ?k - 1" "(len ap + 1) div 2 = int (length xs - ?k)"
    using False l by presburger+
  have "gives (on_data (\<lambda>d. reverse_loop d ((len ap - 2) div 2) ((len ap + 1) div 2))) ap () (rev xs)"
    unfolding k
  proof (rule gives_on_data [OF assms])
    fix rest
    have "reverse_loop (xs @ rest) (int ?k - 1) (int (length xs - ?k)) = Ok (map (\<lambda>m. if m < ?k \<or> length xs - ?k \<le> m \<and> m < length xs
        then (xs @ rest) ! (length xs - 1 - m) else (xs @ rest) ! m) [0..<length (xs @ rest)])"
      by (rule reverse_block) simp_all
    also have "map (\<lambda>m. if m < ?k \<or> length xs - ?k \<le> m \<and> m < length xs
        then (xs @ rest) ! (length xs - 1 - m) else (xs @ rest) ! m) [0..<length (xs @ rest)] = rev xs @ rest"
    proof (rule nth_equalityI)
      fix m
      assume m: "m < length (map (\<lambda>m. if m < ?k \<or> length xs - ?k \<le> m \<and> m < length xs
        then (xs @ rest) ! (length xs - 1 - m) else (xs @ rest) ! m) [0..<length (xs @ rest)])"
      have mid: "length xs - Suc m = m" if "\<not> m < ?k" "m < length xs - ?k" using that by linarith
      show "map (\<lambda>m. if m < ?k \<or> length xs - ?k \<le> m \<and> m < length xs
        then (xs @ rest) ! (length xs - 1 - m) else (xs @ rest) ! m) [0..<length (xs @ rest)] ! m = (rev xs @ rest) ! m"
        using m mid by (auto simp: nth_append rev_nth not_le not_less)
    qed simp
    finally show "reverse_loop (xs @ rest) (int ?k - 1) (int (length xs - ?k)) = Ok (rev xs @ rest)" .
  qed simp
  with False l show ?thesis by (simp add: gives_def reverseArray_def)
qed

section \<open>Removing duplicates\<close>

text \<open>Equality of elements that are references; it is symmetric, and it is not reflexive on NaN in different objects.\<close>

definition same :: "slot \<Rightarrow> slot \<Rightarrow> bool" where
  "same v w \<longleftrightarrow> v = w \<or> (case (v, w) of (Some a, Some b) \<Rightarrow> same_value a b | _ \<Rightarrow> False)"

lemma compare_same: "v \<noteq> None \<Longrightarrow> w \<noteq> None \<Longrightarrow> compareArrayElement v w = Ok (same v w)"
  by (auto simp: compareArrayElement_def same_def)

fun unique_list :: "slot list \<Rightarrow> slot list" where
  "unique_list [] = []"
| "unique_list (x # xs) = x # unique_list (filter (\<lambda>y. \<not> same x y) xs)"

lemma load_mid: "int n = int (length xs) \<Longrightarrow> load (xs @ y # zs) (int n) = Ok y"
  by (simp add: load_def nth_append)

lemma close_gap:
  "move_down (as @ b # bs @ rest) (int (length as)) (int (length as + length bs)) 1
     = Ok (as @ bs @ drop (length bs) ((b # bs) @ rest))"
proof -
  have "move_down (as @ b # bs @ rest) (int (length as)) (int (length as + length bs)) (int 1)
      = Ok (write_block (as @ b # bs @ rest) (length as) (take (length as + length bs - length as) (drop (length as + 1) (as @ b # bs @ rest))))"
    by (rule move_down_block) simp_all
  then show ?thesis by (simp add: write_block_def)
qed

lemma unique_inner_block:
  assumes "i < length as" "as ! i = x" "x \<noteq> None" "None \<notin> set bs"
  shows "\<exists>rest'. unique_inner (as @ bs @ rest) (int i) (int (length as)) (int (length as + length bs))
      = Ok (as @ filter (\<lambda>y. \<not> same x y) bs @ rest', int (length as + length (filter (\<lambda>y. \<not> same x y) bs)))"
  using assms
proof (induction bs arbitrary: as rest)
  case Nil
  then show ?case by (simp add: unique_inner.simps)
next
  case (Cons b bs)
  have lx: "load (as @ (b # bs) @ rest) (int i) = Ok x" using Cons.prems by (simp add: load_def nth_append)
  have lb: "load (as @ (b # bs) @ rest) (int (length as)) = Ok b" by (simp add: load_mid)
  have cp: "compareArrayElement x b = Ok (same x b)" using Cons.prems(3,4) by (metis compare_same list.set_intros(1))
  have n: "\<not> int (length as + length (b # bs)) \<le> int (length as)" by simp
  have m: "int (length as + length (b # bs)) - 1 = int (length as + length bs)" by simp
  show ?case
  proof (cases "same x b")
    case True
    then have "unique_inner (as @ (b # bs) @ rest) (int i) (int (length as)) (int (length as + length (b # bs)))
        = unique_inner (as @ bs @ drop (length bs) ((b # bs) @ rest)) (int i) (int (length as)) (int (length as + length bs))"
      using close_gap [of as b bs rest] n m by (subst unique_inner.simps) (simp add: lx [simplified] lb [simplified] cp)
    with Cons.IH [of as "drop (length bs) ((b # bs) @ rest)"] Cons.prems True show ?thesis by auto
  next
    case False
    then have "unique_inner (as @ (b # bs) @ rest) (int i) (int (length as)) (int (length as + length (b # bs)))
        = unique_inner ((as @ [b]) @ bs @ rest) (int i) (int (length (as @ [b]))) (int (length (as @ [b]) + length bs))"
      using n by (subst unique_inner.simps) (simp add: lx [simplified] lb [simplified] cp algebra_simps)
    with Cons.IH [of "as @ [b]" rest] Cons.prems False show ?thesis by (auto simp: nth_append)
  qed
qed

lemma unique_list_none: "None \<notin> set xs \<Longrightarrow> None \<notin> set (unique_list xs)"
  by (induction xs rule: unique_list.induct) auto

lemma unique_outer_block:
  assumes "None \<notin> set bs" "length bs \<le> f"
  shows "\<exists>rest'. unique_outer f (as @ bs @ rest) (int (length as)) (int (length as + length bs))
      = Ok (as @ unique_list bs @ rest', int (length as + length (unique_list bs)))"
  using assms
proof (induction f arbitrary: as bs rest)
  case (Suc f)
  show ?case
  proof (cases bs)
    case Nil
    then show ?thesis by simp
  next
    case (Cons b cs)
    let ?cs = "filter (\<lambda>y. \<not> same b y) cs"
    have b: "b \<noteq> None" using Suc.prems Cons by (metis list.set_intros(1))
    from unique_inner_block [of "length as" "as @ [b]" b cs rest] Suc.prems Cons b obtain rest1 where
      1: "unique_inner (as @ bs @ rest) (int (length as)) (int (length as) + 1) (int (length as + length bs))
        = Ok ((as @ [b]) @ ?cs @ rest1, int (length (as @ [b]) + length ?cs))"
      by (auto simp: algebra_simps)
    have "length ?cs \<le> f" using Suc.prems Cons le_trans [OF length_filter_le [of _ cs], of f] by simp
    with Suc.IH [of ?cs "as @ [b]" rest1] Suc.prems Cons obtain rest2 where
      "unique_outer f ((as @ [b]) @ ?cs @ rest1) (int (length as) + 1) (int (length (as @ [b]) + length ?cs))
        = Ok ((as @ [b]) @ unique_list ?cs @ rest2, int (length (as @ [b]) + length (unique_list ?cs)))"
      by (auto simp: algebra_simps)
    with 1 Cons show ?thesis by auto
  qed
qed simp

lemma unique_elements:
  assumes "arr ap xs" "None \<notin> set xs"
  shows "gives uniqueArray ap () (unique_list xs)"
proof -
  obtain rest where d: "data ap = xs @ rest" and l: "len ap = int (length xs)" using assms(1) by (auto simp: arr_def)
  from unique_outer_block [of xs "length xs" "[]" rest] assms(2) obtain rest' where
    "unique_outer (length xs) (xs @ rest) 0 (int (length xs)) = Ok (unique_list xs @ rest', int (length (unique_list xs)))" by auto
  then have "uniqueArray ap = (Ok (), ap\<lparr>data := unique_list xs @ rest', len := int (length (unique_list xs))\<rparr>)"
    by (simp add: uniqueArray_def on_block_def d l)
  then show ?thesis by (auto simp: gives_def arr_def)
qed

section \<open>Splicing\<close>

lemma create_array:
  assumes "plenty A"
  shows "\<exists>a ys. ejsCreateArray A (int n) = Ok a \<and> arr a ys \<and> length ys = n \<and> dynamic a"
proof (cases "n = 0")
  case True
  then show ?thesis by (simp add: ejsCreateArray_def empty_array_def arr_def)
next
  case False
  have "arr empty_array []" by (simp add: arr_def empty_array_def)
  from gives_grow [OF assms this, of n] obtain ys where
    ys: "length ys = n" "gives (growArray A (int n)) empty_array True ys" by auto
  then obtain a where a: "growArray A (int n) empty_array = (Ok True, a)" "arr a ys" "dynamic a = dynamic empty_array"
    by (auto simp: gives_def)
  with False have "ejsCreateArray A (int n) = Ok a" by (simp add: ejsCreateArray_def or_memory_def)
  with a ys(1) show ?thesis by (auto simp: empty_array_def)
qed

text \<open>
  A splice that does not shorten the array. (One that does reads the slots behind the array, as far behind as it removes
  elements.)
\<close>

lemma andthen_ret [simp]: "andthen (ret x) f = f x"
  by (rule ext) (simp add: andthen_def)

lemma copied_result:
  assumes "arr a ys" "length ys = length vs"
  shows "\<exists>rd. copy_in (data a) 0 vs = Ok rd \<and> arr (a\<lparr>data := rd\<rparr>) vs"
proof -
  obtain rest where d: "data a = ys @ rest" "len a = int (length ys)" using assms(1) by (auto simp: arr_def)
  from copy_in_block [of 0 vs "data a"] d assms(2) have "copy_in (data a) 0 vs = Ok (vs @ rest)" by (simp add: write_block_def)
  with d assms(2) show ?thesis by (auto simp: arr_def)
qed

lemma splice_elements:
  assumes "plenty A" "arr ap xs" "s < length xs" "del \<le> length xs - s" "del \<le> length vs" "fits (length xs + length vs - del)"
  shows "\<exists>result. arr result (take del (drop s xs))
    \<and> gives (spliceArray A (int s) (int del) (arg vs)) ap (Some result) (take s xs @ vs @ drop (s + del) xs)"
proof -
  have l: "len ap = int (length xs)" by (rule arr_lenD [OF assms(2)])
  obtain rest where d: "data ap = xs @ rest" using assms(2) by (auto simp: arr_def)
  obtain a ys where a: "ejsCreateArray A (int del) = Ok a" "arr a ys" "length ys = del"
    using create_array [OF assms(1)] by blast
  let ?removed = "take del (drop s xs)"
  have rm: "take (nat (int del)) (drop (nat (int s)) (data ap)) = ?removed" using d assms(3,4) by simp
  have le: "int s + int del \<le> int (length (data ap))" using d assms(3,4) by simp
  have "length ys = length ?removed" using a(3) assms(3,4) by simp
  from copied_result [OF a(2) this] obtain rd where rd: "copy_in (data a) 0 ?removed = Ok rd" "arr (a\<lparr>data := rd\<rparr>) ?removed" by blast
  define k where "k = length vs - del"
  have k: "int (length vs) - int del = int k" using assms(5) by (simp add: k_def)
  let ?ys = "take s xs @ vs @ drop (s + del) xs"
  let ?r = "a\<lparr>data := rd\<rparr>"
  define f where "f n = andthen (if 0 < int k then on_data (\<lambda>d. move_up d (n - 1) (int s + int k) (int k)) else ret ()) (\<lambda>_.
      andthen (of_res (contents (arg vs))) (\<lambda>items. andthen (on_data (\<lambda>d. copy_in d (int s) items)) (\<lambda>_.
      andthen (if int k < 0 then on_data (\<lambda>d. move_down d (int s + len (arg vs)) (len ap) (- int k)) else ret ()) (\<lambda>_.
      ret (Some ?r)))))" for n
  have fin: "gives (f (len ap')) ap' (Some ?r) ?ys" if z: "arr ap' (xs @ zs)" "length zs = k" for ap' zs
  proof -
    let ?z = "take (s + k) (xs @ zs) @ drop s xs"
    have u: "gives (if 0 < int k then on_data (\<lambda>d. move_up d (len ap' - 1) (int s + int k) (int k)) else ret ()) ap' () ?z"
    proof (cases "k = 0")
      case True
      with z assms(3) show ?thesis by simp
    next
      case False
      with gives_up [OF z(1), of k "s + k"] z(2) assms(3) show ?thesis by (simp add: arr_lenD [OF z(1)])
    qed
    have tk: "length (take (s + k) (xs @ zs)) = s + k" using z(2) assms(3) by simp
    have e: "s + length vs - (s + k) = del" using assms(5) by (simp add: k_def)
    have "drop (s + length vs) ?z = drop del (drop s xs)"
      unfolding drop_append tk e using assms(5) tk by (simp add: k_def del: take_append length_take)
    moreover have "take s ?z = take s xs" using assms(3) by simp
    ultimately have w: "write_block ?z s vs = ?ys" by (simp only: write_block_def drop_drop add.commute)
    have le: "s + length vs \<le> length ?z" unfolding length_append tk using assms(3-5) by (simp add: k_def)
    show ?thesis
      unfolding f_def
    proof (rule gives_bind [OF u])
      fix b
      assume b: "arr b ?z"
      have "gives (andthen (on_data (\<lambda>d. copy_in d (int s) vs)) (\<lambda>_. ret (Some ?r))) b (Some ?r) ?ys"
        by (rule gives_bind [OF gives_copy [OF b le, unfolded w]]) simp
      then show "gives (andthen (of_res (contents (arg vs))) (\<lambda>items. andthen (on_data (\<lambda>d. copy_in d (int s) items)) (\<lambda>_.
          andthen (if int k < 0 then on_data (\<lambda>d. move_down d (int s + len (arg vs)) (len ap) (- int k)) else ret ()) (\<lambda>_.
          ret (Some ?r))))) b (Some ?r) ?ys"
        by (simp only: gives_pure arg_simps of_nat_less_0_iff if_False andthen_ret)
    qed
  qed
  have "gives (andthen (if 0 < int k then (\<lambda>ap. growArray A (int32 (len ap + int k)) ap)
       else (\<lambda>ap. andthen (set_len (len ap + int k)) (\<lambda>_. ret True) ap))
      (\<lambda>ok. if \<not> ok then ret None else andthen get_len f)) ap (Some ?r) ?ys"
  proof (cases "k = 0")
    case True
    have "ap\<lparr>len := len ap\<rparr> = ap" by (cases ap) simp
    then have "andthen (\<lambda>ap. andthen (set_len (len ap + int k)) (\<lambda>_. ret True) ap) g ap = g True ap"
      for g :: "bool \<Rightarrow> (jsarray, jsarray option) op" using True by (simp add: andthen_def set_len_def)
    with True fin [of ap "[]"] assms(2) show ?thesis by (simp add: gives_def get_len_def)
  next
    case False
    have "fits (length xs + k)" using assms(5,6) by (simp add: k_def)
    then have "gives (andthen (growArray A (int32 (len ap + int k))) (\<lambda>ok. if \<not> ok then ret None else andthen get_len f))
        ap (Some ?r) ?ys"
      by (rule gives_grow_by [OF assms(1,2)]) (use fin in \<open>simp_all add: l\<close>)
    with False show ?thesis by (simp add: gives_def andthen_def)
  qed
  then have "gives (splice_rest A (int s) (int k) (arg vs) (len ap) ?r) ap (Some ?r) ?ys"
    unfolding splice_rest_def f_def .
  then have "gives (splice_at A (int s) (int del) (arg vs)) ap (Some ?r) ?ys"
    using le by (simp add: gives_def splice_at_def a(1) rm [simplified] rd(1) k of_res_def andthen_def)
  moreover have "spliceArray A (int s) (int del) (arg vs) ap = splice_at A (int s) (int del) (arg vs) ap"
  proof -
    have "xs \<noteq> []" "\<not> length xs < del" "\<not> length xs \<le> s" using assms(3,4) by auto
    then show ?thesis by (simp add: spliceArray_def l)
  qed
  ultimately have "gives (spliceArray A (int s) (int del) (arg vs)) ap (Some ?r) ?ys" by (simp only: gives_def)
  with rd(2) show ?thesis by blast
qed

section \<open>Queries\<close>

definition first_same :: "slot \<Rightarrow> nat \<Rightarrow> slot list \<Rightarrow> int" where
  "first_same v s xs = (case filter (\<lambda>i. same (xs ! i) v) [s..<length xs] of [] \<Rightarrow> -1 | i # _ \<Rightarrow> int i)"

lemma index_up_first:
  assumes "None \<notin> set xs" "v \<noteq> None" "s \<le> length xs"
  shows "index_up (xs @ rest) v (int s) (int (length xs)) = Ok (first_same v s xs)"
  using assms(3)
proof (induction "length xs - s" arbitrary: s)
  case 0
  then show ?case by (simp add: index_up.simps first_same_def)
next
  case (Suc m)
  then have s: "s < length xs" by simp
  have "xs ! s \<noteq> None" using assms(1) s by (metis nth_mem)
  from compare_same [OF this assms(2)] have c: "compareArrayElement (xs ! s) v = Ok (same (xs ! s) v)" .
  have ld: "load (xs @ rest) (int s) = Ok (xs ! s)" using s by (simp add: nth_append)
  have u: "[s..<length xs] = s # [Suc s..<length xs]" using s by (simp add: upt_conv_Cons)
  have "index_up (xs @ rest) v (int (Suc s)) (int (length xs)) = Ok (first_same v (Suc s) xs)"
    by (rule Suc(1)) (use Suc(2) s in simp_all)
  then show ?case using s c ld by (subst index_up.simps) (simp add: first_same_def u add.commute)
qed

lemma index_of:
  assumes "arr ap xs" "None \<notin> set xs" "v \<noteq> None"
  shows "indexOfArray v s ap = Ok (first_same v (insert_point (case s of None \<Rightarrow> 0 | Some s \<Rightarrow> s) (length xs)) xs)"
proof -
  obtain rest where d: "data ap = xs @ rest" and l: "len ap = int (length xs)" using assms(1) by (auto simp: arr_def)
  let ?s = "case s of None \<Rightarrow> 0 | Some s \<Rightarrow> s"
  let ?p = "insert_point ?s (length xs)"
  have p: "?p \<le> length xs" by (auto simp: insert_point_def clamp_def Let_def nat_le_iff)
  note i = index_up_first [OF assms(2,3) p, of rest]
  show ?thesis
  proof (cases "len ap \<le> (if ?s < 0 then ?s + len ap else ?s)")
    case True
    then have "?p = length xs" by (auto simp: insert_point_def clamp_def Let_def l split: if_splits)
    with True show ?thesis by (simp add: indexOfArray_def Let_def first_same_def)
  next
    case False
    then have "max 0 (if ?s < 0 then ?s + len ap else ?s) = int ?p"
      by (auto simp: insert_point_def clamp_def Let_def l)
    with False i show ?thesis by (simp add: indexOfArray_def Let_def d l)
  qed
qed

lemma slice_up_block:
  assumes "s \<le> e" "e \<le> length src" "fits e" "j + (e - s) \<le> length d"
  shows "slice_up src d (int s) (int j) (int e) 1 = Ok (write_block d j (take (e - s) (drop s src)), int (j + (e - s)))"
  using assms(1,4)
proof (induction "e - s" arbitrary: s j d)
  case 0
  then show ?case by (simp add: slice_up.simps)
next
  case (Suc m)
  then have s: "s < e" "s < length src" "j < length d" using assms(2) by simp_all
  have i: "is_int (int s)" "int32 (int s + 1) = int (Suc s)" "is_int 1"
    using assms(3) s fits_int32 [of "Suc s"] by (simp_all add: is_int_def fits_def add.commute)
  have "slice_up src (d[j := src ! s]) (int (Suc s)) (int (Suc j)) (int e) 1
      = Ok (write_block (d[j := src ! s]) (Suc j) (take (e - Suc s) (drop (Suc s) src)), int (Suc j + (e - Suc s)))"
    by (rule Suc(1)) (use Suc(2-4) s in simp_all)
  moreover have "write_block (d[j := src ! s]) (Suc j) vs = write_block d j (src ! s # vs)" for vs
    using s by (simp add: write_block_def upd_conv_take_nth_drop add.commute)
  moreover have "take (e - s) (drop s src) = src ! s # take (e - Suc s) (drop (Suc s) src)"
    using s by (simp add: Cons_nth_drop_Suc [symmetric] Suc_diff_le take_Cons')
  ultimately show ?case using s i by (subst slice_up.simps) (simp add: add.commute)
qed

lemma slice_elements:
  assumes "plenty A" "arr ap xs" "fits (length xs)"
  shows "\<exists>r. sliceArray A start (Some lim) None ap = Ok r
    \<and> arr r (take (insert_point lim (length xs) - insert_point start (length xs)) (drop (insert_point start (length xs)) xs))"
proof -
  obtain rest where d: "data ap = xs @ rest" and l: "len ap = int (length xs)" using assms(2) by (auto simp: arr_def)
  define s where "s = insert_point start (length xs)"
  define e where "e = insert_point lim (length xs)"
  have c: "clamp (int (length xs)) start = int s" "clamp (int (length xs)) lim = int e" "s \<le> length xs" "e \<le> length xs"
    by (auto simp: insert_point_def clamp_def Let_def nat_le_iff s_def e_def)
  define n where "n = (if s < e then e - s else s - e)"
  obtain a ys where a: "ejsCreateArray A (int n) = Ok a" "arr a ys" "length ys = n"
    using create_array [OF assms(1)] by blast
  then obtain junk where da: "data a = ys @ junk" by (auto simp: arr_def)
  have nn: "(if int s < int e then int e - int s else int s - int e) = int n" using c by (simp add: n_def of_nat_diff)
  have sl: "sliceArray A start (Some lim) None ap
      = bind_res (slice_up (data ap) (data a) (int s) 0 (int e) 1) (\<lambda>(d, n). Ok (a\<lparr>data := d, len := n\<rparr>))"
    unfolding sliceArray_def Let_def l c option.case nn a(1) by simp
  show ?thesis
  proof (cases "s \<le> e")
    case True
    have f: "fits e" using assms(3) c(4) by (simp add: fits_def)
    from slice_up_block [OF True _ f, of "data ap" 0 "data a"] True c a(3) da d
    have "slice_up (data ap) (data a) (int s) 0 (int e) 1 = Ok (write_block (data a) 0 (take (e - s) (drop s xs)), int (e - s))"
      by (simp add: n_def split: if_splits)
    moreover have "length (take (e - s) (drop s xs)) = e - s" using c by simp
    ultimately show ?thesis unfolding sl s_def [symmetric] e_def [symmetric] by (simp add: arr_def write_block_def)
  next
    case False
    then show ?thesis unfolding sl s_def [symmetric] e_def [symmetric] by (simp add: arr_def slice_up.simps)
  qed
qed

end
