(* ===== verification/ArrayMethods.thy ===== *)
theory ArrayMethods
  imports ArrayList
begin

text \<open>
  The array object as an abstract data type: calls of methods, what each call means for the list of the elements, and that every
  sequence of calls gives the answers of the list. The calls outside of the contract, which overwrite, overread or answer
  wrongly, are at the end.
\<close>

section \<open>Objects that implement an abstract type\<close>

fun run_calls :: "('c \<Rightarrow> ('s, 'r) op) \<Rightarrow> 'c list \<Rightarrow> ('s, 'r list) op" where
  "run_calls impl [] = ret []"
| "run_calls impl (c # cs) = andthen (impl c) (\<lambda>r. andthen (run_calls impl cs) (\<lambda>rs. ret (r # rs)))"

fun run_spec :: "('a \<Rightarrow> 'c \<Rightarrow> 'r \<times> 'a) \<Rightarrow> 'a \<Rightarrow> 'c list \<Rightarrow> 'r list \<times> 'a" where
  "run_spec spec a [] = ([], a)"
| "run_spec spec a (c # cs) = (case spec a c of (r, a') \<Rightarrow> case run_spec spec a' cs of (rs, a'') \<Rightarrow> (r # rs, a''))"

fun all_allowed :: "('a \<Rightarrow> 'c \<Rightarrow> 'r \<times> 'a) \<Rightarrow> ('a \<Rightarrow> 'c \<Rightarrow> bool) \<Rightarrow> 'a \<Rightarrow> 'c list \<Rightarrow> bool" where
  "all_allowed spec allowed a [] \<longleftrightarrow> True"
| "all_allowed spec allowed a (c # cs) \<longleftrightarrow> allowed a c \<and> all_allowed spec allowed (snd (spec a c)) cs"

locale abstract_object =
  fixes rep :: "'s \<Rightarrow> 'a \<Rightarrow> bool"
    and impl :: "'c \<Rightarrow> ('s, 'r) op"
    and spec :: "'a \<Rightarrow> 'c \<Rightarrow> 'r \<times> 'a"
    and allowed :: "'a \<Rightarrow> 'c \<Rightarrow> bool"
  assumes call_law: "rep s a \<Longrightarrow> allowed a c \<Longrightarrow> \<exists>s'. impl c s = (Ok (fst (spec a c)), s') \<and> rep s' (snd (spec a c))"
begin

lemma run_refines:
  "rep s a \<Longrightarrow> all_allowed spec allowed a cs \<Longrightarrow>
     \<exists>s'. run_calls impl cs s = (Ok (fst (run_spec spec a cs)), s') \<and> rep s' (snd (run_spec spec a cs))"
proof (induction cs arbitrary: s a)
  case (Cons c cs)
  from call_law [OF Cons.prems(1), of c] Cons.prems(2) obtain s1 where
    1: "impl c s = (Ok (fst (spec a c)), s1)" "rep s1 (snd (spec a c))" by auto
  from Cons.IH [OF 1(2)] Cons.prems(2) obtain s2 where
    "run_calls impl cs s1 = (Ok (fst (run_spec spec (snd (spec a c)) cs)), s2)" "rep s2 (snd (run_spec spec (snd (spec a c)) cs))"
    by auto
  with 1 show ?case by (auto simp: ret_def split: prod.splits)
qed (simp add: ret_def)

end

section \<open>Calls of methods\<close>

datatype array_call =
    Push "slot list"
  | Pop
  | Shift
  | Unshift "slot list"
  | Insert int "slot list"
  | Append slot
  | Get int
  | Put nat slot
  | Delete nat
  | Clear
  | Reverse
  | Compact
  | Truncate int
  | Unique
  | Splice nat nat "slot list"
  | IndexOf slot "int option"
  | Slice int int

datatype answer = Done | Number int | Element slot | Elements "slot list"

definition map_op :: "('a \<Rightarrow> 'b) \<Rightarrow> ('s, 'a) op \<Rightarrow> ('s, 'b) op" where
  "map_op f m = andthen m (\<lambda>x. ret (f x))"

definition elements_of :: "jsarray \<Rightarrow> (jsarray, answer) op" where
  "elements_of a = of_res (map_res Elements (contents a))"

text \<open>
  The null pointer that a method returns without memory and the error code of a deletion are the answer \<open>Done\<close>.
\<close>

definition answer_number :: "int option \<Rightarrow> answer" where
  "answer_number r = (case r of None \<Rightarrow> Done | Some n \<Rightarrow> Number n)"

fun array_method :: "allocator \<Rightarrow> array_call \<Rightarrow> (jsarray, answer) op" where
  "array_method A (Push vs) = map_op answer_number (pushArray A (arg vs))"
| "array_method A Pop = map_op Element popArray"
| "array_method A Shift = map_op Element shiftArray"
| "array_method A (Unshift vs) = map_op (\<lambda>_. Done) (unshiftArray A (arg vs))"
| "array_method A (Insert pos vs) = map_op (\<lambda>_. Done) (insertArray A pos (arg vs))"
| "array_method A (Append v) = map_op (\<lambda>_. Done) (appendArray A v)"
| "array_method A (Get i) = map_op Element (getArrayProperty i)"
| "array_method A (Put i v) = map_op Number (setArrayProperty A (int i) v)"
| "array_method A (Delete i) = map_op answer_number (deleteArrayProperty A (int i))"
| "array_method A Clear = map_op (\<lambda>_. Done) clearArray"
| "array_method A Reverse = map_op (\<lambda>_. Done) reverseArray"
| "array_method A Compact = map_op (\<lambda>_. Done) compactArray"
| "array_method A (Truncate n) = map_op (\<lambda>_. Done) (setArrayLength A n)"
| "array_method A Unique = map_op (\<lambda>_. Done) uniqueArray"
| "array_method A (Splice s n vs) =
     andthen (spliceArray A (int s) (int n) (arg vs)) (\<lambda>r. case r of None \<Rightarrow> ret Done | Some a \<Rightarrow> elements_of a)"
| "array_method A (IndexOf v s) = (\<lambda>ap. of_res (map_res Number (indexOfArray v s ap)) ap)"
| "array_method A (Slice s e) = (\<lambda>ap. andthen (of_res (sliceArray A s (Some e) None ap)) elements_of ap)"

fun list_method :: "slot list \<Rightarrow> array_call \<Rightarrow> answer \<times> slot list" where
  "list_method xs (Push vs) = (Number (int (length xs + length vs)), xs @ vs)"
| "list_method xs Pop = (Element (if xs = [] then Some OUndefined else last xs), butlast xs)"
| "list_method xs Shift = (Element (case xs of [] \<Rightarrow> Some OUndefined | x # _ \<Rightarrow> x), tl xs)"
| "list_method xs (Unshift vs) = (Done, vs @ xs)"
| "list_method xs (Insert pos vs) =
     (Done, take (insert_point pos (length xs)) xs @ vs @ drop (insert_point pos (length xs)) xs)"
| "list_method xs (Append v) = (Done, xs @ [v])"
| "list_method xs (Get i) = (Element (if 0 \<le> i \<and> i < int (length xs) then xs ! nat i else Some OUndefined), xs)"
| "list_method xs (Put i v) = (Number (int i), if i < length xs then xs[i := v] else xs @ [v])"
| "list_method xs (Delete i) = (Number (int i), if Suc i = length xs then butlast xs else xs[i := Some OUndefined])"
| "list_method xs Clear = (Done, [])"
| "list_method xs Reverse = (Done, rev xs)"
| "list_method xs Compact = (Done, filter ejsIsDefined xs)"
| "list_method xs (Truncate n) = (Done, take (nat n) xs)"
| "list_method xs Unique = (Done, unique_list xs)"
| "list_method xs (Splice s n vs) = (Elements (take n (drop s xs)), take s xs @ vs @ drop (s + n) xs)"
| "list_method xs (IndexOf v s) =
     (Number (first_same v (insert_point (case s of None \<Rightarrow> 0 | Some s \<Rightarrow> s) (length xs)) xs), xs)"
| "list_method xs (Slice s e) =
     (Elements (take (insert_point e (length xs) - insert_point s (length xs)) (drop (insert_point s (length xs)) xs)), xs)"

text \<open>
  The calls with these meanings: the array stays below the largest length, elements are set in the array or just behind it, a
  length is not raised, elements that are compared are not null pointers, and a splice is inside of the array
  and adds as many elements as it removes, at least.
\<close>

fun allowed_call :: "slot list \<Rightarrow> array_call \<Rightarrow> bool" where
  "allowed_call xs (Push vs) \<longleftrightarrow> fits (length xs + length vs)"
| "allowed_call xs (Unshift vs) \<longleftrightarrow> fits (length xs + length vs)"
| "allowed_call xs (Insert pos vs) \<longleftrightarrow> fits (length xs + length vs)"
| "allowed_call xs (Append v) \<longleftrightarrow> fits (length xs + 1)"
| "allowed_call xs (Put i v) \<longleftrightarrow> i < length xs \<or> i = length xs \<and> fits (length xs + 1)"
| "allowed_call xs (Delete i) \<longleftrightarrow> i < length xs"
| "allowed_call xs (Truncate n) \<longleftrightarrow> n \<le> int (length xs)"
| "allowed_call xs Unique \<longleftrightarrow> None \<notin> set xs"
| "allowed_call xs (Splice s n vs) \<longleftrightarrow>
     s < length xs \<and> n \<le> length xs - s \<and> n \<le> length vs \<and> fits (length xs + length vs - n)"
| "allowed_call xs (IndexOf v s) \<longleftrightarrow> None \<notin> set xs \<and> v \<noteq> None"
| "allowed_call xs (Slice s e) \<longleftrightarrow> fits (length xs)"
| "allowed_call xs c \<longleftrightarrow> True"

definition array_rep :: "allocator \<Rightarrow> jsarray \<Rightarrow> slot list \<Rightarrow> bool" where
  "array_rep A ap xs \<longleftrightarrow> plenty A \<and> arr ap xs \<and> dynamic ap"

lemma gives_map: "gives m ap r xs \<Longrightarrow> gives (map_op f m) ap (f r) xs"
  unfolding map_op_def by (erule gives_bind) simp

lemma gives_of_res [simp]: "gives (of_res r) ap q xs \<longleftrightarrow> r = Ok q \<and> arr ap xs"
  by (auto simp: gives_def of_res_def)

lemma get_element:
  assumes "arr ap xs"
  shows "gives (getArrayProperty i) ap (if 0 \<le> i \<and> i < int (length xs) then xs ! nat i else Some OUndefined) xs"
proof -
  from assms obtain rest where "data ap = xs @ rest" "len ap = int (length xs)" by (auto simp: arr_def)
  with assms show ?thesis by (auto simp: gives_def getArrayProperty_def load_def nth_append nat_less_iff)
qed

lemma delete_element:
  assumes "arr ap xs" "i < length xs"
  shows "gives (deleteArrayProperty A (int i)) ap (Some (int i)) (if Suc i = length xs then butlast xs else xs[i := Some OUndefined])"
proof -
  let ?ys = "xs[i := Some OUndefined]"
  have "gives (andthen (setArrayProperty A (int i) (Some OUndefined)) (\<lambda>_.
      andthen get_len (\<lambda>n. andthen (if int i + 1 = n then set_len (n - 1) else ret ()) (\<lambda>_. ret (Some (int i))))))
    ap (Some (int i)) (if Suc i = length xs then butlast xs else ?ys)"
  proof (rule gives_bind [OF set_element [OF assms]])
    fix b
    assume b: "arr b ?ys"
    note n = arr_lenD [OF b]
    show "gives (andthen get_len (\<lambda>n. andthen (if int i + 1 = n then set_len (n - 1) else ret ()) (\<lambda>_. ret (Some (int i)))))
      b (Some (int i)) (if Suc i = length xs then butlast xs else ?ys)"
    proof (cases "Suc i = length xs")
      case True
      have "take i ?ys = butlast xs" by (simp add: butlast_conv_take flip: True)
      moreover have e: "b\<lparr>len := int (length xs) - 1\<rparr> = b\<lparr>len := int i\<rparr>" using True by (simp flip: True)
      ultimately show ?thesis using arr_take [OF b, of i] True n by (simp add: e)
    next
      case False
      then have "int i + 1 \<noteq> int (length xs)" by simp
      with False b n show ?thesis by (simp del: andthen_ret)
    qed
  qed
  moreover have "\<not> len ap \<le> int i" using assms by (simp add: arr_lenD)
  ultimately show ?thesis by (simp add: gives_def deleteArrayProperty_def)
qed

lemma gives_elements [simp]: "gives (elements_of a) ap q xs \<longleftrightarrow> map_res Elements (contents a) = Ok q \<and> arr ap xs"
  by (simp add: elements_of_def)

lemma array_call_law:
  assumes "array_rep A ap xs" "allowed_call xs c"
  shows "gives (array_method A c) ap (fst (list_method xs c)) (snd (list_method xs c))"
proof -
  have a: "plenty A" "arr ap xs" "dynamic ap" using assms(1) by (auto simp: array_rep_def)
  show ?thesis
  proof (cases c)
    case (Push vs)
    with gives_map [OF push_elements [OF a(1,2), of vs], of answer_number] assms(2) show ?thesis
      by (simp add: answer_number_def)
  next
    case Pop
    with gives_map [OF pop_element [OF a(2)], of Element] show ?thesis by simp
  next
    case Shift
    with gives_map [OF shift_element [OF a(2)], of Element] show ?thesis by simp
  next
    case (Unshift vs)
    with gives_map [OF unshift_elements [OF a(1,2), of vs], of "\<lambda>_. Done"] assms(2) show ?thesis by simp
  next
    case (Insert pos vs)
    with gives_map [OF insert_elements [OF a(1,2), of vs pos], of "\<lambda>_. Done"] assms(2) show ?thesis by simp
  next
    case (Append v)
    with gives_map [OF append_element [OF a(1,2), of v], of "\<lambda>_. Done"] assms(2) show ?thesis by simp
  next
    case (Get i)
    with gives_map [OF get_element [OF a(2), of i], of Element] show ?thesis by simp
  next
    case (Put i v)
    show ?thesis
    proof (cases "i < length xs")
      case True
      with gives_map [OF set_element [OF a(2) True, of A v], of Number] Put show ?thesis by simp
    next
      case False
      then have i: "i = length xs" "fits (length xs + 1)" using assms(2) Put by auto
      then have "int i = len ap \<or> int i < 0 \<and> dynamic ap" using arr_lenD [OF a(2)] by simp
      from gives_map [OF add_element [OF a(1,2) i(2) this, of v], of Number] Put i show ?thesis by simp
    qed
  next
    case (Delete i)
    then have "i < length xs" using assms(2) by simp
    from gives_map [OF delete_element [OF a(2) this, of A], of answer_number] Delete show ?thesis
      by (simp add: answer_number_def)
  next
    case Clear
    with gives_map [OF clear_elements [OF a(2)], of "\<lambda>_. Done"] show ?thesis by simp
  next
    case Reverse
    with gives_map [OF reverse_elements [OF a(2)], of "\<lambda>_. Done"] show ?thesis by simp
  next
    case Compact
    with gives_map [OF compact_elements [OF a(2)], of "\<lambda>_. Done"] show ?thesis by simp
  next
    case (Truncate n)
    with gives_map [OF truncate_elements [OF a(2), of n A], of "\<lambda>_. Done"] assms(2) show ?thesis by simp
  next
    case Unique
    with gives_map [OF unique_elements [OF a(2)], of "\<lambda>_. Done"] assms(2) show ?thesis by simp
  next
    case (Splice s n vs)
    with assms(2) have s: "s < length xs" "n \<le> length xs - s" "n \<le> length vs" "fits (length xs + length vs - n)" by auto
    from splice_elements [OF a(1,2) s] obtain result where r: "arr result (take n (drop s xs))"
      "gives (spliceArray A (int s) (int n) (arg vs)) ap (Some result) (take s xs @ vs @ drop (s + n) xs)" by blast
    have "gives (andthen (spliceArray A (int s) (int n) (arg vs)) (\<lambda>r. case r of None \<Rightarrow> ret Done | Some a \<Rightarrow> elements_of a))
      ap (Elements (take n (drop s xs))) (take s xs @ vs @ drop (s + n) xs)"
      by (rule gives_bind [OF r(2)]) (use contents_arr [OF r(1)] in simp)
    with Splice show ?thesis by simp
  next
    case (IndexOf v s)
    with assms(2) index_of [OF a(2), of v s] a(2) show ?thesis
      by (simp add: gives_def of_res_def)
  next
    case (Slice s e)
    with assms(2) have "fits (length xs)" by simp
    from slice_elements [OF a(1,2) this, of s e] obtain r where
      r: "sliceArray A s (Some e) None ap = Ok r"
      "arr r (take (insert_point e (length xs) - insert_point s (length xs)) (drop (insert_point s (length xs)) xs))" by blast
    have "gives (andthen (of_res (sliceArray A s (Some e) None ap)) elements_of) ap
      (Elements (take (insert_point e (length xs) - insert_point s (length xs)) (drop (insert_point s (length xs)) xs))) xs"
      using contents_arr [OF r(2)] a(2) by (simp only: r(1) gives_pure gives_elements map_res.simps)
    with Slice show ?thesis by (simp add: gives_def)
  qed
qed

interpretation arrays: abstract_object "array_rep A" "array_method A" list_method allowed_call
  for A
proof unfold_locales
  fix ap xs c
  assume "array_rep A ap xs" "allowed_call xs c"
  from array_call_law [OF this] this(1)
  show "\<exists>ap'. array_method A c ap = (Ok (fst (list_method xs c)), ap') \<and> array_rep A ap' (snd (list_method xs c))"
    by (auto simp: gives_def array_rep_def)
qed

text \<open>
  C25: Any sequence of calls of array methods that is within the contract gives the answers that the operations on the list of
  elements give, with no fault and no exception, and leaves an array whose elements are the resulting list; whatever the
  block holds behind the elements, and whenever it is reused or replaced, when there is memory.
\<close>

theorem array_methods_refine_lists:
  assumes "plenty A" "arr ap xs" "dynamic ap" "all_allowed list_method allowed_call xs cs"
  shows "\<exists>ap'. run_calls (array_method A) cs ap = (Ok (fst (run_spec list_method xs cs)), ap')
    \<and> arr ap' (snd (run_spec list_method xs cs)) \<and> contents ap' = Ok (snd (run_spec list_method xs cs))"
proof -
  have "array_rep A ap xs" using assms by (simp add: array_rep_def)
  from arrays.run_refines [OF this assms(4)] show ?thesis by (auto simp: array_rep_def)
qed

definition sample_calls :: "array_call list" where
  "sample_calls = [Push [Some ONull, Some (OOther 1)], Insert (-1) [Some (OOther 2), Some (OOther 1)], Reverse, Unique, Pop,
     Splice 0 1 [Some (OOther 3), Some (OOther 4)], IndexOf (Some (OOther 4)) None, Slice (-2) 3, Shift, Delete 0, Clear, Get 0]"

theorem array_methods_refine_lists_witness:
  "\<exists>ap'. run_calls (array_method (\<lambda>_. Some 0)) sample_calls empty_array = (Ok (fst (run_spec list_method [] sample_calls)), ap')
    \<and> arr ap' (snd (run_spec list_method [] sample_calls)) \<and> contents ap' = Ok (snd (run_spec list_method [] sample_calls))"
proof (rule array_methods_refine_lists)
  show "all_allowed list_method allowed_call [] sample_calls"
    by (simp add: sample_calls_def fits_def insert_point_def clamp_def same_def)
qed (simp_all add: plenty_def empty_array_def arr_def)

section \<open>Calls outside of the contract\<close>

definition nums :: "nat list \<Rightarrow> slot list" where
  "nums = map (\<lambda>n. Some (OOther n))"

definition sample_array :: "nat list \<Rightarrow> jsarray" where
  "sample_array ns = \<lparr>data = nums ns @ replicate (16 - length ns) (Some OUndefined), len = int (length ns), dynamic = True\<rparr>"

text \<open>
  The removed elements come back when an array grows again in its block: \<open>growArray\<close> does not clear the slots, and the loop of the
  length setter that would do so runs over nothing.
\<close>

lemma cleared_elements_come_back:
  "map_prod id len (setArrayLength (\<lambda>_. Some 0) 2 (snd (clearArray (sample_array [1, 2, 3])))) = (Ok (), 2)
   \<and> fst (getArrayProperty 0 (snd (setArrayLength (\<lambda>_. Some 0) 2 (snd (clearArray (sample_array [1, 2, 3])))))) = Ok (Some (OOther 1))"
  by code_simp

text \<open>The sequel of a removed element is skipped.\<close>

lemma removal_skips_the_next_element:
  "bind_res (contents (snd (removeArrayElements (sample_array [1]) (sample_array [1, 1, 2])))) Ok = Ok (nums [1, 2])"
  by code_simp

text \<open>A deletion count that goes beyond the end is cut at the length of the array, not at the rest of it.\<close>

lemma splice_past_the_end:
  "contents (snd (spliceArray (\<lambda>_. Some 0) 1 3 (arg []) (sample_array [1, 2, 3]))) = Ok []"
  by code_simp

text \<open>A splice that shortens an array which fills its block reads behind the block.\<close>

lemma shrinking_splice_overreads:
  "fst (spliceArray (\<lambda>_. Some 0) 0 1 (arg []) (sample_array [1..<17])) = Fault"
  by code_simp

lemma splice_at_end_inserts_before_last:
  "contents (snd (spliceArray (\<lambda>_. Some 0) 2 0 (arg (nums [9])) (sample_array [1, 2]))) = Ok (nums [1, 9, 2])"
  by code_simp

lemma splice_of_empty_array_drops_values:
  "spliceArray A 0 0 (arg vs) empty_array = (Ok (Some empty_array), empty_array)"
  by (simp add: spliceArray_def empty_array_def)

text \<open>With the default count, one element too many is removed.\<close>

lemma splice_default_count:
  "map_res (map_option contents) (fst (spliceArray (\<lambda>_. Some 0) 1 (-1) (arg (nums [7, 8, 9])) (sample_array [1, 2, 3])))
     = Ok (Some (Ok (nums [2, 3] @ [Some OUndefined])))"
  by code_simp

lemma constructor_takes_negative_length: "arrayConstructor A (Inl (-1)) empty_array = (Ok (), \<lparr>data = [], len = -1, dynamic = True\<rparr>)"
  by (simp add: arrayConstructor_def empty_array_def set_len_def)

lemma largest_index_writes_outside:
  "setArrayProperty A 2147483647 v (sample_array [1]) = (Fault, sample_array [1])"
  by (simp add: setArrayProperty_def checkSlot_def sample_array_def int32_def or_memory_def growArray_def andthen_def Let_def
      on_data_def store_def nums_def)

lemma slice_with_negative_step_reads_past_the_end:
  "sliceArray (\<lambda>_. Some 0) 16 (Some 0) (Some (-1)) (sample_array [1..<17]) = Fault"
  by code_simp

lemma join_drops_undefined_and_its_separator:
  "joinArray (\<lambda>_. ''x'') (Some '','') \<lparr>data = [Some (OOther 1), Some OUndefined, Some (OOther 2)], len = 3, dynamic = True\<rparr> = Ok ''x,x''
   \<and> arrayToString (\<lambda>_. ''x'') \<lparr>data = [Some (OOther 1), Some OUndefined, Some (OOther 2)], len = 3, dynamic = True\<rparr> = Ok ''x,,x''"
  by code_simp

lemma push_without_memory_returns_null: "fst (pushArray (\<lambda>_. None) (arg (nums [1])) empty_array) = Ok None"
  by code_simp

end
