(* ===== verification/ArraySort.thy ===== *)
theory ArraySort
  imports ArrayList "HOL-Library.Multiset" "HOL-Library.List_Lexorder"
begin

text \<open>
  Sorting: the partition as a split of the segment, and the recursion, with enough fuel, as a sorted permutation. A compare
  function that gives no number keeps the recursion going for ever.
\<close>

section \<open>Rankings\<close>






section \<open>The partition\<close>





section \<open>The recursion\<close>




section \<open>Strings\<close>

text \<open>What a comparison of strings looks at: the characters up to a NUL, as signed numbers.\<close>

definition string_key :: "string \<Rightarrow> int list" where
  "string_key s = takeWhile (\<lambda>n. n \<noteq> 0) (map char_val s)"

lemma string_key_simps [simp]:
  "string_key [] = []"
  "string_key (a # as) = (if char_val a = 0 then [] else char_val a # string_key as)"
  by (simp_all add: string_key_def)







section \<open>Compare functions that give no number\<close>

lemma partition_no_number:
  assumes "\<And>d r i. cmp d r i = NoOrder" "0 \<le> r" "r < int (length d)" "p < r"
  shows "partition_array cmp direction d p r = Ok (d, 0, False)"
  using assms by (simp add: partition_array_def load_def part_loop.simps)

lemma no_number_recurses:
  assumes "\<And>d r i. cmp d r i = NoOrder" "1 < r" "r < int (length d)" "0 \<le> p" "p \<le> 1"
  shows "quickSort f cmp direction (d, False) p r = None"
  using assms(4,5)
proof (induction f arbitrary: p)
  case (Suc f)
  have "partition_array cmp direction d p r = Ok (d, 0, False)"
    by (rule partition_no_number [OF assms(1)]) (use assms(2,3) Suc.prems in simp_all)
  moreover have "quickSort f cmp direction (d, False) 1 r = None" by (rule Suc.IH) simp_all
  moreover have "quickSort f cmp direction (d, False) p (-1) \<in> {None, Some (Ok (d, False))}"
    using Suc.prems by (cases f) auto
  ultimately show ?case using assms(2) Suc.prems by auto
qed simp

text \<open>
  C27: Sorting three or more elements with a compare function that never gives a number (that has no return statement, for
  example) does not return for any fuel: the partition gives the index 0, and the sort of the elements from
  index 1 on calls itself with the same bounds.
\<close>

theorem sort_without_numbers_never_returns:
  assumes "arr ap xs" "3 \<le> length xs" "\<And>d r i. cmp d r i = NoOrder"
  shows "ejsSortArray f S (Some cmp) direction ap = None"
proof -
  obtain rest where d: "data ap = xs @ rest" and l: "len ap = int (length xs)" using assms(1) by (auto simp: arr_def)
  have "quickSort f cmp n (xs @ rest, False) 0 (int (length xs) - 1) = None" for n
    by (rule no_number_recurses [OF assms(3)]) (use assms(2) in simp_all)
  with assms(2) show ?thesis by (simp add: ejsSortArray_def d l)
qed

theorem sort_without_numbers_never_returns_witness:
  "ejsSortArray 1000 (\<lambda>_. None) (Some (\<lambda>d r i. NoOrder)) None (arg [Some ONull, Some OUndefined, Some (OOther 1)]) = None"
  by (rule sort_without_numbers_never_returns [of _ "[Some ONull, Some OUndefined, Some (OOther 1)]"])
    (simp_all add: arr_def arg_def)

text \<open>A direction of 0 moves the last element to the front.\<close>

lemma sort_without_direction_unsorts:
  "map_option (map_res (\<lambda>(ap, exc). contents ap))
     (ejsSortArray 2 (\<lambda>v. case v of Some (OString s) \<Rightarrow> Some s | _ \<Rightarrow> None) None (Some 0)
       (arg [Some (OString ''a''), Some (OString ''b'')]))
   = Some (Ok (Ok [Some (OString ''b''), Some (OString ''a'')]))"
  by code_simp

end
