(* ===== verification/Interning.thy ===== *)
theory Interning
  imports Arrays
begin

text \<open>
  The table of strings (\<open>ejsString.c\<close>, Interning): every string of the interpreter is entered in a hash table that grows by
  rebuilding, so that equal strings are the same object. It is proved that they are, that interning ends while strings do not
  collide too often in the largest table, and when it does not end; and that text beyond ASCII is entered again and again.
\<close>

section \<open>The hash of a string\<close>

text \<open>\<open>shash\<close> of the portable runtime, which \<open>whash\<close> stands for; a signed character is extended to an unsigned word.\<close>

definition HASH_PRIME :: u32 where
  "HASH_PRIME = 0x01000193"

fun hash_loop :: "u32 \<Rightarrow> string \<Rightarrow> u32" where
  "hash_loop h [] = h"
| "hash_loop h (c # cs) = hash_loop ((h XOR word_of_int (char_val c)) * HASH_PRIME) cs"

definition shash :: "string \<Rightarrow> u32" where
  "shash cs = hash_loop (of_nat (length cs)) cs"

section \<open>The table\<close>

text \<open>A string object is known by its address; two objects with the same characters are different objects.\<close>

record string_obj =
  address :: nat
  chars :: string

text \<open>
  A bucket is the ring of the strings behind its head, in the order of \<open>next\<close>. The address of the next object that is
  allocated stands for the allocator. The counters of accesses and of strings reused, which are statistics, are left out.
\<close>

record intern =
  buckets :: "string_obj list list"
  size_of :: nat
  count_of :: int
  next_address :: nat

definition internHashSizes :: "nat list" where
  "internHashSizes = [389, 769, 1543, 3079, 6151, 12289, 24593, 49157, 98317, 196613, 0]"

definition EJS_MAX_COLLISIONS :: nat where
  "EJS_MAX_COLLISIONS = 4"

fun size_from :: "nat \<Rightarrow> nat \<Rightarrow> nat list \<Rightarrow> nat \<Rightarrow> nat" where
  "size_from i p [] n = p"
| "size_from i p (s # sizes) n = (if i < s then (if n < s then s else size_from (i + 1) s sizes n) else p)"

definition getInternHashSize :: "nat \<Rightarrow> nat" where
  "getInternHashSize n = size_from 0 0 internHashSizes n"

definition bucket_of :: "nat \<Rightarrow> string \<Rightarrow> nat" where
  "bucket_of n cs = unat (shash cs) mod n"

definition linkString :: "nat \<Rightarrow> string_obj \<Rightarrow> intern \<Rightarrow> intern" where
  "linkString k sp ip = ip\<lparr>buckets := (buckets ip)[k := sp # buckets ip ! k]\<rparr>"

definition unlinkString :: "string_obj \<Rightarrow> intern \<Rightarrow> intern" where
  "unlinkString sp ip = ip\<lparr>buckets := map (filter (\<lambda>x. x \<noteq> sp)) (buckets ip)\<rparr>"

text \<open>The walk through a bucket: the string that was found, or the number of strings that were passed.\<close>

fun walk :: "(string_obj \<Rightarrow> bool) \<Rightarrow> nat \<Rightarrow> string_obj list \<Rightarrow> string_obj + nat" where
  "walk P step [] = Inr step"
| "walk P step (sp # ring) = (if P sp then Inl sp else walk P (step + 1) ring)"

text \<open>
  The loops that compare a string of the table with the characters given, which give the number of characters that agree. Two of
  them stop at a NUL of the characters given, and one converts these to unsigned characters.
\<close>

fun agree :: "(char \<Rightarrow> int) \<Rightarrow> bool \<Rightarrow> string \<Rightarrow> string \<Rightarrow> nat" where
  "agree conv at_nul (a # as) (b # bs) =
     (if at_nul \<and> b = CHR 0x00 \<or> char_val a \<noteq> conv b then 0 else Suc (agree conv at_nul as bs))"
| "agree conv at_nul _ _ = 0"

definition equals :: "(char \<Rightarrow> int) \<Rightarrow> bool \<Rightarrow> string \<Rightarrow> string \<Rightarrow> bool" where
  "equals conv at_nul as bs \<longleftrightarrow> length as = length bs \<and> agree conv at_nul as bs = length as"

text \<open>\<open>rebuildIntern\<close> and \<open>ejsInternString\<close> call each other: the depth of these calls is bounded by the fuel.\<close>

fun relink :: "(string_obj \<Rightarrow> intern \<Rightarrow> (string_obj \<times> intern) option) \<Rightarrow> string_obj list \<Rightarrow> intern \<Rightarrow> intern option" where
  "relink f [] ip = Some ip"
| "relink f (sp # sps) ip = (case f sp ip of None \<Rightarrow> None | Some (r, ip) \<Rightarrow> relink f sps ip)"

definition rebuildIntern :: "(string_obj \<Rightarrow> intern \<Rightarrow> (string_obj \<times> intern) option) \<Rightarrow> intern \<Rightarrow> intern option" where
  "rebuildIntern f ip =
     (let newSize = getInternHashSize (size_of ip + 1)
      in if buckets ip \<noteq> [] \<and> newSize < size_of ip then Some ip
         else relink f (concat (buckets ip)) (ip\<lparr>buckets := replicate newSize [], size_of := newSize\<rparr>))"

definition insert_string ::
  "(string_obj \<Rightarrow> intern \<Rightarrow> (string_obj \<times> intern) option) \<Rightarrow> nat \<Rightarrow> nat \<Rightarrow> string_obj \<Rightarrow> intern \<Rightarrow> (string_obj \<times> intern) option"
where
  "insert_string f index step sp ip =
     (let ip = linkString index sp (ip\<lparr>count_of := int32 (count_of ip + 1)\<rparr>)
      in if EJS_MAX_COLLISIONS < step \<and> int (size_of ip div 2) < count_of ip
         then map_option (Pair sp) (rebuildIntern f ip) else Some (sp, ip))"

fun ejsInternString :: "nat \<Rightarrow> string_obj \<Rightarrow> intern \<Rightarrow> (string_obj \<times> intern) option" where
  "ejsInternString 0 str ip = None"
| "ejsInternString (Suc n) str ip =
     (let index = bucket_of (size_of ip) (chars str)
      in case walk (\<lambda>sp. str = sp \<or> equals char_val False (chars sp) (chars str)) 0 (buckets ip ! index) of
           Inl sp \<Rightarrow> Some (sp, ip)
         | Inr step \<Rightarrow> insert_string (ejsInternString n) index step str ip)"

definition alloc_string :: "string \<Rightarrow> intern \<Rightarrow> string_obj \<times> intern" where
  "alloc_string cs ip = (\<lparr>address = next_address ip, chars = cs\<rparr>, ip\<lparr>next_address := next_address ip + 1\<rparr>)"

definition intern_chars :: "(char \<Rightarrow> int) \<Rightarrow> nat \<Rightarrow> string \<Rightarrow> intern \<Rightarrow> (string_obj \<times> intern) option" where
  "intern_chars conv n cs ip =
     (let index = bucket_of (size_of ip) cs
      in case walk (\<lambda>sp. equals conv True (chars sp) cs) 0 (buckets ip ! index) of
           Inl sp \<Rightarrow> Some (sp, ip)
         | Inr step \<Rightarrow> (case alloc_string cs ip of (sp, ip) \<Rightarrow> insert_string (ejsInternString n) index step sp ip))"

definition ejsInternWide :: "nat \<Rightarrow> string \<Rightarrow> intern \<Rightarrow> (string_obj \<times> intern) option" where
  "ejsInternWide = intern_chars char_val"

definition unsigned_val :: "char \<Rightarrow> int" where
  "unsigned_val c = of_char c"

definition ejsInternAsc :: "nat \<Rightarrow> string \<Rightarrow> intern \<Rightarrow> (string_obj \<times> intern) option" where
  "ejsInternAsc = intern_chars unsigned_val"

definition ejsCreateIntern :: "nat \<Rightarrow> intern option" where
  "ejsCreateIntern n = rebuildIntern (ejsInternString n) \<lparr>buckets = [], size_of = 0, count_of = 0, next_address = 0\<rparr>"

definition freeString :: "string_obj \<Rightarrow> intern \<Rightarrow> intern" where
  "freeString sp ip = unlinkString sp (ip\<lparr>count_of := int32 (count_of ip - 1)\<rparr>)"

definition ejsDestroyIntern :: "intern \<Rightarrow> intern" where
  "ejsDestroyIntern ip = foldl (\<lambda>ip sp. freeString sp ip) ip (concat (buckets ip))"

text \<open>The functions that make strings from C strings, which end at the first NUL.\<close>

definition ejsCreateStringFromAsc :: "nat \<Rightarrow> string \<Rightarrow> intern \<Rightarrow> (string_obj \<times> intern) option" where
  "ejsCreateStringFromAsc n cs = ejsInternAsc n (takeWhile (\<lambda>c. c \<noteq> CHR 0x00) cs)"

text \<open>Equality of strings in the language is that of the objects.\<close>

definition same_string :: "string_obj \<Rightarrow> string_obj \<Rightarrow> bool" where
  "same_string lhs rhs \<longleftrightarrow> address lhs = address rhs"


section \<open>Comparing\<close>

lemma agree_le: "agree conv b as bs \<le> length as"
  by (induction conv b as bs rule: agree.induct) simp_all

lemma equals_Cons: "equals conv n (a # as) (b # bs) \<longleftrightarrow> \<not> (n \<and> b = CHR 0x00) \<and> char_val a = conv b \<and> equals conv n as bs"
  by (auto simp: equals_def)

lemma equals_all: "equals conv n as bs \<longleftrightarrow> list_all2 (\<lambda>a b. \<not> (n \<and> b = CHR 0x00) \<and> char_val a = conv b) as bs"
proof (induction as arbitrary: bs)
  case (Cons a as)
  then show ?case by (cases bs) (simp_all add: equals_Cons, simp add: equals_def)
qed (auto simp: equals_def)

lemma equals_signed: "equals char_val False as bs \<longleftrightarrow> as = bs"
  by (simp add: equals_all char_val_inject list_all2_eq)

text \<open>The characters that the comparing loops take for what they are.\<close>

definition plain :: "char \<Rightarrow> bool" where
  "plain c \<longleftrightarrow> c \<noteq> CHR 0x00 \<and> unsigned_val c < 128"

lemma equals_wide: "CHR 0x00 \<notin> set bs \<Longrightarrow> equals char_val True as bs \<longleftrightarrow> as = bs"
proof (induction as arbitrary: bs)
  case (Cons a as)
  then show ?case by (cases bs) (auto simp: equals_all char_val_inject)
qed (auto simp: equals_all)

lemma walk_find: "walk P n ring = (case find P ring of Some sp \<Rightarrow> Inl sp | None \<Rightarrow> Inr (n + length ring))"
  by (induction P n ring rule: walk.induct) (auto split: option.splits)

section \<open>The invariant\<close>

definition objs :: "intern \<Rightarrow> string_obj set" where
  "objs ip = set (concat (buckets ip))"

definition table_sizes :: "nat list" where
  "table_sizes = butlast internHashSizes"

definition intern_ok :: "intern \<Rightarrow> bool" where
  "intern_ok ip \<longleftrightarrow> size_of ip \<in> set table_sizes \<and> length (buckets ip) = size_of ip
     \<and> (\<forall>k < size_of ip. distinct (map chars (buckets ip ! k)) \<and> (\<forall>sp \<in> set (buckets ip ! k). bucket_of (size_of ip) (chars sp) = k))"

lemma sizes_pos: "n \<in> set table_sizes \<Longrightarrow> 0 < n"
  by (auto simp: table_sizes_def internHashSizes_def)

lemma bucket_less [simp]: "n \<in> set table_sizes \<Longrightarrow> bucket_of n cs < n"
  using sizes_pos by (simp add: bucket_of_def)

lemma getInternHashSize_in: "getInternHashSize n \<in> set table_sizes"
  by (simp add: getInternHashSize_def internHashSizes_def table_sizes_def)

lemma set_concat_nth: "x \<in> set (concat xss) \<longleftrightarrow> (\<exists>k < length xss. x \<in> set (xss ! k))"
  by (metis in_set_conv_nth set_concat UN_iff)

lemma objs_nth: "intern_ok ip \<Longrightarrow> sp \<in> objs ip \<longleftrightarrow> (\<exists>k < size_of ip. sp \<in> set (buckets ip ! k))"
  by (simp only: objs_def set_concat_nth intern_ok_def)

lemma objs_bucket: "intern_ok ip \<Longrightarrow> sp \<in> objs ip \<longleftrightarrow> sp \<in> set (buckets ip ! bucket_of (size_of ip) (chars sp))"
  unfolding objs_nth by (metis bucket_less intern_ok_def)

lemma bucket_objs: "intern_ok ip \<Longrightarrow> set (buckets ip ! bucket_of (size_of ip) cs) \<subseteq> objs ip"
proof -
  assume ok: "intern_ok ip"
  then have "bucket_of (size_of ip) cs < length (buckets ip)" by (simp add: intern_ok_def)
  from nth_mem [OF this] show ?thesis by (auto simp: objs_def)
qed

lemma one_object: "intern_ok ip \<Longrightarrow> inj_on chars (objs ip)"
proof (rule inj_onI)
  fix x y
  assume ok: "intern_ok ip" and x: "x \<in> objs ip" and y: "y \<in> objs ip" and e: "chars x = chars y"
  let ?k = "bucket_of (size_of ip) (chars x)"
  have "x \<in> set (buckets ip ! ?k)" "y \<in> set (buckets ip ! ?k)" using x y e objs_bucket [OF ok] by auto
  moreover have "inj_on chars (set (buckets ip ! ?k))" using ok by (simp add: intern_ok_def distinct_map)
  ultimately show "x = y" using e by (simp add: inj_on_def)
qed

lemma objs_link:
  assumes "intern_ok ip" "k < size_of ip"
  shows "objs (linkString k sp ip) = insert sp (objs ip)"
proof -
  have l: "length (buckets ip) = size_of ip" using assms(1) by (simp add: intern_ok_def)
  have "x \<in> objs (linkString k sp ip) \<longleftrightarrow> x = sp \<or> x \<in> objs ip" for x
    unfolding objs_def set_concat_nth linkString_def using assms(2) l by (auto simp: nth_list_update)
  then show ?thesis by blast
qed

lemma link_ok:
  assumes "intern_ok ip" "chars sp \<notin> chars ` objs ip"
  shows "intern_ok (linkString (bucket_of (size_of ip) (chars sp)) sp ip)"
proof -
  let ?k = "bucket_of (size_of ip) (chars sp)"
  have k: "?k < size_of ip" using assms(1) by (simp add: intern_ok_def)
  then have "chars sp \<notin> chars ` set (buckets ip ! ?k)" using bucket_objs [OF assms(1)] assms(2) by blast
  with assms(1) k show ?thesis by (auto simp: intern_ok_def linkString_def nth_list_update)
qed

lemma ok_irrelevant [simp]:
  "intern_ok (ip\<lparr>count_of := c\<rparr>) = intern_ok ip" "objs (ip\<lparr>count_of := c\<rparr>) = objs ip"
  "intern_ok (ip\<lparr>next_address := a\<rparr>) = intern_ok ip" "objs (ip\<lparr>next_address := a\<rparr>) = objs ip"
  by (simp_all add: intern_ok_def objs_def)

lemma empty_ok: "n \<in> set table_sizes \<Longrightarrow> intern_ok (ip\<lparr>buckets := replicate n [], size_of := n\<rparr>)"
  by (simp add: intern_ok_def)

lemma empty_objs: "objs (ip\<lparr>buckets := replicate n [], size_of := n\<rparr>) = {}"
  by (simp add: objs_def)

section \<open>Interning\<close>

text \<open>What a step of interning keeps, and what it gives.\<close>

definition interned :: "string_obj \<Rightarrow> intern \<Rightarrow> string_obj \<Rightarrow> intern \<Rightarrow> bool" where
  "interned sp ip r ip' \<longleftrightarrow> intern_ok ip' \<and> r \<in> objs ip' \<and> chars r = chars sp \<and> next_address ip' = next_address ip
     \<and> objs ip' = (if chars sp \<in> chars ` objs ip then objs ip else insert sp (objs ip))"

definition interns :: "(string_obj \<Rightarrow> intern \<Rightarrow> (string_obj \<times> intern) option) \<Rightarrow> bool" where
  "interns f \<longleftrightarrow> (\<forall>sp ip r ip'. intern_ok ip \<longrightarrow> f sp ip = Some (r, ip') \<longrightarrow> interned sp ip r ip')"

lemma relink_keeps:
  "interns f \<Longrightarrow> intern_ok ip \<Longrightarrow> inj_on chars (set sps \<union> objs ip) \<Longrightarrow> relink f sps ip = Some ip' \<Longrightarrow>
     intern_ok ip' \<and> objs ip' = set sps \<union> objs ip \<and> next_address ip' = next_address ip"
proof (induction sps arbitrary: ip)
  case (Cons sp sps)
  from Cons.prems(4) obtain r jp where f: "f sp ip = Some (r, jp)" "relink f sps jp = Some ip'"
    by (auto split: option.splits)
  from Cons.prems(1,2) f(1) have i: "interned sp ip r jp" by (simp add: interns_def)
  have "sp \<in> objs ip" if "chars sp \<in> chars ` objs ip" using that Cons.prems(3) by (auto simp: inj_on_def)
  with i have o: "intern_ok jp" "objs jp = insert sp (objs ip)" "next_address jp = next_address ip"
    by (auto simp: interned_def)
  have "inj_on chars (set sps \<union> objs jp)" by (rule inj_on_subset [OF Cons.prems(3)]) (use o(2) in auto)
  from Cons.IH [OF Cons.prems(1) o(1) this f(2)] o show ?case by auto
qed simp

lemma rebuild_keeps:
  assumes "interns f" "intern_ok ip" "rebuildIntern f ip = Some ip'"
  shows "intern_ok ip' \<and> objs ip' = objs ip \<and> next_address ip' = next_address ip"
proof (cases "buckets ip \<noteq> [] \<and> getInternHashSize (size_of ip + 1) < size_of ip")
  case False
  let ?n = "getInternHashSize (size_of ip + 1)"
  let ?jp = "ip\<lparr>buckets := replicate ?n [], size_of := ?n\<rparr>"
  have r: "relink f (concat (buckets ip)) ?jp = Some ip'" using assms(3) False
    unfolding rebuildIntern_def Let_def by (simp only: if_False)
  have i: "inj_on chars (set (concat (buckets ip)) \<union> objs ?jp)"
    using one_object [OF assms(2)] unfolding empty_objs by (simp add: objs_def)
  from relink_keeps [OF assms(1) empty_ok [OF getInternHashSize_in] i r] show ?thesis
    unfolding empty_objs by (simp add: objs_def)
qed (use assms in \<open>auto simp: rebuildIntern_def\<close>)

lemma insert_keeps:
  assumes "interns f" "intern_ok ip" "chars sp \<notin> chars ` objs ip"
    "insert_string f (bucket_of (size_of ip) (chars sp)) step sp ip = Some (r, ip')"
  shows "interned sp ip r ip'"
proof -
  let ?jp = "linkString (bucket_of (size_of ip) (chars sp)) sp (ip\<lparr>count_of := int32 (count_of ip + 1)\<rparr>)"
  have k: "bucket_of (size_of ip) (chars sp) < size_of ip" using assms(2) by (simp add: intern_ok_def)
  have ok: "intern_ok ?jp" using link_ok [of "ip\<lparr>count_of := int32 (count_of ip + 1)\<rparr>" sp] assms(2,3) by simp
  have o: "objs ?jp = insert sp (objs ip)" using objs_link [of "ip\<lparr>count_of := int32 (count_of ip + 1)\<rparr>"] assms(2) k by simp
  have n: "next_address ?jp = next_address ip" by (simp add: linkString_def)
  have "r = sp \<and> (rebuildIntern f ?jp = Some ip' \<or> ip' = ?jp)"
    using assms(4) by (auto simp: insert_string_def Let_def split: if_splits)
  with rebuild_keeps [OF assms(1) ok] ok o n assms(3) show ?thesis
    by (auto simp: interned_def)
qed

lemma found_iff:
  assumes "intern_ok ip" "\<And>sp. sp \<in> objs ip \<Longrightarrow> P sp \<longleftrightarrow> chars sp = cs"
  shows "case walk P n (buckets ip ! bucket_of (size_of ip) cs) of
    Inl sp \<Rightarrow> sp \<in> objs ip \<and> chars sp = cs
  | Inr m \<Rightarrow> cs \<notin> chars ` objs ip \<and> m = n + length (buckets ip ! bucket_of (size_of ip) cs)"
proof -
  have "set (buckets ip ! bucket_of (size_of ip) cs) \<subseteq> objs ip" by (rule bucket_objs [OF assms(1)])
  with assms(2) show ?thesis
    by (auto simp: walk_find find_None_iff find_Some_iff objs_bucket [OF assms(1)] subset_iff split: option.splits)
qed

lemma found_string:
  fixes sp :: string_obj
  assumes "intern_ok ip"
  shows "case walk (\<lambda>x. sp = x \<or> equals char_val False (chars x) (chars sp)) 0 (buckets ip ! bucket_of (size_of ip) (chars sp)) of
      Inl x \<Rightarrow> x \<in> objs ip \<and> chars x = chars sp
    | Inr m \<Rightarrow> chars sp \<notin> chars ` objs ip \<and> m = 0 + length (buckets ip ! bucket_of (size_of ip) (chars sp))"
  by (rule found_iff [OF assms]) (auto simp: equals_signed)

lemma ejsInternString_interns: "interns (ejsInternString n)"
proof (induction n)
  case (Suc n)
  show ?case unfolding interns_def
  proof (intro allI impI)
    fix sp ip r ip'
    assume ok: "intern_ok ip" and e: "ejsInternString (Suc n) sp ip = Some (r, ip')"
    note w = found_string [OF ok, of sp]
    show "interned sp ip r ip'"
    proof (cases "walk (\<lambda>x. sp = x \<or> equals char_val False (chars x) (chars sp)) 0 (buckets ip ! bucket_of (size_of ip) (chars sp))")
      case (Inl x)
      with w e ok show ?thesis by (auto simp: interned_def image_iff)
    next
      case (Inr step)
      then have "insert_string (ejsInternString n) (bucket_of (size_of ip) (chars sp)) step sp ip = Some (r, ip')"
        using e by simp
      then show ?thesis by (rule insert_keeps [OF Suc ok, rotated]) (use w Inr in simp)
    qed
  qed
qed (simp add: interns_def)

text \<open>What making a string gives: one that is there already, or a new object.\<close>

definition made :: "string \<Rightarrow> intern \<Rightarrow> string_obj \<Rightarrow> intern \<Rightarrow> bool" where
  "made cs ip r ip' \<longleftrightarrow> intern_ok ip' \<and> r \<in> objs ip' \<and> chars r = cs \<and> next_address ip \<le> next_address ip'
     \<and> (objs ip' = objs ip
        \<or> objs ip' = insert \<lparr>address = next_address ip, chars = cs\<rparr> (objs ip) \<and> next_address ip < next_address ip')"

lemma intern_chars_made:
  assumes "intern_ok ip" "\<And>as. equals conv True as cs \<longleftrightarrow> as = cs" "intern_chars conv n cs ip = Some (r, ip')"
  shows "made cs ip r ip'"
proof (cases "walk (\<lambda>sp. equals conv True (chars sp) cs) 0 (buckets ip ! bucket_of (size_of ip) cs)")
  case (Inl x)
  with found_iff [OF assms(1), of "\<lambda>sp. equals conv True (chars sp) cs" cs 0] assms show ?thesis
    by (auto simp: intern_chars_def made_def)
next
  case (Inr step)
  let ?sp = "\<lparr>address = next_address ip, chars = cs\<rparr>"
  let ?jp = "ip\<lparr>next_address := next_address ip + 1\<rparr>"
  from Inr assms(3) have "insert_string (ejsInternString n) (bucket_of (size_of ?jp) (chars ?sp)) step ?sp ?jp = Some (r, ip')"
    by (simp add: intern_chars_def alloc_string_def)
  moreover have "cs \<notin> chars ` objs ip"
    using Inr found_iff [OF assms(1), of "\<lambda>sp. equals conv True (chars sp) cs" cs 0] assms(2) by simp
  ultimately have "interned ?sp ?jp r ip'" using insert_keeps [OF ejsInternString_interns, of ?jp ?sp n step] assms(1) by simp
  with \<open>cs \<notin> chars ` objs ip\<close> show ?thesis by (auto simp: interned_def made_def)
qed

lemma equals_plain: "list_all plain cs \<Longrightarrow> equals unsigned_val True as cs \<longleftrightarrow> as = cs"
proof (induction as arbitrary: cs)
  case (Cons a as)
  have "char_val a = unsigned_val b \<longleftrightarrow> a = b" if "plain b" for b
  proof -
    have "unsigned_val b = char_val b" using that by (simp add: plain_def unsigned_val_def char_val_def Let_def)
    then show ?thesis by (simp add: char_val_inject)
  qed
  with Cons show ?case by (cases cs) (auto simp: equals_all plain_def)
qed (auto simp: equals_all)

lemma equals_beyond_ascii: "\<not> list_all plain cs \<Longrightarrow> \<not> equals unsigned_val True as cs"
proof (induction as arbitrary: cs)
  case (Cons a as)
  have "char_val a \<noteq> unsigned_val b" if "\<not> plain b" "b \<noteq> CHR 0x00" for b
  proof -
    have "(of_char a :: nat) < 256" by simp
    then have "(of_char a :: int) < 256" by (metis of_nat_less_numeral_iff of_nat_of_char)
    then have "char_val a < 128" by (simp add: char_val_def Let_def)
    with that show ?thesis by (simp add: plain_def)
  qed
  with Cons show ?case by (cases cs) (auto simp: equals_all)
qed (auto simp: equals_all)

section \<open>Strings are the same object when they have the same characters\<close>

text \<open>A string is made by filling a bare string and interning it, or from characters. A string that nothing refers to is freed.\<close>

datatype maker = Bare | Asc | Wide

datatype request = Make maker string | Free string_obj

fun make_string :: "nat \<Rightarrow> maker \<Rightarrow> string \<Rightarrow> intern \<Rightarrow> (string_obj \<times> intern) option" where
  "make_string n Bare cs ip = (case alloc_string cs ip of (sp, ip) \<Rightarrow> ejsInternString n sp ip)"
| "make_string n Asc cs ip = ejsInternAsc n cs ip"
| "make_string n Wide cs ip = ejsInternWide n cs ip"

fun comparable :: "request \<Rightarrow> bool" where
  "comparable (Make Asc cs) \<longleftrightarrow> list_all plain cs"
| "comparable (Make Wide cs) \<longleftrightarrow> CHR 0x00 \<notin> set cs"
| "comparable _ \<longleftrightarrow> True"

text \<open>The strings that are held, with the characters that were asked for.\<close>

fun interning :: "nat \<Rightarrow> request list \<Rightarrow> intern \<Rightarrow> (string \<times> string_obj) list \<Rightarrow> ((string \<times> string_obj) list \<times> intern) option" where
  "interning n [] ip held = Some (held, ip)"
| "interning n (Make how cs # rs) ip held =
     (case make_string n how cs ip of None \<Rightarrow> None | Some (r, ip) \<Rightarrow> interning n rs ip ((cs, r) # held))"
| "interning n (Free sp # rs) ip held = interning n rs (freeString sp ip) (filter (\<lambda>h. snd h \<noteq> sp) held)"

definition table_ok :: "intern \<Rightarrow> bool" where
  "table_ok ip \<longleftrightarrow> intern_ok ip \<and> inj_on address (objs ip) \<and> (\<forall>sp \<in> objs ip. address sp < next_address ip)"

lemma make_string_made:
  assumes "intern_ok ip" "comparable (Make how cs)" "make_string n how cs ip = Some (r, ip')"
  shows "made cs ip r ip'"
proof (cases how)
  case Bare
  let ?sp = "\<lparr>address = next_address ip, chars = cs\<rparr>"
  let ?jp = "ip\<lparr>next_address := next_address ip + 1\<rparr>"
  have "ejsInternString n ?sp ?jp = Some (r, ip')" using assms(3) Bare by (simp add: alloc_string_def)
  with ejsInternString_interns [of n] assms(1) have "interned ?sp ?jp r ip'" by (simp add: interns_def)
  then show ?thesis by (auto simp: interned_def made_def split: if_splits)
next
  case Asc
  with assms intern_chars_made [OF assms(1), of unsigned_val cs n r ip'] show ?thesis
    by (simp add: ejsInternAsc_def equals_plain)
next
  case Wide
  with assms intern_chars_made [OF assms(1), of char_val cs n r ip'] show ?thesis
    by (simp add: ejsInternWide_def equals_wide)
qed

lemma made_table_ok:
  assumes "table_ok ip" "made cs ip r ip'"
  shows "table_ok ip' \<and> objs ip \<subseteq> objs ip'"
proof (cases "objs ip' = objs ip")
  case True
  with assms show ?thesis by (force simp: table_ok_def made_def)
next
  case False
  let ?sp = "\<lparr>address = next_address ip, chars = cs\<rparr>"
  from False assms(2) have o: "objs ip' = insert ?sp (objs ip)" and n: "next_address ip < next_address ip'" and k: "intern_ok ip'"
    by (auto simp: made_def)
  have "address sp < next_address ip" if "sp \<in> objs ip" for sp using assms(1) that by (simp add: table_ok_def)
  moreover from this n have "address sp < next_address ip'" if "sp \<in> objs ip" for sp using that by fastforce
  moreover have "inj_on address (objs ip)" using assms(1) by (simp add: table_ok_def)
  moreover have "next_address ip \<notin> address ` objs ip" using calculation(1) by fastforce
  ultimately show ?thesis using k n unfolding table_ok_def o by (auto simp: inj_on_insert)
qed

lemma free_ok: "table_ok ip \<Longrightarrow> table_ok (freeString sp ip) \<and> objs (freeString sp ip) = objs ip - {sp}"
proof -
  assume ok: "table_ok ip"
  have o: "objs (freeString sp ip) = objs ip - {sp}" by (auto simp: objs_def freeString_def unlinkString_def)
  moreover have "intern_ok (freeString sp ip)" using ok
    by (auto simp: table_ok_def intern_ok_def freeString_def unlinkString_def distinct_map_filter)
  ultimately show ?thesis using ok by (auto simp: table_ok_def freeString_def unlinkString_def inj_on_def)
qed

lemma interning_held:
  assumes "table_ok ip" "list_all comparable rs" "\<forall>(cs, x) \<in> set held. x \<in> objs ip \<and> chars x = cs"
    "interning n rs ip held = Some (held', ip')"
  shows "table_ok ip' \<and> (\<forall>(cs, x) \<in> set held'. x \<in> objs ip' \<and> chars x = cs)"
  using assms
proof (induction rs arbitrary: ip held)
  case (Cons q rs)
  show ?case
  proof (cases q)
    case (Make how cs)
    obtain r jp where m: "make_string n how cs ip = Some (r, jp)" "interning n rs jp ((cs, r) # held) = Some (held', ip')"
      using Cons.prems(4) Make by (auto split: option.splits)
    have d: "made cs ip r jp" using make_string_made [OF _ _ m(1)] Cons.prems(1,2) Make by (auto simp: table_ok_def)
    note k = made_table_ok [OF Cons.prems(1) d]
    show ?thesis
      by (rule Cons.IH [OF _ _ _ m(2)]) (use k d Cons.prems(2,3) in \<open>auto simp: made_def\<close>)
  next
    case (Free sp)
    note f = free_ok [OF Cons.prems(1), of sp]
    show ?thesis
      by (rule Cons.IH [of "freeString sp ip" "filter (\<lambda>h. snd h \<noteq> sp) held"]) (use f Free Cons.prems in auto)
  qed
qed auto

lemma created_ok: "ejsCreateIntern n = Some ip \<Longrightarrow> table_ok ip"
proof -
  assume c: "ejsCreateIntern n = Some ip"
  then have "ip = \<lparr>buckets = replicate 389 [], size_of = 389, count_of = 0, next_address = 0\<rparr>"
    by (simp add: ejsCreateIntern_def rebuildIntern_def getInternHashSize_def internHashSizes_def)
  then show ?thesis by (simp add: table_ok_def intern_ok_def objs_def table_sizes_def internHashSizes_def)
qed

text \<open>
  C31: Two strings that are held at the same time are the same object exactly when they were made from the same characters, whatever
  strings have been made and freed before and however often the table has grown. Strings made from ASCII text must have no
  characters beyond ASCII, and these and strings made from wide characters no NUL.
\<close>

theorem string_equality_is_identity:
  assumes "ejsCreateIntern m = Some ip" "list_all comparable rs" "interning n rs ip [] = Some (held, ip')"
    "(cs, x) \<in> set held" "(ds, y) \<in> set held"
  shows "chars x = cs \<and> (same_string x y \<longleftrightarrow> cs = ds)"
proof -
  have "table_ok ip' \<and> (\<forall>(cs, x) \<in> set held. x \<in> objs ip' \<and> chars x = cs)"
    by (rule interning_held [OF created_ok [OF assms(1)] assms(2) _ assms(3)]) simp
  then have "intern_ok ip'" "inj_on address (objs ip')" "x \<in> objs ip'" "y \<in> objs ip'" "chars x = cs" "chars y = ds"
    using assms(4,5) by (auto simp: table_ok_def)
  with one_object [of ip'] show ?thesis by (auto simp: same_string_def inj_on_def)
qed

lemma created: "ejsCreateIntern m = Some \<lparr>buckets = replicate 389 [], size_of = 389, count_of = 0, next_address = 0\<rparr>"
  by (simp add: ejsCreateIntern_def rebuildIntern_def getInternHashSize_def internHashSizes_def)

lemma bucket_a_b: "bucket_of 389 ''a'' = 36" "bucket_of 389 ''b'' = 183"
  by (simp_all add: bucket_of_def shash_def HASH_PRIME_def char_val_def)

lemma interning_a_b: "\<exists>ip'. interning 1 [Make Asc ''a'', Make Wide ''b'', Make Bare ''a'']
    \<lparr>buckets = replicate 389 [], size_of = 389, count_of = 0, next_address = 0\<rparr> []
    = Some ([(''a'', \<lparr>address = 0, chars = ''a''\<rparr>), (''b'', \<lparr>address = 1, chars = ''b''\<rparr>), (''a'', \<lparr>address = 0, chars = ''a''\<rparr>)], ip')"
  by (simp add: ejsInternAsc_def ejsInternWide_def intern_chars_def alloc_string_def bucket_a_b insert_string_def linkString_def
      EJS_MAX_COLLISIONS_def Let_def equals_def unsigned_val_def char_val_def)

theorem string_equality_is_identity_witness:
  "same_string \<lparr>address = 0, chars = ''a''\<rparr> \<lparr>address = 0, chars = ''a''\<rparr>
     \<and> \<not> same_string \<lparr>address = 0, chars = ''a''\<rparr> \<lparr>address = 1, chars = ''b''\<rparr>"
proof -
  obtain ip' where i: "interning 1 [Make Asc ''a'', Make Wide ''b'', Make Bare ''a'']
      \<lparr>buckets = replicate 389 [], size_of = 389, count_of = 0, next_address = 0\<rparr> []
      = Some ([(''a'', \<lparr>address = 0, chars = ''a''\<rparr>), (''b'', \<lparr>address = 1, chars = ''b''\<rparr>), (''a'', \<lparr>address = 0, chars = ''a''\<rparr>)], ip')"
    using interning_a_b by blast
  have c: "list_all comparable [Make Asc ''a'', Make Wide ''b'', Make Bare ''a'']" by (simp add: plain_def unsigned_val_def)
  note e = string_equality_is_identity [OF created [of 0] c i]
  from e [of "''a''" "\<lparr>address = 0, chars = ''a''\<rparr>" "''a''" "\<lparr>address = 0, chars = ''a''\<rparr>"]
    e [of "''a''" "\<lparr>address = 0, chars = ''a''\<rparr>" "''b''" "\<lparr>address = 1, chars = ''b''\<rparr>"] show ?thesis by simp
qed

section \<open>Interning ends\<close>

definition largest :: nat where
  "largest = 196613"

text \<open>How many sizes are left to grow to.\<close>

definition growths :: "nat \<Rightarrow> nat" where
  "growths n = length (filter (\<lambda>s. n < s) table_sizes)"

lemma growth:
  assumes "n \<in> set table_sizes" "n \<noteq> largest"
  shows "growths n = Suc (growths (getInternHashSize (n + 1)))" "\<not> getInternHashSize (n + 1) < n"
proof -
  have "n \<in> {389, 769, 1543, 3079, 6151, 12289, 24593, 49157, 98317}" using assms
    by (auto simp: table_sizes_def internHashSizes_def largest_def)
  then show "growths n = Suc (growths (getInternHashSize (n + 1)))" "\<not> getInternHashSize (n + 1) < n"
    by (auto simp: growths_def table_sizes_def internHashSizes_def getInternHashSize_def)
qed

lemma no_growth: "getInternHashSize (Suc largest) = largest"
  by (simp add: largest_def getInternHashSize_def internHashSizes_def)

text \<open>At most five of the strings share a bucket of the largest table.\<close>

definition sparse :: "string set \<Rightarrow> bool" where
  "sparse T \<longleftrightarrow> finite T \<and> (\<forall>k. card {cs \<in> T. bucket_of largest cs = k} \<le> EJS_MAX_COLLISIONS + 1)"

lemma few_sparse:
  assumes "finite T" "card T \<le> 5"
  shows "sparse T"
  unfolding sparse_def EJS_MAX_COLLISIONS_def
proof (intro conjI allI)
  fix k
  have "card {cs \<in> T. bucket_of largest cs = k} \<le> card T" by (rule card_mono) (use assms(1) in auto)
  with assms(2) show "card {cs \<in> T. bucket_of largest cs = k} \<le> 4 + 1" by simp
qed (rule assms(1))

lemma ring_card:
  assumes "intern_ok ip" "chars sp \<notin> chars ` objs ip"
  shows "Suc (length (buckets ip ! bucket_of (size_of ip) (chars sp)))
    = card {cs \<in> chars ` insert sp (objs ip). bucket_of (size_of ip) cs = bucket_of (size_of ip) (chars sp)}"
proof -
  let ?k = "bucket_of (size_of ip) (chars sp)"
  let ?ring = "buckets ip ! ?k"
  have d: "distinct (map chars ?ring)" and b: "\<forall>x \<in> set ?ring. bucket_of (size_of ip) (chars x) = ?k"
    using assms(1) by (auto simp: intern_ok_def)
  have "{cs \<in> chars ` insert sp (objs ip). bucket_of (size_of ip) cs = ?k} = insert (chars sp) (chars ` set ?ring)"
    using b bucket_objs [OF assms(1), of "chars sp"] objs_bucket [OF assms(1)] by auto
  moreover have "chars sp \<notin> chars ` set ?ring" using assms(2) bucket_objs [OF assms(1), of "chars sp"] by auto
  moreover have "card (chars ` set ?ring) = length ?ring" using distinct_card [OF d] by simp
  ultimately show ?thesis by simp
qed

definition returns :: "string set \<Rightarrow> (string_obj \<Rightarrow> intern \<Rightarrow> (string_obj \<times> intern) option) \<Rightarrow> nat \<Rightarrow> bool" where
  "returns T f n \<longleftrightarrow> (\<forall>sp ip. intern_ok ip \<longrightarrow> chars ` objs ip \<subseteq> T \<longrightarrow> chars sp \<in> T \<longrightarrow> growths (size_of ip) < n \<longrightarrow>
     (\<exists>r ip'. f sp ip = Some (r, ip') \<and> growths (size_of ip') \<le> growths (size_of ip)))"

lemma relink_returns:
  assumes "returns T f n" "interns f"
  shows "intern_ok ip \<Longrightarrow> chars ` objs ip \<subseteq> T \<Longrightarrow> chars ` set sps \<subseteq> T \<Longrightarrow> growths (size_of ip) < n \<Longrightarrow>
    \<exists>ip'. relink f sps ip = Some ip' \<and> growths (size_of ip') \<le> growths (size_of ip)"
proof (induction sps arbitrary: ip)
  case (Cons sp sps)
  have "chars sp \<in> T" using Cons.prems(3) by simp
  with assms(1) Cons.prems(1,2,4) obtain r jp where f: "f sp ip = Some (r, jp)" "growths (size_of jp) \<le> growths (size_of ip)"
    unfolding returns_def by blast
  from assms(2) f(1) Cons.prems(1) have "interned sp ip r jp" by (simp add: interns_def)
  then have "intern_ok jp" "chars ` objs jp \<subseteq> T" using Cons.prems(2,3) by (auto simp: interned_def split: if_splits)
  from Cons.IH [OF this] Cons.prems(3,4) f(2) obtain ip' where
    "relink f sps jp = Some ip'" "growths (size_of ip') \<le> growths (size_of jp)" by auto
  with f show ?case by simp
qed simp

lemma insert_returns:
  assumes "returns T f n" "interns f" "sparse T" "intern_ok ip" "chars ` objs ip \<subseteq> T" "chars sp \<in> T"
    "growths (size_of ip) \<le> n" "chars sp \<notin> chars ` objs ip"
  shows "\<exists>r ip'. insert_string f (bucket_of (size_of ip) (chars sp)) (length (buckets ip ! bucket_of (size_of ip) (chars sp))) sp ip
      = Some (r, ip') \<and> growths (size_of ip') \<le> growths (size_of ip)"
proof (cases "EJS_MAX_COLLISIONS < length (buckets ip ! bucket_of (size_of ip) (chars sp))")
  case True
  let ?jp = "linkString (bucket_of (size_of ip) (chars sp)) sp (ip\<lparr>count_of := int32 (count_of ip + 1)\<rparr>)"
  let ?n = "getInternHashSize (size_of ip + 1)"
  let ?kp = "?jp\<lparr>buckets := replicate ?n [], size_of := ?n\<rparr>"
  have s: "size_of ip \<in> set table_sizes" using assms(4) by (simp add: intern_ok_def)
  have k: "bucket_of (size_of ip) (chars sp) < size_of ip" using s by simp
  have o: "objs ?jp = insert sp (objs ip)" using objs_link [of "ip\<lparr>count_of := int32 (count_of ip + 1)\<rparr>"] assms(4) k by simp
  have "size_of ip \<noteq> largest"
  proof
    assume l: "size_of ip = largest"
    have "{cs \<in> chars ` insert sp (objs ip). bucket_of largest cs = bucket_of largest (chars sp)}
        \<subseteq> {cs \<in> T. bucket_of largest cs = bucket_of largest (chars sp)}" using assms(5,6) by auto
    then have "card {cs \<in> chars ` insert sp (objs ip). bucket_of largest cs = bucket_of largest (chars sp)}
        \<le> card {cs \<in> T. bucket_of largest cs = bucket_of largest (chars sp)}"
      using assms(3) by (intro card_mono) (auto simp: sparse_def)
    also have "\<dots> \<le> EJS_MAX_COLLISIONS + 1" using assms(3) unfolding sparse_def by blast
    finally show False using ring_card [OF assms(4,8)] True l by simp
  qed
  note g = growth [OF s this]
  have "\<exists>ip'. relink f (concat (buckets ?jp)) ?kp = Some ip' \<and> growths (size_of ip') \<le> growths (size_of ?kp)"
  proof (rule relink_returns [OF assms(1,2) empty_ok [OF getInternHashSize_in]])
    show "chars ` objs ?kp \<subseteq> T" unfolding empty_objs by simp
    show "chars ` set (concat (buckets ?jp)) \<subseteq> T" using o assms(5,6) by (simp add: objs_def)
    show "growths (size_of ?kp) < n" using g(1) assms(7) by simp
  qed
  then show ?thesis using g by (auto simp: insert_string_def rebuildIntern_def Let_def linkString_def)
next
  case False
  then show ?thesis by (simp add: insert_string_def Let_def linkString_def)
qed

lemma ejsInternString_returns: "sparse T \<Longrightarrow> returns T (ejsInternString n) n"
proof (induction n)
  case (Suc n)
  show ?case unfolding returns_def
  proof (intro allI impI)
    fix sp :: string_obj and ip :: intern
    assume a: "intern_ok ip" "chars ` objs ip \<subseteq> T" "chars sp \<in> T" "growths (size_of ip) < Suc n"
    note w = found_string [OF a(1), of sp]
    show "\<exists>r ip'. ejsInternString (Suc n) sp ip = Some (r, ip') \<and> growths (size_of ip') \<le> growths (size_of ip)"
      using insert_returns [OF Suc.IH [OF Suc.prems] ejsInternString_interns Suc.prems a(1-3)] w a(4)
      by (auto simp: Let_def split: sum.splits)
  qed
qed (simp add: returns_def)

lemma intern_chars_returns:
  assumes "sparse T" "intern_ok ip" "chars ` objs ip \<subseteq> T" "cs \<in> T" "growths (size_of ip) \<le> n"
    "\<And>as. equals conv True as cs \<longleftrightarrow> as = cs"
  shows "\<exists>r ip'. intern_chars conv n cs ip = Some (r, ip') \<and> growths (size_of ip') \<le> growths (size_of ip)"
proof -
  let ?sp = "\<lparr>address = next_address ip, chars = cs\<rparr>"
  let ?jp = "ip\<lparr>next_address := next_address ip + 1\<rparr>"
  have w: "case walk (\<lambda>sp. equals conv True (chars sp) cs) 0 (buckets ip ! bucket_of (size_of ip) cs) of
      Inl x \<Rightarrow> x \<in> objs ip \<and> chars x = cs
    | Inr m \<Rightarrow> cs \<notin> chars ` objs ip \<and> m = 0 + length (buckets ip ! bucket_of (size_of ip) cs)"
    by (rule found_iff [OF assms(2)]) (simp add: assms(6))
  show ?thesis
    using insert_returns [OF ejsInternString_returns [OF assms(1)] ejsInternString_interns assms(1), of ?jp ?sp n] assms w
    by (auto simp: intern_chars_def alloc_string_def Let_def split: sum.splits)
qed

lemma make_returns:
  assumes "sparse T" "intern_ok ip" "chars ` objs ip \<subseteq> T" "cs \<in> T" "growths (size_of ip) < n" "comparable (Make how cs)"
  shows "\<exists>r ip'. make_string n how cs ip = Some (r, ip') \<and> growths (size_of ip') \<le> growths (size_of ip)"
proof (cases how)
  case Bare
  let ?jp = "ip\<lparr>next_address := next_address ip + 1\<rparr>"
  have "returns T (ejsInternString n) n" by (rule ejsInternString_returns [OF assms(1)])
  moreover have "intern_ok ?jp" "chars ` objs ?jp \<subseteq> T" "growths (size_of ?jp) < n" using assms by simp_all
  moreover have "chars \<lparr>address = next_address ip, chars = cs\<rparr> \<in> T" using assms(4) by simp
  ultimately have "\<exists>r ip'. ejsInternString n \<lparr>address = next_address ip, chars = cs\<rparr> ?jp = Some (r, ip')
      \<and> growths (size_of ip') \<le> growths (size_of ?jp)" unfolding returns_def by blast
  with Bare show ?thesis by (simp add: alloc_string_def)
next
  case Asc
  with assms intern_chars_returns [OF assms(1-4), of n unsigned_val] show ?thesis by (simp add: ejsInternAsc_def equals_plain)
next
  case Wide
  with assms intern_chars_returns [OF assms(1-4), of n char_val] show ?thesis by (simp add: ejsInternWide_def equals_wide)
qed

fun asked :: "request list \<Rightarrow> string set" where
  "asked [] = {}"
| "asked (Make how cs # rs) = insert cs (asked rs)"
| "asked (Free sp # rs) = asked rs"

lemma interning_succeeds:
  "sparse T \<Longrightarrow> table_ok ip \<Longrightarrow> chars ` objs ip \<subseteq> T \<Longrightarrow> asked rs \<subseteq> T \<Longrightarrow> list_all comparable rs \<Longrightarrow>
     growths (size_of ip) < n \<Longrightarrow> \<exists>held' ip'. interning n rs ip held = Some (held', ip')"
proof (induction rs arbitrary: ip held)
  case (Cons q rs)
  show ?case
  proof (cases q)
    case (Make how cs)
    have ok: "intern_ok ip" using Cons.prems(2) by (simp add: table_ok_def)
    have c: "comparable (Make how cs)" "cs \<in> T" using Cons.prems(4,5) Make by auto
    obtain r jp where m: "make_string n how cs ip = Some (r, jp)" "growths (size_of jp) \<le> growths (size_of ip)"
      using make_returns [OF Cons.prems(1) ok Cons.prems(3) c(2) Cons.prems(6) c(1)] by blast
    have d: "made cs ip r jp" by (rule make_string_made [OF ok c(1) m(1)])
    have "table_ok jp" using made_table_ok [OF Cons.prems(2) d] by simp
    moreover have "chars ` objs jp \<subseteq> T"
    proof -
      have "objs jp = objs ip \<or> objs jp = insert \<lparr>address = next_address ip, chars = cs\<rparr> (objs ip)"
        using d unfolding made_def by blast
      then show ?thesis by (elim disjE) (use Cons.prems(3) c(2) in simp_all)
    qed
    ultimately show ?thesis using Cons.IH [of jp "(cs, r) # held"] Cons.prems m Make by simp
  next
    case (Free sp)
    have "size_of (freeString sp ip) = size_of ip" by (simp add: freeString_def unlinkString_def)
    moreover have "chars ` objs (freeString sp ip) \<subseteq> T" using free_ok [OF Cons.prems(2), of sp] Cons.prems(3) by auto
    ultimately show ?thesis using Cons.IH [of "freeString sp ip"] free_ok [OF Cons.prems(2), of sp] Cons.prems Free by simp
  qed
qed simp

text \<open>
  C32: Interning ends: when at most five of the strings that are made share a bucket of the largest table, ten levels of calls between
  interning and rebuilding are enough for any sequence of strings made and freed, where strings made from ASCII text have no
  characters beyond ASCII, and these and strings made from wide characters no NUL.
\<close>

theorem interning_ends:
  assumes "sparse (asked rs)" "list_all comparable rs"
  shows "\<exists>ip held ip'. ejsCreateIntern 10 = Some ip \<and> interning 10 rs ip [] = Some (held, ip')"
proof -
  have "growths 389 < 10" by (simp add: growths_def table_sizes_def internHashSizes_def)
  with interning_succeeds [OF assms(1) created_ok [OF created [of 10]], of rs 10 "[]"] assms(2) created [of 10]
  show ?thesis by (auto simp: objs_def)
qed

theorem interning_ends_witness:
  "\<exists>ip held ip'. ejsCreateIntern 10 = Some ip
     \<and> interning 10 [Make Asc ''name'', Make Wide ''length'', Make Bare ''name'', Free \<lparr>address = 1, chars = ''length''\<rparr>, Make Wide ''length''] ip []
        = Some (held, ip')"
proof (rule interning_ends)
  show "sparse (asked [Make Asc ''name'', Make Wide ''length'', Make Bare ''name'', Free \<lparr>address = 1, chars = ''length''\<rparr>, Make Wide ''length''])"
    by (rule few_sparse) (simp_all add: card_insert_if)
qed (simp add: plain_def unsigned_val_def)

section \<open>Six strings in a bucket of the largest table\<close>

lemma int32_count: "0 \<le> c \<Longrightarrow> c < 2 ^ 31 - 1 \<Longrightarrow> int32 (c + 1) = c + 1"
  by (simp add: is_int_def)

lemma find_ring:
  assumes "intern_ok ip" "chars sp \<notin> chars ` objs ip"
  shows "ejsInternString (Suc n) sp ip = insert_string (ejsInternString n) (bucket_of (size_of ip) (chars sp))
    (length (buckets ip ! bucket_of (size_of ip) (chars sp))) sp ip"
proof -
  have "walk (\<lambda>x. sp = x \<or> equals char_val False (chars x) (chars sp)) 0 (buckets ip ! bucket_of (size_of ip) (chars sp))
      = Inr (length (buckets ip ! bucket_of (size_of ip) (chars sp)))"
    using found_string [OF assms(1), of sp] assms(2) by (auto simp: image_iff split: sum.splits)
  then show ?thesis by (simp add: Let_def)
qed

text \<open>
  The states in which interning a string makes the largest table be rebuilt. The counter must not come to overflow within the
  given number of levels.
\<close>

definition stuck :: "nat \<Rightarrow> nat \<Rightarrow> string_obj \<Rightarrow> intern \<Rightarrow> bool" where
  "stuck N n sp ip \<longleftrightarrow> intern_ok ip \<and> size_of ip = largest \<and> chars sp \<notin> chars ` objs ip
     \<and> EJS_MAX_COLLISIONS < length (buckets ip ! bucket_of largest (chars sp))
     \<and> card (objs ip) < N \<and> int (largest div 2) \<le> count_of ip \<and> count_of ip + int n * int N < 2 ^ 31"

lemma relink_stuck:
  assumes IH: "\<And>sp ip. stuck N n sp ip \<Longrightarrow> ejsInternString n sp ip = None"
    and U: "finite U" "card U \<le> N" "inj_on chars U" "EJS_MAX_COLLISIONS + 1 < card {x \<in> U. bucket_of largest (chars x) = k}"
    and c0: "int (largest div 2) \<le> c" "c + int N + int n * int N \<le> 2 ^ 31"
  shows "intern_ok ip \<Longrightarrow> size_of ip = largest \<Longrightarrow> objs ip \<union> set sps = U \<Longrightarrow> count_of ip = c + int (card (objs ip)) \<Longrightarrow>
    k < largest \<Longrightarrow> (\<forall>i < largest. length (buckets ip ! i) \<le> EJS_MAX_COLLISIONS + 1) \<Longrightarrow> relink (ejsInternString n) sps ip = None"
proof (induction sps arbitrary: ip)
  case Nil
  have "{x \<in> U. bucket_of largest (chars x) = k} \<subseteq> set (buckets ip ! k)" using Nil.prems(1,2,3) objs_bucket [of ip] by auto
  then have "card {x \<in> U. bucket_of largest (chars x) = k} \<le> length (buckets ip ! k)"
    using card_length [of "buckets ip ! k"] card_mono [of "set (buckets ip ! k)"] by (meson List.finite_set le_trans)
  with U(4) Nil.prems(5,6) show ?case by fastforce
next
  case (Cons s sps)
  show ?case
  proof (cases "chars s \<in> chars ` objs ip")
    case True
    then have "s \<in> objs ip" using Cons.prems(3) U(3) by (auto simp: inj_on_def)
    then have u: "objs ip \<union> set sps = U" using Cons.prems(3) by auto
    show ?thesis
    proof (cases n)
      case (Suc m)
      note found_string [OF Cons.prems(1), of s]
      with True obtain x where "ejsInternString n s ip = Some (x, ip)" using Suc by (auto simp: Let_def split: sum.splits)
      with Cons.IH [OF Cons.prems(1,2) u Cons.prems(4-6)] show ?thesis by simp
    qed simp
  next
    case False
    let ?i = "bucket_of largest (chars s)"
    have fin: "finite (objs ip)" using U(1) Cons.prems(3) by (metis finite_Un)
    have "s \<notin> objs ip" using False by auto
    then have "card (insert s (objs ip)) = card (objs ip) + 1" using fin by simp
    moreover have "card (insert s (objs ip)) \<le> card U" using Cons.prems(3) U(1) by (intro card_mono) auto
    ultimately have lt: "card (objs ip) < N" "card (insert s (objs ip)) = card (objs ip) + 1" using U(2) by simp_all
    have cnt: "int (largest div 2) \<le> count_of ip" "count_of ip + int n * int N < 2 ^ 31" using c0 lt Cons.prems(4) by linarith+
    show ?thesis
    proof (cases "EJS_MAX_COLLISIONS < length (buckets ip ! ?i)")
      case True
      have "stuck N n s ip" using Cons.prems(1,2) False True lt cnt by (simp add: stuck_def)
      from IH [OF this] show ?thesis by simp
    next
      case short: False
      show ?thesis
      proof (cases n)
        case (Suc m)
        let ?jp = "linkString ?i s (ip\<lparr>count_of := count_of ip + 1\<rparr>)"
        have "0 \<le> count_of ip" using cnt(1) by (simp add: largest_def)
        moreover have "count_of ip < 2 ^ 31 - 1"
        proof -
          have "1 * 1 \<le> int n * int N" using Suc lt(1) by (intro mult_mono) auto
          with cnt(2) show ?thesis by simp
        qed
        ultimately have i: "int32 (count_of ip + 1) = count_of ip + 1" by (rule int32_count)
        have e: "ejsInternString n s ip = Some (s, ?jp)"
          using short Cons.prems(2) unfolding Suc find_ring [OF Cons.prems(1) False]
          by (simp add: insert_string_def Let_def i)
        have k: "?i < largest" using Cons.prems(1,2) by (metis intern_ok_def bucket_less)
        have ok: "intern_ok ?jp" using link_ok [of "ip\<lparr>count_of := count_of ip + 1\<rparr>" s] Cons.prems(1,2) False by simp
        have o: "objs ?jp = insert s (objs ip)" using objs_link [of "ip\<lparr>count_of := count_of ip + 1\<rparr>" ?i s] Cons.prems(1,2) k by simp
        have "relink (ejsInternString n) sps ?jp = None"
        proof (rule Cons.IH [OF ok])
          show "size_of ?jp = largest" using Cons.prems(2) by (simp add: linkString_def)
          show "objs ?jp \<union> set sps = U" using o Cons.prems(3) by auto
          show "count_of ?jp = c + int (card (objs ?jp))" unfolding o lt(2) using Cons.prems(4) by (simp add: linkString_def)
          show "k < largest" by (rule Cons.prems(5))
          show "\<forall>i < largest. length (buckets ?jp ! i) \<le> EJS_MAX_COLLISIONS + 1"
          proof (intro allI impI)
            fix j
            assume "j < largest"
            moreover have "length (buckets ip) = largest" using Cons.prems(1,2) by (simp add: intern_ok_def)
            ultimately show "length (buckets ?jp ! j) \<le> EJS_MAX_COLLISIONS + 1" using Cons.prems(6) short
              by (cases "j = ?i") (simp_all add: linkString_def)
          qed
        qed
        with e show ?thesis by simp
      qed simp
    qed
  qed
qed

lemma stuck_for_ever: "stuck N n sp ip \<Longrightarrow> ejsInternString n sp ip = None"
proof (induction n arbitrary: sp ip)
  case (Suc n)
  let ?k = "bucket_of largest (chars sp)"
  let ?jp = "linkString ?k sp (ip\<lparr>count_of := count_of ip + 1\<rparr>)"
  let ?kp = "?jp\<lparr>buckets := replicate largest [], size_of := largest\<rparr>"
  from Suc.prems have s: "intern_ok ip" "size_of ip = largest" "chars sp \<notin> chars ` objs ip"
      "EJS_MAX_COLLISIONS < length (buckets ip ! ?k)" "card (objs ip) < N" "int (largest div 2) \<le> count_of ip"
      "count_of ip + int (Suc n) * int N < 2 ^ 31" by (simp_all add: stuck_def)
  have l: "largest \<in> set table_sizes" using s(1,2) by (simp add: intern_ok_def)
  have c: "count_of ip + int N + int n * int N < 2 ^ 31" using s(7) by (simp add: algebra_simps)
  have "0 \<le> count_of ip" using s(6) by (simp add: largest_def)
  moreover have "count_of ip < 2 ^ 31 - 1"
  proof -
    have "0 \<le> int n * int N" by simp
    with c s(5) show ?thesis by linarith
  qed
  ultimately have i: "int32 (count_of ip + 1) = count_of ip + 1" by (rule int32_count)
  have k: "?k < largest" using l by simp
  have o: "objs ?jp = insert sp (objs ip)" using objs_link [of "ip\<lparr>count_of := count_of ip + 1\<rparr>" ?k sp] s(1,2) k by simp
  have fin: "finite (objs ip)" by (simp add: objs_def)
  have n: "sp \<notin> objs ip" using s(3) by auto
  have "relink (ejsInternString n) (concat (buckets ?jp)) ?kp = None"
  proof (rule relink_stuck [where U = "insert sp (objs ip)" and N = N and c = "count_of ip + 1" and k = ?k])
    show "\<And>sp ip. stuck N n sp ip \<Longrightarrow> ejsInternString n sp ip = None" by (rule Suc.IH)
    show "finite (insert sp (objs ip))" using fin by simp
    show "card (insert sp (objs ip)) \<le> N" using fin n s(5) by simp
    show inj: "inj_on chars (insert sp (objs ip))" using one_object [OF s(1)] s(3) n by simp
    have "card {cs \<in> chars ` insert sp (objs ip). bucket_of largest cs = ?k}
        = card (chars ` {x \<in> insert sp (objs ip). bucket_of largest (chars x) = ?k})" by (intro arg_cong [where f = card]) auto
    also have "\<dots> = card {x \<in> insert sp (objs ip). bucket_of largest (chars x) = ?k}"
      by (intro card_image inj_on_subset [OF inj]) auto
    finally show "EJS_MAX_COLLISIONS + 1 < card {x \<in> insert sp (objs ip). bucket_of largest (chars x) = ?k}"
      using ring_card [OF s(1,3)] s(2,4) by simp
    show "int (largest div 2) \<le> count_of ip + 1" using s(6) by simp
    show "count_of ip + 1 + int N + int n * int N \<le> 2 ^ 31" using c by simp
    show "intern_ok ?kp" by (rule empty_ok [OF l])
    show "size_of ?kp = largest" by simp
    show "objs ?kp \<union> set (concat (buckets ?jp)) = insert sp (objs ip)" unfolding empty_objs using o by (simp add: objs_def)
    show "count_of ?kp = count_of ip + 1 + int (card (objs ?kp))" unfolding empty_objs by (simp add: linkString_def)
    show "?k < largest" by (rule k)
    show "\<forall>i < largest. length (buckets ?kp ! i) \<le> EJS_MAX_COLLISIONS + 1" by simp
  qed
  moreover have "EJS_MAX_COLLISIONS < length (buckets ip ! ?k)" "int (largest div 2) < count_of ip + 1" using s(4,6) by simp_all
  ultimately show ?case unfolding find_ring [OF s(1,3)] using s(2) no_growth
    by (simp add: insert_string_def rebuildIntern_def Let_def i linkString_def)
qed simp

text \<open>
  C33: In a table of the largest size that is counted as more than half full, a sixth string in a bucket never returns: the table
  is rebuilt, the six strings meet in a bucket again and have it rebuilt again, in a recursion that goes on at least until the
  counter overflows.
\<close>

theorem full_table_recurses_for_ever:
  assumes "intern_ok ip" "size_of ip = largest" "chars str \<notin> chars ` objs ip"
    "EJS_MAX_COLLISIONS < length (buckets ip ! bucket_of largest (chars str))" "int (largest div 2) \<le> count_of ip"
    "count_of ip + int levels * int (card (objs ip) + 1) < 2 ^ 31"
  shows "ejsInternString levels str ip = None"
  by (rule stuck_for_ever [of "card (objs ip) + 1"]) (use assms in \<open>simp add: stuck_def\<close>)

definition full_table :: intern where
  "full_table = \<lparr>buckets = (replicate largest [])[184178 :=
     [\<lparr>address = 0, chars = ''dbh''\<rparr>, \<lparr>address = 1, chars = ''aggn''\<rparr>, \<lparr>address = 2, chars = ''axki''\<rparr>,
      \<lparr>address = 3, chars = ''cuqb''\<rparr>, \<lparr>address = 4, chars = ''eljq''\<rparr>]],
     size_of = largest, count_of = 100000, next_address = 5\<rparr>"

lemma colliding: "bucket_of largest ''dbh'' = 184178" "bucket_of largest ''aggn'' = 184178" "bucket_of largest ''axki'' = 184178"
  "bucket_of largest ''cuqb'' = 184178" "bucket_of largest ''eljq'' = 184178" "bucket_of largest ''fgqt'' = 184178"
  by (simp_all add: bucket_of_def shash_def HASH_PRIME_def char_val_def largest_def)

lemma objs_full: "objs full_table = {\<lparr>address = 0, chars = ''dbh''\<rparr>, \<lparr>address = 1, chars = ''aggn''\<rparr>, \<lparr>address = 2, chars = ''axki''\<rparr>,
      \<lparr>address = 3, chars = ''cuqb''\<rparr>, \<lparr>address = 4, chars = ''eljq''\<rparr>}"
  unfolding set_eq_iff objs_def set_concat_nth by (auto simp: full_table_def nth_list_update largest_def)

theorem full_table_recurses_for_ever_witness:
  "ejsInternString 1000000 \<lparr>address = 5, chars = ''fgqt''\<rparr> full_table = None"
proof (rule full_table_recurses_for_ever)
  show "intern_ok full_table"
    unfolding intern_ok_def
  proof (intro conjI allI impI)
    show "size_of full_table \<in> set table_sizes" by (simp add: full_table_def largest_def table_sizes_def internHashSizes_def)
    show "length (buckets full_table) = size_of full_table" by (simp add: full_table_def)
    fix k
    assume "k < size_of full_table"
    then have b: "buckets full_table ! k = (if k = 184178 then buckets full_table ! 184178 else [])" by (simp add: full_table_def)
    have r: "buckets full_table ! 184178 = [\<lparr>address = 0, chars = ''dbh''\<rparr>, \<lparr>address = 1, chars = ''aggn''\<rparr>,
        \<lparr>address = 2, chars = ''axki''\<rparr>, \<lparr>address = 3, chars = ''cuqb''\<rparr>, \<lparr>address = 4, chars = ''eljq''\<rparr>]"
      by (simp add: full_table_def largest_def)
    show "distinct (map chars (buckets full_table ! k))" "\<forall>sp \<in> set (buckets full_table ! k). bucket_of (size_of full_table) (chars sp) = k"
      unfolding b r by (auto simp: colliding full_table_def)
  qed
  show "size_of full_table = largest" by (simp add: full_table_def)
  show "chars \<lparr>address = 5, chars = ''fgqt''\<rparr> \<notin> chars ` objs full_table" by (simp add: objs_full)
  show "EJS_MAX_COLLISIONS < length (buckets full_table ! bucket_of largest (chars \<lparr>address = 5, chars = ''fgqt''\<rparr>))"
    by (simp add: colliding) (simp add: full_table_def EJS_MAX_COLLISIONS_def largest_def)
  show "int (largest div 2) \<le> count_of full_table" by (simp add: full_table_def largest_def)
  show "count_of full_table + int 1000000 * int (card (objs full_table) + 1) < 2 ^ 31"
    by (simp add: objs_full) (simp add: full_table_def)
qed

section \<open>Characters beyond ASCII\<close>

definition keeps_address :: "(string_obj \<Rightarrow> intern \<Rightarrow> (string_obj \<times> intern) option) \<Rightarrow> bool" where
  "keeps_address f \<longleftrightarrow> (\<forall>sp ip r ip'. f sp ip = Some (r, ip') \<longrightarrow> next_address ip' = next_address ip)"

lemma relink_address: "keeps_address f \<Longrightarrow> relink f sps ip = Some ip' \<Longrightarrow> next_address ip' = next_address ip"
proof (induction sps arbitrary: ip)
  case (Cons sp sps)
  from Cons.prems(2) obtain r jp where f: "f sp ip = Some (r, jp)" "relink f sps jp = Some ip'"
    by (auto split: option.splits)
  with Cons.IH [OF Cons.prems(1) f(2)] Cons.prems(1) show ?case by (simp add: keeps_address_def)
qed simp

lemma insert_address:
  assumes "keeps_address f" "insert_string f k step sp ip = Some (r, ip')"
  shows "r = sp \<and> next_address ip' = next_address ip"
proof -
  have "next_address jp' = next_address jp" if "rebuildIntern f jp = Some jp'" for jp jp'
    using that relink_address [OF assms(1)] by (fastforce simp: rebuildIntern_def Let_def split: if_splits)
  with assms(2) show ?thesis by (fastforce simp: insert_string_def Let_def linkString_def split: if_splits)
qed

lemma ejsInternString_address: "keeps_address (ejsInternString n)"
proof (induction n)
  case (Suc n)
  have "next_address ip' = next_address ip" if "ejsInternString (Suc n) sp ip = Some (r, ip')" for sp ip r ip'
    using that insert_address [OF Suc] by (auto simp: Let_def split: sum.splits)
  then show ?case unfolding keeps_address_def by blast
qed (simp add: keeps_address_def)

text \<open>
  A string made from ASCII text with a character beyond ASCII, or with a NUL, is never found again: it is made anew each time, and
  equal strings are not the same object.
\<close>

lemma text_beyond_ascii_is_not_shared:
  assumes "\<not> list_all plain cs" "ejsInternAsc n cs ip = Some (r, ip')"
  shows "r = \<lparr>address = next_address ip, chars = cs\<rparr> \<and> next_address ip' = next_address ip + 1"
proof -
  have "walk (\<lambda>sp. equals unsigned_val True (chars sp) cs) 0 ring = Inr (length ring)" for ring
    using equals_beyond_ascii [OF assms(1)] by (auto simp: walk_find find_Some_iff split: option.splits)
  then obtain k step where "insert_string (ejsInternString n) k step \<lparr>address = next_address ip, chars = cs\<rparr>
      (ip\<lparr>next_address := next_address ip + 1\<rparr>) = Some (r, ip')"
    using assms(2) by (auto simp: ejsInternAsc_def intern_chars_def alloc_string_def Let_def)
  from insert_address [OF ejsInternString_address this] show ?thesis by simp
qed

lemma equal_texts_differ:
  assumes "\<not> list_all plain cs" "ejsInternAsc n cs ip = Some (x, jp)" "ejsInternAsc m cs jp = Some (y, kp)"
  shows "chars x = chars y \<and> \<not> same_string x y"
  using text_beyond_ascii_is_not_shared [OF assms(1,2)] text_beyond_ascii_is_not_shared [OF assms(1,3)]
  by (simp add: same_string_def)

end
