(* ===== verification/Tokens.thy ===== *)
theory Tokens
  imports Prelude
begin

text \<open>
  The numbers of the tokens and the masks of token groups (\<open>src/src/ejsCompiler.h\<close>) that the lexical analyser gives, and the table
  of reserved words (\<open>src/src/compiler/ecLex.c\<close>).
\<close>

named_theorems token_ids

definition T_ASSIGN :: int where [token_ids]: "T_ASSIGN = 1"
definition T_AT :: int where [token_ids]: "T_AT = 2"
definition T_ATTRIBUTE :: int where [token_ids]: "T_ATTRIBUTE = 3"
definition T_BIT_AND :: int where [token_ids]: "T_BIT_AND = 4"
definition T_BIT_AND_ASSIGN :: int where [token_ids]: "T_BIT_AND_ASSIGN = 5"
definition T_BIT_OR :: int where [token_ids]: "T_BIT_OR = 6"
definition T_BIT_OR_ASSIGN :: int where [token_ids]: "T_BIT_OR_ASSIGN = 7"
definition T_BIT_XOR :: int where [token_ids]: "T_BIT_XOR = 8"
definition T_BIT_XOR_ASSIGN :: int where [token_ids]: "T_BIT_XOR_ASSIGN = 9"
definition T_BREAK :: int where [token_ids]: "T_BREAK = 10"
definition T_CASE :: int where [token_ids]: "T_CASE = 13"
definition T_CAST :: int where [token_ids]: "T_CAST = 14"
definition T_CATCH :: int where [token_ids]: "T_CATCH = 15"
definition T_CLASS :: int where [token_ids]: "T_CLASS = 18"
definition T_COLON :: int where [token_ids]: "T_COLON = 19"
definition T_COLON_COLON :: int where [token_ids]: "T_COLON_COLON = 20"
definition T_COMMA :: int where [token_ids]: "T_COMMA = 21"
definition T_CONST :: int where [token_ids]: "T_CONST = 22"
definition T_CONTINUE :: int where [token_ids]: "T_CONTINUE = 24"
definition T_DEFAULT :: int where [token_ids]: "T_DEFAULT = 27"
definition T_DELETE :: int where [token_ids]: "T_DELETE = 28"
definition T_DIV :: int where [token_ids]: "T_DIV = 29"
definition T_DIV_ASSIGN :: int where [token_ids]: "T_DIV_ASSIGN = 30"
definition T_DO :: int where [token_ids]: "T_DO = 31"
definition T_DOT :: int where [token_ids]: "T_DOT = 32"
definition T_DOT_DOT :: int where [token_ids]: "T_DOT_DOT = 33"
definition T_DYNAMIC :: int where [token_ids]: "T_DYNAMIC = 36"
definition T_EACH :: int where [token_ids]: "T_EACH = 37"
definition T_ELIPSIS :: int where [token_ids]: "T_ELIPSIS = 38"
definition T_ELSE :: int where [token_ids]: "T_ELSE = 39"
definition T_ENUMERABLE :: int where [token_ids]: "T_ENUMERABLE = 40"
definition T_EOF :: int where [token_ids]: "T_EOF = 41"
definition T_EQ :: int where [token_ids]: "T_EQ = 42"
definition T_ERR :: int where [token_ids]: "T_ERR = 43"
definition T_EXTENDS :: int where [token_ids]: "T_EXTENDS = 44"
definition T_FALSE :: int where [token_ids]: "T_FALSE = 45"
definition T_FINAL :: int where [token_ids]: "T_FINAL = 46"
definition T_FINALLY :: int where [token_ids]: "T_FINALLY = 47"
definition T_FOR :: int where [token_ids]: "T_FOR = 49"
definition T_FUNCTION :: int where [token_ids]: "T_FUNCTION = 50"
definition T_GE :: int where [token_ids]: "T_GE = 51"
definition T_GET :: int where [token_ids]: "T_GET = 53"
definition T_GOTO :: int where [token_ids]: "T_GOTO = 54"
definition T_GT :: int where [token_ids]: "T_GT = 55"
definition T_HASH :: int where [token_ids]: "T_HASH = 57"
definition T_ID :: int where [token_ids]: "T_ID = 58"
definition T_IF :: int where [token_ids]: "T_IF = 59"
definition T_IMPLEMENTS :: int where [token_ids]: "T_IMPLEMENTS = 60"
definition T_IN :: int where [token_ids]: "T_IN = 61"
definition T_INSTANCEOF :: int where [token_ids]: "T_INSTANCEOF = 64"
definition T_INTERFACE :: int where [token_ids]: "T_INTERFACE = 66"
definition T_INTERNAL :: int where [token_ids]: "T_INTERNAL = 67"
definition T_INTRINSIC :: int where [token_ids]: "T_INTRINSIC = 68"
definition T_IS :: int where [token_ids]: "T_IS = 69"
definition T_LBRACE :: int where [token_ids]: "T_LBRACE = 70"
definition T_LBRACKET :: int where [token_ids]: "T_LBRACKET = 71"
definition T_LE :: int where [token_ids]: "T_LE = 72"
definition T_LET :: int where [token_ids]: "T_LET = 73"
definition T_LOGICAL_AND :: int where [token_ids]: "T_LOGICAL_AND = 74"
definition T_LOGICAL_AND_ASSIGN :: int where [token_ids]: "T_LOGICAL_AND_ASSIGN = 75"
definition T_LOGICAL_NOT :: int where [token_ids]: "T_LOGICAL_NOT = 76"
definition T_LOGICAL_OR :: int where [token_ids]: "T_LOGICAL_OR = 77"
definition T_LOGICAL_OR_ASSIGN :: int where [token_ids]: "T_LOGICAL_OR_ASSIGN = 78"
definition T_LOGICAL_XOR :: int where [token_ids]: "T_LOGICAL_XOR = 79"
definition T_LOGICAL_XOR_ASSIGN :: int where [token_ids]: "T_LOGICAL_XOR_ASSIGN = 80"
definition T_LPAREN :: int where [token_ids]: "T_LPAREN = 81"
definition T_LSH :: int where [token_ids]: "T_LSH = 82"
definition T_LSH_ASSIGN :: int where [token_ids]: "T_LSH_ASSIGN = 83"
definition T_LT :: int where [token_ids]: "T_LT = 84"
definition T_LT_SLASH :: int where [token_ids]: "T_LT_SLASH = 85"
definition T_MINUS :: int where [token_ids]: "T_MINUS = 86"
definition T_MINUS_ASSIGN :: int where [token_ids]: "T_MINUS_ASSIGN = 87"
definition T_MINUS_MINUS :: int where [token_ids]: "T_MINUS_MINUS = 88"
definition T_MODULE :: int where [token_ids]: "T_MODULE = 89"
definition T_MOD :: int where [token_ids]: "T_MOD = 90"
definition T_MOD_ASSIGN :: int where [token_ids]: "T_MOD_ASSIGN = 91"
definition T_MUL :: int where [token_ids]: "T_MUL = 92"
definition T_MUL_ASSIGN :: int where [token_ids]: "T_MUL_ASSIGN = 93"
definition T_NAMESPACE :: int where [token_ids]: "T_NAMESPACE = 94"
definition T_NATIVE :: int where [token_ids]: "T_NATIVE = 95"
definition T_NE :: int where [token_ids]: "T_NE = 96"
definition T_NEW :: int where [token_ids]: "T_NEW = 97"
definition T_NOP :: int where [token_ids]: "T_NOP = 98"
definition T_NULL :: int where [token_ids]: "T_NULL = 99"
definition T_NUMBER :: int where [token_ids]: "T_NUMBER = 100"
definition T_OVERRIDE :: int where [token_ids]: "T_OVERRIDE = 102"
definition T_PLUS :: int where [token_ids]: "T_PLUS = 103"
definition T_PLUS_ASSIGN :: int where [token_ids]: "T_PLUS_ASSIGN = 104"
definition T_PLUS_PLUS :: int where [token_ids]: "T_PLUS_PLUS = 105"
definition T_PRIVATE :: int where [token_ids]: "T_PRIVATE = 106"
definition T_PROTECTED :: int where [token_ids]: "T_PROTECTED = 107"
definition T_PUBLIC :: int where [token_ids]: "T_PUBLIC = 109"
definition T_QUERY :: int where [token_ids]: "T_QUERY = 110"
definition T_RBRACE :: int where [token_ids]: "T_RBRACE = 111"
definition T_RBRACKET :: int where [token_ids]: "T_RBRACKET = 112"
definition T_REGEXP :: int where [token_ids]: "T_REGEXP = 113"
definition T_REQUIRE :: int where [token_ids]: "T_REQUIRE = 114"
definition T_RESERVED_NAMESPACE :: int where [token_ids]: "T_RESERVED_NAMESPACE = 115"
definition T_RETURN :: int where [token_ids]: "T_RETURN = 116"
definition T_RPAREN :: int where [token_ids]: "T_RPAREN = 117"
definition T_RSH :: int where [token_ids]: "T_RSH = 118"
definition T_RSH_ASSIGN :: int where [token_ids]: "T_RSH_ASSIGN = 119"
definition T_RSH_ZERO :: int where [token_ids]: "T_RSH_ZERO = 120"
definition T_RSH_ZERO_ASSIGN :: int where [token_ids]: "T_RSH_ZERO_ASSIGN = 121"
definition T_SEMICOLON :: int where [token_ids]: "T_SEMICOLON = 122"
definition T_SET :: int where [token_ids]: "T_SET = 123"
definition T_SLASH_GT :: int where [token_ids]: "T_SLASH_GT = 124"
definition T_STANDARD :: int where [token_ids]: "T_STANDARD = 125"
definition T_STATIC :: int where [token_ids]: "T_STATIC = 126"
definition T_STRICT :: int where [token_ids]: "T_STRICT = 127"
definition T_STRICT_EQ :: int where [token_ids]: "T_STRICT_EQ = 128"
definition T_STRICT_NE :: int where [token_ids]: "T_STRICT_NE = 129"
definition T_STRING :: int where [token_ids]: "T_STRING = 130"
definition T_SUPER :: int where [token_ids]: "T_SUPER = 131"
definition T_SWITCH :: int where [token_ids]: "T_SWITCH = 132"
definition T_THIS :: int where [token_ids]: "T_THIS = 133"
definition T_THROW :: int where [token_ids]: "T_THROW = 134"
definition T_TILDE :: int where [token_ids]: "T_TILDE = 135"
definition T_TRUE :: int where [token_ids]: "T_TRUE = 137"
definition T_TRY :: int where [token_ids]: "T_TRY = 138"
definition T_TYPE :: int where [token_ids]: "T_TYPE = 139"
definition T_TYPEOF :: int where [token_ids]: "T_TYPEOF = 140"
definition T_UNDEFINED :: int where [token_ids]: "T_UNDEFINED = 142"
definition T_USE :: int where [token_ids]: "T_USE = 143"
definition T_VAR :: int where [token_ids]: "T_VAR = 144"
definition T_VOID :: int where [token_ids]: "T_VOID = 145"
definition T_WHILE :: int where [token_ids]: "T_WHILE = 146"
definition T_WITH :: int where [token_ids]: "T_WITH = 147"

definition G_RESERVED :: int where [token_ids]: "G_RESERVED = 1"
definition G_CONREV :: int where [token_ids]: "G_CONREV = 2"
definition G_COMPOUND_ASSIGN :: int where [token_ids]: "G_COMPOUND_ASSIGN = 4"
definition G_OPERATOR :: int where [token_ids]: "G_OPERATOR = 8"

record ReservedWord =
  word_name :: string
  word_group :: int
  word_token :: int
  word_sub :: int

definition reserved_words :: "ReservedWord list" where
  "reserved_words = map (\<lambda>(n, g, t, s). \<lparr>word_name = n, word_group = g, word_token = t, word_sub = s\<rparr>)
    [(''break'', G_RESERVED, T_BREAK, 0),
     (''case'', G_RESERVED, T_CASE, 0),
     (''cast'', G_CONREV, T_CAST, 0),
     (''catch'', G_RESERVED, T_CATCH, 0),
     (''class'', G_RESERVED, T_CLASS, 0),
     (''const'', G_CONREV, T_CONST, 0),
     (''continue'', G_RESERVED, T_CONTINUE, 0),
     (''default'', G_CONREV, T_DEFAULT, 0),
     (''delete'', G_RESERVED, T_DELETE, 0),
     (''do'', G_RESERVED, T_DO, 0),
     (''dynamic'', G_CONREV, T_ATTRIBUTE, T_DYNAMIC),
     (''each'', G_CONREV, T_EACH, 0),
     (''else'', G_RESERVED, T_ELSE, 0),
     (''enumerable'', G_CONREV, T_ATTRIBUTE, T_ENUMERABLE),
     (''extends'', G_RESERVED, T_EXTENDS, 0),
     (''false'', G_RESERVED, T_FALSE, 0),
     (''final'', G_CONREV, T_ATTRIBUTE, T_FINAL),
     (''finally'', G_RESERVED, T_FINALLY, 0),
     (''for'', G_RESERVED, T_FOR, 0),
     (''function'', G_RESERVED, T_FUNCTION, 0),
     (''get'', G_CONREV, T_GET, 0),
     (''goto'', G_CONREV, T_GOTO, 0),
     (''if'', G_RESERVED, T_IF, 0),
     (''implements'', G_CONREV, T_IMPLEMENTS, 0),
     (''in'', G_RESERVED, T_IN, 0),
     (''instanceof'', G_RESERVED, T_INSTANCEOF, 0),
     (''interface'', G_CONREV, T_INTERFACE, 0),
     (''internal'', G_CONREV, T_RESERVED_NAMESPACE, T_INTERNAL),
     (''intrinsic'', G_CONREV, T_RESERVED_NAMESPACE, T_INTRINSIC),
     (''is'', G_CONREV, T_IS, 0),
     (''let'', G_CONREV, T_LET, 0),
     (''module'', G_CONREV, T_MODULE, 0),
     (''namespace'', G_CONREV, T_NAMESPACE, 0),
     (''native'', G_CONREV, T_ATTRIBUTE, T_NATIVE),
     (''new'', G_RESERVED, T_NEW, 0),
     (''null'', G_RESERVED, T_NULL, 0),
     (''override'', G_CONREV, T_ATTRIBUTE, T_OVERRIDE),
     (''private'', G_CONREV, T_RESERVED_NAMESPACE, T_PRIVATE),
     (''protected'', G_CONREV, T_RESERVED_NAMESPACE, T_PROTECTED),
     (''public'', G_CONREV, T_RESERVED_NAMESPACE, T_PUBLIC),
     (''require'', G_CONREV, T_REQUIRE, 0),
     (''return'', G_RESERVED, T_RETURN, 0),
     (''set'', G_CONREV, T_SET, 0),
     (''standard'', G_CONREV, T_STANDARD, 0),
     (''static'', G_CONREV, T_ATTRIBUTE, T_STATIC),
     (''strict'', G_CONREV, T_STRICT, 0),
     (''super'', G_RESERVED, T_SUPER, 0),
     (''switch'', G_RESERVED, T_SWITCH, 0),
     (''this'', G_RESERVED, T_THIS, 0),
     (''throw'', G_RESERVED, T_THROW, 0),
     (''true'', G_RESERVED, T_TRUE, 0),
     (''try'', G_RESERVED, T_TRY, 0),
     (''typeof'', G_RESERVED, T_TYPEOF, 0),
     (''var'', G_RESERVED, T_VAR, 0),
     (''undefined'', G_CONREV, T_UNDEFINED, 0),
     (''use'', G_CONREV, T_USE, 0),
     (''void'', G_RESERVED, T_VOID, 0),
     (''while'', G_RESERVED, T_WHILE, 0),
     (''with'', G_RESERVED, T_WITH, 0)]"

end
