(* ===== verification/Lexer.thy ===== *)
theory Lexer
  imports Tokens
begin

text \<open>
  The lexical analyser (\<open>src/src/compiler/ecLex.c\<close>) on files and blocks of memory, whose contents are in the
  buffer of the stream from the start. A character is the integer that a C \<open>char\<close> is promoted to; 0 is
  the end of the input and also a NUL. Memory for tokens is always there. The name of the file in locations is left out.
\<close>

section \<open>Characters\<close>

text \<open>\<open>isdigit\<close> and the like are given the \<open>unsigned char\<close>, but for \<open>isxdigit\<close>.\<close>

abbreviation ch :: "char \<Rightarrow> int" where
  "ch \<equiv> char_val"

definition uchar :: "int \<Rightarrow> int" where
  "uchar c = c mod 256"

definition isdigit :: "int \<Rightarrow> bool" where
  "isdigit c \<longleftrightarrow> 48 \<le> c \<and> c \<le> 57"

definition isalpha :: "int \<Rightarrow> bool" where
  "isalpha c \<longleftrightarrow> 65 \<le> c \<and> c \<le> 90 \<or> 97 \<le> c \<and> c \<le> 122"

definition isxdigit :: "int \<Rightarrow> bool" where
  "isxdigit c \<longleftrightarrow> isdigit c \<or> 65 \<le> c \<and> c \<le> 70 \<or> 97 \<le> c \<and> c \<le> 102"

definition isspace :: "int \<Rightarrow> bool" where
  "isspace c \<longleftrightarrow> c = 32 \<or> 9 \<le> c \<and> c \<le> 13"

definition tolower :: "int \<Rightarrow> int" where
  "tolower c = (if 65 \<le> c \<and> c \<le> 90 then c + 32 else c)"

text \<open>A character that is stored in a \<open>char\<close>.\<close>

definition to_char :: "int \<Rightarrow> char" where
  "to_char c = char_of (nat (c mod 256))"

text \<open>\<open>stoiradix\<close> of the portable runtime, for a positive radix; the strings converted have four digits at most.\<close>

fun digits16 :: "int \<Rightarrow> string \<Rightarrow> int" where
  "digits16 val [] = val"
| "digits16 val (a # str) =
     (let c = tolower (uchar (ch a))
      in if isdigit c then digits16 (val * 16 + c - 48) str
         else if 97 \<le> c \<and> c \<le> 102 then digits16 (val * 16 + c - 97 + 10) str
         else val)"

fun digits10 :: "int \<Rightarrow> int \<Rightarrow> string \<Rightarrow> int" where
  "digits10 radix val [] = val"
| "digits10 radix val (a # str) =
     (if isdigit (uchar (ch a)) \<and> ch a - 48 < radix then digits10 radix (val * radix + (ch a - 48)) str else val)"

definition stoiradix :: "string \<Rightarrow> int \<Rightarrow> int" where
  "stoiradix str radix =
     (let str = dropWhile (\<lambda>a. isspace (uchar (ch a))) str;
          negative = (case str of [] \<Rightarrow> False | a # _ \<Rightarrow> a = CHR ''-'');
          str = (if negative then tl str else str);
          val = (if radix = 16
                 then digits16 0 (case str of a # b # rest \<Rightarrow>
                        if a = CHR ''0'' \<and> tolower (uchar (ch b)) = ch CHR ''x'' then rest else str | _ \<Rightarrow> str)
                 else digits10 (if 10 < radix then 10 else radix) 0 str)
      in if negative then - val else val)"

section \<open>The stream and the token\<close>

record location =
  lineNumber :: int
  column :: int
  source :: "string option"

text \<open>
  \<open>text\<close> is the text up to its terminating NUL; the length says how much of it belongs to the token, as
  a token that is initialised again keeps the old text until a character is added.
\<close>

record token =
  text_of :: string
  tlength :: nat
  tokenId :: int
  subId :: int
  groupMask :: int
  tloc :: location

record lexer =
  buf :: string
  nextChar :: nat
  loc :: location
  lastLoc :: location
  tok :: token
  docToken :: "string option"
  warnings :: "string list"

definition start_location :: location where
  "start_location = \<lparr>lineNumber = 1, column = 0, source = None\<rparr>"

definition source_line :: "string \<Rightarrow> string" where
  "source_line cs = takeWhile (\<lambda>c. c \<noteq> CHR 0x00 \<and> c \<noteq> CHR 0x0A) (dropWhile (\<lambda>c. isspace (uchar (ch c))) cs)"

definition getNextChar :: "lexer \<Rightarrow> int \<times> lexer" where
  "getNextChar s =
     (if nextChar s < length (buf s)
      then let a = buf s ! nextChar s;
               s = s\<lparr>nextChar := nextChar s + 1\<rparr>;
               s = (if a = CHR 0x0A
                    then s\<lparr>lastLoc := loc s, loc := \<lparr>lineNumber = lineNumber (loc s) + 1, column = 0, source = None\<rparr>\<rparr>
                    else s\<lparr>loc := (loc s)\<lparr>column := column (loc s) + 1\<rparr>\<rparr>);
               s = (if source (loc s) = None
                    then s\<lparr>loc := (loc s)\<lparr>source := Some (source_line (drop (nextChar s - 1) (buf s)))\<rparr>\<rparr> else s)
           in (ch a, s)
      else (0, s))"

definition putBackChar :: "int \<Rightarrow> lexer \<Rightarrow> lexer" where
  "putBackChar c s =
     (if 0 < nextChar s \<and> c \<noteq> 0
      then let s = s\<lparr>nextChar := nextChar s - 1\<rparr>
           in if c = ch CHR 0x0A then s\<lparr>loc := (lastLoc s)\<lparr>column := 0\<rparr>\<rparr>
              else s\<lparr>loc := (loc s)\<lparr>column := column (loc s) - 1\<rparr>\<rparr>
      else s)"

definition set_loc :: "location \<Rightarrow> token \<Rightarrow> token" where
  "set_loc l t = (if lineNumber (tloc t) = 0 then t\<lparr>tloc := l\<rparr> else t)"

definition addCharToToken :: "int \<Rightarrow> lexer \<Rightarrow> lexer" where
  "addCharToToken c s =
     (let t = tok s
      in s\<lparr>tok := set_loc (loc s) (t\<lparr>text_of := take (tlength t) (text_of t) @ [to_char c], tlength := tlength t + 1\<rparr>)\<rparr>)"

fun addStringToToken :: "string \<Rightarrow> lexer \<Rightarrow> lexer" where
  "addStringToToken [] s = s"
| "addStringToToken (c # cs) s = addStringToToken cs (addCharToToken (ch c) s)"

definition setTokenID :: "int \<Rightarrow> int \<Rightarrow> int \<Rightarrow> lexer \<Rightarrow> lexer" where
  "setTokenID t sub g s = s\<lparr>tok := (tok s)\<lparr>tokenId := t, subId := sub, groupMask := g\<rparr>\<rparr>"

definition finalizeToken :: "lexer \<Rightarrow> lexer" where
  "finalizeToken s = s\<lparr>tok := set_loc (loc s) (tok s)\<rparr>"

definition new_token :: token where
  "new_token = \<lparr>text_of = [], tlength = 0, tokenId = 0, subId = 0, groupMask = 0, tloc = \<lparr>lineNumber = 0, column = 0, source = None\<rparr>\<rparr>"

definition initializeToken :: "lexer \<Rightarrow> lexer" where
  "initializeToken s = s\<lparr>tok := (tok s)\<lparr>tlength := 0, tokenId := 0, tloc := (loc s)\<lparr>lineNumber := 0\<rparr>\<rparr>\<rparr>"

definition makeToken :: "int \<Rightarrow> int \<Rightarrow> int \<Rightarrow> lexer \<Rightarrow> lexer" where
  "makeToken c t g s = finalizeToken (setTokenID t (-1) g (if c = 0 then s else addCharToToken c s))"

definition makeSubToken :: "int \<Rightarrow> int \<Rightarrow> int \<Rightarrow> int \<Rightarrow> lexer \<Rightarrow> lexer" where
  "makeSubToken c t sub g s = finalizeToken (setTokenID t sub g (addCharToToken c s))"

section \<open>Reading ahead\<close>

text \<open>How many characters are left, which is what the loops consume.\<close>

definition left :: "lexer \<Rightarrow> nat" where
  "left s = length (buf s) - nextChar s"

definition weight :: "int \<Rightarrow> lexer \<Rightarrow> nat" where
  "weight c s = 2 * left s + (if c = 0 then 0 else 1)"

lemma left_simps [simp]:
  "left (addCharToToken c s) = left s"
  "left (setTokenID t sub g s) = left s"
  "left (finalizeToken s) = left s"
  "left (initializeToken s) = left s"
  by (simp_all add: left_def addCharToToken_def Let_def setTokenID_def finalizeToken_def initializeToken_def)

lemma getNextChar_left: "getNextChar s = (c, s') \<Longrightarrow> left s' \<le> left s \<and> (c \<noteq> 0 \<longrightarrow> left s' < left s)"
  by (auto simp: getNextChar_def left_def Let_def split: if_splits)

lemma getNextChar_weight: "getNextChar s = (c, s') \<Longrightarrow> weight c s' \<le> 2 * left s"
  using getNextChar_left [of s c s'] by (auto simp: weight_def)

lemma putBackChar_left: "getNextChar s = (c, s') \<Longrightarrow> left (putBackChar c s') \<le> left s"
  by (auto simp: getNextChar_def left_def Let_def putBackChar_def split: if_splits)

definition advance :: "lexer \<Rightarrow> (int \<Rightarrow> lexer \<Rightarrow> 'a) \<Rightarrow> 'a" where
  "advance s f = (case getNextChar s of (c, s') \<Rightarrow> f c s')"

lemma advance_cong [fundef_cong]:
  "s = s' \<Longrightarrow> (\<And>c t. getNextChar s' = (c, t) \<Longrightarrow> f c t = g c t) \<Longrightarrow> advance s f = advance s' g"
  by (simp add: advance_def split: prod.splits)

text \<open>Adds characters while they have a property (which 0 does not have), and gives the first one that has it not.\<close>

function take_chars :: "(int \<Rightarrow> bool) \<Rightarrow> int \<Rightarrow> lexer \<Rightarrow> int \<times> lexer" where
  "take_chars P c s =
     (if c \<noteq> 0 \<and> P c then advance (addCharToToken c s) (\<lambda>c s. take_chars P c s) else (c, s))"
  by pat_completeness auto
termination
  by (relation "measure (\<lambda>(P, c, s). weight c s)")
    (auto simp: weight_def dest: getNextChar_left)

declare take_chars.simps [simp del]

fun decode_loop :: "int \<Rightarrow> nat \<Rightarrow> string \<Rightarrow> lexer \<Rightarrow> string \<times> lexer" where
  "decode_loop radix 0 acc s = (acc, s)"
| "decode_loop radix (Suc n) acc s =
     advance s (\<lambda>c s.
       if c = 0 \<or> (if radix \<le> 10 then \<not> isdigit (uchar c) else radix = 16 \<and> \<not> isxdigit (uchar c))
       then (acc, putBackChar c s) else decode_loop radix n (acc @ [to_char c]) s)"

definition decodeNumber :: "int \<Rightarrow> nat \<Rightarrow> lexer \<Rightarrow> int \<times> lexer" where
  "decodeNumber radix n s = (case decode_loop radix n [] s of (digits, s) \<Rightarrow> (stoiradix digits radix, s))"

lemma decode_loop_left: "decode_loop radix n acc s = (ds, s') \<Longrightarrow> left s' \<le> left s"
proof (induction n arbitrary: acc s)
  case (Suc n)
  obtain c t where n: "getNextChar s = (c, t)" by fastforce
  from Suc.IH [of _ t] Suc.prems getNextChar_left [OF n] putBackChar_left [OF n] show ?case
    by (fastforce simp: advance_def n split: if_splits)
qed simp

lemma decodeNumber_left: "decodeNumber radix n s = (c, s') \<Longrightarrow> left s' \<le> left s"
  by (auto simp: decodeNumber_def split: prod.splits dest: decode_loop_left)

section \<open>Numbers, names and strings\<close>

definition number_end :: "int \<times> lexer \<Rightarrow> lexer" where
  "number_end p = (case p of (c, s) \<Rightarrow> finalizeToken (setTokenID T_NUMBER (-1) 0 (putBackChar c s)))"

definition isoctal :: "int \<Rightarrow> bool" where
  "isoctal c \<longleftrightarrow> 48 \<le> c \<and> c \<le> 55"

definition fraction :: "int \<Rightarrow> lexer \<Rightarrow> int \<times> lexer" where
  "fraction c s =
     (case if c = ch CHR ''.'' then getNextChar (addCharToToken c s) else (c, s) of (c, s) \<Rightarrow>
      take_chars (\<lambda>c. isdigit (uchar c)) c s)"

definition exponent :: "int \<Rightarrow> lexer \<Rightarrow> int \<times> lexer" where
  "exponent c s =
     (if tolower (uchar c) = ch CHR ''e''
      then advance (addCharToToken c s) (\<lambda>c s.
           case if c = ch CHR ''+'' \<or> c = ch CHR ''-'' then getNextChar (addCharToToken c s) else (c, s) of (c, s) \<Rightarrow>
           take_chars (\<lambda>c. isdigit (uchar c)) c s)
      else (c, s))"

definition float_number :: "int \<Rightarrow> lexer \<Rightarrow> lexer" where
  "float_number c s =
     (case take_chars (\<lambda>c. isdigit (uchar c)) c s of (c, s) \<Rightarrow>
      case fraction c s of (c, s) \<Rightarrow> number_end (exponent c s))"

definition makeNumberToken :: "int \<Rightarrow> lexer \<Rightarrow> lexer" where
  "makeNumberToken c s =
     (if c = ch CHR ''0''
      then advance s (\<lambda>c s.
        if tolower (uchar c) = ch CHR ''x''
        then advance (addCharToToken c (addCharToToken (ch CHR ''0'') s)) (\<lambda>c s. number_end (take_chars isxdigit c s))
        else if isoctal c then number_end (take_chars isoctal c (addCharToToken (ch CHR ''0'') s))
        else float_number (ch CHR ''0'') (putBackChar c s))
      else float_number c s)"

definition alpha_part :: "int \<Rightarrow> bool" where
  "alpha_part c \<longleftrightarrow> isalpha (uchar c) \<or> isdigit (uchar c) \<or> c = ch CHR ''_'' \<or> c = ch CHR ''$'' \<or> c = ch CHR 0x5C"

definition alpha_escape :: "int \<Rightarrow> lexer \<Rightarrow> int \<times> lexer" where
  "alpha_escape c s = (if c = ch CHR ''u'' then map_prod (\<lambda>c. c mod 256) id (decodeNumber 16 4 s) else (c, s))"

lemma alpha_escape_left: "(c', s') = alpha_escape c s \<Longrightarrow> left s' \<le> left s"
  by (cases "decodeNumber 16 4 s") (auto simp: alpha_escape_def split: if_splits dest: decodeNumber_left)

text \<open>A backslash stands for the next character, or for the one with the number after \<open>u\<close>; before a line end it ends the name.\<close>

function alpha_loop :: "int \<Rightarrow> lexer \<Rightarrow> int \<times> lexer" where
  "alpha_loop c s =
     (if c \<noteq> 0 \<and> alpha_part c
      then if c = ch CHR 0x5C
           then advance s (\<lambda>c s.
             if c = ch CHR 0x0A \<or> c = ch CHR 0x0D then (c, s)
             else case alpha_escape c s of (c, s) \<Rightarrow> advance (addCharToToken c s) alpha_loop)
           else advance (addCharToToken c s) alpha_loop
      else (c, s))"
  by pat_completeness auto
termination
  by (relation "measure (\<lambda>(c, s). weight c s)")
    (auto simp: weight_def dest!: getNextChar_left alpha_escape_left)

declare alpha_loop.simps [simp del]

definition c_string :: "string \<Rightarrow> string" where
  "c_string = takeWhile (\<lambda>c. c \<noteq> CHR 0x00)"

definition makeAlphaToken :: "int \<Rightarrow> lexer \<Rightarrow> lexer" where
  "makeAlphaToken c s =
     (case alpha_loop c s of (c, s) \<Rightarrow>
      let s = putBackChar c s
      in finalizeToken (case find (\<lambda>w. word_name w = c_string (text_of (tok s))) reserved_words of
           Some w \<Rightarrow> setTokenID (word_token w) (word_sub w) (word_group w) s
         | None \<Rightarrow> setTokenID T_ID (-1) 0 s))"

definition escape :: "int \<Rightarrow> lexer \<Rightarrow> int \<times> lexer" where
  "escape c s =
     (if c = ch CHR ''b'' then (8, s)
      else if c = ch CHR ''f'' then (12, s)
      else if c = ch CHR ''n'' then (10, s)
      else if c = ch CHR ''r'' then (13, s)
      else if c = ch CHR ''t'' then (9, s)
      else if c = ch CHR ''u'' then decodeNumber 16 4 s
      else if c = ch CHR ''x'' then decodeNumber 16 2 s
      else if c = ch CHR ''v'' then (11, s)
      else if c = ch CHR ''0'' then decodeNumber 8 3 s
      else (c, s))"

lemma escape_left: "escape c s = (c', s') \<Longrightarrow> left s' \<le> left s"
  by (auto simp: escape_def split: if_splits dest: decodeNumber_left)

definition quoted_char :: "int \<Rightarrow> lexer \<Rightarrow> int \<times> lexer" where
  "quoted_char c s = (if c = ch CHR 0x5C then advance s escape else (c, s))"

lemma quoted_char_left: "(c', s') = quoted_char c s \<Longrightarrow> left s' \<le> left s"
  using getNextChar_left [of s] escape_left [of "fst (getNextChar s)" "snd (getNextChar s)" c' s']
  by (cases "getNextChar s") (auto simp: quoted_char_def advance_def split: if_splits dest: sym)

function quoted_loop :: "int \<Rightarrow> int \<Rightarrow> lexer \<Rightarrow> lexer" where
  "quoted_loop quote c s =
     (if c \<noteq> 0 \<and> c \<noteq> quote
      then case quoted_char c s of (c, s) \<Rightarrow>
           advance (addCharToToken c s) (quoted_loop quote)
      else s)"
  by pat_completeness auto
termination
  by (relation "measure (\<lambda>(quote, c, s). weight c s)")
    (auto simp: weight_def dest!: getNextChar_left quoted_char_left)

declare quoted_loop.simps [simp del]

definition makeQuotedToken :: "int \<Rightarrow> lexer \<Rightarrow> lexer" where
  "makeQuotedToken c s = finalizeToken (setTokenID T_STRING (-1) 0 (advance s (quoted_loop c)))"

section \<open>Comments\<close>

record lex_env =
  doc :: bool
  warnLevel :: int

fun decimal :: "nat \<Rightarrow> string" where
  "decimal n = (if n < 10 then [char_of (48 + n)] else decimal (n div 10) @ [char_of (48 + n mod 10)])"

declare decimal.simps [simp del]

definition warn :: "lex_env \<Rightarrow> string \<Rightarrow> lexer \<Rightarrow> lexer" where
  "warn E msg s = (if 0 < warnLevel E then s\<lparr>warnings := warnings s @ [msg]\<rparr> else s)"

lemma left_warn [simp]: "left (warn E msg s) = left s"
  by (simp add: warn_def left_def)

lemma left_addString [simp]: "left (addStringToToken str s) = left s"
  by (induction str arbitrary: s) simp_all

lemma left_makeToken [simp]: "left (makeToken c t g s) = left s"
  by (simp add: makeToken_def)

text \<open>
  What follows a star, which ends the comment or is put back, and what follows a slash. In both cases the character that follows is
  the one added last.
\<close>

definition star :: "lexer \<Rightarrow> bool \<times> int \<times> lexer" where
  "star s = advance s (\<lambda>c s.
     if c = ch CHR ''/'' then (True, c, s) else (False, c, putBackChar c (addCharToToken (ch CHR ''*'') s)))"

definition slash :: "lex_env \<Rightarrow> lexer \<Rightarrow> bool \<times> int \<times> lexer" where
  "slash E s = advance s (\<lambda>c s.
     (False, c, addCharToToken (ch CHR ''/'') (if c = ch CHR ''*'' then warn E ''Possible nested comment'' s else s)))"

definition comment_char :: "lex_env \<Rightarrow> int \<Rightarrow> lexer \<Rightarrow> bool \<times> int \<times> lexer" where
  "comment_char E c s =
     (if c = ch CHR ''*'' then star s else if c = ch CHR ''/'' then slash E s else (False, c, s))"

lemma left_putBack_add [simp]: "left (putBackChar c (addCharToToken d s)) = left (putBackChar c s)"
  by (simp add: left_def putBackChar_def addCharToToken_def Let_def)

lemma star_left: "left (snd (snd (star s))) \<le> left s"
  using getNextChar_left [of s] putBackChar_left [of s] by (cases "getNextChar s") (auto simp: star_def advance_def)

lemma slash_left: "left (snd (snd (slash E s))) \<le> left s"
  using getNextChar_left [of s] by (cases "getNextChar s") (auto simp: slash_def advance_def)

lemma comment_char_left: "(e, c', s') = comment_char E c s \<Longrightarrow> left s' \<le> left s"
  using star_left [of s] slash_left [of E s]
  by (cases "star s"; cases "slash E s") (simp add: comment_char_def split: if_splits)

text \<open>The result 1 stands for a comment without an end. The loop goes on while the character added last is positive.\<close>

function comment_loop :: "lex_env \<Rightarrow> int \<Rightarrow> int \<Rightarrow> lexer \<Rightarrow> int \<times> lexer" where
  "comment_loop E form startLine s =
     advance s (\<lambda>c s.
       if c \<le> 0
       then (1, makeToken 0 (if form = ch CHR ''/'' then T_EOF else T_ERR) 0
                 (addStringToToken (''Unterminated comment starting on line '' @ decimal (nat startLine)) s))
       else if form = ch CHR ''/''
       then if c = ch CHR 0x0A \<or> c = ch CHR 0x0D then (0, s)
            else comment_loop E form startLine (addCharToToken c s)
       else case comment_char E c s of (closed, c, s) \<Rightarrow>
            if closed then (0, s)
            else if 0 < c then comment_loop E form startLine (addCharToToken c s) else (0, addCharToToken c s))"
  by pat_completeness auto
termination
  by (relation "measure (\<lambda>(E, form, startLine, s). left s)") (auto dest!: getNextChar_left comment_char_left)

declare comment_loop.simps [simp del]

definition getComment :: "lex_env \<Rightarrow> int \<Rightarrow> lexer \<Rightarrow> int \<times> lexer" where
  "getComment E c s = (if 0 < c then comment_loop E c (lineNumber (loc s)) s else (0, s))"

lemma comment_loop_left: "comment_loop E form l s = (r, s') \<Longrightarrow> left s' \<le> left s"
proof (induction E form l s arbitrary: r s' rule: comment_loop.induct)
  case (1 E form l s)
  obtain c t where n: "getNextChar s = (c, t)" by fastforce
  obtain e c2 t2 where k: "comment_char E c t = (e, c2, t2)" by (cases "comment_char E c t") auto
  have g: "left t \<le> left s" "left t2 \<le> left t" using getNextChar_left [OF n] comment_char_left [OF k [symmetric]] by auto
  note u = "1.prems" [unfolded comment_loop.simps [of E form l s] advance_def n prod.case k]
  show ?case
  proof (cases "c \<le> 0")
    case True
    with u g(1) show ?thesis by auto
  next
    case c: False
    show ?thesis
    proof (cases "form = ch CHR ''/''")
      case True
      with u c g(1) 1(1) [OF n c True] show ?thesis by (fastforce split: if_splits)
    next
      case False
      with u c g 1(2) [OF n c False k [symmetric] refl] show ?thesis by (fastforce split: if_splits)
    qed
  qed
qed

section \<open>Operators\<close>

text \<open>
  The cases of \<open>ecGetToken\<close> for characters that begin several operators. The character that has been read ahead
  and put back is added to the text of some operators, and the text of \<open>>=\<close> is another one.
\<close>

abbreviation op_assign :: int where
  "op_assign \<equiv> G_OPERATOR OR G_COMPOUND_ASSIGN"

definition lex_plus :: "lexer \<Rightarrow> lexer" where
  "lex_plus s = advance s (\<lambda>c s.
     if c = ch CHR ''+'' then makeToken c T_PLUS_PLUS G_OPERATOR (addCharToToken (ch CHR ''+'') s)
     else if c = ch CHR ''='' then makeSubToken c T_ASSIGN T_PLUS_ASSIGN op_assign (addCharToToken (ch CHR ''+'') s)
     else makeToken (ch CHR ''+'') T_PLUS G_OPERATOR (putBackChar c s))"

definition lex_minus :: "lexer \<Rightarrow> lexer" where
  "lex_minus s = advance s (\<lambda>c s.
     if isdigit (uchar c) then makeToken (ch CHR ''-'') T_MINUS G_OPERATOR (putBackChar c s)
     else if c = ch CHR ''-'' then makeToken c T_MINUS_MINUS G_OPERATOR (addCharToToken (ch CHR ''-'') s)
     else if c = ch CHR ''='' then makeSubToken c T_ASSIGN T_MINUS_ASSIGN op_assign (addCharToToken (ch CHR ''-'') s)
     else makeToken (ch CHR ''-'') T_MINUS G_OPERATOR (putBackChar c s))"

definition lex_mul :: "lexer \<Rightarrow> lexer" where
  "lex_mul s = advance s (\<lambda>c s.
     if c = ch CHR ''='' then makeSubToken c T_ASSIGN T_MUL_ASSIGN op_assign (addCharToToken (ch CHR ''*'') s)
     else makeToken (ch CHR ''*'') T_MUL G_OPERATOR (putBackChar c s))"

definition lex_mod :: "lexer \<Rightarrow> lexer" where
  "lex_mod s = advance s (\<lambda>c s.
     if c = ch CHR ''='' then makeSubToken c T_ASSIGN T_MOD_ASSIGN op_assign (addCharToToken (ch CHR ''%'') s)
     else makeToken (ch CHR ''%'') T_MOD G_OPERATOR (putBackChar c s))"

definition lex_dot :: "lexer \<Rightarrow> lexer" where
  "lex_dot s = advance s (\<lambda>c s.
     if c = ch CHR ''.''
     then advance s (\<lambda>c s.
       if c = ch CHR ''.'' then makeToken c T_ELIPSIS 0 (addStringToToken ''..'' s)
       else makeToken (ch CHR ''.'') T_DOT_DOT 0 (addCharToToken (ch CHR ''.'') (putBackChar c s)))
     else if isdigit (uchar c) then makeNumberToken (ch CHR ''.'') (putBackChar c s)
     else makeToken (ch CHR ''.'') T_DOT G_OPERATOR (putBackChar c s))"

definition lex_colon :: "lexer \<Rightarrow> lexer" where
  "lex_colon s = advance s (\<lambda>c s.
     if c = ch CHR '':'' then makeToken c T_COLON_COLON 0 (addCharToToken (ch CHR '':'') s)
     else makeToken (ch CHR '':'') T_COLON 0 (putBackChar c s))"

definition lex_not :: "lexer \<Rightarrow> lexer" where
  "lex_not s = advance s (\<lambda>c s.
     if c = ch CHR ''=''
     then advance s (\<lambda>c s.
       if c = ch CHR ''='' then makeToken c T_STRICT_NE G_OPERATOR (addStringToToken ''!='' s)
       else makeToken (ch CHR ''='') T_NE G_OPERATOR (addCharToToken (ch CHR ''!'') (putBackChar c s)))
     else makeToken (ch CHR ''!'') T_LOGICAL_NOT G_OPERATOR (putBackChar c s))"

definition lex_and :: "lexer \<Rightarrow> lexer" where
  "lex_and s = advance s (\<lambda>c s.
     if c = ch CHR ''&''
     then advance (addCharToToken (ch CHR ''&'') s) (\<lambda>c s.
       if c = ch CHR ''=''
       then makeSubToken (ch CHR ''='') T_ASSIGN T_LOGICAL_AND_ASSIGN op_assign (addCharToToken (ch CHR ''&'') s)
       else makeToken (ch CHR ''&'') T_LOGICAL_AND G_OPERATOR (putBackChar c s))
     else if c = ch CHR ''='' then makeSubToken c T_ASSIGN T_BIT_AND_ASSIGN op_assign (addCharToToken (ch CHR ''&'') s)
     else makeToken (ch CHR ''&'') T_BIT_AND G_OPERATOR (putBackChar c s))"

definition lex_less :: "lexer \<Rightarrow> lexer" where
  "lex_less s = advance s (\<lambda>c s.
     if c = ch CHR ''='' then makeToken c T_LE G_OPERATOR (addCharToToken (ch CHR ''<'') s)
     else if c = ch CHR ''<''
     then advance s (\<lambda>c s.
       if c = ch CHR ''='' then makeSubToken c T_ASSIGN T_LSH_ASSIGN op_assign (addStringToToken ''<<'' s)
       else makeToken c T_LSH G_OPERATOR (addCharToToken (ch CHR ''<'') (putBackChar c s)))
     else if c = ch CHR ''/'' then makeToken c T_LT_SLASH 0 (addCharToToken (ch CHR ''<'') s)
     else makeToken (ch CHR ''<'') T_LT G_OPERATOR (putBackChar c s))"

definition lex_equal :: "lexer \<Rightarrow> lexer" where
  "lex_equal s = advance s (\<lambda>c s.
     if c = ch CHR ''=''
     then advance s (\<lambda>c s.
       if c = ch CHR ''='' then makeToken c T_STRICT_EQ G_OPERATOR (addStringToToken ''=='' s)
       else makeToken c T_EQ G_OPERATOR (addCharToToken (ch CHR ''='') (putBackChar c s)))
     else makeToken (ch CHR ''='') T_ASSIGN G_OPERATOR (putBackChar c s))"

definition lex_greater :: "lexer \<Rightarrow> lexer" where
  "lex_greater s = advance s (\<lambda>c s.
     if c = ch CHR ''='' then makeToken c T_GE G_OPERATOR (addCharToToken (ch CHR ''<'') s)
     else if c = ch CHR ''>''
     then advance s (\<lambda>c s.
       if c = ch CHR ''='' then makeSubToken c T_ASSIGN T_RSH_ASSIGN op_assign (addStringToToken ''>>'' s)
       else if c = ch CHR ''>''
       then advance s (\<lambda>c s.
         if c = ch CHR ''='' then makeSubToken c T_ASSIGN T_RSH_ZERO_ASSIGN op_assign (addStringToToken ''>>>'' s)
         else makeToken (ch CHR ''>'') T_RSH_ZERO G_OPERATOR (addStringToToken ''>>'' (putBackChar c s)))
       else makeToken (ch CHR ''>'') T_RSH G_OPERATOR (addCharToToken (ch CHR ''>'') (putBackChar c s)))
     else makeToken (ch CHR ''>'') T_GT G_OPERATOR (putBackChar c s))"

definition lex_xor :: "lexer \<Rightarrow> lexer" where
  "lex_xor s = advance s (\<lambda>c s.
     if c = ch CHR ''^''
     then advance (addCharToToken (ch CHR ''^'') s) (\<lambda>c s.
       if c = ch CHR ''=''
       then makeSubToken (ch CHR ''='') T_ASSIGN T_LOGICAL_XOR_ASSIGN op_assign (addCharToToken (ch CHR ''^'') s)
       else makeToken (ch CHR ''^'') T_LOGICAL_XOR G_OPERATOR (putBackChar c s))
     else if c = ch CHR ''=''
     then makeSubToken (ch CHR ''='') T_ASSIGN T_BIT_XOR_ASSIGN op_assign (addCharToToken (ch CHR ''^'') s)
     else makeToken (ch CHR ''^'') T_BIT_XOR G_OPERATOR (putBackChar c s))"

definition lex_or :: "lexer \<Rightarrow> lexer" where
  "lex_or s = advance s (\<lambda>c s.
     if c = ch CHR ''|''
     then advance (addCharToToken (ch CHR ''|'') s) (\<lambda>c s.
       if c = ch CHR ''=''
       then makeSubToken (ch CHR ''='') T_ASSIGN T_LOGICAL_OR_ASSIGN op_assign (addCharToToken (ch CHR ''|'') s)
       else makeToken (ch CHR ''|'') T_LOGICAL_OR G_OPERATOR (putBackChar c s))
     else if c = ch CHR ''=''
     then makeSubToken (ch CHR ''='') T_ASSIGN T_BIT_OR_ASSIGN op_assign (addCharToToken (ch CHR ''|'') s)
     else makeToken (ch CHR ''|'') T_BIT_OR G_OPERATOR (putBackChar c s))"

section \<open>The next token\<close>

text \<open>Characters that are a token whatever follows.\<close>

definition single :: "(int \<times> int \<times> int) list" where
  "single =
    [(ch CHR ''#'', T_HASH, 0),
     (ch CHR ''['', T_LBRACKET, G_OPERATOR),
     (ch CHR '']'', T_RBRACKET, 0),
     (ch CHR ''('', T_LPAREN, G_OPERATOR),
     (ch CHR '')'', T_RPAREN, 0),
     (ch CHR ''{'', T_LBRACE, 0),
     (ch CHR ''}'', T_RBRACE, 0),
     (ch CHR ''@'', T_AT, 0),
     (ch CHR '';'', T_SEMICOLON, 0),
     (ch CHR '','', T_COMMA, 0),
     (ch CHR ''?'', T_QUERY, 0),
     (ch CHR ''~'', T_TILDE, G_OPERATOR)]"

definition several :: "(int \<times> (lexer \<Rightarrow> lexer)) list" where
  "several =
    [(ch CHR ''+'', lex_plus), (ch CHR ''-'', lex_minus), (ch CHR ''*'', lex_mul), (ch CHR ''%'', lex_mod),
     (ch CHR ''.'', lex_dot), (ch CHR '':'', lex_colon), (ch CHR ''!'', lex_not), (ch CHR ''&'', lex_and),
     (ch CHR ''<'', lex_less), (ch CHR ''='', lex_equal), (ch CHR ''>'', lex_greater), (ch CHR ''^'', lex_xor),
     (ch CHR ''|'', lex_or)]"

text \<open>The no-break space is compared as 160, which no signed character is.\<close>

definition white :: "int \<Rightarrow> bool" where
  "white c \<longleftrightarrow> c = 32 \<or> 9 \<le> c \<and> c \<le> 13 \<or> c = 160"

definition doc_comment :: "lex_env \<Rightarrow> lexer \<Rightarrow> lexer" where
  "doc_comment E s =
     (let t = text_of (tok s); at = (\<lambda>i. if i < length t then t ! i else CHR 0x00)
      in if doc E \<and> at 0 = CHR ''*'' \<and> at 1 \<noteq> CHR ''*'' then s\<lparr>docToken := Some (take (tlength (tok s)) t)\<rparr> else s)"

lemma left_doc [simp]: "left (doc_comment E s) = left s"
  by (simp add: doc_comment_def Let_def left_def)

text \<open>
  One turn of the loop of \<open>ecGetToken\<close> ends with a token, or goes on after white space or a comment. The result
  of \<open>getComment\<close> is never negative, so the check of the code on it has no effect.
\<close>

datatype turn = Token lexer | Again lexer

definition lex_divide :: "lex_env \<Rightarrow> lexer \<Rightarrow> turn" where
  "lex_divide E s = advance s (\<lambda>c s.
     if c = ch CHR ''='' then Token (makeSubToken c T_ASSIGN T_DIV_ASSIGN op_assign (addCharToToken (ch CHR ''/'') s))
     else if c = ch CHR ''>'' then Token (makeToken c T_SLASH_GT G_OPERATOR (addCharToToken (ch CHR ''/'') s))
     else if c = ch CHR ''*'' \<or> c = ch CHR ''/''
     then case getComment E c s of (rc, s) \<Rightarrow>
            if rc < 0 then Token s else Again (initializeToken (doc_comment E s))
     else Token (makeToken (ch CHR ''/'') T_DIV G_OPERATOR (putBackChar c s)))"

text \<open>
  After a backslash that does not end a line the character is taken as a line end, which is no letter: hence the error, and
  names cannot begin with a backslash.
\<close>

definition lex_default :: "int \<Rightarrow> lexer \<Rightarrow> turn" where
  "lex_default c s =
     (if isdigit (uchar c) then Token (makeNumberToken c s)
      else if c = ch CHR 0x5C
      then advance s (\<lambda>c s. if c = ch CHR 0x0A then Again s else Token (makeToken 0 T_ERR 0 (putBackChar c s)))
      else if isalpha (uchar c) \<or> c = ch CHR ''_'' \<or> c = ch CHR ''$'' then Token (makeAlphaToken c s)
      else Token (makeToken 0 T_ERR 0 s))"

definition scan_turn :: "lex_env \<Rightarrow> int \<Rightarrow> lexer \<Rightarrow> turn" where
  "scan_turn E c s =
     (if c = -1 then Token (makeToken 0 T_ERR 0 s)
      else if c = 0 then Token (makeToken 0 T_EOF 0 s)
      else if white c then Again s
      else if c = ch CHR 0x22 \<or> c = ch CHR 0x27 then Token (makeQuotedToken c s)
      else if c = ch CHR ''/'' then lex_divide E s
      else case map_of single c of
        Some (t, g) \<Rightarrow> Token (makeToken c t g s)
      | None \<Rightarrow> (case map_of several c of Some f \<Rightarrow> Token (f s) | None \<Rightarrow> lex_default c s))"

lemma getComment_left: "(r, s') = getComment E c s \<Longrightarrow> left s' \<le> left s"
  by (auto simp: getComment_def split: if_splits dest: comment_loop_left [OF sym])

lemma scan_turn_left: "scan_turn E c s = Again s' \<Longrightarrow> left s' \<le> left s"
  using getNextChar_left [of s "fst (getNextChar s)" "snd (getNextChar s)"]
    getComment_left [of "fst (getComment E (fst (getNextChar s)) (snd (getNextChar s)))"
      "snd (getComment E (fst (getNextChar s)) (snd (getNextChar s)))" E "fst (getNextChar s)" "snd (getNextChar s)"]
  by (auto simp: scan_turn_def lex_divide_def lex_default_def advance_def case_prod_beta split: if_splits option.splits)

lemma scan_turn_0: "scan_turn E 0 s = Token (makeToken 0 T_EOF 0 s)"
  by (simp add: scan_turn_def)

function scan_token :: "lex_env \<Rightarrow> lexer \<Rightarrow> lexer" where
  "scan_token E s = advance s (\<lambda>c s. case scan_turn E c s of Token s \<Rightarrow> s | Again s \<Rightarrow> scan_token E s)"
  by pat_completeness auto
termination
proof (relation "measure (\<lambda>(E, s). left s)", goal_cases)
  case (2 E s c t u)
  from getNextChar_left [OF 2(1)] scan_turn_left [OF 2(2)] 2(2) scan_turn_0 [of E t] show ?case
    by (cases "c = 0") auto
qed simp

declare scan_token.simps [simp del]

section \<open>Regular expressions\<close>

function regexp_loop :: "lexer \<Rightarrow> lexer" where
  "regexp_loop s = advance s (\<lambda>c s.
     if c = -1 then makeToken 0 T_ERR 0 s
     else if c = 0 then makeToken 0 T_EOF 0 s
     else if c = ch CHR ''/''
     then advance (addCharToToken (ch CHR ''/'') s) (\<lambda>c s.
       case take_chars (\<lambda>c. c \<in> ch ` set ''gimyxXUs'') c s of (c, s) \<Rightarrow> makeToken 0 T_REGEXP 0 (putBackChar c s))
     else if c = ch CHR 0x5C
     then advance s (\<lambda>c s.
       if c = ch CHR 0x0D \<or> c = ch CHR 0x0A \<or> c = 0
       then makeToken 0 T_ERR 0 (s\<lparr>warnings := warnings s @ [''Illegal newline in regular expression'']\<rparr>)
       else regexp_loop (addCharToToken c (addCharToToken (ch CHR 0x5C) s)))
     else if c = ch CHR 0x0D \<or> c = ch CHR 0x0A
     then makeToken 0 T_ERR 0 (s\<lparr>warnings := warnings s @ [''Illegal newline in regular expression'']\<rparr>)
     else regexp_loop (addCharToToken c s))"
  by pat_completeness auto
termination
  by (relation "measure left") (auto dest!: getNextChar_left)

declare regexp_loop.simps [simp del]

definition ecGetRegExpToken :: "string \<Rightarrow> lexer \<Rightarrow> lexer" where
  "ecGetRegExpToken prefix s = regexp_loop (addStringToToken (c_string prefix) (initializeToken s))"

section \<open>Tokens that are put back\<close>

text \<open>
  The part of the compiler that the parser reads tokens with: the current token, if it has not been taken, and the tokens that were
  put back.
\<close>

record reader =
  stream :: lexer
  current :: "token option"
  putback :: "token list"

definition ecGetToken :: "lex_env \<Rightarrow> reader \<Rightarrow> int \<times> reader" where
  "ecGetToken E cp =
     (case putback cp of
        t # ts \<Rightarrow> (tokenId t, cp\<lparr>putback := ts, current := Some t\<rparr>)
      | [] \<Rightarrow>
          let s = scan_token E (initializeToken ((stream cp)\<lparr>tok := new_token\<rparr>))
          in (tokenId (tok s), cp\<lparr>stream := s, current := Some (tok s)\<rparr>))"

definition ecPutSpecificToken :: "token \<Rightarrow> reader \<Rightarrow> reader" where
  "ecPutSpecificToken t cp = cp\<lparr>putback := t # putback cp\<rparr>"

definition ecTakeToken :: "reader \<Rightarrow> token option \<times> reader" where
  "ecTakeToken cp = (current cp, cp\<lparr>current := None\<rparr>)"

text \<open>Putting back the current token requires that there is one.\<close>

definition ecPutToken :: "reader \<Rightarrow> reader option" where
  "ecPutToken cp = map_option (\<lambda>t. (ecPutSpecificToken t cp)\<lparr>current := None\<rparr>) (current cp)"

text \<open>
  \<open>peekAheadTokenStruct\<close> of the parser (\<open>ecParser.c\<close>): reads that many tokens, puts them back and gives the last. The tokens
  are kept in an array of \<open>EC_MAX_LOOK_AHEAD\<close> elements; looking further writes behind it, or fails an assertion.
\<close>

definition EC_MAX_LOOK_AHEAD :: nat where
  "EC_MAX_LOOK_AHEAD = 8"

fun read_ahead :: "lex_env \<Rightarrow> nat \<Rightarrow> reader \<Rightarrow> token list \<times> reader" where
  "read_ahead E 0 cp = ([], cp)"
| "read_ahead E (Suc n) cp =
     (case ecGetToken E cp of (i, cp) \<Rightarrow>
      case ecTakeToken cp of (t, cp) \<Rightarrow>
      case read_ahead E n cp of (ts, cp) \<Rightarrow> ((case t of None \<Rightarrow> ts | Some t \<Rightarrow> t # ts), cp))"

definition peekAheadTokenStruct :: "lex_env \<Rightarrow> nat \<Rightarrow> (reader, token) op" where
  "peekAheadTokenStruct E ahead cp =
     (if ahead = 0 \<or> EC_MAX_LOOK_AHEAD < ahead then (Fault, cp)
      else if ahead = 1 \<and> putback cp \<noteq> [] then (Ok (hd (putback cp)), cp)
      else case ecTakeToken cp of (currentToken, cp) \<Rightarrow>
           case read_ahead E ahead cp of (ts, cp) \<Rightarrow>
           let cp = foldr ecPutSpecificToken ts cp;
               cp = (case currentToken of None \<Rightarrow> cp | Some t \<Rightarrow> snd (ecGetToken E (ecPutSpecificToken t cp)))
           in (Ok (last ts), cp))"

section \<open>Opening a stream\<close>

text \<open>A length that is not positive stands for the length of the contents as a C string.\<close>

definition ecSetStreamBuf :: "string \<Rightarrow> int \<Rightarrow> lexer \<Rightarrow> lexer" where
  "ecSetStreamBuf contents n s =
     (let s = s\<lparr>buf := if n \<le> 0 then c_string contents else take (nat n) contents, nextChar := 0\<rparr>
      in advance s putBackChar)"

definition ecCreateStream :: lexer where
  "ecCreateStream = \<lparr>buf = [], nextChar = 0, loc = start_location,
     lastLoc = \<lparr>lineNumber = 0, column = 0, source = None\<rparr>, tok = new_token, docToken = None, warnings = []\<rparr>"

definition ecOpenMemoryStream :: "string \<Rightarrow> int \<Rightarrow> reader" where
  "ecOpenMemoryStream contents n = \<lparr>stream = ecSetStreamBuf contents n ecCreateStream, current = None, putback = []\<rparr>"

end
