(* ===== verification/Strings.thy ===== *)
theory Strings
  imports Arrays Lexer
begin

text \<open>
  Strings (\<open>src/src/core/src/ejsString.c\<close>): the methods and the functions for C. A string is the list of its characters, which
  are followed by a NUL in memory. Strings that are made are entered in the table of strings (\<open>Interning\<close>), which is left out
  here. Arguments that are numbers are the integers that they are converted to.
\<close>

section \<open>Characters\<close>

definition toupper :: "int \<Rightarrow> int" where
  "toupper c = (if 97 \<le> c \<and> c \<le> 122 then c - 32 else c)"

definition isprint :: "int \<Rightarrow> bool" where
  "isprint c \<longleftrightarrow> 32 \<le> c \<and> c \<le> 126"

definition islower :: "int \<Rightarrow> bool" where
  "islower c \<longleftrightarrow> 97 \<le> c \<and> c \<le> 122"

definition isupper :: "int \<Rightarrow> bool" where
  "isupper c \<longleftrightarrow> 65 \<le> c \<and> c \<le> 90"

definition ascii :: "char \<Rightarrow> bool" where
  "ascii c \<longleftrightarrow> 0 \<le> ch c"

abbreviation slen :: "string \<Rightarrow> int" where
  "slen sp \<equiv> int (length sp)"

text \<open>The first character of a string in memory.\<close>

definition first :: "string \<Rightarrow> char" where
  "first cs = (case cs of [] \<Rightarrow> CHR 0x00 | c # _ \<Rightarrow> c)"

text \<open>A new string of \<open>n\<close> characters that is filled from the left; the allocator gives at least the room asked for.\<close>

definition filled :: "(int \<Rightarrow> int) \<Rightarrow> int \<Rightarrow> string \<Rightarrow> string res" where
  "filled room n cs = (if slen cs + 1 \<le> room (n + 1) then Ok cs else Fault)"

section \<open>Comparing characters\<close>

text \<open>\<open>sncmp\<close>, \<open>sncaselesscmp\<close>, \<open>sncontains\<close> and \<open>mprMemcmp\<close> of the portable runtime (\<open>mprLib.c\<close>).\<close>

fun compare_by :: "(int \<Rightarrow> int) \<Rightarrow> nat \<Rightarrow> string \<Rightarrow> string \<Rightarrow> int" where
  "compare_by f 0 s1 s2 = 0"
| "compare_by f (Suc n) s1 s2 =
     (if first s1 = CHR 0x00 then (if first s2 = CHR 0x00 then 0 else -1)
      else let rc = f (ch (first s1)) - f (ch (first s2))
           in if rc \<noteq> 0 then (if 0 < rc then 1 else -1) else compare_by f n (tl s1) (tl s2))"

definition sncmp :: "string \<Rightarrow> string \<Rightarrow> nat \<Rightarrow> int" where
  "sncmp s1 s2 n = compare_by (\<lambda>c. c) n s1 s2"

definition sncaselesscmp :: "string \<Rightarrow> string \<Rightarrow> nat \<Rightarrow> int" where
  "sncaselesscmp s1 s2 n = compare_by (\<lambda>c. tolower (uchar c)) n s1 s2"

definition scmp :: "string \<Rightarrow> string \<Rightarrow> int" where
  "scmp s1 s2 = sncmp s1 s2 (max (length (c_string s1)) (length (c_string s2)))"

definition scaselesscmp :: "string \<Rightarrow> string \<Rightarrow> int" where
  "scaselesscmp s1 s2 = sncaselesscmp s1 s2 (max (length (c_string s1)) (length (c_string s2)))"

text \<open>What is left of the pattern where it differs.\<close>

fun pattern_left :: "int \<Rightarrow> string \<Rightarrow> string \<Rightarrow> string" where
  "pattern_left lim (a # as) (b # bs) =
     (if a \<noteq> CHR 0x00 \<and> b \<noteq> CHR 0x00 \<and> a = b \<and> 0 < lim then pattern_left (lim - 1) as bs else b # bs)"
| "pattern_left lim as bs = bs"

fun contains_from :: "string \<Rightarrow> int \<Rightarrow> string \<Rightarrow> bool" where
  "contains_from pat limit [] = False"
| "contains_from pat limit (c # cs) =
     (if c \<noteq> CHR 0x00 \<and> 0 < limit
      then first (pattern_left limit (c # cs) pat) = CHR 0x00 \<or> contains_from pat (limit - 1) cs else False)"

definition sncontains :: "string \<Rightarrow> string \<Rightarrow> int \<Rightarrow> bool" where
  "sncontains str pat limit =
     (if first pat = CHR 0x00 then False else contains_from pat (if limit < 0 then 2 ^ 31 - 1 else limit) str)"

fun memcmp :: "string \<Rightarrow> string \<Rightarrow> int" where
  "memcmp (a # as) (b # bs) = (if a = b then memcmp as bs else uchar (ch a) - uchar (ch b))"
| "memcmp _ _ = 0"

definition mprMemcmp :: "string \<Rightarrow> string \<Rightarrow> int" where
  "mprMemcmp s1 s2 =
     (let rc = memcmp s1 s2
      in if rc = 0 then (if length s1 < length s2 then -1 else if length s2 < length s1 then 1 else 0) else rc)"

section \<open>Properties and operators\<close>

definition ejsAtoi :: "string \<Rightarrow> int \<Rightarrow> int" where
  "ejsAtoi sp radix = foldl (\<lambda>num c. int32 (num * radix + (ch c - 48))) 0 sp"

definition getStringProperty :: "string \<Rightarrow> int \<Rightarrow> string" where
  "getStringProperty sp index = (if index < 0 \<or> slen sp \<le> index then [] else [sp ! nat index])"

definition lookupStringProperty :: "string \<Rightarrow> string \<Rightarrow> int" where
  "lookupStringProperty sp qname =
     (if \<not> isdigit (uchar (ch (first qname))) then EJS_ERR
      else let index = ejsAtoi qname 10 in if index < slen sp then index else EJS_ERR)"

definition ejsJoinString :: "string \<Rightarrow> string \<Rightarrow> string" where
  "ejsJoinString s1 s2 = (if s1 = [] then s2 else if s2 = [] then s1 else s1 @ s2)"

text \<open>The operators on two strings whose result does not depend on where the strings are.\<close>

datatype string_op = Less | LessEqual | Greater | GreaterEqual

definition string_compares :: "string_op \<Rightarrow> string \<Rightarrow> string \<Rightarrow> bool" where
  "string_compares oper lhs rhs =
     (case oper of
        Less \<Rightarrow> mprMemcmp lhs rhs < 0
      | LessEqual \<Rightarrow> mprMemcmp lhs rhs \<le> 0
      | Greater \<Rightarrow> 0 < mprMemcmp lhs rhs
      | GreaterEqual \<Rightarrow> 0 \<le> mprMemcmp lhs rhs)"

section \<open>Searching\<close>

text \<open>
  Whether the comparison at a position ends where the pattern has a NUL, which is at its end, or where it differs at a NUL
  that is part of it. A pattern with a NUL can lead behind the end of the string.
\<close>

fun match_at :: "string \<Rightarrow> string \<Rightarrow> bool res" where
  "match_at s1 [] = Ok True"
| "match_at [] (b # bs) = Fault"
| "match_at (a # as) (b # bs) = (if a \<noteq> b then Ok (b = CHR 0x00) else match_at as bs)"

fun find_up :: "string \<Rightarrow> string \<Rightarrow> nat \<Rightarrow> nat \<Rightarrow> int res" where
  "find_up str pat i 0 = Ok (-1)"
| "find_up str pat i (Suc k) = bind_res (match_at (drop i str) pat) (\<lambda>m. if m then Ok (int i) else find_up str pat (i + 1) k)"

fun find_down :: "string \<Rightarrow> string \<Rightarrow> nat \<Rightarrow> int res" where
  "find_down str pat 0 = Ok (-1)"
| "find_down str pat (Suc k) = bind_res (match_at (drop k str) pat) (\<lambda>m. if m then Ok (int k) else find_down str pat k)"

text \<open>The string is given with what follows it in memory.\<close>

definition indexof :: "string \<Rightarrow> int \<Rightarrow> string \<Rightarrow> int \<Rightarrow> int res" where
  "indexof str n pat dir = (if 0 < dir then find_up str pat 0 (nat n) else find_down str pat (nat n))"

definition memory :: "string \<Rightarrow> string" where
  "memory sp = sp @ [CHR 0x00]"

definition charAt :: "string \<Rightarrow> int \<Rightarrow> string" where
  "charAt sp index = (if index < 0 \<or> slen sp \<le> index then [] else [sp ! nat index])"

text \<open>None stands for NaN.\<close>

definition charCodeAt :: "string \<Rightarrow> int option \<Rightarrow> int option" where
  "charCodeAt sp arg =
     (let index = (case arg of Some i \<Rightarrow> i | None \<Rightarrow> 0);
          index = (if index < 0 then slen sp - 1 else index)
      in if index < 0 \<or> slen sp \<le> index then None else Some (uchar (ch (sp ! nat index))))"

definition concatString :: "string \<Rightarrow> string list \<Rightarrow> string" where
  "concatString sp args = foldl ejsJoinString sp args"

definition containsString :: "string \<Rightarrow> string \<Rightarrow> bool" where
  "containsString sp pat = sncontains sp pat (-1)"

definition endsWith :: "string \<Rightarrow> string \<Rightarrow> bool" where
  "endsWith sp pat = (if length sp < length pat then False else sncmp (drop (length sp - length pat) sp) pat (length pat) = 0)"

definition startsWith :: "string \<Rightarrow> string \<Rightarrow> bool" where
  "startsWith sp pat = (sncmp sp pat (length pat) = 0)"

definition indexOf :: "string \<Rightarrow> string \<Rightarrow> int option \<Rightarrow> int res" where
  "indexOf sp pat arg =
     (let start = (case arg of None \<Rightarrow> 0 | Some start \<Rightarrow>
            let start = (if slen sp < start then slen sp else start) in if start < 0 then 0 else start)
      in map_res (\<lambda>index. if index < 0 then -1 else index + start)
           (indexof (drop (nat start) (memory sp)) (slen sp - start) pat 1))"

text \<open>The start that is computed has no effect.\<close>

definition lastIndexOf :: "string \<Rightarrow> string \<Rightarrow> int option \<Rightarrow> int res" where
  "lastIndexOf sp pat arg = map_res (\<lambda>index. if index < 0 then -1 else index) (indexof (memory sp) (slen sp) pat (-1))"

definition searchString :: "string \<Rightarrow> string \<Rightarrow> int res" where
  "searchString sp pat = indexof (memory sp) (slen sp) pat 1"

text \<open>The iterators of keys and values, whose state is the index.\<close>

definition nextStringKey :: "string \<Rightarrow> (nat, nat) op" where
  "nextStringKey sp index = (if index < length sp then (Ok index, index + 1) else (Throw StopIteration, index))"

definition nextStringValue :: "string \<Rightarrow> (nat, string) op" where
  "nextStringValue sp index = (if index < length sp then (Ok [sp ! index], index + 1) else (Throw StopIteration, index))"

section \<open>Classes of characters\<close>

definition all_chars :: "(char \<Rightarrow> bool) \<Rightarrow> string \<Rightarrow> bool" where
  "all_chars P sp = (if sp = [] then False else list_all P sp)"

definition isAlpha :: "string \<Rightarrow> bool" where
  "isAlpha = all_chars (\<lambda>c. ascii c \<and> isalpha (uchar (ch c)))"

definition isAlphaNum :: "string \<Rightarrow> bool" where
  "isAlphaNum = all_chars (\<lambda>c. ascii c \<and> (isalpha (uchar (ch c)) \<or> isdigit (uchar (ch c))))"

definition isDigit :: "string \<Rightarrow> bool" where
  "isDigit = all_chars (\<lambda>c. ascii c \<and> isdigit (uchar (ch c)))"

definition isLower :: "string \<Rightarrow> bool" where
  "isLower = all_chars (\<lambda>c. islower (ch c))"

definition isSpace :: "string \<Rightarrow> bool" where
  "isSpace = all_chars (\<lambda>c. ascii c \<and> isspace (uchar (ch c)))"

definition isUpper :: "string \<Rightarrow> bool" where
  "isUpper = all_chars (\<lambda>c. isupper (ch c))"

section \<open>New strings\<close>

text \<open>The room for character codes is that of two characters, however many there are.\<close>

definition fromCharCode :: "(int \<Rightarrow> int) \<Rightarrow> int list \<Rightarrow> string res" where
  "fromCharCode room codes = filled room 2 (map to_char codes)"

text \<open>\<open>itosbuf\<close> of the portable runtime: the digits that the buffer has room for, and None when it has none for the sign.\<close>

fun itos_loop :: "nat \<Rightarrow> nat \<Rightarrow> nat \<Rightarrow> string \<Rightarrow> string" where
  "itos_loop radix 0 val ds = ds"
| "itos_loop radix (Suc n) val ds =
     (let ds = ''0123456789ABCDEF'' ! (val mod radix) # ds
      in if 0 < val div radix then itos_loop radix n (val div radix) ds else ds)"

definition itosbuf :: "nat \<Rightarrow> int \<Rightarrow> nat \<Rightarrow> string option" where
  "itosbuf room val radix =
     (if radix \<noteq> 10 \<and> radix \<noteq> 16 \<or> room < 2 then None
      else let ds = itos_loop radix (room - 1) (nat (abs val)) []
           in if val < 0 then (if room - 1 \<le> length ds then None else Some (CHR ''-'' # ds)) else Some ds)"

fun printable_loop :: "string \<Rightarrow> string" where
  "printable_loop [] = []"
| "printable_loop (c # cs) =
     (if isprint (uchar (ch c)) then [c]
      else let buf = the (itosbuf 4 (uchar (ch c)) 16) in CHR 0x5C # CHR ''u'' # replicate (4 - length buf) (CHR ''0'') @ buf)
     @ printable_loop cs"

definition printable :: "(int \<Rightarrow> int) \<Rightarrow> string \<Rightarrow> string res" where
  "printable room sp =
     (let nonprint = slen (filter (\<lambda>c. \<not> isprint (uchar (ch c))) sp)
      in if nonprint = 0 then Ok sp else filled room (slen sp + nonprint * 6 + 1) (printable_loop sp))"

definition quote :: "string \<Rightarrow> string" where
  "quote sp = CHR 0x22 # sp @ [CHR 0x22]"

text \<open>
  The bare string must not have a negative length. The result has the length of the bare string, which is that of the two parts
  that are copied.
\<close>

definition removeCharsFromString :: "string \<Rightarrow> int \<Rightarrow> int \<Rightarrow> string res" where
  "removeCharsFromString sp start end_arg =
     (let start = (if start < 0 then start + slen sp else start);
          start = (if start < 0 then 0 else start);
          end1 = (if end_arg < 0 then end_arg + slen sp else end_arg);
          end1 = (if end1 < 0 then 0 else end1);
          start = (if slen sp \<le> start then slen sp - 1 else start);
          end1 = (if slen sp < end1 then slen sp else end1)
      in if slen sp - (end1 - start) < 0 then Fault
         else Ok (take (nat start) sp @ drop (nat end1) sp))"

text \<open>Replacing a string, by a string or by what a function of the match gives.\<close>

definition replaceString :: "string \<Rightarrow> string \<Rightarrow> (string \<Rightarrow> int \<Rightarrow> string) \<Rightarrow> string res" where
  "replaceString sp pat replacement =
     map_res (\<lambda>index.
       if 0 \<le> index
       then take (nat index) sp @ replacement (take (length pat) (drop (nat index) sp)) index @ drop (nat index + length pat) sp
       else sp)
     (indexof (memory sp) (slen sp) pat 1)"

definition reverseString :: "string \<Rightarrow> string" where
  "reverseString sp = (if length sp \<le> 1 then sp else rev sp)"

text \<open>The characters that the loops of a slice copy; one behind the end is the NUL.\<close>

definition char_at :: "string \<Rightarrow> int \<Rightarrow> char" where
  "char_at sp i = (if 0 \<le> i \<and> i < slen sp then sp ! nat i else CHR 0x00)"

function slice_forward :: "string \<Rightarrow> int \<Rightarrow> int \<Rightarrow> int \<Rightarrow> string" where
  "slice_forward sp i lim stride =
     (if i < lim \<and> 0 < stride then char_at sp i # slice_forward sp (i + stride) lim stride else [])"
  by pat_completeness auto
termination
  by (relation "measure (\<lambda>(sp, i, lim, stride). nat (lim - i))") auto

function slice_backward :: "string \<Rightarrow> int \<Rightarrow> int \<Rightarrow> int \<Rightarrow> string" where
  "slice_backward sp i lim stride =
     (if lim < i \<and> stride < 0 then char_at sp i # slice_backward sp (i + stride) lim stride else [])"
  by pat_completeness auto
termination
  by (relation "measure (\<lambda>(sp, i, lim, stride). nat (i - lim))") auto

declare slice_forward.simps [simp del] slice_backward.simps [simp del]

definition sliceString :: "(int \<Rightarrow> int) \<Rightarrow> string \<Rightarrow> int \<Rightarrow> int option \<Rightarrow> int option \<Rightarrow> string res" where
  "sliceString room sp start end_arg step_arg =
     (let end1 = (case end_arg of Some e \<Rightarrow> e | None \<Rightarrow> slen sp);
          stride = (case step_arg of Some s \<Rightarrow> s | None \<Rightarrow> 1);
          start = (if start < 0 then start + slen sp else start);
          start = (if start < 0 then 0 else if slen sp \<le> start then slen sp else start);
          end1 = (if end1 < 0 then end1 + slen sp else end1);
          end1 = (if end1 < 0 then 0 else end1);
          end1 = (if slen sp \<le> end1 then slen sp else end1);
          stride = (if stride = 0 then 1 else stride);
          size1 = (if start < end1 then end1 - start else start - end1)
      in filled room (size1 div abs stride + 1)
           (if 0 < stride then slice_forward sp start end1 stride else slice_backward sp start end1 stride))"

definition MAXSSIZE :: int where
  "MAXSSIZE = 2 ^ 63 - 1"

fun split_chars :: "int \<Rightarrow> string \<Rightarrow> string list" where
  "split_chars limit [] = []"
| "split_chars limit (c # cs) = (if limit - 1 \<noteq> -1 \<and> c \<noteq> CHR 0x00 then [c] # split_chars (limit - 1) cs else [])"

text \<open>
  Splitting: \<open>cp\<close> is the beginning of the piece and \<open>mark\<close> the place where the delimiter is looked for. The limit counts
  these places, not the pieces.
\<close>

function split_loop :: "string \<Rightarrow> string \<Rightarrow> int \<Rightarrow> nat \<Rightarrow> nat \<Rightarrow> string list" where
  "split_loop sp delim limit cp mark =
     (if 0 < limit \<and> mark < length sp
      then if sncmp (drop mark sp) delim (length delim) = 0 \<and> delim \<noteq> []
           then take (mark - cp) (drop cp sp) # split_loop sp delim (limit - 1) (mark + length delim) (mark + length delim)
           else split_loop sp delim (limit - 1) cp (mark + 1)
      else [take (mark - cp) (drop cp sp)])"
  by pat_completeness auto
termination
  by (relation "measure (\<lambda>(sp, delim, limit, cp, mark). length sp - mark)") (auto simp: neq_Nil_conv)

declare split_loop.simps [simp del]

definition splitString :: "string \<Rightarrow> string \<Rightarrow> int option \<Rightarrow> string list" where
  "splitString sp delim arg =
     (let limit = (case arg of Some n \<Rightarrow> n | None \<Rightarrow> MAXSSIZE)
      in if delim = [] then split_chars limit sp else split_loop sp delim limit 0 0)"

definition ejsSubstring :: "string \<Rightarrow> int \<Rightarrow> int \<Rightarrow> string" where
  "ejsSubstring src start n =
     (let n = (if n < 0 then slen src - start else n)
      in if n < 0 \<or> slen src < start + n \<or> start < 0 then []
         else take (nat (min n (slen src))) (drop (nat start) src))"

definition substring :: "string \<Rightarrow> int \<Rightarrow> int option \<Rightarrow> string" where
  "substring sp start arg =
     (let end1 = (case arg of Some e \<Rightarrow> e | None \<Rightarrow> slen sp);
          start = (if start < 0 then 0 else start);
          start = (if slen sp \<le> start then slen sp - 1 else start);
          end1 = (if end1 < 0 then slen sp else end1);
          end1 = (if slen sp < end1 then slen sp else end1);
          (start, end1) = (if end1 < start then (end1, start) else (start, end1))
      in ejsSubstring sp start (end1 - start))"

text \<open>The first character of the empty string is its NUL.\<close>

definition toCamel :: "string \<Rightarrow> string" where
  "toCamel sp = (case sp of [] \<Rightarrow> [] | c # cs \<Rightarrow> to_char (tolower (uchar (ch c))) # cs)"

definition toPascal :: "string \<Rightarrow> string" where
  "toPascal sp = (case sp of [] \<Rightarrow> [] | c # cs \<Rightarrow> to_char (toupper (uchar (ch c))) # cs)"

definition ejsToLower :: "string \<Rightarrow> string" where
  "ejsToLower sp = map (\<lambda>c. to_char (tolower (uchar (ch c)))) sp"

definition ejsToUpper :: "string \<Rightarrow> string" where
  "ejsToUpper sp = map (\<lambda>c. to_char (toupper (uchar (ch c)))) sp"

text \<open>The buffer ends at the first NUL when the string is made from it.\<close>

fun literal_loop :: "string \<Rightarrow> string" where
  "literal_loop [] = []"
| "literal_loop (c # cs) = (if c = CHR 0x22 \<or> c = CHR 0x5C then [CHR 0x5C, c] else [c]) @ literal_loop cs"

definition ejsToLiteralString :: "string \<Rightarrow> string" where
  "ejsToLiteralString sp = c_string ([CHR 0x22] @ literal_loop sp @ [CHR 0x22])"

definition ejsTruncateString :: "string \<Rightarrow> int \<Rightarrow> string" where
  "ejsTruncateString sp n = take (nat (min n (slen sp))) sp"

section \<open>Tokens of a format\<close>

text \<open>The text that a number is parsed from is given to the parser of numbers, which is not modelled.\<close>

datatype scanned = Scanned_text string | Scanned_number string

fun tokenize_loop :: "string \<Rightarrow> string \<Rightarrow> scanned list res" where
  "tokenize_loop [] txt = Ok []"
| "tokenize_loop (f # fmt) txt =
     (if f = CHR 0x00 \<or> txt = [] then Ok []
      else if f \<noteq> CHR ''%'' then tokenize_loop fmt txt
      else let blank = (\<lambda>c. isspace (uchar (ch c)));
               tok1 = takeWhile (\<lambda>c. c \<noteq> CHR 0x00 \<and> \<not> blank c) txt;
               txt1 = dropWhile blank (drop (length tok1) txt)
           in if first fmt = CHR ''s'' then map_res ((#) (Scanned_text tok1)) (tokenize_loop fmt txt1)
              else if first fmt = CHR ''d'' then map_res ((#) (Scanned_number txt)) (tokenize_loop fmt txt1)
              else Throw ArgError)"

definition tokenize :: "string \<Rightarrow> string \<Rightarrow> scanned list res" where
  "tokenize sp fmt = tokenize_loop fmt sp"

section \<open>Trimming\<close>

function trim_blank_end :: "string \<Rightarrow> int \<Rightarrow> int \<Rightarrow> int" where
  "trim_blank_end sp start end1 =
     (if start \<le> end1 \<and> isspace (uchar (ch (char_at sp end1))) then trim_blank_end sp start (end1 - 1) else end1)"
  by pat_completeness auto
termination
  by (relation "measure (\<lambda>(sp, start, end1). nat (end1 + 1 - start))") auto

text \<open>Steps over copies of the pattern, forwards and backwards.\<close>

function trim_forward :: "string \<Rightarrow> string \<Rightarrow> nat \<Rightarrow> nat res" where
  "trim_forward sp pat mark =
     (if pat \<noteq> [] \<and> mark + length pat \<le> length sp
      then bind_res (indexof (drop mark (memory sp)) (slen pat) pat 1) (\<lambda>index.
             if index \<noteq> 0 then Ok mark else trim_forward sp pat (mark + length pat))
      else Ok mark)"
  by pat_completeness auto
termination
  by (relation "measure (\<lambda>(sp, pat, mark). length sp - mark)") (auto simp: neq_Nil_conv)

function trim_backward :: "string \<Rightarrow> string \<Rightarrow> int \<Rightarrow> int res" where
  "trim_backward sp pat mark =
     (if pat \<noteq> [] \<and> 0 \<le> mark
      then bind_res (indexof (drop (nat mark) (memory sp)) (slen pat) pat 1) (\<lambda>index.
             if index \<noteq> 0 then Ok mark else trim_backward sp pat (mark - slen pat))
      else Ok mark)"
  by pat_completeness auto
termination
  by (relation "measure (\<lambda>(sp, pat, mark). nat (mark + 1))") (auto simp: neq_Nil_conv)

declare trim_blank_end.simps [simp del] trim_forward.simps [simp del] trim_backward.simps [simp del]

definition trim :: "string \<Rightarrow> string option \<Rightarrow> bool \<Rightarrow> bool \<Rightarrow> string res" where
  "trim sp arg at_start at_end =
     (case arg of
        None \<Rightarrow>
          let start = (if at_start then slen (takeWhile (\<lambda>c. isspace (uchar (ch c))) sp) else 0);
              end1 = (if at_end then trim_blank_end sp start (slen sp - 1) else slen sp - 1) + 1
          in Ok (ejsSubstring sp start (end1 - start))
      | Some pat \<Rightarrow>
          if pat = [] \<or> length sp < length pat then Ok sp
          else bind_res (if at_start then trim_forward sp pat 0 else Ok 0) (\<lambda>start.
               bind_res (if at_end then trim_backward sp pat (slen sp - slen pat) else Ok (slen sp - slen pat)) (\<lambda>mark.
               Ok (ejsSubstring sp (int start) (mark + slen pat - int start)))))"

definition trimString :: "string \<Rightarrow> string option \<Rightarrow> string res" where
  "trimString sp arg = trim sp arg True True"

definition trimStartString :: "string \<Rightarrow> string option \<Rightarrow> string res" where
  "trimStartString sp arg = trim sp arg True False"

definition trimEndString :: "string \<Rightarrow> string option \<Rightarrow> string res" where
  "trimEndString sp arg = trim sp arg False True"

section \<open>Functions for C\<close>

fun starts_loop :: "string \<Rightarrow> string \<Rightarrow> string" where
  "starts_loop (a # as) (b # bs) = (if b \<noteq> CHR 0x00 \<and> a = b then starts_loop as bs else b # bs)"
| "starts_loop as bs = bs"

text \<open>0 stands for yes, and also for an empty pattern.\<close>

definition ejsStartsWithAsc :: "string \<Rightarrow> string \<Rightarrow> int" where
  "ejsStartsWithAsc sp pat =
     (if first pat = CHR 0x00 then 0 else if first (starts_loop sp pat) \<noteq> CHR 0x00 then -1 else 0)"

fun ejsCompareAsc :: "string \<Rightarrow> string \<Rightarrow> int" where
  "ejsCompareAsc (a # as) (b # bs) =
     (if a \<noteq> CHR 0x00 \<and> b \<noteq> CHR 0x00
      then if a = b then ejsCompareAsc as bs else if ch a < ch b then -1 else 1
      else if a = CHR 0x00 \<and> b \<noteq> CHR 0x00 then -1 else if b = CHR 0x00 \<and> a \<noteq> CHR 0x00 then 1 else 0)"
| "ejsCompareAsc [] bs = (if first bs = CHR 0x00 then 0 else -1)"
| "ejsCompareAsc as [] = (if first as = CHR 0x00 then 0 else 1)"

fun ejsCompareWide :: "string \<Rightarrow> string \<Rightarrow> nat \<Rightarrow> int" where
  "ejsCompareWide s1 s2 0 = 0"
| "ejsCompareWide s1 s2 (Suc n) =
     (if first s1 \<noteq> CHR 0x00 \<and> first s2 \<noteq> CHR 0x00
      then if first s1 = first s2 then ejsCompareWide (tl s1) (tl s2) n else if ch (first s1) < ch (first s2) then -1 else 1
      else if first s1 = CHR 0x00 \<and> first s2 = CHR 0x00 then 0 else if first s1 = CHR 0x00 then -1 else 1)"

definition ejsCompareSubstring :: "string \<Rightarrow> string \<Rightarrow> int \<Rightarrow> nat \<Rightarrow> int" where
  "ejsCompareSubstring sp1 sp2 offset n =
     (if offset < 0 \<or> slen sp2 \<le> offset then -1 else ejsCompareWide sp1 (drop (nat offset) sp2) n)"

fun char_from :: "int \<Rightarrow> string \<Rightarrow> int \<Rightarrow> int" where
  "char_from i [] c = -1"
| "char_from i (a # as) c = (if ch a = c then i else char_from (i + 1) as c)"

definition ejsContainsChar :: "string \<Rightarrow> int \<Rightarrow> int" where
  "ejsContainsChar sp c = char_from 0 sp c"

fun equal_prefix :: "string \<Rightarrow> string \<Rightarrow> bool res" where
  "equal_prefix as [] = Ok True"
| "equal_prefix [] (b # bs) = Fault"
| "equal_prefix (a # as) (b # bs) = (if a \<noteq> b then Ok False else equal_prefix as bs)"

fun pattern_from :: "string \<Rightarrow> string \<Rightarrow> nat \<Rightarrow> nat \<Rightarrow> int res" where
  "pattern_from str pat i 0 = Ok (-1)"
| "pattern_from str pat i (Suc k) =
     bind_res (equal_prefix (drop i str) pat) (\<lambda>m. if m then Ok (int i) else pattern_from str pat (i + 1) k)"

definition ejsContainsAsc :: "string \<Rightarrow> string \<Rightarrow> int res" where
  "ejsContainsAsc sp pat = (if first pat = CHR 0x00 then Ok 0 else pattern_from (memory sp) (c_string pat) 0 (length sp))"

text \<open>1 for yes and -1 for no.\<close>

definition ejsContainsString :: "string \<Rightarrow> string \<Rightarrow> int res" where
  "ejsContainsString sp pat = map_res (\<lambda>i. if 0 \<le> i then 1 else -1) (pattern_from (memory sp) pat 0 (length sp))"

definition caseCompare :: "string \<Rightarrow> string \<Rightarrow> int" where
  "caseCompare sp str = scmp sp str"

definition caselessCompare :: "string \<Rightarrow> string \<Rightarrow> int" where
  "caselessCompare sp str = scaselesscmp sp str"

end
