(* ===== verification/Lexing.thy ===== *)
theory Lexing
  imports Lexer "HOL-Library.Sublist"
begin

text \<open>
  What the lexical analyser guarantees: it stays inside of the input, counts the lines, and gets to the end; operators are the
  longest that the input has; a text printed from words, numbers, strings and operators is read back; looking
  ahead changes nothing. At the end are the inputs that it reads wrongly.
\<close>

section \<open>Positions\<close>

definition newlines :: "string \<Rightarrow> int" where
  "newlines cs = int (length (filter (\<lambda>c. c = CHR 0x0A) cs))"

definition lines_ok :: "lexer \<Rightarrow> bool" where
  "lines_ok s \<longleftrightarrow> nextChar s \<le> length (buf s) \<and> lineNumber (loc s) = 1 + newlines (take (nextChar s) (buf s))"

text \<open>The buffer is the same, the position is not before another one, and the line number is right.\<close>

definition beyond :: "string \<Rightarrow> nat \<Rightarrow> lexer \<Rightarrow> bool" where
  "beyond b p s \<longleftrightarrow> buf s = b \<and> p \<le> nextChar s \<and> lines_ok s"

text \<open>A character has just been read behind the position, so that it can be put back.\<close>

definition just_read :: "string \<Rightarrow> nat \<Rightarrow> int \<Rightarrow> lexer \<Rightarrow> bool" where
  "just_read b p c s \<longleftrightarrow> beyond b p s \<and> (c \<noteq> 0 \<longrightarrow> p < nextChar s \<and> c = ch (b ! (nextChar s - 1))
     \<and> (c = ch CHR 0x0A \<longrightarrow> lineNumber (lastLoc s) = lineNumber (loc s) - 1))"

lemma newlines_simps [simp]: "newlines [] = 0" "newlines (xs @ ys) = newlines xs + newlines ys"
  "newlines (c # cs) = (if c = CHR 0x0A then 1 else 0) + newlines cs"
  by (simp_all add: newlines_def)

lemma beyond_token_ops [simp]:
  "beyond b p (addCharToToken c s) = beyond b p s"
  "beyond b p (setTokenID t sub g s) = beyond b p s"
  "beyond b p (finalizeToken s) = beyond b p s"
  "beyond b p (initializeToken s) = beyond b p s"
  "beyond b p (warn E msg s) = beyond b p s"
  "beyond b p (doc_comment E s) = beyond b p s"
  "beyond b p (s\<lparr>warnings := w\<rparr>) = beyond b p s"
  "beyond b p (s\<lparr>tok := k\<rparr>) = beyond b p s"
  by (simp_all add: beyond_def lines_ok_def addCharToToken_def setTokenID_def finalizeToken_def initializeToken_def warn_def
      doc_comment_def Let_def)

lemma just_read_token_ops [simp]:
  "just_read b p c (addCharToToken d s) = just_read b p c s"
  "just_read b p c (warn E msg s) = just_read b p c s"
  by (simp_all add: just_read_def addCharToToken_def warn_def Let_def beyond_def lines_ok_def)

lemma beyond_addString [simp]: "beyond b p (addStringToToken cs s) = beyond b p s"
  by (induction cs arbitrary: s) simp_all

lemma just_read_addString [simp]: "just_read b p c (addStringToToken cs s) = just_read b p c s"
  by (induction cs arbitrary: s) simp_all

lemma beyond_makeToken [simp]:
  "beyond b p (makeToken c t g s) = beyond b p s"
  "beyond b p (makeSubToken c t sub g s) = beyond b p s"
  by (simp_all add: makeToken_def makeSubToken_def)

lemma just_readD: "just_read b p c s \<Longrightarrow> beyond b p s"
  by (simp add: just_read_def)

lemma ch_zero [simp]: "ch CHR 0x00 = 0"
  by (simp add: char_val_def)

lemma ch_eq_0: "ch a = 0 \<longleftrightarrow> a = CHR 0x00"
  using char_val_inject [of a "CHR 0x00"] by simp

lemma ch_lits [simp]: "(ch x = ch y) = (x = y)" "(ch x = 0) = (x = CHR 0x00)" "(0 = ch x) = (x = CHR 0x00)"
  using char_val_inject ch_eq_0 [of x] by auto

lemma getNextChar_reads:
  assumes "beyond b p s" "getNextChar s = (c, s')"
  shows "just_read b p c s'" "c \<noteq> 0 \<Longrightarrow> beyond b (Suc p) s'"
proof -
  have t: "take (Suc n) b = take n b @ [b ! n]" if "n < length b" for n using that by (simp add: take_Suc_conv_app_nth)
  from assms t show "just_read b p c s'"
    by (auto simp: getNextChar_def beyond_def just_read_def lines_ok_def Let_def char_val_inject split: if_splits)
  from assms t show "c \<noteq> 0 \<Longrightarrow> beyond b (Suc p) s'"
    by (auto simp: getNextChar_def beyond_def lines_ok_def Let_def split: if_splits)
qed

lemma putBackChar_back:
  assumes "just_read b p c s"
  shows "beyond b p (putBackChar c s)"
proof (cases "c = 0")
  case True
  with assms show ?thesis by (simp add: putBackChar_def just_read_def)
next
  case False
  with assms obtain n where n: "nextChar s = Suc n" "n < length b" "p \<le> n" "c = ch (b ! n)" "buf s = b"
    "lineNumber (loc s) = 1 + newlines (take (Suc n) b)" "c = ch CHR 0x0A \<Longrightarrow> lineNumber (lastLoc s) = lineNumber (loc s) - 1"
    by (cases "nextChar s") (auto simp: just_read_def beyond_def lines_ok_def)
  have t: "take (Suc n) b = take n b @ [b ! n]" using n by (simp add: take_Suc_conv_app_nth)
  show ?thesis using n False t
    by (auto simp: putBackChar_def beyond_def lines_ok_def Let_def char_val_inject)
qed

lemma putBack_add [simp]: "beyond b p (putBackChar c (addCharToToken d s)) = beyond b p (putBackChar c s)"
  by (simp add: putBackChar_def beyond_def lines_ok_def addCharToToken_def Let_def)

lemma advance_reads:
  assumes "beyond b p s" "\<And>c t. just_read b p c t \<Longrightarrow> (c \<noteq> 0 \<Longrightarrow> beyond b (Suc p) t) \<Longrightarrow> Q (f c t)"
  shows "Q (advance s f)"
  using assms getNextChar_reads by (auto simp: advance_def split: prod.splits)

definition reads :: "string \<Rightarrow> nat \<Rightarrow> int \<times> lexer \<Rightarrow> bool" where
  "reads b p r \<longleftrightarrow> just_read b p (fst r) (snd r)"

lemma beyond_Suc: "beyond b (Suc p) s \<Longrightarrow> beyond b p s"
  by (simp add: beyond_def)

lemma take_chars_reads: "just_read b p c s \<Longrightarrow> take_chars P c s = (c', s') \<Longrightarrow> just_read b p c' s'"
proof (induction P c s rule: take_chars.induct)
  case (1 P c s)
  show ?case
  proof (cases "c \<noteq> 0 \<and> P c")
    case True
    obtain d t where n: "getNextChar (addCharToToken c s) = (d, t)" by fastforce
    have "just_read b p d t" by (rule getNextChar_reads(1) [OF _ n]) (use "1.prems"(1) just_readD in simp)
    moreover have "take_chars P d t = (c', s')" using "1.prems"(2) True n by (subst (asm) take_chars.simps) (simp add: advance_def)
    ultimately show ?thesis by (rule "1.IH" [OF True n])
  next
    case False
    with 1 show ?thesis by (subst (asm) take_chars.simps) auto
  qed
qed

lemma take_chars_reads': "just_read b p c s \<Longrightarrow> reads b p (take_chars P c s)"
  by (cases "take_chars P c s") (simp add: reads_def take_chars_reads)

lemma getNextChar_reads': "beyond b p s \<Longrightarrow> reads b p (getNextChar s)"
  by (cases "getNextChar s") (simp add: reads_def getNextChar_reads)

lemma readsD: "reads b p (c, s) \<Longrightarrow> just_read b p c s"
  by (simp add: reads_def)

lemma decode_loop_beyond: "beyond b p s \<Longrightarrow> beyond b p (snd (decode_loop radix n acc s))"
proof (induction n arbitrary: acc s)
  case (Suc n)
  show ?case unfolding decode_loop.simps
    by (rule advance_reads [OF Suc.prems]) (auto intro: putBackChar_back Suc.IH just_readD)
qed simp

lemma decodeNumber_beyond: "beyond b p s \<Longrightarrow> beyond b p (snd (decodeNumber radix n s))"
  using decode_loop_beyond [of b p s radix n "[]"] by (simp add: decodeNumber_def case_prod_beta)

lemma number_end_beyond: "reads b p r \<Longrightarrow> beyond b p (number_end r)"
  by (simp add: number_end_def reads_def putBackChar_back case_prod_beta)

lemma advance_chars: "beyond b p s \<Longrightarrow> reads b p (advance s (take_chars P))"
  by (erule advance_reads) (rule take_chars_reads')

lemma fraction_reads: "just_read b p c s \<Longrightarrow> reads b p (fraction c s)"
  using getNextChar_reads' [of b p "addCharToToken c s"]
  by (auto simp: fraction_def reads_def just_readD case_prod_beta intro!: take_chars_reads' [unfolded reads_def])

lemma exponent_reads:
  assumes "just_read b p c s"
  shows "reads b p (exponent c s)"
proof -
  have "reads b p (advance (addCharToToken c s) (\<lambda>c s.
           case if c = ch CHR ''+'' \<or> c = ch CHR ''-'' then getNextChar (addCharToToken c s) else (c, s) of (c, s) \<Rightarrow>
           take_chars (\<lambda>c. isdigit (uchar c)) c s))"
  proof (rule advance_reads)
    fix c t
    assume r: "just_read b p c t"
    then show "reads b p (case if c = ch CHR ''+'' \<or> c = ch CHR ''-'' then getNextChar (addCharToToken c t) else (c, t) of (c, s) \<Rightarrow>
        take_chars (\<lambda>c. isdigit (uchar c)) c s)"
      using getNextChar_reads' [of b p "addCharToToken c t"]
      by (auto simp: just_readD reads_def case_prod_beta intro!: take_chars_reads' [unfolded reads_def])
  qed (use assms in \<open>simp add: just_readD\<close>)
  then show ?thesis using assms by (simp add: exponent_def reads_def)
qed

lemma number_rest_beyond:
  assumes "reads b p r"
  shows "beyond b p (case r of (c, s) \<Rightarrow> case fraction c s of (c, s) \<Rightarrow> number_end (exponent c s))"
    "beyond b p (case r of (c, s) \<Rightarrow> number_end (exponent c s))"
  using fraction_reads [OF assms [unfolded reads_def]] assms
  by (simp_all add: case_prod_beta number_end_beyond exponent_reads reads_def [of b p r]
      reads_def [of b p "fraction (fst r) (snd r)"])

text \<open>A number begins with a digit or a dot, so that its first character is never put back.\<close>

lemma float_number_beyond:
  assumes "beyond b p s" "isdigit (uchar c) \<or> c = ch CHR ''.''" "c \<noteq> 0"
  shows "beyond b p (float_number c s)"
proof (cases "isdigit (uchar c)")
  case True
  then have "float_number c s = (case advance (addCharToToken c s) (take_chars (\<lambda>c. isdigit (uchar c))) of (c, s) \<Rightarrow>
      case fraction c s of (c, s) \<Rightarrow> number_end (exponent c s))"
    using assms(3) by (subst float_number_def, subst take_chars.simps) simp
  with advance_chars [of b p "addCharToToken c s" "\<lambda>c. isdigit (uchar c)"] number_rest_beyond(1) assms(1) show ?thesis
    by (simp only: beyond_token_ops)
next
  case False
  then have c: "c = ch CHR ''.''" using assms(2) by simp
  then have f: "fraction c s = advance (addCharToToken c s) (take_chars (\<lambda>c. isdigit (uchar c)))"
    by (simp add: fraction_def advance_def)
  have "take_chars (\<lambda>c. isdigit (uchar c)) c s = (c, s)" using False by (subst take_chars.simps) simp
  then have "float_number c s = (case advance (addCharToToken c s) (take_chars (\<lambda>c. isdigit (uchar c))) of (c, s) \<Rightarrow>
      number_end (exponent c s))"
    by (simp add: float_number_def f)
  with advance_chars [of b p "addCharToToken c s" "\<lambda>c. isdigit (uchar c)"] number_rest_beyond(2) assms(1) show ?thesis
    by (simp only: beyond_token_ops)
qed

lemma ch_simps: "ch CHR ''0'' = 48" "ch CHR ''.'' = 46" "ch CHR 0x5C = 92"
  by (simp_all add: char_val_def)

lemma makeNumberToken_beyond:
  assumes "beyond b p s" "isdigit (uchar c) \<or> c = ch CHR ''.''" "c \<noteq> 0"
  shows "beyond b p (makeNumberToken c s)"
proof (cases "c = ch CHR ''0''")
  case True
  show ?thesis unfolding makeNumberToken_def if_P [OF True]
  proof (rule advance_reads [OF assms(1)])
    fix d t
    assume r: "just_read b p d t"
    have o: "beyond b p (number_end (take_chars isoctal d (addCharToToken (ch CHR ''0'') t)))"
      using take_chars_reads' [of b p d "addCharToToken (ch CHR ''0'') t" isoctal] r
      by (simp add: number_end_beyond)
    have "beyond b p (advance (addCharToToken d (addCharToToken (ch CHR ''0'') t)) (\<lambda>c s. number_end (take_chars isxdigit c s)))"
    proof (rule advance_reads)
      fix e u
      assume "just_read b p e u"
      from take_chars_reads' [OF this, of isxdigit] show "beyond b p (number_end (take_chars isxdigit e u))"
        by (rule number_end_beyond)
    qed (use r in \<open>simp add: just_readD\<close>)
    moreover have "beyond b p (float_number (ch CHR ''0'') (putBackChar d t))"
      by (rule float_number_beyond [OF putBackChar_back [OF r]]) (simp_all add: isdigit_def uchar_def ch_simps)
    ultimately show "beyond b p (if tolower (uchar d) = ch CHR ''x''
        then advance (addCharToToken d (addCharToToken (ch CHR ''0'') t)) (\<lambda>c s. number_end (take_chars isxdigit c s))
        else if isoctal d then number_end (take_chars isoctal d (addCharToToken (ch CHR ''0'') t))
        else float_number (ch CHR ''0'') (putBackChar d t))" using o by simp
  qed
next
  case False
  with float_number_beyond [OF assms] show ?thesis by (simp add: makeNumberToken_def)
qed

lemma alpha_escape_beyond: "beyond b p s \<Longrightarrow> beyond b p (snd (alpha_escape c s))"
  using decodeNumber_beyond [of b p s 16 4] by (simp add: alpha_escape_def)

lemma alpha_loop_reads: "just_read b p c s \<Longrightarrow> reads b p (alpha_loop c s)"
proof (induction c s rule: alpha_loop.induct)
  case (1 c s)
  show ?case
  proof (cases "c \<noteq> 0 \<and> alpha_part c")
    case True
    show ?thesis
    proof (cases "c = ch CHR 0x5C")
      case esc: True
      obtain d t where n: "getNextChar s = (d, t)" by fastforce
      have r: "just_read b p d t" by (rule getNextChar_reads(1) [OF just_readD n]) (rule "1.prems")
      show ?thesis
      proof (cases "d = ch CHR 0x0A \<or> d = ch CHR 0x0D")
        case True
        with n r esc \<open>c \<noteq> 0 \<and> alpha_part c\<close> show ?thesis
          by (subst alpha_loop.simps) (auto simp: advance_def reads_def)
      next
        case False
        obtain e u where e: "alpha_escape d t = (e, u)" by fastforce
        obtain f v where m: "getNextChar (addCharToToken e u) = (f, v)" by fastforce
        have "just_read b p f v"
          by (rule getNextChar_reads(1) [OF _ m]) (use alpha_escape_beyond [OF just_readD [OF r], of d] e in simp)
        from 1(1) [OF True esc n False e [symmetric] m this] show ?thesis
          using n e m esc True False by (subst alpha_loop.simps) (simp add: advance_def)
      qed
    next
      case False
      obtain d t where n: "getNextChar (addCharToToken c s) = (d, t)" by fastforce
      have "just_read b p d t" by (rule getNextChar_reads(1) [OF _ n]) (use "1.prems" just_readD in simp)
      from 1(2) [OF True False n this] show ?thesis
        using n True False by (subst alpha_loop.simps) (simp add: advance_def)
    qed
  next
    case False
    with "1.prems" show ?thesis by (subst alpha_loop.simps) (auto simp: reads_def)
  qed
qed

lemma makeAlphaToken_beyond:
  assumes "beyond b p s" "alpha_part c" "c \<noteq> 0" "c \<noteq> ch CHR 0x5C"
  shows "beyond b p (makeAlphaToken c s)"
proof -
  have "alpha_loop c s = advance (addCharToToken c s) alpha_loop" using assms by (subst alpha_loop.simps) simp
  moreover have "reads b p (advance (addCharToToken c s) alpha_loop)"
  proof (rule advance_reads [where Q = "reads b p"])
    show "beyond b p (addCharToToken c s)" using assms(1) by simp
  qed (rule alpha_loop_reads)
  ultimately show ?thesis
    by (auto simp: makeAlphaToken_def reads_def case_prod_beta Let_def putBackChar_back split: option.splits)
qed

lemma escape_beyond: "beyond b p s \<Longrightarrow> beyond b p (snd (escape c s))"
  by (simp add: escape_def decodeNumber_beyond)

lemma quoted_char_beyond: "beyond b p s \<Longrightarrow> beyond b p (snd (quoted_char c s))"
  using getNextChar_reads' [of b p s] escape_beyond [of b p "snd (getNextChar s)" "fst (getNextChar s)"]
  by (auto simp: quoted_char_def advance_def case_prod_beta reads_def just_readD)

lemma quoted_loop_beyond: "beyond b p s \<Longrightarrow> beyond b p (quoted_loop quote c s)"
proof (induction quote c s rule: quoted_loop.induct)
  case (1 quote c s)
  show ?case
  proof (cases "c \<noteq> 0 \<and> c \<noteq> quote")
    case True
    obtain d t where q: "quoted_char c s = (d, t)" by fastforce
    obtain e u where n: "getNextChar (addCharToToken d t) = (e, u)" by fastforce
    have "just_read b p e u"
      by (rule getNextChar_reads(1) [OF _ n]) (use quoted_char_beyond [OF "1.prems", of c] q in simp)
    from 1(1) [OF True q [symmetric] n just_readD [OF this]] show ?thesis
      using True q n by (subst quoted_loop.simps) (simp add: advance_def)
  next
    case False
    with "1.prems" show ?thesis by (subst quoted_loop.simps) auto
  qed
qed

lemma makeQuotedToken_beyond: "beyond b p s \<Longrightarrow> beyond b p (makeQuotedToken c s)"
  unfolding makeQuotedToken_def beyond_token_ops
  by (rule advance_reads) (auto intro: quoted_loop_beyond just_readD)

lemma comment_char_beyond: "beyond b p s \<Longrightarrow> beyond b p (snd (snd (comment_char E c s)))"
  using getNextChar_reads' [of b p s]
  by (auto simp: comment_char_def star_def slash_def advance_def case_prod_beta reads_def just_readD putBackChar_back)

lemma comment_loop_beyond: "beyond b p s \<Longrightarrow> beyond b p (snd (comment_loop E form l s))"
proof (induction E form l s rule: comment_loop.induct)
  case (1 E form l s)
  obtain c t where n: "getNextChar s = (c, t)" by fastforce
  obtain e c2 t2 where k: "comment_char E c t = (e, c2, t2)" by (cases "comment_char E c t") auto
  have t: "beyond b p t" using getNextChar_reads(1) [OF "1.prems" n] by (rule just_readD)
  have t2: "beyond b p t2" using comment_char_beyond [OF t, of E c] k by simp
  show ?case
  proof (cases "c \<le> 0")
    case True
    with t n show ?thesis by (subst comment_loop.simps) (simp add: advance_def)
  next
    case c: False
    show ?thesis
    proof (cases "form = ch CHR ''/''")
      case True
      show ?thesis using 1(1) [OF n c True] t n c True
        by (subst comment_loop.simps) (auto simp: advance_def)
    next
      case False
      show ?thesis using 1(2) [OF n c False k [symmetric] refl] t2 n k c False
        by (subst comment_loop.simps) (auto simp: advance_def)
    qed
  qed
qed

lemma getComment_beyond: "beyond b p s \<Longrightarrow> beyond b p (snd (getComment E c s))"
  by (simp add: getComment_def comment_loop_beyond)

lemma several_beyond:
  assumes "beyond b p s" "(c, f) \<in> set several"
  shows "beyond b p (f s)"
proof -
  have r: "beyond b p (advance s g)"
    if "beyond b p s" "\<And>c t. just_read b p c t \<Longrightarrow> beyond b p (g c t)" for g s
    by (rule advance_reads [where Q = "beyond b p"]) (use that in auto)
  from assms(2) show ?thesis
    by (auto simp: several_def lex_plus_def lex_minus_def lex_mul_def lex_mod_def lex_dot_def lex_colon_def lex_not_def
        lex_and_def lex_less_def lex_equal_def lex_greater_def lex_xor_def lex_or_def assms(1) putBackChar_back just_readD
        makeNumberToken_beyond intro!: r)
qed

lemma makeToken_id [simp]:
  "tokenId (tok (makeToken c t g s)) = t" "subId (tok (makeToken c t g s)) = -1" "groupMask (tok (makeToken c t g s)) = g"
  "tokenId (tok (makeSubToken c t sub g s)) = t" "subId (tok (makeSubToken c t sub g s)) = sub"
  "groupMask (tok (makeSubToken c t sub g s)) = g"
  by (simp_all add: makeToken_def makeSubToken_def finalizeToken_def setTokenID_def set_loc_def)

fun turn_state :: "turn \<Rightarrow> lexer" where
  "turn_state (Token s) = s"
| "turn_state (Again s) = s"

lemma lex_divide_beyond:
  assumes "beyond b p s"
  shows "beyond b p (turn_state (lex_divide E s))"
  unfolding lex_divide_def
proof (rule advance_reads [OF assms])
  fix c t
  assume r: "just_read b p c t"
  have "beyond b p (snd (getComment E d t))" for d by (rule getComment_beyond [OF just_readD [OF r]])
  with putBackChar_back [OF r] just_readD [OF r]
  show "beyond b p (turn_state (if c = ch CHR ''='' then Token (makeSubToken c T_ASSIGN T_DIV_ASSIGN op_assign (addCharToToken (ch CHR ''/'') t))
     else if c = ch CHR ''>'' then Token (makeToken c T_SLASH_GT G_OPERATOR (addCharToToken (ch CHR ''/'') t))
     else if c = ch CHR ''*'' \<or> c = ch CHR ''/''
     then case getComment E c t of (rc, s) \<Rightarrow> if rc < 0 then Token s else Again (initializeToken (doc_comment E s))
     else Token (makeToken (ch CHR ''/'') T_DIV G_OPERATOR (putBackChar c t))))"
    by (auto simp: case_prod_beta)
qed

lemma lex_default_beyond:
  assumes "beyond b p s" "c \<noteq> 0"
  shows "beyond b p (turn_state (lex_default c s))"
proof -
  have "beyond b p (turn_state (advance s (\<lambda>c s. if c = ch CHR 0x0A then Again s else Token (makeToken 0 T_ERR 0 (putBackChar c s)))))"
    by (rule advance_reads [OF assms(1)]) (simp add: putBackChar_back just_readD)
  with assms makeNumberToken_beyond [OF assms(1) _ assms(2)] makeAlphaToken_beyond [OF assms(1) _ assms(2)] show ?thesis
    by (auto simp: lex_default_def alpha_part_def)
qed

lemma scan_turn_beyond:
  assumes "beyond b p s" "c \<noteq> 0"
  shows "beyond b p (turn_state (scan_turn E c s))"
proof -
  have "beyond b p (f s)" if "map_of several c = Some f" for f
    using several_beyond [OF assms(1) map_of_SomeD [OF that]] .
  with assms lex_divide_beyond [OF assms(1)] lex_default_beyond [OF assms] makeQuotedToken_beyond [OF assms(1)] show ?thesis
    by (auto simp: scan_turn_def split: option.splits)
qed

text \<open>Every token but the end of the input takes a character at least.\<close>

lemma scan_token_beyond:
  "beyond b p s \<Longrightarrow> beyond b p (scan_token E s) \<and> (tokenId (tok (scan_token E s)) \<noteq> T_EOF \<longrightarrow> beyond b (Suc p) (scan_token E s))"
proof (induction E s arbitrary: p rule: scan_token.induct)
  case (1 E s)
  obtain c t where n: "getNextChar s = (c, t)" by fastforce
  have u: "scan_token E s = (case scan_turn E c t of Token s \<Rightarrow> s | Again s \<Rightarrow> scan_token E s)"
    using n by (subst scan_token.simps) (simp add: advance_def)
  show ?case
  proof (cases "c = 0")
    case True
    with getNextChar_reads(1) [OF "1.prems" n] show ?thesis by (simp add: u scan_turn_0 just_readD)
  next
    case False
    note t = scan_turn_beyond [OF getNextChar_reads(2) [OF "1.prems" n False] False, of E]
    show ?thesis
    proof (cases "scan_turn E c t")
      case (Token v)
      with t show ?thesis by (simp add: u beyond_Suc)
    next
      case (Again v)
      with 1(1) [OF n Again, of "Suc p"] t show ?thesis by (auto simp: u beyond_Suc)
    qed
  qed
qed

section \<open>Getting to the end\<close>

text \<open>The tokens that a parser reads one after the other.\<close>

fun tokens :: "lex_env \<Rightarrow> nat \<Rightarrow> reader \<Rightarrow> token list \<times> reader" where
  "tokens E 0 cp = ([], cp)"
| "tokens E (Suc n) cp =
     (case ecGetToken E cp of (i, cp) \<Rightarrow> case tokens E n cp of (ts, cp') \<Rightarrow>
        ((case current cp of None \<Rightarrow> ts | Some t \<Rightarrow> t # ts), cp'))"

lemma tokens_add: "snd (tokens E (k + m) cp) = snd (tokens E m (snd (tokens E k cp)))"
  by (induction k arbitrary: cp) (simp_all add: case_prod_beta)

lemma ecGetToken_fresh:
  assumes "beyond b p (stream cp)" "putback cp = []" "ecGetToken E cp = (i, cp')"
  shows "\<exists>t. current cp' = Some t \<and> i = tokenId t \<and> putback cp' = [] \<and> beyond b p (stream cp')
    \<and> (tokenId t \<noteq> T_EOF \<longrightarrow> beyond b (Suc p) (stream cp'))"
proof -
  have "beyond b p (initializeToken ((stream cp)\<lparr>tok := new_token\<rparr>))" using assms(1) by simp
  from scan_token_beyond [OF this, of E] assms(2,3) show ?thesis by (auto simp: ecGetToken_def Let_def)
qed

lemma tokens_beyond:
  "beyond b p (stream cp) \<Longrightarrow> putback cp = [] \<Longrightarrow> tokens E n cp = (ts, cp') \<Longrightarrow>
     length ts = n \<and> putback cp' = [] \<and> beyond b p (stream cp')
     \<and> (T_EOF \<notin> tokenId ` set ts \<longrightarrow> beyond b (p + n) (stream cp'))"
proof (induction n arbitrary: p cp ts cp')
  case (Suc n)
  obtain i cp1 where g: "ecGetToken E cp = (i, cp1)" by fastforce
  from ecGetToken_fresh [OF Suc.prems(1,2) g] obtain t where
    t: "current cp1 = Some t" "putback cp1 = []" "beyond b p (stream cp1)"
      "tokenId t \<noteq> T_EOF \<Longrightarrow> beyond b (Suc p) (stream cp1)" by blast
  obtain us cp2 where r: "tokens E n cp1 = (us, cp2)" by fastforce
  with Suc.prems(3) g t(1) have e: "ts = t # us" "cp' = cp2" by auto
  from Suc.IH [OF t(3,2) r] Suc.IH [OF t(4) t(2) r] show ?case by (auto simp: e)
qed simp

lemma ecOpenMemoryStream_beyond:
  assumes "0 < n" "n \<le> int (length contents)"
  shows "beyond (take (nat n) contents) 0 (stream (ecOpenMemoryStream contents n))" "putback (ecOpenMemoryStream contents n) = []"
proof -
  let ?s = "ecCreateStream\<lparr>buf := take (nat n) contents, nextChar := 0\<rparr>"
  have "beyond (take (nat n) contents) 0 ?s" by (simp add: beyond_def lines_ok_def ecCreateStream_def start_location_def)
  then have "beyond (take (nat n) contents) 0 (advance ?s putBackChar)"
    by (rule advance_reads) (rule putBackChar_back)
  with assms(1) show "beyond (take (nat n) contents) 0 (stream (ecOpenMemoryStream contents n))"
    by (simp add: ecOpenMemoryStream_def ecSetStreamBuf_def Let_def)
qed (simp add: ecOpenMemoryStream_def)

text \<open>
  C30: However many tokens are read from a text, the lexical analyser stays inside of it, the line number of its location is
  one more than the number of line ends up to its position, whatever was read ahead and put back, and reading further tokens
  never moves the position back.
\<close>

theorem lexer_counts_lines:
  assumes "0 < n" "n \<le> int (length contents)"
  shows "let s = stream (snd (tokens E k (ecOpenMemoryStream contents n)));
      s' = stream (snd (tokens E (k + m) (ecOpenMemoryStream contents n)))
    in buf s = take (nat n) contents \<and> nextChar s \<le> nat n \<and> nextChar s \<le> nextChar s'
     \<and> lineNumber (loc s) = 1 + newlines (take (nextChar s) contents)"
proof -
  let ?cp = "snd (tokens E k (ecOpenMemoryStream contents n))"
  from tokens_beyond [OF ecOpenMemoryStream_beyond [OF assms], of E k "fst (tokens E k (ecOpenMemoryStream contents n))" ?cp]
  have b: "beyond (take (nat n) contents) 0 (stream ?cp)" by simp
  moreover from b have "nextChar (stream ?cp) \<le> length (take (nat n) contents)" unfolding beyond_def lines_ok_def by metis
  then have "nextChar (stream ?cp) \<le> nat n" by simp
  moreover have "nextChar (stream ?cp) \<le> nextChar (stream (snd (tokens E m ?cp)))"
  proof -
    have "beyond (take (nat n) contents) (nextChar (stream ?cp)) (stream ?cp)" using b by (simp add: beyond_def)
    moreover have "putback ?cp = []"
      using tokens_beyond [OF ecOpenMemoryStream_beyond [OF assms], of E k "fst (tokens E k (ecOpenMemoryStream contents n))" ?cp] by simp
    ultimately have "beyond (take (nat n) contents) (nextChar (stream ?cp)) (stream (snd (tokens E m ?cp)))"
      using tokens_beyond [of _ _ ?cp E m "fst (tokens E m ?cp)" "snd (tokens E m ?cp)"] by simp
    then show ?thesis by (simp add: beyond_def)
  qed
  moreover have "snd (tokens E (k + m) (ecOpenMemoryStream contents n)) = snd (tokens E m ?cp)"
    by (rule tokens_add)
  ultimately show ?thesis by (simp add: Let_def beyond_def lines_ok_def min_def)
qed

theorem lexer_counts_lines_witness:
  "let s = stream (snd (tokens \<lparr>doc = False, warnLevel = 0\<rparr> 2 (ecOpenMemoryStream ''a = 1;'' 6)));
      s' = stream (snd (tokens \<lparr>doc = False, warnLevel = 0\<rparr> (2 + 1) (ecOpenMemoryStream ''a = 1;'' 6)))
    in buf s = take (nat 6) ''a = 1;'' \<and> nextChar s \<le> nat 6 \<and> nextChar s \<le> nextChar s' \<and> lineNumber (loc s) = 1 + newlines (take (nextChar s) ''a = 1;'')"
  by (rule lexer_counts_lines) simp_all

text \<open>
  C29: Reading tokens comes to the end: one of the first n + 1 tokens of a text of n characters is the token for the end of the
  input (or for a NUL in it), so that no text makes the analyser give other tokens for ever.
\<close>

theorem lexing_ends:
  assumes "0 < n" "n \<le> int (length contents)"
  shows "\<exists>t \<in> set (fst (tokens E (nat n + 1) (ecOpenMemoryStream contents n))). tokenId t = T_EOF"
proof (rule ccontr)
  let ?r = "tokens E (nat n + 1) (ecOpenMemoryStream contents n)"
  assume "\<not> ?thesis"
  then have "T_EOF \<notin> tokenId ` set (fst ?r)" by auto
  with tokens_beyond [OF ecOpenMemoryStream_beyond [OF assms], of E "nat n + 1" "fst ?r" "snd ?r"]
  have "beyond (take (nat n) contents) (nat n + 1) (stream (snd ?r))" by simp
  then show False by (auto simp: beyond_def lines_ok_def)
qed

theorem lexing_ends_witness:
  "\<exists>t \<in> set (fst (tokens \<lparr>doc = True, warnLevel = 1\<rparr> (nat 8 + 1) (ecOpenMemoryStream ''/* x */a'' 8))). tokenId t = T_EOF"
  by (rule lexing_ends) simp_all

section \<open>What is left to read\<close>

definition rest :: "lexer \<Rightarrow> string" where
  "rest s = drop (nextChar s) (buf s)"

definition step :: "lexer \<Rightarrow> lexer" where
  "step s = snd (getNextChar s)"

lemma rest_inside: "rest s = x # xs \<Longrightarrow> nextChar s < length (buf s)"
  by (metis drop_eq_Nil list.distinct(1) not_le rest_def)

lemma getNextChar_rest:
  "rest s = x # xs \<Longrightarrow> getNextChar s = (ch x, step s)"
  "rest s = [] \<Longrightarrow> getNextChar s = (0, s)"
proof -
  show "getNextChar s = (ch x, step s)" if "rest s = x # xs"
  proof -
    from that have d: "drop (nextChar s) (buf s) = x # xs" by (simp add: rest_def)
    with nth_via_drop [OF d] rest_inside [OF that] show ?thesis by (simp add: step_def getNextChar_def Let_def)
  qed
qed (simp add: rest_def getNextChar_def)

lemma advance_rest:
  "rest s = x # xs \<Longrightarrow> advance s f = f (ch x) (step s)"
  "rest s = [] \<Longrightarrow> advance s f = f 0 s"
  by (simp_all add: advance_def getNextChar_rest)

lemma rest_step [simp]: "rest s = x # xs \<Longrightarrow> rest (step s) = xs"
  using rest_inside [of s x xs] by (auto simp: rest_def step_def getNextChar_def Let_def drop_Suc simp flip: tl_drop)

lemma tok_step [simp]: "tok (step s) = tok s"
  by (simp add: step_def getNextChar_def Let_def)

lemma putBack_step [simp]:
  assumes "rest s = x # xs" "x \<noteq> CHR 0x00"
  shows "rest (putBackChar (ch x) (step s)) = x # xs"
  using assms by (auto simp: rest_def step_def getNextChar_def putBackChar_def Let_def ch_eq_0)

lemma putBack_0 [simp]: "putBackChar 0 s = s"
  by (simp add: putBackChar_def)

lemma tok_putBack [simp]: "tok (putBackChar c s) = tok s"
  by (simp add: putBackChar_def Let_def)

lemma rest_token_ops [simp]:
  "rest (addCharToToken c s) = rest s"
  "rest (setTokenID t sub g s) = rest s"
  "rest (finalizeToken s) = rest s"
  "rest (initializeToken s) = rest s"
  "rest (makeToken c t g s) = rest s"
  "rest (makeSubToken c t sub g s) = rest s"
  "rest (s\<lparr>tok := k\<rparr>) = rest s"
  by (simp_all add: rest_def addCharToToken_def setTokenID_def finalizeToken_def initializeToken_def makeToken_def
      makeSubToken_def Let_def)

lemma rest_addString [simp]: "rest (addStringToToken cs s) = rest s"
  by (induction cs arbitrary: s) simp_all

section \<open>Operators\<close>

text \<open>The operators with token, token of the operation of an assignment, and group.\<close>

definition operators :: "(string \<times> int \<times> int \<times> int) list" where
  "operators =
    [(''>>>='', T_ASSIGN, T_RSH_ZERO_ASSIGN, op_assign),
     (''...'', T_ELIPSIS, -1, 0), (''!=='', T_STRICT_NE, -1, G_OPERATOR), (''==='', T_STRICT_EQ, -1, G_OPERATOR),
     (''&&='', T_ASSIGN, T_LOGICAL_AND_ASSIGN, op_assign), (''||='', T_ASSIGN, T_LOGICAL_OR_ASSIGN, op_assign),
     (''^^='', T_ASSIGN, T_LOGICAL_XOR_ASSIGN, op_assign), (''<<='', T_ASSIGN, T_LSH_ASSIGN, op_assign),
     (''>>='', T_ASSIGN, T_RSH_ASSIGN, op_assign), (''>>>'', T_RSH_ZERO, -1, G_OPERATOR),
     (''++'', T_PLUS_PLUS, -1, G_OPERATOR), (''--'', T_MINUS_MINUS, -1, G_OPERATOR),
     (''+='', T_ASSIGN, T_PLUS_ASSIGN, op_assign), (''-='', T_ASSIGN, T_MINUS_ASSIGN, op_assign),
     (''*='', T_ASSIGN, T_MUL_ASSIGN, op_assign), (''/='', T_ASSIGN, T_DIV_ASSIGN, op_assign),
     (''%='', T_ASSIGN, T_MOD_ASSIGN, op_assign), (''&='', T_ASSIGN, T_BIT_AND_ASSIGN, op_assign),
     (''^='', T_ASSIGN, T_BIT_XOR_ASSIGN, op_assign), (''|='', T_ASSIGN, T_BIT_OR_ASSIGN, op_assign),
     (''/>'', T_SLASH_GT, -1, G_OPERATOR), (''</'', T_LT_SLASH, -1, 0), (''..'', T_DOT_DOT, -1, 0),
     (''::'', T_COLON_COLON, -1, 0), (''!='', T_NE, -1, G_OPERATOR), (''=='', T_EQ, -1, G_OPERATOR),
     (''&&'', T_LOGICAL_AND, -1, G_OPERATOR), (''||'', T_LOGICAL_OR, -1, G_OPERATOR),
     (''^^'', T_LOGICAL_XOR, -1, G_OPERATOR), (''<='', T_LE, -1, G_OPERATOR), (''>='', T_GE, -1, G_OPERATOR),
     (''<<'', T_LSH, -1, G_OPERATOR), (''>>'', T_RSH, -1, G_OPERATOR),
     (''+'', T_PLUS, -1, G_OPERATOR), (''-'', T_MINUS, -1, G_OPERATOR), (''*'', T_MUL, -1, G_OPERATOR),
     (''/'', T_DIV, -1, G_OPERATOR), (''%'', T_MOD, -1, G_OPERATOR), (''.'', T_DOT, -1, G_OPERATOR),
     ('':'', T_COLON, -1, 0), (''!'', T_LOGICAL_NOT, -1, G_OPERATOR), (''&'', T_BIT_AND, -1, G_OPERATOR),
     (''|'', T_BIT_OR, -1, G_OPERATOR), (''^'', T_BIT_XOR, -1, G_OPERATOR), (''<'', T_LT, -1, G_OPERATOR),
     (''='', T_ASSIGN, -1, G_OPERATOR), (''>'', T_GT, -1, G_OPERATOR),
     (''#'', T_HASH, -1, 0), (''['', T_LBRACKET, -1, G_OPERATOR), ('']'', T_RBRACKET, -1, 0),
     (''('', T_LPAREN, -1, G_OPERATOR), ('')'', T_RPAREN, -1, 0), (''{'', T_LBRACE, -1, 0), (''}'', T_RBRACE, -1, 0),
     (''@'', T_AT, -1, 0), ('';'', T_SEMICOLON, -1, 0), ('','', T_COMMA, -1, 0), (''?'', T_QUERY, -1, 0),
     (''~'', T_TILDE, -1, G_OPERATOR)]"

definition is_longest :: "string \<Rightarrow> string \<Rightarrow> bool" where
  "is_longest input oper \<longleftrightarrow> prefix oper input \<and> (\<forall>e \<in> set operators. prefix (fst e) input \<longrightarrow> length (fst e) \<le> length oper)"

text \<open>The operators are ordered by decreasing length, so that the first one found is the longest.\<close>

definition munch :: "string \<Rightarrow> (string \<times> int \<times> int \<times> int) option" where
  "munch input = find (\<lambda>e. prefix (fst e) input) operators"

lemma operators_by_length: "sorted_wrt (\<lambda>e f. length (fst f) \<le> length (fst e)) operators"
proof -
  have "map (length \<circ> fst) operators = 4 # replicate 9 3 @ replicate 23 2 @ replicate 26 1" by code_simp
  then have "sorted_wrt (\<lambda>m n. n \<le> m) (map (length \<circ> fst) operators)" by (simp only: sorted_wrt_append sorted_wrt.simps) (auto simp: sorted_wrt_iff_nth_less)
  then show ?thesis by (simp add: sorted_wrt_map comp_def)
qed

lemma find_longest:
  "sorted_wrt (\<lambda>e f. m f \<le> m e) xs \<Longrightarrow> find P xs = Some e \<Longrightarrow> e \<in> set xs \<and> P e \<and> (\<forall>f \<in> set xs. P f \<longrightarrow> m f \<le> (m e :: nat))"
  by (induction xs) (auto split: if_splits)

lemma munch_longest: "munch input = Some e \<Longrightarrow> e \<in> set operators \<and> is_longest input (fst e)"
  using find_longest [OF operators_by_length, of "\<lambda>e. prefix (fst e) input"] by (auto simp: munch_def is_longest_def)

definition gets :: "lexer \<Rightarrow> string \<Rightarrow> bool" where
  "gets u input \<longleftrightarrow> (case munch input of
     None \<Rightarrow> False
   | Some (oper, t, sub, g) \<Rightarrow>
       tokenId (tok u) = t \<and> subId (tok u) = sub \<and> groupMask (tok u) = g \<and> rest u = drop (length oper) input)"

lemmas munch_eval = gets_def munch_def operators_def

definition nxt :: "string \<Rightarrow> int" where
  "nxt xs = (case xs of [] \<Rightarrow> 0 | x # _ \<Rightarrow> ch x)"

lemma step_Nil: "rest s = [] \<Longrightarrow> step s = s"
  using getNextChar_rest(2) [of s] by (simp add: step_def)

lemma advance_nxt: "advance s f = f (nxt (rest s)) (step s)"
  by (cases "rest s") (simp_all add: advance_rest nxt_def step_Nil)

lemma rest_step_tl: "rest (step s) = tl (rest s)"
  by (cases "rest s") (simp_all add: step_Nil)

lemma putBack_nxt: "CHR 0x00 \<notin> set (rest s) \<Longrightarrow> rest (putBackChar (nxt (rest s)) (step s)) = rest s"
  by (cases "rest s") (auto simp: nxt_def step_Nil)

lemma prefix_nxt: "c \<noteq> CHR 0x00 \<Longrightarrow> prefix (c # cs) xs \<longleftrightarrow> nxt xs = ch c \<and> prefix cs (tl xs)"
  by (cases xs) (auto simp: nxt_def)

lemma no_nul_tl: "CHR 0x00 \<notin> set xs \<Longrightarrow> CHR 0x00 \<notin> set (tl xs)"
  by (cases xs) simp_all

text \<open>The table by the first character of the input.\<close>

lemma munch_plus: "munch (CHR ''+'' # xs) =
  (if prefix ''+'' xs then Some (''++'', T_PLUS_PLUS, -1, G_OPERATOR)
   else if prefix ''='' xs then Some (''+='', T_ASSIGN, T_PLUS_ASSIGN, op_assign)
   else Some (''+'', T_PLUS, -1, G_OPERATOR))"
  by (simp add: munch_def operators_def)

lemma munch_minus: "munch (CHR ''-'' # xs) =
  (if prefix ''-'' xs then Some (''--'', T_MINUS_MINUS, -1, G_OPERATOR)
   else if prefix ''='' xs then Some (''-='', T_ASSIGN, T_MINUS_ASSIGN, op_assign)
   else Some (''-'', T_MINUS, -1, G_OPERATOR))"
  by (simp add: munch_def operators_def)

lemma munch_mul: "munch (CHR ''*'' # xs) =
  (if prefix ''='' xs then Some (''*='', T_ASSIGN, T_MUL_ASSIGN, op_assign)
   else Some (''*'', T_MUL, -1, G_OPERATOR))"
  by (simp add: munch_def operators_def)

lemma munch_mod: "munch (CHR ''%'' # xs) =
  (if prefix ''='' xs then Some (''%='', T_ASSIGN, T_MOD_ASSIGN, op_assign)
   else Some (''%'', T_MOD, -1, G_OPERATOR))"
  by (simp add: munch_def operators_def)

lemma munch_dot: "munch (CHR ''.'' # xs) =
  (if prefix ''..'' xs then Some (''...'', T_ELIPSIS, -1, 0)
   else if prefix ''.'' xs then Some (''..'', T_DOT_DOT, -1, 0)
   else Some (''.'', T_DOT, -1, G_OPERATOR))"
  by (simp add: munch_def operators_def)

lemma munch_colon: "munch (CHR '':'' # xs) =
  (if prefix '':'' xs then Some (''::'', T_COLON_COLON, -1, 0)
   else Some ('':'', T_COLON, -1, 0))"
  by (simp add: munch_def operators_def)

lemma munch_not: "munch (CHR ''!'' # xs) =
  (if prefix ''=='' xs then Some (''!=='', T_STRICT_NE, -1, G_OPERATOR)
   else if prefix ''='' xs then Some (''!='', T_NE, -1, G_OPERATOR)
   else Some (''!'', T_LOGICAL_NOT, -1, G_OPERATOR))"
  by (simp add: munch_def operators_def)

lemma munch_and: "munch (CHR ''&'' # xs) =
  (if prefix ''&='' xs then Some (''&&='', T_ASSIGN, T_LOGICAL_AND_ASSIGN, op_assign)
   else if prefix ''='' xs then Some (''&='', T_ASSIGN, T_BIT_AND_ASSIGN, op_assign)
   else if prefix ''&'' xs then Some (''&&'', T_LOGICAL_AND, -1, G_OPERATOR)
   else Some (''&'', T_BIT_AND, -1, G_OPERATOR))"
  by (simp add: munch_def operators_def)

lemma munch_less: "munch (CHR ''<'' # xs) =
  (if prefix ''<='' xs then Some (''<<='', T_ASSIGN, T_LSH_ASSIGN, op_assign)
   else if prefix ''/'' xs then Some (''</'', T_LT_SLASH, -1, 0)
   else if prefix ''='' xs then Some (''<='', T_LE, -1, G_OPERATOR)
   else if prefix ''<'' xs then Some (''<<'', T_LSH, -1, G_OPERATOR)
   else Some (''<'', T_LT, -1, G_OPERATOR))"
  by (simp add: munch_def operators_def)

lemma munch_equal: "munch (CHR ''='' # xs) =
  (if prefix ''=='' xs then Some (''==='', T_STRICT_EQ, -1, G_OPERATOR)
   else if prefix ''='' xs then Some (''=='', T_EQ, -1, G_OPERATOR)
   else Some (''='', T_ASSIGN, -1, G_OPERATOR))"
  by (simp add: munch_def operators_def)

lemma munch_greater: "munch (CHR ''>'' # xs) =
  (if prefix ''>>='' xs then Some (''>>>='', T_ASSIGN, T_RSH_ZERO_ASSIGN, op_assign)
   else if prefix ''>='' xs then Some (''>>='', T_ASSIGN, T_RSH_ASSIGN, op_assign)
   else if prefix ''>>'' xs then Some (''>>>'', T_RSH_ZERO, -1, G_OPERATOR)
   else if prefix ''='' xs then Some (''>='', T_GE, -1, G_OPERATOR)
   else if prefix ''>'' xs then Some (''>>'', T_RSH, -1, G_OPERATOR)
   else Some (''>'', T_GT, -1, G_OPERATOR))"
  by (simp add: munch_def operators_def)

lemma munch_xor: "munch (CHR ''^'' # xs) =
  (if prefix ''^='' xs then Some (''^^='', T_ASSIGN, T_LOGICAL_XOR_ASSIGN, op_assign)
   else if prefix ''='' xs then Some (''^='', T_ASSIGN, T_BIT_XOR_ASSIGN, op_assign)
   else if prefix ''^'' xs then Some (''^^'', T_LOGICAL_XOR, -1, G_OPERATOR)
   else Some (''^'', T_BIT_XOR, -1, G_OPERATOR))"
  by (simp add: munch_def operators_def)

lemma munch_or: "munch (CHR ''|'' # xs) =
  (if prefix ''|='' xs then Some (''||='', T_ASSIGN, T_LOGICAL_OR_ASSIGN, op_assign)
   else if prefix ''='' xs then Some (''|='', T_ASSIGN, T_BIT_OR_ASSIGN, op_assign)
   else if prefix ''|'' xs then Some (''||'', T_LOGICAL_OR, -1, G_OPERATOR)
   else Some (''|'', T_BIT_OR, -1, G_OPERATOR))"
  by (simp add: munch_def operators_def)

lemma munch_divide: "munch (CHR ''/'' # xs) =
  (if prefix ''='' xs then Some (''/='', T_ASSIGN, T_DIV_ASSIGN, op_assign)
   else if prefix ''>'' xs then Some (''/>'', T_SLASH_GT, -1, G_OPERATOR)
   else Some (''/'', T_DIV, -1, G_OPERATOR))"
  by (simp add: munch_def operators_def)

lemma not_digits [simp]: "\<not> isdigit (uchar (ch CHR ''-''))" "\<not> isdigit (uchar (ch CHR ''=''))" "\<not> isdigit (uchar (ch CHR ''.''))"
  by (simp_all add: isdigit_def uchar_def char_val_def)

lemmas gets_simps = gets_def advance_nxt rest_step_tl prefix_nxt drop_Suc putBack_nxt no_nul_tl

lemma gets_plus: "CHR 0x00 \<notin> set (rest s) \<Longrightarrow> gets (lex_plus s) (CHR ''+'' # rest s)"
  using putBack_nxt [of "step s"] putBack_nxt [of "step (step s)"] by (simp add: lex_plus_def munch_plus gets_simps)

lemma gets_minus: "CHR 0x00 \<notin> set (rest s) \<Longrightarrow> gets (lex_minus s) (CHR ''-'' # rest s)"
  using putBack_nxt [of "step s"] putBack_nxt [of "step (step s)"] by (simp add: lex_minus_def munch_minus gets_simps)

lemma gets_mul: "CHR 0x00 \<notin> set (rest s) \<Longrightarrow> gets (lex_mul s) (CHR ''*'' # rest s)"
  using putBack_nxt [of "step s"] putBack_nxt [of "step (step s)"] by (simp add: lex_mul_def munch_mul gets_simps)

lemma gets_mod: "CHR 0x00 \<notin> set (rest s) \<Longrightarrow> gets (lex_mod s) (CHR ''%'' # rest s)"
  using putBack_nxt [of "step s"] putBack_nxt [of "step (step s)"] by (simp add: lex_mod_def munch_mod gets_simps)

lemma gets_dot: "CHR 0x00 \<notin> set (rest s) \<Longrightarrow> \<not> isdigit (uchar (nxt (rest s))) \<Longrightarrow> gets (lex_dot s) (CHR ''.'' # rest s)"
  using putBack_nxt [of "step s"] putBack_nxt [of "step (step s)"] by (simp add: lex_dot_def munch_dot gets_simps)

lemma gets_colon: "CHR 0x00 \<notin> set (rest s) \<Longrightarrow> gets (lex_colon s) (CHR '':'' # rest s)"
  using putBack_nxt [of "step s"] putBack_nxt [of "step (step s)"] by (simp add: lex_colon_def munch_colon gets_simps)

lemma gets_not: "CHR 0x00 \<notin> set (rest s) \<Longrightarrow> gets (lex_not s) (CHR ''!'' # rest s)"
  using putBack_nxt [of "step s"] putBack_nxt [of "step (step s)"] by (simp add: lex_not_def munch_not gets_simps)

lemma gets_and: "CHR 0x00 \<notin> set (rest s) \<Longrightarrow> gets (lex_and s) (CHR ''&'' # rest s)"
  using putBack_nxt [of "addCharToToken (ch CHR ''&'') (step s)"] putBack_nxt [of "step (step s)"] by (simp add: lex_and_def munch_and gets_simps)

lemma gets_less: "CHR 0x00 \<notin> set (rest s) \<Longrightarrow> gets (lex_less s) (CHR ''<'' # rest s)"
  using putBack_nxt [of "step s"] putBack_nxt [of "step (step s)"] by (simp add: lex_less_def munch_less gets_simps)

lemma gets_equal: "CHR 0x00 \<notin> set (rest s) \<Longrightarrow> gets (lex_equal s) (CHR ''='' # rest s)"
  using putBack_nxt [of "step s"] putBack_nxt [of "step (step s)"] by (simp add: lex_equal_def munch_equal gets_simps)

lemma gets_greater: "CHR 0x00 \<notin> set (rest s) \<Longrightarrow> gets (lex_greater s) (CHR ''>'' # rest s)"
  using putBack_nxt [of "step s"] putBack_nxt [of "step (step s)"] by (simp add: lex_greater_def munch_greater gets_simps)

lemma gets_xor: "CHR 0x00 \<notin> set (rest s) \<Longrightarrow> gets (lex_xor s) (CHR ''^'' # rest s)"
  using putBack_nxt [of "addCharToToken (ch CHR ''^'') (step s)"] putBack_nxt [of "step (step s)"] by (simp add: lex_xor_def munch_xor gets_simps)

lemma gets_or: "CHR 0x00 \<notin> set (rest s) \<Longrightarrow> gets (lex_or s) (CHR ''|'' # rest s)"
  using putBack_nxt [of "addCharToToken (ch CHR ''|'') (step s)"] putBack_nxt [of "step (step s)"] by (simp add: lex_or_def munch_or gets_simps)

definition op_chars :: string where
  "op_chars = ''+-*%.:!&<=>^|/#[](){}@;,?~''"

definition starts_comment :: "string \<Rightarrow> bool" where
  "starts_comment cs \<longleftrightarrow> prefix ''//'' cs \<or> prefix ''/*'' cs"

definition starts_number :: "string \<Rightarrow> bool" where
  "starts_number cs \<longleftrightarrow> (case cs of c # d # _ \<Rightarrow> c = CHR ''.'' \<and> isdigit (uchar (ch d)) | _ \<Rightarrow> False)"

lemma not_digit_0 [simp]: "\<not> isdigit (uchar 0)"
  by (simp add: isdigit_def uchar_def)

lemma gets_divide:
  assumes "CHR 0x00 \<notin> set (rest s)" "\<not> starts_comment (CHR ''/'' # rest s)"
  shows "\<exists>u. lex_divide E s = Token u \<and> gets u (CHR ''/'' # rest s)"
  using assms by (simp add: lex_divide_def munch_divide gets_simps starts_comment_def)

lemma white_char: "x \<in> set op_chars \<Longrightarrow> \<not> white (ch x) \<and> ch x \<noteq> -1"
  by (auto simp: op_chars_def white_def char_val_def)

lemma munch_single:
  "munch (CHR ''#'' # xs) = Some (''#'', T_HASH, -1, 0)"
  "munch (CHR ''['' # xs) = Some (''['', T_LBRACKET, -1, G_OPERATOR)"
  "munch (CHR '']'' # xs) = Some ('']'', T_RBRACKET, -1, 0)"
  "munch (CHR ''('' # xs) = Some (''('', T_LPAREN, -1, G_OPERATOR)"
  "munch (CHR '')'' # xs) = Some ('')'', T_RPAREN, -1, 0)"
  "munch (CHR ''{'' # xs) = Some (''{'', T_LBRACE, -1, 0)"
  "munch (CHR ''}'' # xs) = Some (''}'', T_RBRACE, -1, 0)"
  "munch (CHR ''@'' # xs) = Some (''@'', T_AT, -1, 0)"
  "munch (CHR '';'' # xs) = Some ('';'', T_SEMICOLON, -1, 0)"
  "munch (CHR '','' # xs) = Some ('','', T_COMMA, -1, 0)"
  "munch (CHR ''?'' # xs) = Some (''?'', T_QUERY, -1, 0)"
  "munch (CHR ''~'' # xs) = Some (''~'', T_TILDE, -1, G_OPERATOR)"
  by (simp_all add: munch_def operators_def)

lemma single_munch:
  assumes "map_of single (ch x) = Some (t, g)"
  shows "munch (x # xs) = Some ([x], t, -1, g)"
  using assms by (simp add: single_def split: if_splits) (simp_all add: munch_single)

lemma several_gets:
  assumes "(ch x, f) \<in> set several" "CHR 0x00 \<notin> set (rest s)" "x = CHR ''.'' \<Longrightarrow> \<not> isdigit (uchar (nxt (rest s)))"
  shows "gets (f s) (x # rest s)"
  using assms(1,3)
  by (auto simp: several_def intro!: assms(2) gets_plus gets_minus gets_mul gets_mod gets_dot gets_colon gets_not gets_and gets_less
      gets_equal gets_greater gets_xor gets_or)

lemma several_some: "x \<in> set ''+-*%.:!&<=>^|'' \<Longrightarrow> \<exists>f. map_of several (ch x) = Some f"
  by (auto simp: several_def)

lemma op_char_kinds: "x \<in> set op_chars \<Longrightarrow> map_of single (ch x) = None \<Longrightarrow> x \<noteq> CHR ''/'' \<Longrightarrow> x \<in> set ''+-*%.:!&<=>^|''"
proof -
  have "list_all (\<lambda>x. map_of single (ch x) = None \<longrightarrow> x \<noteq> CHR ''/'' \<longrightarrow> x \<in> set ''+-*%.:!&<=>^|'') op_chars" by code_simp
  then show "x \<in> set op_chars \<Longrightarrow> map_of single (ch x) = None \<Longrightarrow> x \<noteq> CHR ''/'' \<Longrightarrow> ?thesis"
    unfolding list_all_iff by blast
qed

lemma scan_turn_operator:
  assumes "CHR 0x00 \<notin> set (rest s)" "x \<in> set op_chars" "\<not> starts_comment (x # rest s)" "\<not> starts_number (x # rest s)"
  shows "\<exists>u. scan_turn E (ch x) s = Token u \<and> gets u (x # rest s)"
proof -
  have nd: "x = CHR ''.'' \<Longrightarrow> \<not> isdigit (uchar (nxt (rest s)))"
    using assms(4) by (cases "rest s") (auto simp: starts_number_def nxt_def)
  have w: "\<not> white (ch x)" "ch x \<noteq> -1" "x \<noteq> CHR 0x00" "x \<noteq> CHR 0x22" "x \<noteq> CHR 0x27"
    using white_char [OF assms(2)] assms(2) by (auto simp: op_chars_def)
  show ?thesis
  proof (cases "x = CHR ''/''")
    case True
    with gets_divide [OF assms(1), of E] assms(3) w show ?thesis by (simp add: scan_turn_def)
  next
    case d: False
    show ?thesis
    proof (cases "map_of single (ch x)")
      case (Some tg)
      then obtain t g where tg: "map_of single (ch x) = Some (t, g)" by (cases tg) auto
      with d w single_munch [OF tg, of "rest s"] show ?thesis by (simp add: scan_turn_def gets_def)
    next
      case None
      from several_some [OF op_char_kinds [OF assms(2) None d]] obtain f where f: "map_of several (ch x) = Some f" by blast
      from several_gets [OF map_of_SomeD [OF f] assms(1) nd]
      have "gets (f s) (x # rest s)" .
      with None d w f show ?thesis by (simp add: scan_turn_def)
    qed
  qed
qed

text \<open>
  C4: At a character that begins an operator (and that begins no comment and no number), the lexical analyser reads the longest operator
  that the input begins with: the token, the kind of assignment and the group are those of the table for it, and the input
  after it is left, whatever follows.
\<close>

theorem operators_are_longest:
  assumes "rest s = x # xs" "CHR 0x00 \<notin> set xs" "x \<in> set op_chars" "\<not> starts_comment (x # xs)" "\<not> starts_number (x # xs)"
  shows "\<exists>oper t sub g. (oper, t, sub, g) \<in> set operators \<and> is_longest (x # xs) oper
    \<and> tokenId (tok (scan_token E s)) = t \<and> subId (tok (scan_token E s)) = sub \<and> groupMask (tok (scan_token E s)) = g
    \<and> rest (scan_token E s) = drop (length oper) (x # xs)"
proof -
  have "rest (step s) = xs" using assms(1) by simp
  with scan_turn_operator [of "step s" x E] assms obtain u where u: "scan_turn E (ch x) (step s) = Token u" "gets u (x # xs)" by auto
  have "scan_token E s = u" using u(1) by (subst scan_token.simps) (simp add: advance_rest(1) [OF assms(1)])
  with u(2) munch_longest [of "x # xs"] show ?thesis by (fastforce simp: gets_def split: option.splits)
qed

theorem operators_are_longest_witness:
  "\<exists>oper t sub g. (oper, t, sub, g) \<in> set operators \<and> is_longest (CHR ''>'' # ''>=x'') oper
    \<and> tokenId (tok (scan_token \<lparr>doc = False, warnLevel = 0\<rparr> (ecCreateStream\<lparr>buf := ''>>=x''\<rparr>))) = t
    \<and> subId (tok (scan_token \<lparr>doc = False, warnLevel = 0\<rparr> (ecCreateStream\<lparr>buf := ''>>=x''\<rparr>))) = sub
    \<and> groupMask (tok (scan_token \<lparr>doc = False, warnLevel = 0\<rparr> (ecCreateStream\<lparr>buf := ''>>=x''\<rparr>))) = g
    \<and> rest (scan_token \<lparr>doc = False, warnLevel = 0\<rparr> (ecCreateStream\<lparr>buf := ''>>=x''\<rparr>)) = drop (length oper) (CHR ''>'' # ''>=x'')"
  by (rule operators_are_longest)
    (simp_all add: rest_def ecCreateStream_def op_chars_def starts_comment_def starts_number_def)

section \<open>Reading back what is printed\<close>

definition word_text :: "lexer \<Rightarrow> string" where
  "word_text s = take (tlength (tok s)) (text_of (tok s))"

definition has_text :: "lexer \<Rightarrow> bool" where
  "has_text s \<longleftrightarrow> tlength (tok s) = length (text_of (tok s))"

lemma to_char_ch [simp]: "to_char (ch x) = x"
proof -
  have "nat (ch x mod 256) = of_char x" by (simp add: char_val_def Let_def nat_mod_distrib)
  then show ?thesis by (simp add: to_char_def)
qed

lemma text_add: "has_text s \<Longrightarrow> has_text (addCharToToken (ch x) s) \<and> word_text (addCharToToken (ch x) s) = word_text s @ [x]"
  by (simp add: has_text_def word_text_def addCharToToken_def Let_def set_loc_def)

lemma text_ops [simp]:
  "word_text (step s) = word_text s" "has_text (step s) = has_text s"
  "word_text (putBackChar c s) = word_text s" "has_text (putBackChar c s) = has_text s"
  "word_text (setTokenID t sub g s) = word_text s" "has_text (setTokenID t sub g s) = has_text s"
  "word_text (finalizeToken s) = word_text s" "has_text (finalizeToken s) = has_text s"
  by (simp_all add: word_text_def has_text_def setTokenID_def finalizeToken_def set_loc_def)

lemma id_ops [simp]:
  "tokenId (tok (finalizeToken (setTokenID t sub g s))) = t" "subId (tok (finalizeToken (setTokenID t sub g s))) = sub"
  "groupMask (tok (finalizeToken (setTokenID t sub g s))) = g"
  by (simp_all add: setTokenID_def finalizeToken_def set_loc_def)

text \<open>The loops stop at the first character that is not theirs, which has been read then.\<close>

lemma take_chars_all:
  assumes "rest s = ys @ z # zs" "has_text s" "\<forall>y \<in> set ys. y \<noteq> CHR 0x00 \<and> P (ch y)" "\<not> P (ch z)"
  shows "\<exists>t. take_chars P (nxt (rest s)) (step s) = (ch z, step t) \<and> rest t = z # zs \<and> has_text t \<and> word_text t = word_text s @ ys"
  using assms(1-3)
proof (induction ys arbitrary: s)
  case Nil
  with assms(4) show ?case by (subst take_chars.simps) (auto simp: nxt_def)
next
  case (Cons y ys)
  let ?s = "addCharToToken (ch y) (step s)"
  have n: "nxt (rest s) = ch y" "rest ?s = ys @ z # zs" using Cons.prems(1) by (simp_all add: nxt_def)
  have t: "has_text ?s" "word_text ?s = word_text s @ [y]" using text_add [of "step s" y] Cons.prems(2) by simp_all
  have "take_chars P (nxt (rest s)) (step s) = take_chars P (nxt (rest ?s)) (step ?s)"
    unfolding n(1) by (subst take_chars.simps) (use Cons.prems(3) in \<open>simp add: advance_nxt\<close>)
  with Cons.IH [OF n(2) t(1)] Cons.prems(3) t(2) show ?case by auto
qed

lemma alpha_loop_all:
  assumes "rest s = ys @ z # zs" "has_text s" "\<forall>y \<in> set ys. y \<noteq> CHR 0x00 \<and> alpha_part (ch y) \<and> y \<noteq> CHR 0x5C" "\<not> alpha_part (ch z)"
  shows "\<exists>t. alpha_loop (nxt (rest s)) (step s) = (ch z, step t) \<and> rest t = z # zs \<and> has_text t \<and> word_text t = word_text s @ ys"
  using assms(1-3)
proof (induction ys arbitrary: s)
  case Nil
  with assms(4) show ?case by (subst alpha_loop.simps) (auto simp: nxt_def)
next
  case (Cons y ys)
  let ?s = "addCharToToken (ch y) (step s)"
  have n: "nxt (rest s) = ch y" "rest ?s = ys @ z # zs" using Cons.prems(1) by (simp_all add: nxt_def)
  have t: "has_text ?s" "word_text ?s = word_text s @ [y]" using text_add [of "step s" y] Cons.prems(2) by simp_all
  have "alpha_loop (nxt (rest s)) (step s) = alpha_loop (nxt (rest ?s)) (step ?s)"
    unfolding n(1) by (subst alpha_loop.simps) (use Cons.prems(3) in \<open>simp add: advance_nxt\<close>)
  with Cons.IH [OF n(2) t(1)] Cons.prems(3) t(2) show ?case by auto
qed

definition quoted :: "string \<Rightarrow> string" where
  "quoted cs = concat (map (\<lambda>c. if c = CHR 0x22 \<or> c = CHR 0x5C then [CHR 0x5C, c] else [c]) cs)"

lemma quoted_loop_all:
  assumes "rest s = quoted cs @ CHR 0x22 # zs" "has_text s" "CHR 0x00 \<notin> set cs"
  shows "rest (quoted_loop (ch CHR 0x22) (nxt (rest s)) (step s)) = zs
    \<and> has_text (quoted_loop (ch CHR 0x22) (nxt (rest s)) (step s))
    \<and> word_text (quoted_loop (ch CHR 0x22) (nxt (rest s)) (step s)) = word_text s @ cs"
  using assms
proof (induction cs arbitrary: s)
  case Nil
  then show ?case by (subst (1 2 3) quoted_loop.simps) (auto simp: nxt_def quoted_def)
next
  case (Cons c cs)
  show ?case
  proof (cases "c = CHR 0x22 \<or> c = CHR 0x5C")
    case True
    let ?s = "addCharToToken (ch c) (step (step s))"
    have r: "rest s = CHR 0x5C # c # quoted cs @ CHR 0x22 # zs" using Cons.prems(1) True by (auto simp: quoted_def)
    then have n: "nxt (rest s) = ch CHR 0x5C" "nxt (rest (step s)) = ch c" "rest ?s = quoted cs @ CHR 0x22 # zs" by (simp_all add: nxt_def)
    have t: "has_text ?s" "word_text ?s = word_text s @ [c]" using text_add [of "step (step s)" c] Cons.prems(2) by simp_all
    have "quoted_char (ch CHR 0x5C) (step s) = (ch c, step (step s))"
      using True by (auto simp: quoted_char_def advance_nxt n(2) escape_def)
    then have "quoted_loop (ch CHR 0x22) (nxt (rest s)) (step s) = quoted_loop (ch CHR 0x22) (nxt (rest ?s)) (step ?s)"
      unfolding n(1) by (subst quoted_loop.simps) (simp add: advance_nxt)
    with Cons.IH [OF n(3) t(1)] Cons.prems(3) t(2) show ?thesis by simp
  next
    case False
    let ?s = "addCharToToken (ch c) (step s)"
    have n: "nxt (rest s) = ch c" "rest ?s = quoted cs @ CHR 0x22 # zs"
      using Cons.prems(1) False by (simp_all add: nxt_def quoted_def)
    have t: "has_text ?s" "word_text ?s = word_text s @ [c]" using text_add [of "step s" c] Cons.prems(2) by simp_all
    have "quoted_loop (ch CHR 0x22) (nxt (rest s)) (step s) = quoted_loop (ch CHR 0x22) (nxt (rest ?s)) (step ?s)"
      unfolding n(1) by (subst quoted_loop.simps) (use False Cons.prems(3) in \<open>auto simp: advance_nxt quoted_char_def\<close>)
    with Cons.IH [OF n(2) t(1)] Cons.prems(3) t(2) show ?thesis by simp
  qed
qed

definition digit :: "char \<Rightarrow> bool" where
  "digit c \<longleftrightarrow> isdigit (uchar (ch c))"

lemma digit_facts [simp]:
  "\<not> isdigit (uchar (ch CHR '' ''))" "isdigit (uchar (ch CHR ''0''))"
  "\<not> isoctal (ch CHR '' '')" "\<not> isoctal (ch CHR ''.'')"
  "tolower (uchar (ch CHR '' '')) \<noteq> ch CHR ''x''" "tolower (uchar (ch CHR ''.'')) \<noteq> ch CHR ''x''"
  "tolower (uchar (ch CHR '' '')) \<noteq> ch CHR ''e''"
  by (simp_all add: isdigit_def uchar_def char_val_def isoctal_def tolower_def)

lemma digit_not_0: "isdigit (uchar (ch c)) \<Longrightarrow> c \<noteq> CHR 0x00"
  by auto

text \<open>Decimal numbers; the fraction is the text behind the dot, if there is one.\<close>

definition decimal_text :: "string \<Rightarrow> string option \<Rightarrow> string" where
  "decimal_text ds fr = ds @ (case fr of None \<Rightarrow> [] | Some fs \<Rightarrow> CHR ''.'' # fs)"

lemma number_end_all:
  assumes "rest t = CHR '' '' # zs"
  shows "rest (number_end (ch CHR '' '', step t)) = CHR '' '' # zs"
    "has_text t \<Longrightarrow> has_text (number_end (ch CHR '' '', step t))"
    "word_text (number_end (ch CHR '' '', step t)) = word_text t"
    "tokenId (tok (number_end (ch CHR '' '', step t))) = T_NUMBER"
    "subId (tok (number_end (ch CHR '' '', step t))) = -1"
    "groupMask (tok (number_end (ch CHR '' '', step t))) = 0"
  using assms by (simp_all add: number_end_def)

definition number_read :: "lexer \<Rightarrow> string \<Rightarrow> string \<Rightarrow> bool" where
  "number_read u w zs \<longleftrightarrow> rest u = CHR '' '' # zs \<and> word_text u = w \<and> tokenId (tok u) = T_NUMBER \<and> subId (tok u) = -1 \<and> groupMask (tok u) = 0"

lemma float_number_all:
  assumes "rest s = decimal_text ds fr @ CHR '' '' # zs" "has_text s" "digit d" "list_all digit ds" "list_all digit (case fr of None \<Rightarrow> [] | Some fs \<Rightarrow> fs)"
  shows "number_read (float_number (ch d) s) (word_text s @ d # decimal_text ds fr) zs"
proof -
  let ?P = "\<lambda>c. isdigit (uchar c)"
  let ?s = "addCharToToken (ch d) s"
  have t: "has_text ?s" "word_text ?s = word_text s @ [d]" using text_add assms(2) by simp_all
  have d: "ch d \<noteq> 0 \<and> ?P (ch d)" using assms(3) digit_not_0 by (simp add: digit_def)
  have u: "take_chars ?P (ch d) s = take_chars ?P (nxt (rest ?s)) (step ?s)"
    using d by (subst take_chars.simps) (simp add: advance_nxt)
  have ds: "\<forall>y \<in> set xs. y \<noteq> CHR 0x00 \<and> ?P (ch y)" if "list_all digit xs" for xs
    using that digit_not_0 by (auto simp: list_all_iff digit_def)
  show ?thesis
  proof (cases fr)
    case None
    with assms(1) have "rest ?s = ds @ CHR '' '' # zs" by (simp add: decimal_text_def)
    from take_chars_all [OF this t(1) ds [OF assms(4)]] obtain v where
      v: "take_chars ?P (nxt (rest ?s)) (step ?s) = (ch CHR '' '', step v)" "rest v = CHR '' '' # zs" "has_text v"
        "word_text v = word_text ?s @ ds" by auto
    have "float_number (ch d) s = number_end (ch CHR '' '', step v)"
      unfolding float_number_def u v(1) by (simp add: fraction_def exponent_def take_chars.simps [of ?P "ch CHR '' ''"])
    with number_end_all [OF v(2)] v(3,4) t(2) None show ?thesis by (simp add: number_read_def decimal_text_def)
  next
    case (Some fs)
    with assms(1) have "rest ?s = ds @ CHR ''.'' # fs @ CHR '' '' # zs" by (simp add: decimal_text_def)
    from take_chars_all [OF this t(1) ds [OF assms(4)]] obtain v where
      v: "take_chars ?P (nxt (rest ?s)) (step ?s) = (ch CHR ''.'', step v)" "rest v = CHR ''.'' # fs @ CHR '' '' # zs" "has_text v"
        "word_text v = word_text ?s @ ds" by auto
    let ?v = "addCharToToken (ch CHR ''.'') (step v)"
    have w: "rest ?v = fs @ CHR '' '' # zs" "has_text ?v" "word_text ?v = word_text v @ ''.''"
      using v(2,3) text_add [of "step v" "CHR ''.''"] by simp_all
    from take_chars_all [OF w(1,2) ds] assms(5) Some obtain x where
      x: "take_chars ?P (nxt (rest ?v)) (step ?v) = (ch CHR '' '', step x)" "rest x = CHR '' '' # zs" "has_text x"
        "word_text x = word_text ?v @ fs" by auto
    have g: "getNextChar ?v = (nxt (rest ?v), step ?v)"
      using advance_nxt [of ?v Pair] by (simp add: advance_def case_prod_beta)
    have "fraction (ch CHR ''.'') (step v) = (ch CHR '' '', step x)"
      unfolding fraction_def if_P [OF refl] g prod.case x(1) ..
    then have "float_number (ch d) s = number_end (ch CHR '' '', step x)"
      unfolding float_number_def u v(1) by (simp add: exponent_def)
    with number_end_all [OF x(2)] x(3,4) w(3) v(4) t(2) Some show ?thesis by (simp add: number_read_def decimal_text_def)
  qed
qed

lemma makeNumberToken_all:
  assumes "rest s = decimal_text ds fr @ CHR '' '' # zs" "has_text s" "digit d" "list_all digit ds" "list_all digit (case fr of None \<Rightarrow> [] | Some fs \<Rightarrow> fs)"
    and "d = CHR ''0'' \<Longrightarrow> ds = []"
  shows "number_read (makeNumberToken (ch d) s) (word_text s @ d # decimal_text ds fr) zs"
proof (cases "d = CHR ''0''")
  case True
  then have ds: "ds = []" by (rule assms(6))
  have n: "nxt (rest s) = ch CHR '' '' \<or> nxt (rest s) = ch CHR ''.''"
    using assms(1) ds by (auto simp: decimal_text_def nxt_def split: option.splits)
  have "rest (putBackChar (nxt (rest s)) (step s)) = rest s"
    using assms(1) ds by (auto simp: decimal_text_def nxt_def split: option.splits)
  then have "number_read (float_number (ch d) (putBackChar (nxt (rest s)) (step s))) (word_text s @ d # decimal_text ds fr) zs"
    using float_number_all [OF _ _ assms(3-5), of "putBackChar (nxt (rest s)) (step s)"] assms(1,2) by simp
  with n True show ?thesis by (auto simp: makeNumberToken_def advance_nxt)
next
  case False
  with float_number_all [OF assms(1-5)] show ?thesis by (simp add: makeNumberToken_def)
qed

definition name_start :: "char \<Rightarrow> bool" where
  "name_start c \<longleftrightarrow> isalpha (uchar (ch c)) \<or> c = CHR ''_'' \<or> c = CHR ''$''"

definition name_part :: "char \<Rightarrow> bool" where
  "name_part c \<longleftrightarrow> name_start c \<or> digit c"

definition word_ids :: "string \<Rightarrow> int \<times> int \<times> int" where
  "word_ids w = (case find (\<lambda>r. word_name r = w) reserved_words of
     Some r \<Rightarrow> (word_token r, word_sub r, word_group r) | None \<Rightarrow> (T_ID, -1, 0))"

lemma name_part_char: "name_part c \<Longrightarrow> c \<noteq> CHR 0x00 \<and> alpha_part (ch c) \<and> c \<noteq> CHR 0x5C"
  by (auto simp: name_part_def name_start_def digit_def alpha_part_def isalpha_def isdigit_def uchar_def char_val_def split: if_splits)

lemma makeAlphaToken_all:
  assumes "rest s = w @ CHR '' '' # zs" "has_text s" "word_text s = []" "name_start c" "list_all name_part w"
  shows "let u = makeAlphaToken (ch c) s in rest u = CHR '' '' # zs \<and> word_text u = c # w
    \<and> (tokenId (tok u), subId (tok u), groupMask (tok u)) = word_ids (c # w)"
proof -
  let ?s = "addCharToToken (ch c) s"
  have t: "has_text ?s" "word_text ?s = [c]" using text_add assms(2,3) by simp_all
  have c: "name_part c" using assms(4) by (simp add: name_part_def)
  note cc = name_part_char [OF c]
  have w: "\<forall>y \<in> set w. y \<noteq> CHR 0x00 \<and> alpha_part (ch y) \<and> y \<noteq> CHR 0x5C"
    using assms(5) name_part_char by (simp add: list_all_iff)
  have b: "\<not> alpha_part (ch CHR '' '')" by (simp add: alpha_part_def isalpha_def isdigit_def uchar_def char_val_def)
  from alpha_loop_all [OF _ t(1) w b, of zs] assms(1) obtain v where
    v: "alpha_loop (nxt (rest ?s)) (step ?s) = (ch CHR '' '', step v)" "rest v = CHR '' '' # zs" "has_text v" "word_text v = c # w"
    using t(2) by auto
  have u: "alpha_loop (ch c) s = (ch CHR '' '', step v)"
    using cc by (subst alpha_loop.simps) (simp add: advance_nxt v(1) [simplified])
  have "text_of (tok v) = c # w" using v(3,4) by (simp add: has_text_def word_text_def)
  moreover have "takeWhile (\<lambda>c. c \<noteq> CHR 0x00) (c # w) = c # w" unfolding takeWhile_eq_all_conv using cc w by auto
  ultimately have "c_string (text_of (tok (putBackChar (ch CHR '' '') (step v)))) = c # w" by (simp add: c_string_def)
  with u v show ?thesis
    by (simp add: makeAlphaToken_def Let_def word_ids_def split: option.splits)
qed

datatype lexeme = Word string | Decimal string "string option" | Quoted string | Oper string

fun print_lexeme :: "lexeme \<Rightarrow> string" where
  "print_lexeme (Word w) = w"
| "print_lexeme (Decimal ds fr) = decimal_text ds fr"
| "print_lexeme (Quoted cs) = CHR 0x22 # quoted cs @ [CHR 0x22]"
| "print_lexeme (Oper oper) = oper"

fun well_formed :: "lexeme \<Rightarrow> bool" where
  "well_formed (Word w) \<longleftrightarrow> w \<noteq> [] \<and> name_start (hd w) \<and> list_all name_part w"
| "well_formed (Decimal ds fr) \<longleftrightarrow> ds \<noteq> [] \<and> list_all digit ds \<and> (hd ds = CHR ''0'' \<longrightarrow> tl ds = [])
     \<and> list_all digit (case fr of None \<Rightarrow> [] | Some fs \<Rightarrow> fs)"
| "well_formed (Quoted cs) \<longleftrightarrow> CHR 0x00 \<notin> set cs"
| "well_formed (Oper oper) \<longleftrightarrow> oper \<in> fst ` set operators"

text \<open>The texts of operators are not always what was read, and nothing is said of them.\<close>

fun is_token_of :: "lexeme \<Rightarrow> token \<Rightarrow> bool" where
  "is_token_of (Word w) t \<longleftrightarrow> (tokenId t, subId t, groupMask t) = word_ids w \<and> take (tlength t) (text_of t) = w"
| "is_token_of (Decimal ds fr) t \<longleftrightarrow>
     tokenId t = T_NUMBER \<and> subId t = -1 \<and> groupMask t = 0 \<and> take (tlength t) (text_of t) = decimal_text ds fr"
| "is_token_of (Quoted cs) t \<longleftrightarrow>
     tokenId t = T_STRING \<and> subId t = -1 \<and> groupMask t = 0 \<and> take (tlength t) (text_of t) = cs"
| "is_token_of (Oper oper) t \<longleftrightarrow> (oper, tokenId t, subId t, groupMask t) \<in> set operators"

definition print_all :: "lexeme list \<Rightarrow> string" where
  "print_all ls = concat (map (\<lambda>l. print_lexeme l @ '' '') ls)"

lemma scan_token_turn:
  "rest s = x # xs \<Longrightarrow> scan_token E s = (case scan_turn E (ch x) (step s) of Token u \<Rightarrow> u | Again u \<Rightarrow> scan_token E u)"
  by (subst scan_token.simps) (simp add: advance_rest(1))

lemma scan_token_blank: "rest s = CHR '' '' # xs \<Longrightarrow> scan_token E s = scan_token E (step s)"
  by (subst scan_token_turn, assumption) (simp add: scan_turn_def white_def char_val_def)

lemma default_char:
  assumes "name_start c \<or> digit c"
  shows "scan_turn E (ch c) s = lex_default (ch c) s"
proof -
  have "ch c \<noteq> -1 \<and> c \<noteq> CHR 0x00 \<and> \<not> white (ch c) \<and> c \<noteq> CHR 0x22 \<and> c \<noteq> CHR 0x27 \<and> c \<noteq> CHR ''/''
    \<and> c \<notin> set op_chars"
    using assms
    by (auto simp: name_start_def digit_def isalpha_def isdigit_def uchar_def white_def op_chars_def char_val_def split: if_splits)
  moreover from this have "map_of single (ch c) = None" "map_of several (ch c) = None"
    by (auto simp: single_def several_def op_chars_def)
  ultimately show ?thesis by (auto simp: scan_turn_def)
qed

lemma prefix_blank: "CHR '' '' \<notin> set p \<Longrightarrow> prefix p (oper @ CHR '' '' # zs) \<longleftrightarrow> prefix p oper"
  by (auto simp: prefix_append prefix_Cons)

lemma munch_blank: "munch (oper @ CHR '' '' # zs) = munch (oper @ '' '')"
proof -
  have "list_all (\<lambda>e. CHR '' '' \<notin> set (fst e)) operators" by code_simp
  then have "\<forall>e \<in> set operators. CHR '' '' \<notin> set (fst e)" by (simp only: list_all_iff)
  then show ?thesis unfolding munch_def by (intro find_cong refl) (meson prefix_blank)
qed

lemma scan_quoted:
  assumes "rest s = CHR 0x22 # quoted cs @ CHR 0x22 # zs" "has_text s" "word_text s = []" "CHR 0x00 \<notin> set cs"
  shows "rest (scan_token E s) = zs \<and> is_token_of (Quoted cs) (tok (scan_token E s))"
proof -
  have "\<not> white (ch CHR 0x22)" "ch CHR 0x22 \<noteq> -1" by (simp_all add: white_def char_val_def)
  then have "scan_token E s = makeQuotedToken (ch CHR 0x22) (step s)" using assms(1) by (simp add: scan_token_turn scan_turn_def)
  moreover have "rest (step s) = quoted cs @ CHR 0x22 # zs" using assms(1) by simp
  ultimately show ?thesis using quoted_loop_all [of "step s" cs zs] assms(2-4)
    by (simp add: makeQuotedToken_def advance_nxt word_text_def finalizeToken_def setTokenID_def set_loc_def)
qed

lemma scan_lexeme:
  assumes "rest s = print_lexeme l @ CHR '' '' # zs" "has_text s" "word_text s = []" "well_formed l" "CHR 0x00 \<notin> set zs"
  shows "rest (scan_token E s) = CHR '' '' # zs \<and> is_token_of l (tok (scan_token E s))"
proof (cases l)
  case (Word w)
  then obtain c cs where w: "w = c # cs" "name_start c" "list_all name_part cs" using assms(4) by (cases w) auto
  have nd: "\<not> isdigit (uchar (ch c))" "c \<noteq> CHR 0x5C" "isalpha (uchar (ch c)) \<or> c = CHR ''_'' \<or> c = CHR ''$''"
    using w(2) by (auto simp: name_start_def isalpha_def isdigit_def uchar_def char_val_def)
  have "lex_default (ch c) (step s) = Token (makeAlphaToken (ch c) (step s))" using nd by (auto simp: lex_default_def)
  moreover have "rest s = c # cs @ CHR '' '' # zs" using assms(1) Word w(1) by simp
  ultimately have "scan_token E s = makeAlphaToken (ch c) (step s)"
    using default_char [of c E "step s"] w(2) by (simp add: scan_token_turn)
  moreover have "rest (step s) = cs @ CHR '' '' # zs" using assms(1) Word w(1) by simp
  ultimately show ?thesis using makeAlphaToken_all [of "step s" cs zs c] assms(2,3) w Word
    by (simp add: Let_def word_text_def)
next
  case (Decimal ds fr)
  then obtain d es where d: "ds = d # es" "digit d" "list_all digit es" "d = CHR ''0'' \<Longrightarrow> es = []"
    "list_all digit (case fr of None \<Rightarrow> [] | Some fs \<Rightarrow> fs)" using assms(4) by (cases ds) auto
  have r: "rest s = d # decimal_text es fr @ CHR '' '' # zs" using assms(1) Decimal d(1) by (simp add: decimal_text_def)
  have "scan_token E s = makeNumberToken (ch d) (step s)"
    using r default_char [of d E "step s"] d(2) by (simp add: scan_token_turn lex_default_def digit_def)
  moreover have "rest (step s) = decimal_text es fr @ CHR '' '' # zs" using r by simp
  ultimately show ?thesis using makeNumberToken_all [of "step s" es fr zs d] d assms(2,3) Decimal
    by (simp add: number_read_def word_text_def decimal_text_def)
next
  case (Quoted cs)
  then show ?thesis using scan_quoted [of s cs "CHR '' '' # zs" E] assms by simp
next
  case (Oper oper)
  have "list_all (\<lambda>e. fst e \<noteq> [] \<and> hd (fst e) \<in> set op_chars \<and> \<not> starts_comment (fst e @ '' '') \<and> \<not> starts_number (fst e @ '' '')
      \<and> munch (fst e @ '' '') = Some e \<and> CHR 0x00 \<notin> set (fst e)) operators" by code_simp
  with Oper assms(4) obtain e where e: "e \<in> set operators" "fst e = oper" "oper \<noteq> []" "hd oper \<in> set op_chars" "\<not> starts_comment (oper @ '' '')"
    "\<not> starts_number (oper @ '' '')" "munch (oper @ '' '') = Some e" "CHR 0x00 \<notin> set oper"
    by (auto simp: list_all_iff)
  from e(3) obtain x xs where x: "oper = x # xs" by (cases oper) auto
  have r: "rest s = x # xs @ CHR '' '' # zs" using assms(1) Oper x by simp
  have c: "\<not> starts_comment (x # xs @ CHR '' '' # zs)"
    using e(5) prefix_blank [of "''//''" oper zs] prefix_blank [of "''//''" oper "[]"]
      prefix_blank [of "''/*''" oper zs] prefix_blank [of "''/*''" oper "[]"] x by (simp add: starts_comment_def)
  have n: "\<not> starts_number (x # xs @ CHR '' '' # zs)" using e(6) x by (cases xs) (simp_all add: starts_number_def)
  have z: "CHR 0x00 \<notin> set (rest (step s))" using r e(8) x assms(5) by simp
  from scan_turn_operator [OF z, of x E] e(4) x r c n obtain u where
    u: "scan_turn E (ch x) (step s) = Token u" "gets u (oper @ CHR '' '' # zs)" by auto
  have "scan_token E s = u" using u(1) by (simp add: scan_token_turn [OF r])
  moreover have "munch (oper @ CHR '' '' # zs) = Some e" using e(7) munch_blank [of oper zs] by simp
  ultimately show ?thesis using u(2) e(1,2) Oper by (cases e) (auto simp: gets_def)
qed

lemma scan_end: "rest s = [] \<Longrightarrow> tokenId (tok (scan_token E s)) = T_EOF"
  by (subst scan_token.simps) (simp add: advance_rest(2) scan_turn_0)

lemma no_nul_print: "list_all well_formed ls \<Longrightarrow> CHR 0x00 \<notin> set (print_all ls)"
proof (induction ls)
  case (Cons l ls)
  have "list_all (\<lambda>e. CHR 0x00 \<notin> set (fst e)) operators" by code_simp
  moreover have "CHR 0x00 \<notin> set w" if "list_all name_part w" for w
    using that name_part_char by (auto simp: list_all_iff)
  moreover have "CHR 0x00 \<notin> set w" if "list_all digit w" for w
    using that digit_not_0 by (auto simp: list_all_iff digit_def)
  ultimately have "CHR 0x00 \<notin> set (print_lexeme l)" using Cons.prems
    by (cases l) (auto simp: decimal_text_def quoted_def list_all_iff split: option.splits if_splits)
  with Cons show ?case by (simp add: print_all_def)
qed (simp add: print_all_def)

lemma tokens_printed:
  assumes "list_all well_formed ls" "putback cp = []" "rest (stream cp) = print_all ls \<or> rest (stream cp) = CHR '' '' # print_all ls"
  shows "\<exists>ts t. fst (tokens E (Suc (length ls)) cp) = ts @ [t] \<and> list_all2 is_token_of ls ts \<and> tokenId t = T_EOF"
  using assms
proof (induction ls arbitrary: cp)
  case Nil
  let ?s = "initializeToken ((stream cp)\<lparr>tok := new_token\<rparr>)"
  have "tokenId (tok (scan_token E ?s)) = T_EOF"
    using Nil.prems(3) scan_end [of ?s E] scan_end [of "step ?s" E] scan_token_blank [of ?s "[]" E] by (auto simp: print_all_def)
  with Nil.prems(2) show ?case by (simp add: ecGetToken_def Let_def)
next
  case (Cons l ls)
  let ?s = "initializeToken ((stream cp)\<lparr>tok := new_token\<rparr>)"
  let ?u = "scan_token E ?s"
  have w: "well_formed l" "list_all well_formed ls" "CHR 0x00 \<notin> set (print_all ls)" using Cons.prems(1) no_nul_print by auto
  have h: "has_text ?s" "word_text ?s = []" by (simp_all add: has_text_def word_text_def initializeToken_def new_token_def)
  have "rest ?u = CHR '' '' # print_all ls \<and> is_token_of l (tok ?u)"
  proof (cases "rest (stream cp) = print_all (l # ls)")
    case True
    then have "rest ?s = print_lexeme l @ CHR '' '' # print_all ls" by (simp add: print_all_def)
    from scan_lexeme [OF this h w(1,3)] show ?thesis .
  next
    case False
    then have "rest ?s = CHR '' '' # print_lexeme l @ CHR '' '' # print_all ls" using Cons.prems(3) by (simp add: print_all_def)
    then have "scan_token E ?s = scan_token E (step ?s)" "rest (step ?s) = print_lexeme l @ CHR '' '' # print_all ls"
      by (simp_all add: scan_token_blank)
    with scan_lexeme [of "step ?s" l "print_all ls" E] h w show ?thesis by simp
  qed
  moreover have "ecGetToken E cp = (tokenId (tok ?u), cp\<lparr>stream := ?u, current := Some (tok ?u)\<rparr>)"
    using Cons.prems(2) by (simp add: ecGetToken_def Let_def)
  ultimately show ?case
    using Cons.IH [of "cp\<lparr>stream := ?u, current := Some (tok ?u)\<rparr>"] w(2) Cons.prems(2) by (auto simp: case_prod_beta)
qed

lemma opened_putback: "putback (ecOpenMemoryStream cs n) = []"
  by (simp add: ecOpenMemoryStream_def)

lemma opened_rest:
  assumes "CHR 0x00 \<notin> set cs"
  shows "rest (stream (ecOpenMemoryStream cs (int (length cs)))) = cs"
proof -
  let ?s = "ecCreateStream\<lparr>buf := cs, nextChar := 0\<rparr>"
  have "c_string cs = cs" using assms by (auto simp: c_string_def takeWhile_eq_all_conv)
  moreover have "c_string [] = []" by (simp add: c_string_def)
  ultimately have "stream (ecOpenMemoryStream cs (int (length cs))) = advance ?s putBackChar"
    by (simp add: ecOpenMemoryStream_def ecSetStreamBuf_def Let_def)
  also have "rest \<dots> = cs" using putBack_nxt [of ?s] assms by (simp add: advance_nxt rest_def)
  finally show ?thesis .
qed

text \<open>
  C3: A text printed from words, decimal numbers, quoted strings and operators with blanks in between is read back: the tokens are
  those of the words (reserved words with their token, others as names), of the numbers and strings with their texts, where
  escaped quotes and backslashes are undone, and of the operators, and after them comes the end of the input.
\<close>

theorem printed_tokens_are_read:
  assumes "list_all well_formed ls"
  shows "\<exists>ts t. fst (tokens E (Suc (length ls)) (ecOpenMemoryStream (print_all ls) (int (length (print_all ls))))) = ts @ [t]
    \<and> list_all2 is_token_of ls ts \<and> tokenId t = T_EOF"
  using tokens_printed [OF assms] opened_rest [OF no_nul_print [OF assms]] opened_putback by blast

theorem printed_tokens_are_read_witness:
  "\<exists>ts t. fst (tokens \<lparr>doc = False, warnLevel = 0\<rparr> (Suc (length [Word ''if'', Oper ''('', Word ''x1'', Oper ''>>='', Decimal ''10'' (Some ''5''), Quoted [CHR 0x22, CHR 0x5C]]))
      (ecOpenMemoryStream (print_all [Word ''if'', Oper ''('', Word ''x1'', Oper ''>>='', Decimal ''10'' (Some ''5''), Quoted [CHR 0x22, CHR 0x5C]])
        (int (length (print_all [Word ''if'', Oper ''('', Word ''x1'', Oper ''>>='', Decimal ''10'' (Some ''5''), Quoted [CHR 0x22, CHR 0x5C]]))))) = ts @ [t]
    \<and> list_all2 is_token_of [Word ''if'', Oper ''('', Word ''x1'', Oper ''>>='', Decimal ''10'' (Some ''5''), Quoted [CHR 0x22, CHR 0x5C]] ts \<and> tokenId t = T_EOF"
proof (rule printed_tokens_are_read)
  show "list_all well_formed [Word ''if'', Oper ''('', Word ''x1'', Oper ''>>='', Decimal ''10'' (Some ''5''), Quoted [CHR 0x22, CHR 0x5C]]"
    by code_simp
qed

section \<open>Looking ahead\<close>

lemma ecGetToken_current: "fst (ecGetToken E (cp\<lparr>current := c\<rparr>)) = fst (ecGetToken E cp)" "snd (ecGetToken E (cp\<lparr>current := c\<rparr>)) = snd (ecGetToken E cp)"
  by (simp_all add: ecGetToken_def Let_def split: list.splits)

lemma tokens_current: "fst (tokens E n (cp\<lparr>current := c\<rparr>)) = fst (tokens E n cp)"
  by (cases n) (simp_all add: case_prod_beta ecGetToken_current)

lemma ecGetToken_some: "\<exists>t. current (snd (ecGetToken E cp)) = Some t"
  by (simp add: ecGetToken_def Let_def split: list.splits)

lemma put_all: "foldr ecPutSpecificToken ts cp = cp\<lparr>putback := ts @ putback cp\<rparr>"
  by (induction ts) (simp_all add: ecPutSpecificToken_def)

lemma read_ahead_put_back:
  "read_ahead E k cp = (ts, cp') \<Longrightarrow> ts = fst (tokens E k cp) \<and> (0 < k \<longrightarrow> current cp' = None)
     \<and> fst (tokens E n (cp'\<lparr>putback := ts @ putback cp'\<rparr>)) = fst (tokens E n cp)"
proof (induction k arbitrary: cp ts cp' n)
  case (Suc k)
  obtain t where t: "current (snd (ecGetToken E cp)) = Some t" using ecGetToken_some by blast
  let ?c = "(snd (ecGetToken E cp))\<lparr>current := None\<rparr>"
  obtain us where r: "read_ahead E k ?c = (us, cp')" "ts = t # us"
    using Suc.prems t by (auto simp: case_prod_beta ecTakeToken_def prod_eq_iff)
  from Suc.IH [OF r(1)] have us: "us = fst (tokens E k (snd (ecGetToken E cp)))" "0 < k \<Longrightarrow> current cp' = None" by (auto simp: tokens_current)
  have c: "current cp' = None" using us(2) r(1) by (cases k) auto
  have "fst (tokens E n (cp'\<lparr>putback := ts @ putback cp'\<rparr>)) = fst (tokens E n cp)"
  proof (cases n)
    case (Suc m)
    have i: "fst (tokens E m (cp'\<lparr>putback := us @ putback cp'\<rparr>)) = fst (tokens E m (snd (ecGetToken E cp)))"
      using conjunct2 [OF conjunct2 [OF Suc.IH [OF r(1), of m]]] unfolding tokens_current .
    have "ecGetToken E (cp'\<lparr>putback := ts @ putback cp'\<rparr>) = (tokenId t, (cp'\<lparr>putback := us @ putback cp'\<rparr>)\<lparr>current := Some t\<rparr>)"
      by (simp add: ecGetToken_def r(2))
    then have "fst (tokens E n (cp'\<lparr>putback := ts @ putback cp'\<rparr>)) = t # fst (tokens E m (cp'\<lparr>putback := us @ putback cp'\<rparr>))"
      by (simp only: Suc) (simp add: case_prod_beta tokens_current)
    also have "\<dots> = fst (tokens E n cp)" unfolding i by (simp add: Suc case_prod_beta t)
    finally show ?thesis .
  qed simp
  with us r(2) t c show ?case by (simp add: case_prod_beta)
qed simp

lemma looking_ahead:
  assumes "0 < k" "k \<le> EC_MAX_LOOK_AHEAD"
  shows "let r = peekAheadTokenStruct E k cp
    in fst r = Ok (last (fst (tokens E k cp))) \<and> current (snd r) = current cp
     \<and> fst (tokens E n (snd r)) = fst (tokens E n cp)"
proof (cases "k = 1 \<and> putback cp \<noteq> []")
  case True
  then show ?thesis by (auto simp: peekAheadTokenStruct_def EC_MAX_LOOK_AHEAD_def Let_def ecGetToken_def neq_Nil_conv)
next
  case False
  obtain ts cp' where r: "read_ahead E k (cp\<lparr>current := None\<rparr>) = (ts, cp')" by fastforce
  note k = read_ahead_put_back [OF r]
  have b: "\<not> (k = 0 \<or> EC_MAX_LOOK_AHEAD < k)" using assms by simp
  have p: "peekAheadTokenStruct E k cp = (Ok (last ts),
      case current cp of None \<Rightarrow> cp'\<lparr>putback := ts @ putback cp'\<rparr>
      | Some t \<Rightarrow> cp'\<lparr>putback := ts @ putback cp', current := Some t\<rparr>)"
    unfolding peekAheadTokenStruct_def if_not_P [OF b] if_not_P [OF False]
    using r by (simp add: ecTakeToken_def put_all ecPutSpecificToken_def ecGetToken_def split: option.splits)
  have l: "ts = fst (tokens E k cp)" and c: "current cp' = None" using k assms(1) by (simp_all add: tokens_current)
  have a: "fst (tokens E n (cp'\<lparr>putback := ts @ putback cp'\<rparr>)) = fst (tokens E n cp)"
    using conjunct2 [OF conjunct2 [OF k [of n]]] unfolding tokens_current .
  have "fst (tokens E n (cp'\<lparr>putback := ts @ putback cp', current := x\<rparr>)) = fst (tokens E n cp)" for x
    by (simp only: tokens_current a)
  with a l [symmetric] c show ?thesis unfolding p Let_def by (simp split: option.splits)
qed

text \<open>
  C28: Looking ahead by any number of tokens up to \<open>EC_MAX_LOOK_AHEAD\<close> gives the token that reading would give there, and changes
  neither the current token nor the tokens that are read afterwards.
\<close>

theorem peeking_changes_no_tokens:
  assumes "0 < k" "k \<le> EC_MAX_LOOK_AHEAD"
  shows "let r = peekAheadTokenStruct E k cp
    in fst r = Ok (last (fst (tokens E k cp))) \<and> current (snd r) = current cp
     \<and> fst (tokens E n (snd r)) = fst (tokens E n cp)"
  by (rule looking_ahead [OF assms])

theorem peeking_changes_no_tokens_witness:
  "let r = peekAheadTokenStruct \<lparr>doc = False, warnLevel = 0\<rparr> 2 (ecOpenMemoryStream ''a += b'' 6)
    in fst r = Ok (last (fst (tokens \<lparr>doc = False, warnLevel = 0\<rparr> 2 (ecOpenMemoryStream ''a += b'' 6))))
     \<and> current (snd r) = current (ecOpenMemoryStream ''a += b'' 6)
     \<and> fst (tokens \<lparr>doc = False, warnLevel = 0\<rparr> 4 (snd r)) = fst (tokens \<lparr>doc = False, warnLevel = 0\<rparr> 4 (ecOpenMemoryStream ''a += b'' 6))"
  by (rule peeking_changes_no_tokens) (simp_all add: EC_MAX_LOOK_AHEAD_def)

section \<open>Texts that are read wrongly\<close>

definition lex_all :: "nat \<Rightarrow> string \<Rightarrow> (int \<times> string) list" where
  "lex_all n cs = map (\<lambda>t. (tokenId t, take (tlength t) (text_of t)))
     (fst (tokens \<lparr>doc = False, warnLevel = 0\<rparr> n (ecOpenMemoryStream cs (int (length cs)))))"

text \<open>The text of an operator is the one by which an overloading function is named: \<open>==\<close>, \<open><<\<close> and \<open>>=\<close> get the texts of others.\<close>

lemma operator_texts: "lex_all 1 ''==(x)'' = [(T_EQ, ''=('')] \<and> lex_all 1 ''<<(x)'' = [(T_LSH, ''<('')] \<and> lex_all 1 ''>=(x)'' = [(T_GE, ''<='')]"
  by code_simp

lemma unterminated_string_is_a_string: "lex_all 2 [CHR 0x22, CHR ''a''] = [(T_STRING, ''a''), (T_EOF, [])]"
  by code_simp

lemma rest_doc_comment [simp]: "rest (doc_comment E s) = rest s"
  by (simp add: rest_def doc_comment_def Let_def)

lemma rest_warn [simp]: "rest (warn E m s) = rest s"
  by (simp add: rest_def warn_def)

text \<open>
  A comment ends silently where the input ends, and at a character beyond ASCII, which is negative: what follows is read as a
  program. A slash takes the star behind it along, so that the end of the comment is missed.
\<close>

lemma comment_loop_stops:
  assumes "rest s = as @ zs" "\<forall>a \<in> set as. 0 < ch a \<and> a \<noteq> CHR ''*'' \<and> a \<noteq> CHR ''/''" "nxt zs \<le> 0"
  shows "rest (snd (comment_loop E (ch CHR ''*'') l s)) = tl zs \<and> fst (comment_loop E (ch CHR ''*'') l s) = 1"
  using assms(1,2)
proof (induction as arbitrary: s)
  case Nil
  with assms(3) show ?case by (subst (1 2) comment_loop.simps) (simp add: advance_nxt rest_step_tl)
next
  case (Cons a as)
  have "comment_loop E (ch CHR ''*'') l s = comment_loop E (ch CHR ''*'') l (addCharToToken (ch a) (step s))"
    using Cons.prems by (subst comment_loop.simps) (simp add: advance_nxt nxt_def comment_char_def)
  with Cons show ?case by simp
qed

lemma comment_is_left:
  assumes "rest s = ''/*'' @ as @ zs" "\<forall>a \<in> set as. 0 < ch a \<and> a \<noteq> CHR ''*'' \<and> a \<noteq> CHR ''/''" "nxt zs \<le> 0"
  shows "\<exists>u. scan_token E s = scan_token E u \<and> rest u = tl zs"
proof -
  have r: "rest (step (step s)) = as @ zs" using assms(1) by simp
  obtain v where v: "comment_loop E (ch CHR ''*'') (lineNumber (loc (step (step s)))) (step (step s)) = (1, v)" "rest v = tl zs"
    using comment_loop_stops [OF r assms(2,3), of E "lineNumber (loc (step (step s)))"] by (auto simp: prod_eq_iff)
  have "0 < ch CHR ''*''" "\<not> white (ch CHR ''/'')" "ch CHR ''/'' \<noteq> -1" by (simp_all add: char_val_def white_def)
  then have "scan_token E s = scan_token E (initializeToken (doc_comment E v))" using assms(1) v(1)
    by (simp add: scan_token_turn scan_turn_def lex_divide_def advance_nxt nxt_def getComment_def)
  moreover have "rest (initializeToken (doc_comment E v)) = tl zs" using v(2) by simp
  ultimately show ?thesis by blast
qed

lemma unterminated_comment_is_the_end:
  "rest s = ''/*'' @ as \<Longrightarrow> \<forall>a \<in> set as. 0 < ch a \<and> a \<noteq> CHR ''*'' \<and> a \<noteq> CHR ''/'' \<Longrightarrow> tokenId (tok (scan_token E s)) = T_EOF"
  using comment_is_left [of s as "[]" E] scan_end by (fastforce simp: nxt_def)

lemma comment_with_non_ascii:
  "rest s = ''/*'' @ as @ c # zs \<Longrightarrow> \<forall>a \<in> set as. 0 < ch a \<and> a \<noteq> CHR ''*'' \<and> a \<noteq> CHR ''/'' \<Longrightarrow> ch c < 0 \<Longrightarrow>
     \<exists>u. scan_token E s = scan_token E u \<and> rest u = zs"
  using comment_is_left [of s as "c # zs" E] by (simp add: nxt_def)

lemma comment_end_after_slash:
  "rest s = ''/*/'' @ zs \<Longrightarrow> \<exists>u. comment_loop E (ch CHR ''*'') l s = comment_loop E (ch CHR ''*'') l u \<and> rest u = CHR ''/'' # zs"
proof -
  assume r: "rest s = ''/*/'' @ zs"
  let ?t = "warn E ''Possible nested comment'' (step (step s))"
  have "0 < ch CHR ''/''" "0 < ch CHR ''*''" by (simp_all add: char_val_def)
  then have "comment_loop E (ch CHR ''*'') l s
      = comment_loop E (ch CHR ''*'') l (addCharToToken (ch CHR ''*'') (addCharToToken (ch CHR ''/'') ?t))"
    using r by (subst comment_loop.simps) (simp add: advance_nxt nxt_def comment_char_def slash_def)
  moreover have "rest (addCharToToken (ch CHR ''*'') (addCharToToken (ch CHR ''/'') ?t)) = CHR ''/'' # zs"
    using r by simp
  ultimately show ?thesis by blast
qed

text \<open>The text after a star is added twice, as the character that is put back is added as well.\<close>

lemma doc_text_repeats:
  "docToken (stream (snd (tokens \<lparr>doc = True, warnLevel = 0\<rparr> 1 (ecOpenMemoryStream ''/**ab*c*/'' 9)))) = Some ''*aab*cc''"
  by code_simp

text \<open>A no-break space is an error, and a name cannot begin with an escape.\<close>

lemma no_break_space: "lex_all 1 [CHR 0xA0] = [(T_ERR, [])]"
  by code_simp

lemma escaped_name: "lex_all 1 ([CHR 0x5C] @ ''u0041'') = [(T_ERR, [])]"
  by code_simp

text \<open>An empty string after a comment keeps the text of the comment, although its length is 0.\<close>

lemma stale_text:
  "map text_of (fst (tokens \<lparr>doc = False, warnLevel = 0\<rparr> 1 (ecOpenMemoryStream (''/*hi*/'' @ [CHR 0x22, CHR 0x22]) 8))) = [''hi'']"
  by code_simp

end
