(* ===== verification/StringText.thy ===== *)
theory StringText
  imports Strings Lexing
begin

text \<open>
  What the methods of strings guarantee: searches find the first or the last occurrence, splitting and joining are inverse, trimming
  takes away all copies, a literal is read back by the lexical analyser, and the operators are an order; then the calls that
  give something else than is documented.
\<close>

section \<open>Searching\<close>

lemma match_at_prefix: "CHR 0x00 \<notin> set pat \<Longrightarrow> match_at (xs @ [CHR 0x00]) pat = Ok (prefix pat xs)"
proof (induction pat arbitrary: xs)
  case (Cons p pat)
  then show ?case by (cases xs) auto
qed simp

lemma drop_memory: "i \<le> length sp \<Longrightarrow> drop i (memory sp) = drop i sp @ [CHR 0x00]"
  by (simp add: memory_def)

abbreviation found_at :: "nat option \<Rightarrow> int" where
  "found_at r \<equiv> (case r of None \<Rightarrow> -1 | Some i \<Rightarrow> int i)"

lemma find_up_find:
  "CHR 0x00 \<notin> set pat \<Longrightarrow> i + k \<le> length sp \<Longrightarrow>
     find_up (memory sp) pat i k = Ok (found_at (find (\<lambda>j. prefix pat (drop j sp)) [i..<i + k]))"
proof (induction k arbitrary: i)
  case (Suc k)
  have "[i..<i + Suc k] = i # [Suc i..<Suc i + k]" by (simp add: upt_rec)
  with Suc.IH [of "Suc i"] Suc.prems show ?case by (simp add: drop_memory match_at_prefix)
qed simp

lemma find_down_find:
  "CHR 0x00 \<notin> set pat \<Longrightarrow> k \<le> length sp \<Longrightarrow>
     find_down (memory sp) pat k = Ok (found_at (find (\<lambda>j. prefix pat (drop j sp)) (rev [0..<k])))"
  by (induction k) (simp_all add: drop_memory match_at_prefix)

lemma find_drop: "a \<le> length sp \<Longrightarrow>
  map_option (\<lambda>i. i + a) (find (\<lambda>j. prefix pat (drop j (drop a sp))) [0..<length sp - a]) = find (\<lambda>j. prefix pat (drop j sp)) [a..<length sp]"
proof -
  assume a: "a \<le> length sp"
  have m: "map_option f (find (P \<circ> f) xs) = find P (map f xs)" for f :: "nat \<Rightarrow> nat" and P xs
    by (induction xs) simp_all
  have "[a..<length sp] = map (\<lambda>i. i + a) [0..<length sp - a]" using a by (simp add: map_add_upt)
  then show ?thesis using m [of "\<lambda>i. i + a" "\<lambda>j. prefix pat (drop j sp)"] by (simp add: comp_def add.commute)
qed

lemma indexOf_start:
  assumes "int a = (case arg of None \<Rightarrow> 0 | Some a \<Rightarrow> max 0 (min a (slen sp)))"
  shows "indexOf sp pat arg = map_res (\<lambda>index. if index < 0 then -1 else index + int a)
    (indexof (drop a (memory sp)) (slen sp - int a) pat 1)"
proof -
  have s: "(case arg of None \<Rightarrow> 0 | Some start \<Rightarrow>
      let start = (if slen sp < start then slen sp else start) in if start < 0 then 0 else start) = int a"
    using assms by (auto simp: Let_def max_def min_def split: option.splits)
  show ?thesis unfolding indexOf_def s by (simp add: Let_def)
qed

text \<open>
  C36: For a pattern without NUL, \<open>indexOf\<close> gives the first place from the start on, \<open>lastIndexOf\<close> the last place and
  \<open>search\<close> the first place at which the string goes on with the pattern, and -1 if there is none; the start is
  brought into the string, and no character behind the string is read.
\<close>

theorem searches_find_occurrences:
  assumes "CHR 0x00 \<notin> set pat"
  shows "indexOf sp pat arg = Ok (found_at (find (\<lambda>i. prefix pat (drop i sp))
      [nat (case arg of None \<Rightarrow> 0 | Some a \<Rightarrow> max 0 (min a (slen sp)))..<length sp]))
    \<and> lastIndexOf sp pat arg = Ok (found_at (find (\<lambda>i. prefix pat (drop i sp)) (rev [0..<length sp])))
    \<and> searchString sp pat = Ok (found_at (find (\<lambda>i. prefix pat (drop i sp)) [0..<length sp]))"
proof -
  let ?a = "case arg of None \<Rightarrow> 0 | Some a \<Rightarrow> max 0 (min a (slen sp))"
  define a where "a = nat ?a"
  have a: "a \<le> length sp" "int a = ?a" by (auto simp: a_def split: option.splits)
  have i: "indexOf sp pat arg = Ok (found_at (find (\<lambda>i. prefix pat (drop i sp)) [nat ?a..<length sp]))"
    unfolding indexOf_start [OF a(2)] a_def [symmetric] find_drop [OF a(1), symmetric]
    using a(1) find_up_find [OF assms, of 0 "length sp - a" "drop a sp"]
    by (simp add: indexof_def memory_def nat_diff_distrib' split: option.splits)
  have l: "lastIndexOf sp pat arg = Ok (found_at (find (\<lambda>i. prefix pat (drop i sp)) (rev [0..<length sp])))"
    using find_down_find [OF assms, of "length sp" sp] by (simp add: lastIndexOf_def indexof_def split: option.splits)
  have "searchString sp pat = Ok (found_at (find (\<lambda>i. prefix pat (drop i sp)) [0..<length sp]))"
    using find_up_find [OF assms, of 0 "length sp" sp] by (simp add: searchString_def indexof_def)
  with i l show ?thesis by blast
qed

theorem searches_find_occurrences_witness:
  "indexOf ''abcabc'' ''bc'' (Some 2) = Ok 4 \<and> lastIndexOf ''abcabc'' ''bc'' (Some 2) = Ok 4 \<and> searchString ''abcabc'' ''bc'' = Ok 1"
  using searches_find_occurrences [of "''bc''" "''abcabc''" "Some 2"] by (simp add: upt_rec)

section \<open>Splitting\<close>

lemma compare_prefix: "CHR 0x00 \<notin> set s2 \<Longrightarrow> compare_by (\<lambda>c. c) (length s2) s1 s2 = 0 \<longleftrightarrow> prefix s2 s1"
proof (induction s2 arbitrary: s1)
  case (Cons b s2)
  then show ?case by (cases s1) (auto simp: first_def Let_def)
qed simp

lemma sncmp_prefix: "CHR 0x00 \<notin> set delim \<Longrightarrow> sncmp s delim (length delim) = 0 \<longleftrightarrow> prefix delim s"
  by (simp add: sncmp_def compare_prefix)

text \<open>Joining, and what is a piece.\<close>

fun join_pieces :: "string \<Rightarrow> string list \<Rightarrow> string" where
  "join_pieces delim [] = []"
| "join_pieces delim [p] = p"
| "join_pieces delim (p # ps) = p @ delim @ join_pieces delim ps"

lemma no_occurrence:
  assumes "\<forall>i. cp \<le> i \<and> i < mark \<longrightarrow> \<not> prefix delim (drop i sp)" "delim \<noteq> []"
  shows "\<not> sublist delim (take (mark - cp) (drop cp sp))"
proof
  assume "sublist delim (take (mark - cp) (drop cp sp))"
  then obtain us vs where s: "take (mark - cp) (drop cp sp) = us @ delim @ vs" by (auto simp: sublist_def)
  then have "length (us @ delim @ vs) \<le> mark - cp" by (metis length_take min.cobounded2)
  then have l: "length us < mark - cp" using assms(2) by (cases delim) auto
  have "drop cp sp = us @ delim @ vs @ drop (mark - cp) (drop cp sp)" using s append_take_drop_id [of "mark - cp" "drop cp sp"] by simp
  then have "drop (cp + length us) sp = delim @ vs @ drop (mark - cp) (drop cp sp)"
    by (metis add.commute append_eq_conv_conj drop_drop)
  with assms(1) l show False by (simp add: prefix_def)
qed

lemma split_loop_pieces:
  assumes "CHR 0x00 \<notin> set delim" "delim \<noteq> []"
  shows "cp \<le> mark \<Longrightarrow> mark \<le> length sp \<Longrightarrow> slen sp - int mark < limit \<Longrightarrow>
    \<forall>i. cp \<le> i \<and> i < mark \<longrightarrow> \<not> prefix delim (drop i sp) \<Longrightarrow>
    split_loop sp delim limit cp mark \<noteq> [] \<and> join_pieces delim (split_loop sp delim limit cp mark) = drop cp sp
    \<and> list_all (\<lambda>p. \<not> sublist delim p) (split_loop sp delim limit cp mark)"
proof (induction "length sp - mark" arbitrary: limit cp mark rule: less_induct)
  case less
  show ?case
  proof (cases "mark < length sp")
    case False
    with less.prems no_occurrence [OF less.prems(4) assms(2)] show ?thesis
      by (subst (1 2 3) split_loop.simps) (simp add: take_drop_split)
  next
    case True
    with less.prems(3) have l: "0 < limit" by simp
    show ?thesis
    proof (cases "prefix delim (drop mark sp)")
      case True
      let ?m = "mark + length delim"
      have m: "?m \<le> length sp" using True \<open>mark < length sp\<close> by (auto dest: prefix_length_le)
      have "length sp - ?m < length sp - mark" using assms(2) \<open>mark < length sp\<close> by (cases delim) auto
      from less.hyps [OF this, of ?m "limit - 1"] m less.prems(3) assms(2)
      have IH: "split_loop sp delim (limit - 1) ?m ?m \<noteq> []" "join_pieces delim (split_loop sp delim (limit - 1) ?m ?m) = drop ?m sp"
        "list_all (\<lambda>p. \<not> sublist delim p) (split_loop sp delim (limit - 1) ?m ?m)" by (auto simp: neq_Nil_conv)
      have "split_loop sp delim limit cp mark = take (mark - cp) (drop cp sp) # split_loop sp delim (limit - 1) ?m ?m"
        using l \<open>mark < length sp\<close> True assms by (subst split_loop.simps) (simp add: sncmp_prefix)
      moreover have "take (mark - cp) (drop cp sp) @ delim @ drop ?m sp = drop cp sp"
      proof -
        obtain zs where "drop mark sp = delim @ zs" using True by (auto simp: prefix_def)
        moreover from this have "drop ?m sp = zs" by (metis add.commute append_eq_conv_conj drop_drop)
        ultimately have "take (mark - cp) (drop cp sp) @ delim @ drop ?m sp = take (mark - cp) (drop cp sp) @ drop (mark - cp) (drop cp sp)"
          using less.prems(1) by simp
        then show ?thesis by (simp only: append_take_drop_id)
      qed
      ultimately show ?thesis using IH no_occurrence [OF less.prems(4) assms(2)]
        by (cases "split_loop sp delim (limit - 1) ?m ?m") simp_all
    next
      case False
      then have "split_loop sp delim limit cp mark = split_loop sp delim (limit - 1) cp (mark + 1)"
        using l \<open>mark < length sp\<close> assms by (subst split_loop.simps) (simp add: sncmp_prefix)
      moreover have "length sp - (mark + 1) < length sp - mark" using \<open>mark < length sp\<close> by simp
      moreover have "\<forall>i. cp \<le> i \<and> i < mark + 1 \<longrightarrow> \<not> prefix delim (drop i sp)" using less.prems(4) False by (auto simp: less_Suc_eq)
      ultimately show ?thesis using less.hyps [of "mark + 1" cp "limit - 1"] less.prems(1,3) \<open>mark < length sp\<close> by simp
    qed
  qed
qed

lemma join_loop_pieces:
  assumes "\<forall>s. S (Some (OString s)) = s"
  shows "join_loop S (Some delim) True (map (\<lambda>p. Some (OString p)) ps) = join_pieces delim ps"
proof -
  have f: "join_loop S (Some delim) False (map (\<lambda>p. Some (OString p)) ps) = (if ps = [] then [] else delim @ join_pieces delim ps)" for ps
  proof (induction delim ps rule: join_pieces.induct)
    case (3 delim p q ps)
    then show ?case using assms by (simp add: ejsIsDefined_def)
  qed (use assms in \<open>simp_all add: ejsIsDefined_def\<close>)
  show ?thesis using f assms by (cases ps rule: list.exhaust, simp, cases "tl ps") (auto simp: ejsIsDefined_def neq_Nil_conv)
qed

text \<open>
  C34: Splitting a string at a delimiter and joining the array of the pieces with it gives the string again, and no piece has
  the delimiter in it, when the delimiter is not empty and has no NUL.
\<close>

theorem split_and_join:
  assumes "delim \<noteq> []" "CHR 0x00 \<notin> set delim" "slen sp < MAXSSIZE" "\<forall>s. S (Some (OString s)) = s"
    "contents ap = Ok (map (\<lambda>p. Some (OString p)) (splitString sp delim None))"
  shows "joinArray S (Some delim) ap = Ok sp \<and> list_all (\<lambda>p. \<not> sublist delim p) (splitString sp delim None)"
proof -
  have "splitString sp delim None = split_loop sp delim MAXSSIZE 0 0" using assms(1) by (simp add: splitString_def)
  with split_loop_pieces [OF assms(2,1), of 0 0 sp MAXSSIZE] assms(3,5) show ?thesis
    by (simp add: joinArray_def join_loop_pieces [OF assms(4)])
qed

definition pieces_array :: jsarray where
  "pieces_array = \<lparr>data = [Some (OString ''a''), Some (OString []), Some (OString ''b'')], len = 3, dynamic = True\<rparr>"

theorem split_and_join_witness:
  "joinArray (\<lambda>v. case v of Some (OString s) \<Rightarrow> s | _ \<Rightarrow> []) (Some '', '') pieces_array = Ok ''a, , b''
     \<and> list_all (\<lambda>p. \<not> sublist '', '' p) (splitString ''a, , b'' '', '' None)"
proof (rule split_and_join)
  have "splitString ''a, , b'' '', '' None = [''a'', [], ''b'']"
    by (simp add: splitString_def split_loop.simps sncmp_def first_def Let_def MAXSSIZE_def char_val_def)
  then show "contents pieces_array = Ok (map (\<lambda>p. Some (OString p)) (splitString ''a, , b'' '', '' None))"
    by (simp add: pieces_array_def contents_def)
qed (simp_all add: MAXSSIZE_def)

section \<open>Trimming\<close>

abbreviation blank :: "char \<Rightarrow> bool" where
  "blank c \<equiv> isspace (uchar (ch c))"

lemma ejsSubstring_inside: "start + n \<le> length sp \<Longrightarrow> ejsSubstring sp (int start) (int n) = take n (drop start sp)"
  by (simp add: ejsSubstring_def Let_def min_def)

lemma trim_blank_end_length:
  "start \<le> n \<Longrightarrow> n \<le> length sp \<Longrightarrow>
     trim_blank_end sp (int start) (int n - 1) + 1 = int start + int (length (dropWhile blank (rev (drop start (take n sp)))))"
proof (induction n)
  case 0
  then show ?case by (subst trim_blank_end.simps) simp
next
  case (Suc n)
  show ?case
  proof (cases "start = Suc n")
    case True
    then show ?thesis by (subst trim_blank_end.simps) simp
  next
    case False
    then have s: "start \<le> n" "n \<le> length sp" using Suc.prems by simp_all
    have t: "drop start (take (Suc n) sp) = drop start (take n sp) @ [sp ! n]"
      using s(1) Suc.prems(2) by (simp add: take_Suc_conv_app_nth)
    have c: "char_at sp (int n) = sp ! n" using Suc.prems(2) by (simp add: char_at_def)
    show ?thesis
    proof (cases "blank (sp ! n)")
      case True
      then have "trim_blank_end sp (int start) (int (Suc n) - 1) = trim_blank_end sp (int start) (int n - 1)"
        using s c by (subst trim_blank_end.simps) simp
      with Suc.IH [OF s] True show ?thesis unfolding t by simp
    next
      case False
      then have "trim_blank_end sp (int start) (int (Suc n) - 1) = int n"
        using s c by (subst trim_blank_end.simps) simp
      with False s Suc.prems(2) show ?thesis unfolding t by simp
    qed
  qed
qed

lemma suffix_drop: "suffix p xs \<longleftrightarrow> length p \<le> length xs \<and> drop (length xs - length p) xs = p"
proof
  assume "length p \<le> length xs \<and> drop (length xs - length p) xs = p"
  then show "suffix p xs" by (metis append_take_drop_id suffixI)
qed (auto simp: suffix_def)

text \<open>A string without the copies of a pattern that it begins with.\<close>

function drop_copies :: "string \<Rightarrow> string \<Rightarrow> string" where
  "drop_copies pat cs = (if pat \<noteq> [] \<and> prefix pat cs then drop_copies pat (drop (length pat) cs) else cs)"
  by pat_completeness auto
termination
  by (relation "measure (\<lambda>(pat, cs). length cs)") (auto simp: neq_Nil_conv prefix_def)

declare drop_copies.simps [simp del]

lemma indexof_first:
  assumes "CHR 0x00 \<notin> set pat" "pat \<noteq> []" "mark + length pat \<le> length sp"
  shows "\<exists>i. indexof (drop mark (memory sp)) (slen pat) pat 1 = Ok i \<and> (i = 0 \<longleftrightarrow> prefix pat (drop mark sp))"
proof -
  have m: "drop mark (memory sp) = memory (drop mark sp)" using assms(3) by (simp add: memory_def)
  have k: "length pat \<le> length (drop mark sp)" using assms(3) by simp
  obtain n where n: "length pat = Suc n" using assms(2) by (cases pat) auto
  have "find (\<lambda>j. prefix pat (drop j (drop mark sp))) [0..<length pat]
      = (if prefix pat (drop mark sp) then Some 0 else find (\<lambda>j. prefix pat (drop j (drop mark sp))) [Suc 0..<length pat])"
    unfolding n by (simp add: upt_rec)
  moreover have "find (\<lambda>j. prefix pat (drop j (drop mark sp))) [Suc 0..<length pat] \<noteq> Some 0"
    by (auto simp: find_Some_iff)
  ultimately show ?thesis using find_up_find [OF assms(1), of 0 "length pat" "drop mark sp"] k
    by (auto simp: m indexof_def split: option.splits)
qed

lemma trim_forward_copies:
  assumes "CHR 0x00 \<notin> set pat" "pat \<noteq> []"
  shows "mark \<le> length sp \<Longrightarrow>
    \<exists>m. trim_forward sp pat mark = Ok m \<and> mark \<le> m \<and> m \<le> length sp \<and> drop m sp = drop_copies pat (drop mark sp)"
proof (induction "length sp - mark" arbitrary: mark rule: less_induct)
  case less
  show ?case
  proof (cases "mark + length pat \<le> length sp")
    case True
    obtain i where i: "indexof (drop mark (memory sp)) (slen pat) pat 1 = Ok i" "i = 0 \<longleftrightarrow> prefix pat (drop mark sp)"
      using indexof_first [OF assms True] by blast
    show ?thesis
    proof (cases "i = 0")
      case True
      with i have "trim_forward sp pat mark = trim_forward sp pat (mark + length pat)"
        using assms(2) \<open>mark + length pat \<le> length sp\<close> by (subst trim_forward.simps) simp
      moreover have "drop_copies pat (drop mark sp) = drop_copies pat (drop (mark + length pat) sp)"
        using True i assms(2) by (subst drop_copies.simps) (simp add: add.commute)
      moreover have "length sp - (mark + length pat) < length sp - mark"
        using assms(2) \<open>mark + length pat \<le> length sp\<close> by (cases pat) auto
      ultimately show ?thesis using less.hyps [of "mark + length pat"] \<open>mark + length pat \<le> length sp\<close> by auto
    next
      case False
      with i assms(2) \<open>mark + length pat \<le> length sp\<close> less.prems show ?thesis
        by (subst trim_forward.simps, subst drop_copies.simps) simp
    qed
  next
    case False
    then have "\<not> prefix pat (drop mark sp)" using less.prems by (auto dest: prefix_length_le)
    with False less.prems show ?thesis by (subst trim_forward.simps, subst drop_copies.simps) simp
  qed
qed

lemma trim_backward_copies:
  assumes "CHR 0x00 \<notin> set pat" "pat \<noteq> []"
  shows "n \<le> length sp \<Longrightarrow>
    \<exists>m. trim_backward sp pat (int n - slen pat) = Ok m \<and> 0 \<le> m + slen pat \<and> m + slen pat \<le> int n
      \<and> rev (take (nat (m + slen pat)) sp) = drop_copies (rev pat) (rev (take n sp))"
proof (induction n rule: less_induct)
  case (less n)
  show ?case
  proof (cases "length pat \<le> n")
    case True
    let ?k = "n - length pat"
    have k: "int n - slen pat = int ?k" using True by simp
    have s: "prefix (rev pat) (rev (take n sp)) \<longleftrightarrow> prefix pat (drop ?k sp)"
    proof -
      have "prefix (rev pat) (rev (take n sp)) \<longleftrightarrow> suffix pat (take n sp)" by (simp add: suffix_to_prefix)
      also have "\<dots> \<longleftrightarrow> drop ?k (take n sp) = pat" using True less.prems by (simp add: suffix_drop)
      also have "\<dots> \<longleftrightarrow> take (length pat) (drop ?k sp) = pat" using True by (simp add: drop_take)
      also have "\<dots> \<longleftrightarrow> prefix pat (drop ?k sp)" by (metis append_eq_conv_conj prefix_def)
      finally show ?thesis .
    qed
    obtain i where i: "indexof (drop ?k (memory sp)) (slen pat) pat 1 = Ok i" "i = 0 \<longleftrightarrow> prefix pat (drop ?k sp)"
      using indexof_first [OF assms, of ?k sp] True less.prems by auto
    have b: "trim_backward sp pat (int ?k) = (if i \<noteq> 0 then Ok (int ?k) else trim_backward sp pat (int ?k - slen pat))"
      by (subst trim_backward.simps) (simp only: nat_int i(1) bind_res.simps assms(2) not_False_eq_True of_nat_0_le_iff simp_thms if_True)
    show ?thesis
    proof (cases "i = 0")
      case m: True
      have "trim_backward sp pat (int n - slen pat) = trim_backward sp pat (int ?k - slen pat)"
        unfolding k b if_not_P [OF not_not [THEN iffD2, OF m]] ..
      moreover have "drop_copies (rev pat) (rev (take n sp)) = drop_copies (rev pat) (rev (take ?k sp))"
        using m i(2) s assms(2) less.prems True by (subst drop_copies.simps) (simp add: drop_rev)
      moreover have "?k < n" "?k \<le> length sp" using True assms(2) less.prems by (cases pat; simp)+
      moreover obtain j where "trim_backward sp pat (int ?k - slen pat) = Ok j" "0 \<le> j + slen pat" "j + slen pat \<le> int ?k"
          "rev (take (nat (j + slen pat)) sp) = drop_copies (rev pat) (rev (take ?k sp))"
        using less.IH [OF calculation(3,4)] by blast
      ultimately show ?thesis by simp
    next
      case False
      have "drop_copies (rev pat) (rev (take n sp)) = rev (take n sp)" using False i(2) s by (subst drop_copies.simps) simp
      moreover have "trim_backward sp pat (int n - slen pat) = Ok (int ?k)" unfolding k b if_P [OF False] ..
      ultimately show ?thesis using True by simp
    qed
  next
    case False
    then have "\<not> prefix (rev pat) (rev (take n sp))" using less.prems by (auto dest: prefix_length_le)
    with False less.prems show ?thesis by (subst trim_backward.simps, subst drop_copies.simps) simp
  qed
qed

text \<open>
  C37: \<open>trim\<close> without an argument takes away the white space at both ends; with a pattern that is not empty and has no NUL,
  \<open>trimStart\<close> takes away all copies of it at the start and \<open>trimEnd\<close> all copies at the end.
\<close>

theorem trimming_drops_copies:
  assumes "pat \<noteq> []" "CHR 0x00 \<notin> set pat"
  shows "trimString sp None = Ok (rev (dropWhile blank (rev (dropWhile blank sp))))
    \<and> trimStartString sp (Some pat) = Ok (drop_copies pat sp)
    \<and> trimEndString sp (Some pat) = Ok (rev (drop_copies (rev pat) (rev sp)))"
proof (intro conjI)
  let ?n = "length (takeWhile blank sp)"
  let ?l = "length (dropWhile blank (rev (drop ?n sp)))"
  have n: "?n \<le> length sp" by (rule length_takeWhile_le)
  have d: "drop ?n sp = dropWhile blank sp" by (simp add: dropWhile_eq_drop)
  have l: "?l \<le> length (drop ?n sp)" using length_dropWhile_le [of blank "rev (drop ?n sp)"] by simp
  have e: "trim_blank_end sp (int ?n) (slen sp - 1) + 1 = int ?n + int ?l" using trim_blank_end_length [OF n, of sp] by simp
  have "rev (dropWhile blank (rev xs)) = take (length (dropWhile blank (rev xs))) xs" for xs
  proof -
    have "xs = rev (dropWhile blank (rev xs)) @ rev (takeWhile blank (rev xs))"
      by (metis rev_append rev_rev_ident takeWhile_dropWhile_id)
    then show ?thesis by (metis append_eq_conv_conj length_rev)
  qed
  then have "rev (dropWhile blank (rev (dropWhile blank sp))) = take ?l (drop ?n sp)" unfolding d .
  then show "trimString sp None = Ok (rev (dropWhile blank (rev (dropWhile blank sp))))"
    using e l n ejsSubstring_inside [of ?n ?l sp] by (simp add: trimString_def trim_def Let_def)
next
  obtain m where m: "trim_forward sp pat 0 = Ok m" "m \<le> length sp" "drop m sp = drop_copies pat sp"
    using trim_forward_copies [OF assms(2,1), of 0 sp] by auto
  have "drop_copies pat sp = sp" if "length sp < length pat"
    using that by (subst drop_copies.simps) (auto dest: prefix_length_le)
  moreover have "ejsSubstring sp (int m) (slen sp - int m) = drop_copies pat sp"
    using ejsSubstring_inside [of m "length sp - m" sp] m(2) unfolding m(3) [symmetric] by (simp add: of_nat_diff)
  ultimately show "trimStartString sp (Some pat) = Ok (drop_copies pat sp)"
    using assms(1) m(1) by (simp add: trimStartString_def trim_def)
next
  obtain m where m: "trim_backward sp pat (slen sp - slen pat) = Ok m" "0 \<le> m + slen pat" "m + slen pat \<le> slen sp"
      "rev (take (nat (m + slen pat)) sp) = drop_copies (rev pat) (rev sp)"
    using trim_backward_copies [OF assms(2,1), of "length sp" sp] by auto
  have "drop_copies (rev pat) (rev sp) = rev sp" if "length sp < length pat"
    using that by (subst drop_copies.simps) (auto dest: prefix_length_le)
  moreover have "ejsSubstring sp 0 (m + slen pat) = rev (drop_copies (rev pat) (rev sp))"
    using ejsSubstring_inside [of 0 "nat (m + slen pat)" sp] m(2,3) unfolding m(4) [symmetric] by simp
  ultimately show "trimEndString sp (Some pat) = Ok (rev (drop_copies (rev pat) (rev sp)))"
    using assms(1) m(1) by (simp add: trimEndString_def trim_def)
qed

theorem trimming_drops_copies_witness:
  "trimString '' a b '' None = Ok ''a b'' \<and> trimStartString ''ababc'' (Some ''ab'') = Ok ''c''
     \<and> trimEndString ''ababc'' (Some ''ab'') = Ok ''ababc''"
  using trimming_drops_copies [of "''ab''" "'' a b ''"] trimming_drops_copies [of "''ab''" "''ababc''"]
  by (simp add: isspace_def uchar_def char_val_def drop_copies.simps)

section \<open>Literals\<close>

lemma literal_quoted: "literal_loop cs = quoted cs"
  by (induction cs) (simp_all add: quoted_def)

lemma quoted_no_nul: "CHR 0x00 \<notin> set cs \<Longrightarrow> CHR 0x00 \<notin> set (quoted cs)"
  by (auto simp: quoted_def split: if_splits)

lemma literal_text: "CHR 0x00 \<notin> set sp \<Longrightarrow> ejsToLiteralString sp = CHR 0x22 # quoted sp @ [CHR 0x22]"
  using quoted_no_nul [of sp] by (auto simp: ejsToLiteralString_def literal_quoted c_string_def takeWhile_eq_all_conv)

text \<open>
  C35: The literal of a string without NUL, with any text behind it, is read by the lexical analyser as one string token whose text
  is the string, and the text behind it is left to be read.
\<close>

theorem literal_is_read_back:
  assumes "CHR 0x00 \<notin> set sp" "CHR 0x00 \<notin> set zs"
  shows "let r = ecGetToken E (ecOpenMemoryStream (ejsToLiteralString sp @ zs) (slen (ejsToLiteralString sp @ zs)))
    in fst r = T_STRING \<and> rest (stream (snd r)) = zs
     \<and> (\<exists>t. current (snd r) = Some t \<and> tokenId t = T_STRING \<and> take (tlength t) (text_of t) = sp)"
proof -
  let ?cs = "ejsToLiteralString sp @ zs"
  let ?cp = "ecOpenMemoryStream ?cs (slen ?cs)"
  let ?s = "initializeToken ((stream ?cp)\<lparr>tok := new_token\<rparr>)"
  have l: "?cs = CHR 0x22 # quoted sp @ CHR 0x22 # zs" using literal_text [OF assms(1)] by simp
  have "CHR 0x00 \<notin> set ?cs" unfolding l using quoted_no_nul [OF assms(1)] assms(2) by simp
  from opened_rest [OF this] have "rest ?s = CHR 0x22 # quoted sp @ CHR 0x22 # zs" unfolding l by simp
  moreover have "has_text ?s" "word_text ?s = []" by (simp_all add: has_text_def word_text_def initializeToken_def new_token_def)
  ultimately have "rest (scan_token E ?s) = zs \<and> is_token_of (Quoted sp) (tok (scan_token E ?s))"
    using assms(1) by (rule scan_quoted)
  then show ?thesis by (simp add: Let_def ecGetToken_def opened_putback)
qed

theorem literal_is_read_back_witness:
  "let r = ecGetToken \<lparr>doc = False, warnLevel = 0\<rparr>
        (ecOpenMemoryStream (ejsToLiteralString [CHR ''a'', CHR 0x22, CHR 0x5C] @ ''; x'') (slen (ejsToLiteralString [CHR ''a'', CHR 0x22, CHR 0x5C] @ ''; x'')))
    in fst r = T_STRING \<and> rest (stream (snd r)) = ''; x''
     \<and> (\<exists>t. current (snd r) = Some t \<and> tokenId t = T_STRING \<and> take (tlength t) (text_of t) = [CHR ''a'', CHR 0x22, CHR 0x5C])"
  by (rule literal_is_read_back) simp_all

section \<open>Slices\<close>

text \<open>The place in a string that an index stands for, where negative ones count from the end.\<close>

definition place :: "string \<Rightarrow> int \<Rightarrow> nat" where
  "place sp i = nat (max 0 (min (slen sp) (if i < 0 then i + slen sp else i)))"

lemma slice_forward_1:
  "i \<le> n \<Longrightarrow> n \<le> length sp \<Longrightarrow> slice_forward sp (int i) (int n) 1 = take (n - i) (drop i sp)"
proof (induction "n - i" arbitrary: i)
  case 0
  then show ?case by (subst slice_forward.simps) simp
next
  case (Suc k)
  then have l: "i < n" "Suc i \<le> n" "k = n - Suc i" by simp_all
  have "slice_forward sp (int i) (int n) 1 = sp ! i # slice_forward sp (int (Suc i)) (int n) 1"
    using l(1) Suc.prems(2) by (subst slice_forward.simps) (simp add: char_at_def add.commute)
  also have "\<dots> = sp ! i # take (n - Suc i) (drop (Suc i) sp)" using Suc.hyps(1) [OF l(3,2) Suc.prems(2)] by simp
  also have "\<dots> = take (n - i) (drop i sp)" using l(1) Suc.prems(2)
    by (metis Cons_nth_drop_Suc Suc_diff_Suc order.strict_trans2 take_Suc_Cons)
  finally show ?case .
qed

lemma slice_forward_none: "lim \<le> i \<Longrightarrow> slice_forward sp i lim stride = []"
  by (subst slice_forward.simps) simp

lemma place_le: "place sp i \<le> length sp"
  by (simp add: place_def)

lemma sliceString_places:
  assumes "\<And>n. n \<le> room n"
  shows "sliceString room sp i (Some j) None = Ok (take (place sp j - place sp i) (drop (place sp i) sp))"
proof -
  let ?s = "if i < 0 then i + slen sp else i"
  let ?e = "if j < 0 then j + slen sp else j"
  let ?e1 = "if ?e < 0 then 0 else ?e"
  have s: "(if ?s < 0 then 0 else if slen sp \<le> ?s then slen sp else ?s) = int (place sp i)"
    and e: "(if slen sp \<le> ?e1 then slen sp else ?e1) = int (place sp j)" by (auto simp: place_def)
  let ?size = "if int (place sp i) < int (place sp j) then int (place sp j) - int (place sp i) else int (place sp i) - int (place sp j)"
  have u: "sliceString room sp i (Some j) None = filled room (?size + 1) (slice_forward sp (int (place sp i)) (int (place sp j)) 1)"
    unfolding sliceString_def Let_def option.case s e by simp
  have f: "slice_forward sp (int (place sp i)) (int (place sp j)) 1 = take (place sp j - place sp i) (drop (place sp i) sp)"
    using slice_forward_1 [OF _ place_le, of "place sp i" sp j] slice_forward_none [of "int (place sp j)" "int (place sp i)" sp 1]
    by (cases "place sp i \<le> place sp j") simp_all
  have "slen (take (place sp j - place sp i) (drop (place sp i) sp)) + 1 \<le> room (?size + 1 + 1)"
    using assms [of "?size + 1 + 1"] by (auto simp: min_def)
  then show ?thesis unfolding u f filled_def by simp
qed

text \<open>
  C38: In a string that is not empty, for any two indices, a slice (without a step) has the characters from the place of its first index up
  to the place of the second, and none if that comes before, \<open>remove\<close> keeps the characters before its start and those from its end on, and
  \<open>substring\<close> has those from the smaller up to the larger of its start and end, where a negative start is 0 and a negative end the end of
  the string. The end is exclusive throughout, as \<open>String.es\<close> documents it for the parameter; the summary of \<open>remove\<close> there says inclusive.
  For \<open>remove\<close> and \<open>substring\<close> a start at or behind the end of the string is moved to its last character, which is a fault of the code.
\<close>

theorem slices_cut_strings:
  assumes "\<And>n. n \<le> room n" "sp \<noteq> []"
  shows "sliceString room sp i (Some j) None = Ok (take (place sp j - place sp i) (drop (place sp i) sp))
    \<and> removeCharsFromString sp i j = Ok (take (min (place sp i) (length sp - 1)) sp @ drop (place sp j) sp)
    \<and> (let start = min (nat i) (length sp - 1); end1 = (if j < 0 then length sp else min (nat j) (length sp))
       in substring sp i (Some j) = take (max start end1 - min start end1) (drop (min start end1) sp))"
proof (intro conjI)
  show "sliceString room sp i (Some j) None = Ok (take (place sp j - place sp i) (drop (place sp i) sp))"
    by (rule sliceString_places [OF assms(1)])
next
  let ?s = "if i < 0 then i + slen sp else i"
  let ?s1 = "if ?s < 0 then 0 else ?s"
  let ?e = "if j < 0 then j + slen sp else j"
  let ?e1 = "if ?e < 0 then 0 else ?e"
  have l: "0 < length sp" "int (length sp - Suc 0) = slen sp - 1" using assms(2) by (simp_all add: of_nat_diff Suc_leI)
  have s: "(if slen sp \<le> ?s1 then slen sp - 1 else ?s1) = int (min (place sp i) (length sp - 1))"
    and e: "(if slen sp < ?e1 then slen sp else ?e1) = int (place sp j)" using l by (auto simp: place_def)
  have "\<not> slen sp - (int (place sp j) - int (min (place sp i) (length sp - 1))) < 0" using place_le [of sp j] by simp
  then show "removeCharsFromString sp i j = Ok (take (min (place sp i) (length sp - 1)) sp @ drop (place sp j) sp)"
    unfolding removeCharsFromString_def Let_def s e by simp
next
  define start where "start = min (nat i) (length sp - 1)"
  define end1 where "end1 = (if j < 0 then length sp else min (nat j) (length sp))"
  have l: "0 < length sp" "int (length sp - Suc 0) = slen sp - 1" using assms(2) by (simp_all add: of_nat_diff Suc_leI)
  have s: "(if slen sp \<le> (if i < 0 then 0 else i) then slen sp - 1 else (if i < 0 then 0 else i)) = int start"
    and e: "(if slen sp < (if j < 0 then slen sp else j) then slen sp else (if j < 0 then slen sp else j)) = int end1"
    using l by (auto simp: start_def end1_def)
  have "max start end1 \<le> length sp" using l by (auto simp: start_def end1_def)
  then have "substring sp i (Some j) = take (max start end1 - min start end1) (drop (min start end1) sp)"
    using ejsSubstring_inside [of "min start end1" "max start end1 - min start end1" sp]
    unfolding substring_def Let_def option.case s e by (auto simp: of_nat_diff max_def min_def not_less)
  then show "let start = min (nat i) (length sp - 1); end1 = (if j < 0 then length sp else min (nat j) (length sp))
      in substring sp i (Some j) = take (max start end1 - min start end1) (drop (min start end1) sp)"
    by (simp add: Let_def start_def end1_def)
qed

theorem slices_cut_strings_witness:
  "sliceString (\<lambda>n. n) ''abcdef'' 1 (Some (-2)) None = Ok ''bcd'' \<and> removeCharsFromString ''abcdef'' 1 (-2) = Ok ''aef''
     \<and> substring ''abcdef'' 4 (Some 1) = ''bcd''"
  using slices_cut_strings [of "\<lambda>n. n" "''abcdef''" 1 "-2"] slices_cut_strings [of "\<lambda>n. n" "''abcdef''" 4 1]
  by (simp add: place_def)

section \<open>The order of strings\<close>

abbreviation bytes :: "string \<Rightarrow> int list" where
  "bytes sp \<equiv> map (\<lambda>c. uchar (ch c)) sp"

lemma uchar_inject: "uchar (ch c) = uchar (ch d) \<longleftrightarrow> c = d"
proof -
  have "uchar (ch x) = of_char x" for x
  proof -
    have "(of_char x :: nat) < 256" by simp
    then have "(of_char x :: int) < 256" "0 \<le> (of_char x :: int)"
      by (metis of_nat_less_numeral_iff of_nat_of_char, metis of_nat_0_le_iff of_nat_of_char)
    then show ?thesis by (auto simp: uchar_def char_val_def Let_def)
  qed
  then show ?thesis by simp
qed

lemma mprMemcmp_simps:
  "mprMemcmp [] [] = 0" "mprMemcmp [] (b # bs) = -1" "mprMemcmp (a # as) [] = 1"
  "mprMemcmp (a # as) (b # bs) = (if a = b then mprMemcmp as bs else uchar (ch a) - uchar (ch b))"
  using uchar_inject [of a b] by (auto simp: mprMemcmp_def Let_def)

lemma mprMemcmp_less: "mprMemcmp lhs rhs < 0 \<longleftrightarrow> (bytes lhs, bytes rhs) \<in> lexord {(x, y). x < y}"
  by (induction lhs rhs rule: list_induct2') (auto simp: mprMemcmp_simps uchar_inject)

lemma mprMemcmp_greater: "0 < mprMemcmp lhs rhs \<longleftrightarrow> (bytes rhs, bytes lhs) \<in> lexord {(x, y). x < y}"
  by (induction lhs rhs rule: list_induct2') (auto simp: mprMemcmp_simps uchar_inject)

lemma mprMemcmp_0: "mprMemcmp lhs rhs = 0 \<longleftrightarrow> lhs = rhs"
  by (induction lhs rhs rule: list_induct2') (auto simp: mprMemcmp_simps uchar_inject)

text \<open>
  C39: The operators order strings as words are ordered in a dictionary, by the bytes of their characters: \<open><\<close> is this order,
  \<open>>\<close> its converse, \<open><=\<close> and \<open>>=\<close> their complements, and both hold together exactly for equal strings.
\<close>

theorem operators_are_lexicographic:
  "(string_compares Less lhs rhs \<longleftrightarrow> (bytes lhs, bytes rhs) \<in> lexord {(x, y). x < y})
   \<and> (string_compares Greater lhs rhs \<longleftrightarrow> string_compares Less rhs lhs)
   \<and> (string_compares LessEqual lhs rhs \<longleftrightarrow> \<not> string_compares Less rhs lhs)
   \<and> (string_compares GreaterEqual lhs rhs \<longleftrightarrow> \<not> string_compares Less lhs rhs)
   \<and> (string_compares LessEqual lhs rhs \<and> string_compares GreaterEqual lhs rhs \<longleftrightarrow> lhs = rhs)"
  using mprMemcmp_less [of lhs rhs] mprMemcmp_less [of rhs lhs] mprMemcmp_greater [of lhs rhs] mprMemcmp_0 [of lhs rhs]
  by (auto simp: string_compares_def)

section \<open>Calls that give something else\<close>

text \<open>The sort of arrays compares signed characters, so that it is another order beyond ASCII.\<close>

lemma sort_order_is_not_less_than:
  "ejsCompareString [CHR 0xE9] ''a'' = -1 \<and> string_compares Greater [CHR 0xE9] ''a''"
  by (simp add: string_compares_def mprMemcmp_def uchar_def char_val_def)

text \<open>The empty string is found in every string but the empty one.\<close>

lemma empty_pattern: "indexOf [] [] None = Ok (-1)" "sp \<noteq> [] \<Longrightarrow> indexOf sp [] None = Ok 0"
proof -
  assume "sp \<noteq> []"
  then obtain n where "nat (slen sp) = Suc n" by (cases sp) (auto simp: nat_add_distrib)
  then show "indexOf sp [] None = Ok 0" by (simp add: indexOf_def indexof_def nat_add_distrib)
qed (simp add: indexOf_def indexof_def)

text \<open>The limit of a split counts characters; -1, which is documented as no limit, gives one empty piece.\<close>

lemma split_limit_counts_characters: "splitString ''ab,cd,e'' '','' (Some 3) = [''ab'', []]"
  by code_simp

lemma split_without_limit_is_empty: "delim \<noteq> [] \<Longrightarrow> splitString sp delim (Some (-1)) = [[]]"
  by (simp add: splitString_def split_loop.simps)

lemma drop_last: "sp \<noteq> [] \<Longrightarrow> drop (length sp - 1) sp = [List.last sp]"
  by (induction sp rule: rev_induct) simp_all

text \<open>A start behind the end is taken as the last character.\<close>

lemma substring_behind_the_end: "sp \<noteq> [] \<Longrightarrow> slen sp \<le> i \<Longrightarrow> substring sp i None = [List.last sp]"
  using drop_last [of sp] by (auto simp: substring_def ejsSubstring_def Let_def min_def of_nat_diff nat_diff_distrib' Suc_leI)

lemma remove_behind_the_end: "removeCharsFromString ''abc'' 5 7 = Ok ''ab''"
  by (simp add: removeCharsFromString_def)

lemma remove_keeps_the_last: "sp \<noteq> [] \<Longrightarrow> removeCharsFromString sp 0 (-1) = Ok [List.last sp]"
  using drop_last [of sp] by (auto simp: removeCharsFromString_def Let_def nat_diff_distrib' Suc_leI)

lemma remove_from_empty: "removeCharsFromString [] i j = Fault"
  by (simp add: removeCharsFromString_def Let_def)

text \<open>A slice downwards from the end has the NUL behind the string.\<close>

lemma slice_down_has_nul: "sliceString (\<lambda>n. n) ''abc'' 3 (Some 0) (Some (-1)) = Ok [CHR 0x00, CHR ''c'', CHR ''b'']"
  by (simp add: sliceString_def filled_def slice_backward.simps char_at_def)

text \<open>Character codes are written behind the room of the string.\<close>

lemma codes_overflow: "room 3 \<le> slen codes_text \<Longrightarrow> length codes_text = length codes \<Longrightarrow> fromCharCode room codes = Fault"
  by (simp add: fromCharCode_def filled_def)

text \<open>A pattern that begins with a NUL is found at every place, and the numbers of properties overflow.\<close>

lemma nul_pattern_is_found: "sp \<noteq> [] \<Longrightarrow> CHR 0x00 \<notin> set sp \<Longrightarrow> searchString sp (CHR 0x00 # pat) = Ok 0"
  by (cases sp) (auto simp: searchString_def indexof_def memory_def nat_add_distrib)

lemma property_numbers: "lookupStringProperty ''abc'' ''4294967297'' = 1" "lookupStringProperty ''abcdefghijk'' ''0:'' = 10"
  by (simp_all add: lookupStringProperty_def ejsAtoi_def first_def isdigit_def uchar_def char_val_def int32_def EJS_ERR_def Let_def)

end
