(* ===== verification/LookAhead.thy ===== *)
theory LookAhead
  imports Lexing
begin

text \<open>
  How the parser tells a directive that begins with an attribute from one that begins with an expression
  (\<open>isAttribute\<close> of \<open>src/src/compiler/ecParser.c\<close>): it looks ahead along a path of names.
\<close>

definition attribute_tokens :: "int list" where
  "attribute_tokens =
    [T_ATTRIBUTE, T_CLASS, T_CONST, T_FUNCTION, T_INTERFACE, T_LET, T_MUL, T_NAMESPACE, T_RESERVED_NAMESPACE, T_TYPE, T_VAR]"

definition path_tokens :: "int list" where
  "path_tokens = [T_COLON_COLON, T_DOT]"

text \<open>The test of the code for what is no name, in which the comparison with \<open>T_MUL\<close> is not negated.\<close>

definition no_property_name :: "token \<Rightarrow> bool" where
  "no_property_name t \<longleftrightarrow>
     tokenId t \<noteq> T_ID \<and> tokenId t \<noteq> T_RESERVED_NAMESPACE \<and> tokenId t = T_MUL \<and> tokenId t \<noteq> T_STRING
     \<and> tokenId t \<noteq> T_NUMBER \<and> tokenId t \<noteq> T_LBRACKET \<and> groupMask t AND G_RESERVED = 0"

function attribute_from :: "lex_env \<Rightarrow> nat \<Rightarrow> (reader, bool) op" where
  "attribute_from E i =
     (if i < EC_MAX_LOOK_AHEAD + 2
      then andthen (peekAheadTokenStruct E i) (\<lambda>t.
        if tokenId t \<in> set attribute_tokens then ret True
        else if tokenId t \<in> set path_tokens
        then andthen (peekAheadTokenStruct E (i + 1)) (\<lambda>u.
          if no_property_name u then ret False else attribute_from E (i + 2))
        else ret False)
      else ret False)"
  by pat_completeness auto
termination
  by (relation "measure (\<lambda>(E, i). EC_MAX_LOOK_AHEAD + 2 - i)") auto

declare attribute_from.simps [simp del]

definition isAttribute :: "lex_env \<Rightarrow> (reader, bool) op" where
  "isAttribute E = attribute_from E 2"

text \<open>What it does with the tokens that are ahead, the first of which is a name.\<close>

fun attribute_ahead :: "token list \<Rightarrow> bool res" where
  "attribute_ahead [] = Fault"
| "attribute_ahead (t # ts) =
     (if tokenId t \<in> set attribute_tokens then Ok True
      else if tokenId t \<in> set path_tokens
      then (case ts of [] \<Rightarrow> Fault | u # ts \<Rightarrow> if no_property_name u then Ok False else attribute_ahead ts)
      else Ok False)"

definition same_ahead :: "lex_env \<Rightarrow> reader \<Rightarrow> reader \<Rightarrow> bool" where
  "same_ahead E cp cp' \<longleftrightarrow> current cp' = current cp \<and> (\<forall>n. fst (tokens E n cp') = fst (tokens E n cp))"

lemma length_tokens [simp]: "length (fst (tokens E n cp)) = n"
proof (induction n arbitrary: cp)
  case (Suc n)
  obtain t where "current (snd (ecGetToken E cp)) = Some t" using ecGetToken_some by blast
  with Suc show ?case by (simp add: case_prod_beta)
qed simp

lemma take_tokens: "k \<le> n \<Longrightarrow> take k (fst (tokens E n cp)) = fst (tokens E k cp)"
proof (induction n arbitrary: k cp)
  case (Suc n)
  obtain t where "current (snd (ecGetToken E cp)) = Some t" using ecGetToken_some by blast
  with Suc show ?case by (cases k) (auto simp: case_prod_beta)
qed simp

lemma tokens_nth: "i < n \<Longrightarrow> fst (tokens E n cp) ! i = last (fst (tokens E (Suc i) cp))"
  using take_tokens [of "Suc i" n E cp] by (metis Suc_leI length_tokens take_Suc_conv_app_nth last_snoc)

lemma peek_ahead:
  assumes "0 < i"
  shows "peekAheadTokenStruct E i cp = (Fault, cp) \<and> EC_MAX_LOOK_AHEAD < i
    \<or> (\<exists>cp'. peekAheadTokenStruct E i cp = (Ok (fst (tokens E EC_MAX_LOOK_AHEAD cp) ! (i - 1)), cp') \<and> same_ahead E cp cp'
         \<and> i \<le> EC_MAX_LOOK_AHEAD)"
proof (cases "i \<le> EC_MAX_LOOK_AHEAD")
  case True
  obtain r cp' where p: "peekAheadTokenStruct E i cp = (r, cp')" by fastforce
  have "Suc (i - 1) = i" using assms by simp
  with tokens_nth [of "i - 1" EC_MAX_LOOK_AHEAD E cp] True assms
  have "fst (tokens E EC_MAX_LOOK_AHEAD cp) ! (i - 1) = last (fst (tokens E i cp))" by simp
  moreover have "r = Ok (last (fst (tokens E i cp))) \<and> current cp' = current cp \<and> fst (tokens E n cp') = fst (tokens E n cp)" for n
    using looking_ahead [OF assms True, of E cp n] p by (simp add: Let_def)
  ultimately show ?thesis using p True by (auto simp: same_ahead_def)
qed (simp add: peekAheadTokenStruct_def)

lemma same_ahead_trans: "same_ahead E cp cp1 \<Longrightarrow> same_ahead E cp1 cp2 \<Longrightarrow> same_ahead E cp cp2"
  by (simp add: same_ahead_def)

lemma drop_ahead:
  assumes "0 < i"
  shows "drop (i - 1) (fst (tokens E EC_MAX_LOOK_AHEAD cp))
    = (if i \<le> EC_MAX_LOOK_AHEAD then fst (tokens E EC_MAX_LOOK_AHEAD cp) ! (i - 1) # drop i (fst (tokens E EC_MAX_LOOK_AHEAD cp)) else [])"
  using assms Cons_nth_drop_Suc [of "i - 1" "fst (tokens E EC_MAX_LOOK_AHEAD cp)"] by simp

lemma attribute_from_ahead:
  assumes "0 < i" "i \<le> EC_MAX_LOOK_AHEAD + 1"
  shows "\<exists>cp'. attribute_from E i cp = (attribute_ahead (drop (i - 1) (fst (tokens E EC_MAX_LOOK_AHEAD cp))), cp')
    \<and> same_ahead E cp cp'"
  using assms
proof (induction E i arbitrary: cp rule: attribute_from.induct)
  case (1 E i)
  let ?ts = "fst (tokens E EC_MAX_LOOK_AHEAD cp)"
  note u = attribute_from.simps [of E i] 
  have lt: "i < EC_MAX_LOOK_AHEAD + 2" using "1.prems"(2) by simp
  have refl: "same_ahead E cp cp" by (simp add: same_ahead_def)
  consider "peekAheadTokenStruct E i cp = (Fault, cp)" "EC_MAX_LOOK_AHEAD < i"
    | cp1 where "peekAheadTokenStruct E i cp = (Ok (?ts ! (i - 1)), cp1)" "same_ahead E cp cp1" "i \<le> EC_MAX_LOOK_AHEAD"
    using peek_ahead [OF "1.prems"(1), of E cp] by blast
  then show ?case
  proof cases
    case 1
    with lt refl drop_ahead [OF "1.prems"(1), of E cp] show ?thesis by (simp add: u andthen_def)
  next
    case (2 cp1)
    note d = drop_ahead [OF "1.prems"(1), of E cp]
    have t1: "fst (tokens E EC_MAX_LOOK_AHEAD cp1) = ?ts" using 2(2) by (simp add: same_ahead_def)
    show ?thesis
    proof (cases "tokenId (?ts ! (i - 1)) \<in> set path_tokens - set attribute_tokens")
      case False
      with 2 lt d show ?thesis by (auto simp: u)
    next
      case path: True
      have "peekAheadTokenStruct E (i + 1) cp1 = (Fault, cp1) \<and> EC_MAX_LOOK_AHEAD < i + 1
        \<or> (\<exists>cp2. peekAheadTokenStruct E (i + 1) cp1 = (Ok (?ts ! i), cp2) \<and> same_ahead E cp1 cp2 \<and> i + 1 \<le> EC_MAX_LOOK_AHEAD)"
        using peek_ahead [of "i + 1" E cp1] t1 by simp
      then consider "peekAheadTokenStruct E (i + 1) cp1 = (Fault, cp1)" "EC_MAX_LOOK_AHEAD < i + 1"
        | cp2 where "peekAheadTokenStruct E (i + 1) cp1 = (Ok (?ts ! i), cp2)" "same_ahead E cp1 cp2" "i + 1 \<le> EC_MAX_LOOK_AHEAD"
        by blast
      then show ?thesis
      proof cases
        case 1
        with 2 path lt d drop_ahead [of "i + 1" E cp] show ?thesis by (auto simp: u andthen_def)
      next
        case c2: (2 cp2)
        have d2: "drop i ?ts = ?ts ! i # drop (i + 1) ?ts" using drop_ahead [of "i + 1" E cp] c2(3) by simp
        show ?thesis
        proof (cases "no_property_name (?ts ! i)")
          case True
          with 2 c2 path lt d d2 same_ahead_trans [OF 2(2) c2(2)] show ?thesis by (auto simp: u)
        next
          case False
          have t2: "fst (tokens E EC_MAX_LOOK_AHEAD cp2) = ?ts" using t1 c2(2) by (simp add: same_ahead_def)
          from path have p: "tokenId (?ts ! (i - 1)) \<notin> set attribute_tokens" "tokenId (?ts ! (i - 1)) \<in> set path_tokens" by auto
          have "\<exists>cp'. attribute_from E (i + 2) cp2 = (attribute_ahead (drop (i + 2 - 1) (fst (tokens E EC_MAX_LOOK_AHEAD cp2))), cp')
              \<and> same_ahead E cp2 cp'"
            by (rule "1.IH" [OF lt p False]) (use c2(3) in simp_all)
          then obtain cp' where r: "attribute_from E (i + 2) cp2 = (attribute_ahead (drop (i + 1) ?ts), cp')" "same_ahead E cp2 cp'"
            using t2 by auto
          have "attribute_from E i cp = attribute_from E (i + 2) cp2"
            using u 2 c2 p lt False by simp
          moreover have "attribute_ahead (drop (i - 1) ?ts) = attribute_ahead (drop (i + 1) ?ts)"
            using d 2(3) d2 p False by simp
          ultimately show ?thesis using r same_ahead_trans [OF same_ahead_trans [OF 2(2) c2(2)] r(2)] by auto
        qed
      qed
    qed
  qed
qed

lemma path_no_attribute: "x \<in> set path_tokens \<Longrightarrow> x \<notin> set attribute_tokens"
  by (auto simp: path_tokens_def attribute_tokens_def token_ids)

lemma attribute_ahead_fault:
  assumes "length ts = 7"
  shows "attribute_ahead ts = Fault \<longleftrightarrow>
     (\<forall>k \<in> {0, 2, 4, 6}. tokenId (ts ! k) \<in> set path_tokens) \<and> (\<forall>k \<in> {1, 3, 5}. \<not> no_property_name (ts ! k))"
proof -
  from assms obtain a b c d e f g where ts: "ts = [a, b, c, d, e, f, g]"
    by (auto simp: numeral_eq_Suc length_Suc_conv)
  show ?thesis unfolding ts by (auto simp: path_no_attribute split: if_splits)
qed

text \<open>
  C40: The parser asks whether a directive begins with an attribute by looking ahead along a path of names, which changes neither the
  current token nor the tokens that are read afterwards. It looks beyond the array of tokens that it may look at, and writes behind
  it, exactly when the tokens in the places two, four, six and eight are dots or double colons, unless one of the tokens between them
  is taken for no name: that is in every statement that begins with a path of five names.
\<close>

theorem attribute_scan_overruns:
  "let ts = fst (tokens E EC_MAX_LOOK_AHEAD cp); r = isAttribute E cp
   in current (snd r) = current cp \<and> fst (tokens E n (snd r)) = fst (tokens E n cp)
    \<and> (fst r = Fault \<longleftrightarrow> (\<forall>k \<in> {1, 3, 5, 7}. tokenId (ts ! k) \<in> set path_tokens)
         \<and> (\<forall>k \<in> {2, 4, 6}. \<not> no_property_name (ts ! k)))"
proof -
  define ts where "ts = fst (tokens E EC_MAX_LOOK_AHEAD cp)"
  from attribute_from_ahead [of 2 E cp] obtain cp' where
    r: "isAttribute E cp = (attribute_ahead (drop 1 ts), cp')" "same_ahead E cp cp'"
    by (auto simp: isAttribute_def EC_MAX_LOOK_AHEAD_def ts_def)
  have n: "length ts = 8" by (simp add: EC_MAX_LOOK_AHEAD_def ts_def)
  then have "drop 1 ts ! k = ts ! Suc k" for k by (simp add: nth_drop)
  with attribute_ahead_fault [of "drop 1 ts"] n r show ?thesis
    unfolding ts_def [symmetric] Let_def by (simp add: same_ahead_def numeral_eq_Suc)
qed

theorem attribute_scan_overruns_witness:
  "fst (isAttribute \<lparr>doc = False, warnLevel = 0\<rparr> (ecOpenMemoryStream ''a.b.c.d.e = 1'' 13)) = Fault"
proof -
  let ?E = "\<lparr>doc = False, warnLevel = 0\<rparr>" and ?cp = "ecOpenMemoryStream ''a.b.c.d.e = 1'' 13"
  define ts where "ts = fst (tokens ?E EC_MAX_LOOK_AHEAD ?cp)"
  have ids: "map tokenId ts = [T_ID, T_DOT, T_ID, T_DOT, T_ID, T_DOT, T_ID, T_DOT]"
    unfolding ts_def by code_simp
  have n: "length ts = 8" by (simp add: ts_def EC_MAX_LOOK_AHEAD_def)
  have i: "tokenId (ts ! k) = map tokenId ts ! k" if "k < 8" for k using that n by simp
  have "(\<forall>k \<in> {1, 3, 5, 7}. tokenId (ts ! k) \<in> set path_tokens) \<and> (\<forall>k \<in> {2, 4, 6}. \<not> no_property_name (ts ! k))"
    by (simp add: i ids no_property_name_def path_tokens_def)
  with attribute_scan_overruns [of ?E ?cp 0] show ?thesis unfolding ts_def Let_def by blast
qed

text \<open>A path of four names, and a name that is no attribute.\<close>

lemma shorter_paths:
  "fst (isAttribute \<lparr>doc = False, warnLevel = 0\<rparr> (ecOpenMemoryStream ''a.b.c.d = 1'' 11)) = Ok False"
  "fst (isAttribute \<lparr>doc = False, warnLevel = 0\<rparr> (ecOpenMemoryStream ''a.b::c var'' 10)) = Ok True"
  by code_simp+

text \<open>What follows a dot is rejected only if it is a star: the comparison is not negated.\<close>

lemma star_is_rejected: "no_property_name t \<longleftrightarrow> tokenId t = T_MUL \<and> groupMask t AND G_RESERVED = 0"
  by (auto simp: no_property_name_def token_ids)

end
