(* ===== verification/Spec2Isabelle.thy ===== *)
theory Spec2Isabelle
  imports ModuleFile Pot ByteStream CacheStore Compiled ArrayMethods ArraySort Interning StringText LookAhead
begin

text \<open>
  Ejscript (\<open>src/src\<close>): a compiler and virtual machine for an ECMAScript dialect.

  \<^bold>\<open>The program.\<close> The compiler (\<open>compiler/\<close>) reads a script, builds a syntax tree (\<open>ecLex.c\<close>,
  \<open>ecParser.c\<close>), binds names to slots (\<open>ecAst.c\<close>) and generates byte code (\<open>ecCodeGen.c\<close>), which is
  written to a module file (\<open>ecModuleWrite.c\<close>) or handed to the virtual machine directly. The
  virtual machine (\<open>vm/\<close>) loads modules (\<open>ejsLoader.c\<close>, \<open>ejsModule.c\<close>) and interprets their code
  (\<open>ejsInterp.c\<close>, \<open>ejsException.c\<close>) on the objects of the core library (\<open>core/src/\<close>), all of which
  are property objects (\<open>ejsPot.c\<close>) or wrap one. The libraries under \<open>deps/\<close> are vendored.

  \<^bold>\<open>The theories\<close>, in the order of their imports. \<open>Prelude\<close> has the results of C functions as values
  (\<open>res\<close> with a fault for reads out of bounds, operations on a state as \<open>op\<close>) and lemmas on lists and words.

  \<^item> \<open>ModuleCode\<close>: the variable-length encoding of numbers and its decoders in the interpreter and the
    loader, the four-byte words that are patched in place, and the constant pool (\<open>ejsModule.c\<close>). It is
    proved that operands, words and pools are read as they were written, for numbers below \<open>2 ^ 32\<close> in
    magnitude: beyond, the decoder of the interpreter loses bits. The interface locale \<open>codec\<close> holds the
    round trip of sequences; both decoders interpret it.
  \<^item> \<open>ModuleFile\<close>: the emitters of the compiler, the module header, dependency and debug sections with
    their loaders, references to types, and the table of modules (\<open>ecModuleWrite.c\<close>, \<open>ejsLoader.c\<close>,
    \<open>ejsModule.c\<close>): round trips of header, names and debug table, the choice among module versions.
  \<^item> \<open>NamedStore\<close>, \<open>Pot\<close>: property objects (\<open>ejsPot.c\<close>, parts of \<open>ejsHelper.c\<close>): slots, names, traits and the hash
    chains through the slots. An object implements the interface \<open>named_store\<close>, a map from names to values
    in insertion order; the hash index agrees with a scan of the slots in every reachable object.
  \<^item> \<open>ByteArray\<close>, \<open>ByteStream\<close>: byte arrays (\<open>ejsByteArray.c\<close>) as a growable queue of bytes with the reading and
    writing of integers, and the effect of observers that the methods call back.
  \<^item> \<open>LocalCache\<close>, \<open>CacheStore\<close>: the cache (\<open>ejsLocalCache.c\<close>) with versions, expiry, limits and pruning, as
    a refinement of a map, and what its lock, limits and versions do not guarantee.
  \<^item> \<open>Arrays\<close>, \<open>ArrayList\<close>, \<open>ArrayMethods\<close>, \<open>ArraySort\<close>: arrays (\<open>ejsArray.c\<close>): a block of slots with a length. The
    methods within their contract are the list operations, by the locale \<open>abstract_object\<close>; the calls
    outside of the contract lose, repeat or overread elements; sorting gives a sorted permutation, or never ends.
  \<^item> \<open>Tokens\<close>, \<open>Lexer\<close>, \<open>Lexing\<close>: the lexical analyser (\<open>ecLex.c\<close>) with the tokens that the parser puts back or looks ahead at:
    it counts lines and comes to the end of its input, operators are the longest that the input has, a text printed from
    words, numbers, strings and operators is read back, and looking ahead changes nothing; then the texts it reads wrongly.
  \<^item> \<open>LookAhead\<close>: how the parser looks ahead for attributes (\<open>isAttribute\<close> of \<open>ecParser.c\<close>), and when it looks too far.
  \<^item> \<open>Interning\<close>: the table in which every string is held once (\<open>ejsString.c\<close>), with its growth and the release of strings:
    strings held are the same object exactly when they have the same characters, and interning ends while no bucket of the
    largest table is overfull; then it calls itself for ever.
  \<^item> \<open>Strings\<close>, \<open>StringText\<close>: the methods of strings and the functions for C that search, cut, compare and print them
    (\<open>ejsString.c\<close>): searching and slicing are described on lists of characters, splitting and joining and printing a
    literal and reading it with the lexical analyser are round trips; then the calls that do not do what they document.
  \<^item> \<open>ByteCode\<close>: the instructions of expressions, local slots, branches and exceptions (\<open>ejsByteCode.h\<close>,
    \<open>ejsByteCodeTable.h\<close>) and the decoding of an instruction.
  \<^item> \<open>CodeGen\<close>: the code generator for function bodies (\<open>ecCodeGen.c\<close>): the routines \<open>gen...\<close> with the code buffers
    that they allocate, fill, copy and patch. A routine is a function of the parser state and the compiler;
    \<open>gen\<close> and \<open>gen_stmt\<close> are \<open>processNode\<close>. \<open>EcState\<close> is copied at the entry of a routine (\<open>ENTER\<close>) and
    restored at its end, so it is an argument and not part of the result.
  \<^item> \<open>Interp\<close>: the loop \<open>VM\<close> of \<open>ejsInterp.c\<close> on these instructions for one activation, with the exception handlers
    and the attention trap of \<open>ejsException.c\<close>. What operators do to values is a parameter, the record
    \<open>values\<close>.
  \<^item> \<open>Semantics\<close>: a big-step semantics of the same statements, the specification of the compiler.
  \<^item> \<open>Assembly\<close>: the code of a statement as a structured definition: lists of bytes and holes in which every jump
    offset is computed from lengths; and the conditions on statements under which this code is right.
  \<^item> \<open>CompileCode\<close>: the code generator writes this structured code (each routine is brought to the normal form
    \<open>add_code\<close>, which appends pieces and changes the counters).
  \<^item> \<open>CompileRun\<close>: the interpreter on structured code follows the semantics, by rule induction, where the conversion to a number
    does nothing. \<open>PlusFree\<close>: neither the interpreter nor a program without unary plus depends on this conversion.
  \<^item> \<open>Compiled\<close>: both joined: a compiled function gives the result of its source; functions without loops
    always return; the stack effects of the instructions; and compiled programs that do not do what their
    source says.

  \<^bold>\<open>Bounds and fuel.\<close> Every recursion is total but for those that stand for loops on data that a broken
  invariant could make infinite, and have a fuel: the walk of a hash chain gets as many steps as there are
  slots, enough because a chain visits a slot at most once; the pruner of the cache makes at most eight
  rounds, because the window it looks at grows to its maximum by then; the interpreter runs for a given
  number of steps, and the theorems state that some number gives the result. The recursion of the sort has a fuel too: as
  many levels as elements are enough. Interning and the rebuilding of its table call each other: ten levels are enough if at
  most five strings share a bucket of the largest table, and without this no fuel is enough. Code is placed below
  \<open>2 ^ 26\<close> bytes, which is what a jump can span in its four-byte operand, and a function has at most \<open>2 ^ 31\<close> slots. Integers
  of the program are words of their width where the code computes with them modulo \<open>2 ^ w\<close>; counters of the
  code generator, which count values on a stack, are \<open>int\<close>.

  \<^bold>\<open>Conditions of the compiler theorem.\<close> \<open>wf_stmt\<close> excludes what the generator gets wrong, which is listed with the
  findings: a \<open>continue\<close> out of a \<open>do\<close> body or a \<open>switch\<close>, a default clause before others, \<open>void\<close> of an
  expression, a literal \<open>-0\<close>, expression lists that discard more than 255 values, conditions that leave extra values on the stack;
  and it excludes \<open>try\<close>, which the generator and the interpreter model but the semantics does not. Unary plus converts to
  a number in the semantics and is ignored by the generator: \<open>plus_free\<close> excludes it where a result is compared with the semantics.

  \<^bold>\<open>Not modelled.\<close> The parser (but for one decision), the name binder and the driver of the compiler, which only supply the
  tree; the input of a console to the lexical analyser. Names that are not local slots, calls, classes, literals of objects and the corresponding
  instructions: they dispatch to the types of the core library. The sections of classes, functions and
  properties of a module file. The garbage collector, which has no effect on the modelled state. The core
  types over the C library, the portable runtime or vendored code (numbers, dates, regular expressions,
  files, sockets, workers, XML). Of strings, patterns that are regular expressions, \<open>format\<close> and \<open>expand\<close>. Commands and
  extension modules. Of \<open>deps/\<close> only the functions of \<open>mprLib.c\<close> are modelled that the lexical analyser and the strings
  rest on: the reading and printing of integers, the comparison and search of text and the hash of strings.
\<close>

end
